(* ===== verification/Swift_Prelude.thy ===== *)
theory Swift_Prelude
  imports Main "HOL-Library.Word"
begin

text \<open>
  Shared ground of the development: the machine integers of the C sources, the
  faults a run can end in, the result type with its bind, the byte-level
  views of integers (the library targets little-endian arm64), block copies on
  byte lists, and the bit arrays that both the allocator's \<open>ptr_status\<close> and the
  receiver's \<open>chunks_received\<close> use.
\<close>

unbundle bit_operations_syntax

named_theorems res_simps \<open>rules of the result type\<close>
named_theorems copy_simps \<open>rules of block copies on byte lists\<close>
named_theorems bits_simps \<open>rules of bit arrays\<close>

section \<open>Machine types and faults\<close>

type_synonym u8 = "8 word"
type_synonym u16 = "16 word"
type_synonym u32 = "32 word"
type_synonym u64 = "64 word"

text \<open>An address. A pointer that may be \<open>NULL\<close> is a \<open>ptr option\<close>.\<close>

type_synonym ptr = nat

text \<open>
  The ways a C run can stop: the code's own \<open>exit(EXIT_FAILURE)\<close>, and the
  undefined behaviours the sources can run into.
\<close>

datatype fault =
    Exit_Failure
  | Null_Deref
  | Out_Of_Bounds
  | Bad_Shift
  | Bad_Free
  | Div_By_Zero
  | Stuck

type_synonym 'a res = "fault + 'a"

definition rbind :: "'a res \<Rightarrow> ('a \<Rightarrow> 'b res) \<Rightarrow> 'b res" where
  "rbind m f = (case m of Inl e \<Rightarrow> Inl e | Inr x \<Rightarrow> f x)"

lemma rbind_Inl [simp]: "rbind (Inl e) f = Inl e"
  and rbind_Inr [simp]: "rbind (Inr x) f = f x"
  by (simp_all add: rbind_def)

lemma rbind_eq_Inr [res_simps]: "rbind m f = Inr y \<longleftrightarrow> (\<exists>x. m = Inr x \<and> f x = Inr y)"
  by (cases m) simp_all

lemma rbind_cong [fundef_cong]:
  "m = m' \<Longrightarrow> (\<And>x. m' = Inr x \<Longrightarrow> f x = f' x) \<Longrightarrow> rbind m f = rbind m' f'"
  by (cases m') simp_all

section \<open>Lists\<close>

text \<open>\<open>memcpy(dst + off, src, n)\<close> as seen by the block that holds \<open>dst\<close>.\<close>

definition put :: "nat \<Rightarrow> 'a list \<Rightarrow> 'a list \<Rightarrow> 'a list" where
  "put off src dst = take off dst @ src @ drop (off + length src) dst"

text \<open>The \<open>n\<close> elements of a block from \<open>off\<close> on.\<close>

definition seg :: "nat \<Rightarrow> nat \<Rightarrow> 'a list \<Rightarrow> 'a list" where
  "seg off n xs = take n (drop off xs)"

lemma length_put [simp]: "off + length src \<le> length dst \<Longrightarrow> length (put off src dst) = length dst"
  by (simp add: put_def)

lemma length_seg [simp]: "off + n \<le> length xs \<Longrightarrow> length (seg off n xs) = n"
  by (simp add: seg_def)

lemma put_Nil [simp]: "put off [] xs = xs"
  by (simp add: put_def)

lemma seg_put_same [copy_simps]:
  "off + length src \<le> length dst \<Longrightarrow> n = length src \<Longrightarrow> seg off n (put off src dst) = src"
  by (simp add: seg_def put_def min_def)

lemma nth_put:
  "off + length src \<le> length dst \<Longrightarrow> i < length dst \<Longrightarrow>
   put off src dst ! i = (if off \<le> i \<and> i < off + length src then src ! (i - off) else dst ! i)"
  by (auto simp: put_def nth_append min_def)

lemma nth_seg: "off + n \<le> length xs \<Longrightarrow> i < n \<Longrightarrow> seg off n xs ! i = xs ! (off + i)"
  by (simp add: seg_def)

lemma seg_put_other [copy_simps]:
  assumes "off + length src \<le> length dst" and "o' + n \<le> length dst"
    and "o' + n \<le> off \<or> off + length src \<le> o'"
  shows "seg o' n (put off src dst) = seg o' n dst"
  using assms by (intro nth_equalityI) (auto simp: nth_seg nth_put)

lemma put_put_restore [copy_simps]:
  assumes "off + length src \<le> length dst"
  shows "put off (seg off (length src) dst) (put off src dst) = dst"
  using assms by (intro nth_equalityI) (auto simp: nth_put nth_seg)

lemma put_put_same:
  assumes "off + length src \<le> length dst" and "length src' = length src"
  shows "put off src' (put off src dst) = put off src' dst"
  using assms by (intro nth_equalityI) (auto simp: nth_put)

lemma seg_append_left: "off + n \<le> length xs \<Longrightarrow> seg off n (xs @ ys) = seg off n xs"
  by (simp add: seg_def)

lemma seg_append_right: "length xs \<le> off \<Longrightarrow> seg off n (xs @ ys) = seg (off - length xs) n ys"
  by (simp add: seg_def)

lemma seg_whole [simp]: "seg 0 (length xs) xs = xs"
  by (simp add: seg_def)

primrec option_list :: "'a option \<Rightarrow> 'a list" where
  "option_list None = []"
| "option_list (Some x) = [x]"

lemma map_list_update_same:
  "k < length xs \<Longrightarrow> f y = f (xs ! k) \<Longrightarrow> map f (xs[k := y]) = map f xs"
  by (simp add: map_update list_update_same_conv)

section \<open>Integers as bytes\<close>

text \<open>The object representation of an integer: \<open>n\<close> bytes, least significant first.\<close>

definition le_bytes :: "nat \<Rightarrow> 'a::len word \<Rightarrow> u8 list" where
  "le_bytes n w = map (\<lambda>i. ucast (drop_bit (8 * i) w)) [0..<n]"

primrec le_word :: "u8 list \<Rightarrow> 'a::len word" where
  "le_word [] = 0"
| "le_word (b # bs) = ucast b OR push_bit 8 (le_word bs)"

lemma length_le_bytes [simp]: "length (le_bytes n w) = n"
  by (simp add: le_bytes_def)

lemma bit_le_word:
  "bit (le_word bs :: 'a::len word) i \<longleftrightarrow>
     i < LENGTH('a) \<and> i div 8 < length bs \<and> bit (bs ! (i div 8)) (i mod 8)"
proof (induction bs arbitrary: i)
  case Nil
  then show ?case by simp
next
  case (Cons b bs)
  show ?case
  proof (cases "i < 8")
    case True
    then show ?thesis
      by (auto simp: bit_or_iff bit_push_bit_iff bit_ucast_iff)
  next
    case False
    then obtain j where j: "i = j + 8" by (metis add.commute le_Suc_ex not_less)
    have "\<not> bit (ucast b :: 'a word) i"
      using False by (auto simp: bit_ucast_iff dest: bit_imp_le_length)
    moreover have "i div 8 = Suc (j div 8)" "i mod 8 = j mod 8" by (simp_all add: j)
    ultimately show ?thesis
      using Cons.IH [of j] by (auto simp: bit_or_iff bit_push_bit_iff j)
  qed
qed

lemma bit_le_bytes:
  "i < n \<Longrightarrow> j < 8 \<Longrightarrow> bit (le_bytes n w ! i) j \<longleftrightarrow> bit w (8 * i + j)"
  by (simp add: le_bytes_def bit_ucast_iff bit_drop_bit_eq)

lemma le_word_le_bytes [simp]:
  fixes w :: "'a::len word"
  assumes "LENGTH('a) \<le> 8 * n"
  shows "le_word (le_bytes n w) = w"
proof (rule bit_word_eqI)
  fix i assume i: "i < LENGTH('a)"
  with assms have "i div 8 < n" by auto
  with i show "bit (le_word (le_bytes n w) :: 'a word) i \<longleftrightarrow> bit w i"
    by (simp add: bit_le_word bit_le_bytes)
qed

lemma le_bytes_le_word [simp]:
  assumes "8 * length bs \<le> LENGTH('a::len)" and "n = length bs"
  shows "le_bytes n (le_word bs :: 'a word) = bs"
proof (rule nth_equalityI)
  fix i assume "i < length (le_bytes n (le_word bs :: 'a word))"
  then have i: "i < length bs" using assms(2) by simp
  show "le_bytes n (le_word bs :: 'a word) ! i = bs ! i"
  proof (rule bit_word_eqI)
    fix j assume "j < LENGTH(8)"
    then have "j < 8" by simp
    moreover have "8 * i + j < LENGTH('a)" using i \<open>j < 8\<close> assms(1) by linarith
    ultimately show "bit (le_bytes n (le_word bs :: 'a word) ! i) j \<longleftrightarrow> bit (bs ! i) j"
      using i assms(2) by (simp add: bit_le_bytes bit_le_word)
  qed
qed (use assms in simp)

text \<open>\<open>htons\<close> and \<open>ntohs\<close> on a little-endian host: the two bytes swapped.\<close>

definition htons :: "u16 \<Rightarrow> u16" where
  "htons w = le_word (rev (le_bytes 2 w))"

lemma htons_htons [simp]: "htons (htons w) = w"
  by (simp add: htons_def)

section \<open>Bit arrays\<close>

text \<open>Bit \<open>i\<close> lives in byte \<open>i / 8\<close>, position \<open>i % 8\<close>.\<close>

definition bits_get :: "u8 list \<Rightarrow> nat \<Rightarrow> bool" where
  "bits_get bs i = bit (bs ! (i div 8)) (i mod 8)"

definition bits_set :: "u8 list \<Rightarrow> nat \<Rightarrow> u8 list" where
  "bits_set bs i = bs[i div 8 := bs ! (i div 8) OR push_bit (i mod 8) 1]"

definition bits_clear :: "u8 list \<Rightarrow> nat \<Rightarrow> u8 list" where
  "bits_clear bs i = bs[i div 8 := bs ! (i div 8) AND NOT (push_bit (i mod 8) 1)]"

lemma length_bits_set [simp]: "length (bits_set bs i) = length bs"
  and length_bits_clear [simp]: "length (bits_clear bs i) = length bs"
  by (simp_all add: bits_set_def bits_clear_def)

lemma bit_mask: "bit (2 ^ k :: 'a::len word) j \<longleftrightarrow> j = k \<and> k < LENGTH('a)"
  by (auto simp: bit_exp_iff)

lemma bits_get_set [bits_simps]:
  assumes "i div 8 < length bs"
  shows "bits_get (bits_set bs i) j \<longleftrightarrow> j = i \<or> bits_get bs j"
proof (cases "j div 8 = i div 8")
  case True
  then have "j = i \<longleftrightarrow> j mod 8 = i mod 8" by (metis mod_div_mult_eq)
  with True assms show ?thesis
    by (auto simp: bits_get_def bits_set_def bit_or_iff bit_mask)
qed (use assms in \<open>auto simp: bits_get_def bits_set_def\<close>)

lemma bits_get_clear [bits_simps]:
  assumes "i div 8 < length bs"
  shows "bits_get (bits_clear bs i) j \<longleftrightarrow> j \<noteq> i \<and> bits_get bs j"
proof (cases "j div 8 = i div 8")
  case True
  then have "j = i \<longleftrightarrow> j mod 8 = i mod 8" by (metis mod_div_mult_eq)
  with True assms show ?thesis
    by (auto simp: bits_get_def bits_clear_def bit_and_iff bit_not_iff bit_mask)
qed (use assms in \<open>auto simp: bits_get_def bits_clear_def\<close>)

lemma bits_get_zero [simp]: "i div 8 < n \<Longrightarrow> \<not> bits_get (replicate n 0) i"
  by (simp add: bits_get_def)

end
