(* ===== verification/Swift_Heap.thy ===== *)
theory Swift_Heap
  imports Swift_Prelude
begin

text \<open>
  The C heap as the sources use it: \<open>malloc\<close>, \<open>calloc\<close> and \<open>free\<close>. Blocks are handed
  out at increasing addresses below a limit; \<open>malloc\<close> returns \<open>NULL\<close> when the limit is
  reached, and freeing an address that is not a live block is a fault.
\<close>

record heap =
  brk :: nat
  heap_limit :: nat
  blocks :: "ptr \<Rightarrow> nat option"

definition malloc :: "nat \<Rightarrow> heap \<Rightarrow> ptr option \<times> heap" where
  "malloc n h =
     (if brk h + max 1 n \<le> heap_limit h
      then (Some (brk h), h\<lparr>brk := brk h + max 1 n, blocks := (blocks h)(brk h \<mapsto> n)\<rparr>)
      else (None, h))"

definition c_free :: "ptr option \<Rightarrow> heap \<Rightarrow> heap res" where
  "c_free q h =
     (case q of
        None \<Rightarrow> Inr h
      | Some p \<Rightarrow> (if blocks h p = None then Inl Bad_Free
                   else Inr (h\<lparr>blocks := (blocks h)(p := None)\<rparr>)))"

text \<open>Every live block lies below the break, and the break is not \<open>NULL\<close>.\<close>

definition heap_ok :: "heap \<Rightarrow> bool" where
  "heap_ok h \<longleftrightarrow> 0 < brk h \<and> (\<forall>p n. blocks h p = Some n \<longrightarrow> p + max 1 n \<le> brk h)"

definition heap_room :: "nat \<Rightarrow> heap \<Rightarrow> bool" where
  "heap_room n h \<longleftrightarrow> brk h + n \<le> heap_limit h"

lemma malloc_SomeD:
  assumes "malloc n h = (Some p, h')"
  shows "p = brk h" and "brk h' = brk h + max 1 n" and "blocks h' = (blocks h)(p \<mapsto> n)"
    and "heap_limit h' = heap_limit h"
  using assms by (auto simp: malloc_def split: if_splits)

lemma malloc_None: "malloc n h = (None, h') \<Longrightarrow> h' = h"
  by (auto simp: malloc_def split: if_splits)

lemma malloc_room: "heap_room k h \<Longrightarrow> max 1 n \<le> k \<Longrightarrow> \<exists>h'. malloc n h = (Some (brk h), h') \<and> heap_room (k - max 1 n) h'"
  by (auto simp: malloc_def heap_room_def)

lemma malloc_heap_ok: "heap_ok h \<Longrightarrow> malloc n h = (r, h') \<Longrightarrow> heap_ok h'"
  by (force simp: malloc_def heap_ok_def split: if_splits)

text \<open>A new block is disjoint from every block that is live.\<close>

lemma malloc_fresh:
  assumes "heap_ok h" and "malloc n h = (Some p, h')" and "blocks h q = Some m"
  shows "q + max 1 m \<le> p" and "p \<noteq> q"
proof -
  show "q + max 1 m \<le> p"
    using assms by (auto simp: heap_ok_def malloc_def split: if_splits)
  then show "p \<noteq> q" by auto
qed

lemma c_free_heap_ok: "heap_ok h \<Longrightarrow> c_free q h = Inr h' \<Longrightarrow> heap_ok h'"
  by (auto simp: c_free_def heap_ok_def split: option.splits if_splits)

lemma c_free_brk: "c_free q h = Inr h' \<Longrightarrow> brk h' = brk h"
  by (auto simp: c_free_def split: option.splits if_splits)

lemma c_free_live: "blocks h p = Some n \<Longrightarrow> c_free (Some p) h = Inr (h\<lparr>blocks := (blocks h)(p := None)\<rparr>)"
  by (simp add: c_free_def)

lemma c_free_twice: "c_free (Some p) h = Inr h' \<Longrightarrow> c_free (Some p) h' = Inl Bad_Free"
  by (auto simp: c_free_def split: if_splits)

definition heap_grows :: "heap \<Rightarrow> heap \<Rightarrow> bool" where
  "heap_grows h h' \<longleftrightarrow> brk h \<le> brk h' \<and> heap_limit h' = heap_limit h \<and> blocks h \<subseteq>\<^sub>m blocks h'"

lemma heap_grows_refl [simp]: "heap_grows h h"
  by (simp add: heap_grows_def)

lemma heap_grows_trans: "heap_grows h1 h2 \<Longrightarrow> heap_grows h2 h3 \<Longrightarrow> heap_grows h1 h3"
  by (auto simp: heap_grows_def intro: map_le_trans)

lemma malloc_grows:
  assumes "heap_ok h" and "malloc n h = (r, h')"
  shows "heap_grows h h'"
  using assms by (force simp: malloc_def heap_grows_def heap_ok_def map_le_def split: if_splits)

end
