(* ===== verification/Swift_Vector.thy ===== *)
theory Swift_Vector
  imports Swift_Heap
begin

text \<open>
  The growable array of \<open>src/internal/datatype_vector.c\<close>. The cells are the block that
  \<open>malloc\<close> or \<open>realloc\<close> returned; a cell nobody wrote yet is \<open>None\<close>. The abstract value
  is the list of the first \<open>size\<close> cells.
\<close>

section \<open>State and operations\<close>

record 'a vector =
  vec_at :: ptr
  vec_data :: "'a option list"
  vec_size :: u32
  vec_capacity :: u32

text \<open>\<open>realloc\<close> of a block of cells: a new block with the old contents, cut or padded.\<close>

definition realloc_cells :: "ptr \<Rightarrow> 'a option list \<Rightarrow> nat \<Rightarrow> nat \<Rightarrow> heap \<Rightarrow> ((ptr \<times> 'a option list) option \<times> heap) res" where
  "realloc_cells p cells n cell_size h =
     (case malloc (cell_size * n) h of
        (None, h1) \<Rightarrow> Inr (None, h1)
      | (Some q, h1) \<Rightarrow>
          rbind (c_free (Some p) h1)
            (\<lambda>h2. Inr (Some (q, take n cells @ replicate (n - length cells) None), h2)))"

definition vector_create :: "u32 \<Rightarrow> heap \<Rightarrow> ('a vector \<times> heap) res" where
  "vector_create starting_amount h =
     (case malloc (8 * unat starting_amount) h of
        (None, h1) \<Rightarrow> Inl Exit_Failure
      | (Some p, h1) \<Rightarrow>
          Inr (\<lparr>vec_at = p, vec_data = replicate (unat starting_amount) None, vec_size = 0,
                vec_capacity = starting_amount\<rparr>, h1))"

definition vector_destroy :: "'a vector \<Rightarrow> heap \<Rightarrow> heap res" where
  "vector_destroy v h = c_free (Some (vec_at v)) h"

definition vector_grow :: "'a vector \<Rightarrow> heap \<Rightarrow> ('a vector \<times> heap) res" where
  "vector_grow v h =
     (let new_capacity = vec_capacity v * 2
      in rbind (realloc_cells (vec_at v) (vec_data v) (unat new_capacity) 8 h)
           (\<lambda>(r, h1). case r of
                None \<Rightarrow> Inl Exit_Failure
              | Some (q, cells) \<Rightarrow> Inr (v\<lparr>vec_capacity := new_capacity, vec_at := q, vec_data := cells\<rparr>, h1)))"

definition vector_push :: "'a \<Rightarrow> 'a vector \<Rightarrow> heap \<Rightarrow> ('a vector \<times> heap) res" where
  "vector_push x v h =
     rbind (if vec_size v = vec_capacity v then vector_grow v h else Inr (v, h))
       (\<lambda>(v1, h1). if length (vec_data v1) \<le> unat (vec_size v) then Inl Out_Of_Bounds
                   else Inr (v1\<lparr>vec_data := (vec_data v1)[unat (vec_size v) := Some x], vec_size := vec_size v1 + 1\<rparr>, h1))"

text \<open>Removal moves the last element into the hole; the order is not kept.\<close>

definition vector_remove :: "u32 \<Rightarrow> 'a vector \<Rightarrow> 'a vector res" where
  "vector_remove index v =
     (if index < vec_size v - 1
      then let last_index = unat (vec_size v - 1)
           in if length (vec_data v) \<le> last_index then Inl Out_Of_Bounds
              else Inr (v\<lparr>vec_data := (vec_data v)[unat index := vec_data v ! last_index], vec_size := vec_size v - 1\<rparr>)
      else Inr (v\<lparr>vec_size := vec_size v - 1\<rparr>))"

definition vector_get :: "u32 \<Rightarrow> 'a vector \<Rightarrow> 'a option res" where
  "vector_get index v =
     (if length (vec_data v) \<le> unat index then Inl Out_Of_Bounds else Inr (vec_data v ! unat index))"

section \<open>Abstraction\<close>

definition vec_ok :: "'a vector \<Rightarrow> heap \<Rightarrow> bool" where
  "vec_ok v h \<longleftrightarrow> length (vec_data v) = unat (vec_capacity v) \<and> vec_size v \<le> vec_capacity v \<and> 0 < vec_capacity v \<and>
     list_all (\<lambda>c. c \<noteq> None) (take (unat (vec_size v)) (vec_data v)) \<and> heap_ok h \<and> blocks h (vec_at v) \<noteq> None"

definition vec_abs :: "'a vector \<Rightarrow> 'a list" where
  "vec_abs v = map the (take (unat (vec_size v)) (vec_data v))"

definition swap_remove :: "nat \<Rightarrow> 'a list \<Rightarrow> 'a list" where
  "swap_remove i xs = butlast (xs[i := last xs])"

text \<open>Room for one more element: a free cell, or a heap that can double the block.\<close>

definition vec_room :: "'a vector \<Rightarrow> heap \<Rightarrow> bool" where
  "vec_room v h \<longleftrightarrow> vec_size v < vec_capacity v \<or>
     2 * unat (vec_capacity v) < 2 ^ 32 \<and> heap_room (16 * unat (vec_capacity v)) h"

lemma length_vec_abs: "vec_ok v h \<Longrightarrow> length (vec_abs v) = unat (vec_size v)"
  by (simp add: vec_abs_def vec_ok_def word_le_nat_alt)

lemma vec_get_abs:
  assumes "vec_ok v h" and "unat i < unat (vec_size v)"
  shows "vector_get i v = Inr (Some (vec_abs v ! unat i))"
proof -
  have "vec_data v ! unat i \<noteq> None"
    using assms by (auto simp: vec_ok_def list_all_length word_le_nat_alt)
  with assms show ?thesis by (simp add: vector_get_def vec_abs_def vec_ok_def word_le_nat_alt)
qed

lemma vector_grow_ok:
  assumes "vec_ok v h" and "vec_size v = vec_capacity v" and "vec_room v h"
  shows "\<exists>v' h'. vector_grow v h = Inr (v', h') \<and> vec_ok v' h' \<and> vec_abs v' = vec_abs v \<and>
     vec_size v' = vec_size v \<and> vec_size v' < vec_capacity v'"
proof -
  let ?c = "unat (vec_capacity v)"
  have c: "unat (vec_capacity v * 2) = 2 * ?c" "0 < ?c" and room: "heap_room (16 * ?c) h"
    using assms by (auto simp: vec_room_def vec_ok_def unat_word_ariths word_less_nat_alt)
  have "max 1 (8 * (2 * ?c)) \<le> 16 * ?c" using c by simp
  from malloc_room [OF room this] obtain h1 where h1: "malloc (8 * (2 * ?c)) h = (Some (brk h), h1)" by blast
  have ne: "brk h \<noteq> vec_at v" using assms(1) malloc_fresh(2) [OF _ h1] by (fastforce simp: vec_ok_def)
  have "blocks h1 (vec_at v) \<noteq> None" "blocks h1 (brk h) \<noteq> None"
    using assms(1) malloc_SomeD(3) [OF h1] by (simp_all add: vec_ok_def)
  with ne obtain h2 where h2: "c_free (Some (vec_at v)) h1 = Inr h2" "blocks h2 (brk h) \<noteq> None"
    by (auto simp: c_free_def)
  have hok: "heap_ok h2" using assms(1) malloc_heap_ok [OF _ h1] c_free_heap_ok [OF _ h2(1)] by (simp add: vec_ok_def)
  let ?v = "v\<lparr>vec_capacity := vec_capacity v * 2, vec_at := brk h, vec_data := vec_data v @ replicate ?c None\<rparr>"
  have len: "length (vec_data v) = ?c" using assms(1) by (simp add: vec_ok_def)
  have "vector_grow v h = Inr (?v, h2)"
    using h1 h2(1) c len by (simp add: vector_grow_def Let_def realloc_cells_def)
  moreover have "vec_ok ?v h2"
    using assms(1,2) c len hok h2(2) by (simp add: vec_ok_def word_le_nat_alt word_less_nat_alt)
  moreover have "vec_abs ?v = vec_abs v" using len assms(2) by (simp add: vec_abs_def)
  ultimately show ?thesis using c assms(2) by (intro exI [of _ ?v] exI [of _ h2]) (simp add: word_less_nat_alt)
qed

lemma vector_push_ok:
  assumes "vec_ok v h" and "vec_room v h"
  shows "\<exists>v' h'. vector_push x v h = Inr (v', h') \<and> vec_ok v' h' \<and> vec_abs v' = vec_abs v @ [x]"
proof -
  obtain v1 h1 where 1: "(if vec_size v = vec_capacity v then vector_grow v h else Inr (v, h)) = Inr (v1, h1)"
    "vec_ok v1 h1" "vec_abs v1 = vec_abs v" "vec_size v1 = vec_size v" "vec_size v1 < vec_capacity v1"
  proof (cases "vec_size v = vec_capacity v")
    case True
    with vector_grow_ok [OF assms(1) True assms(2)] that show thesis by auto
  next
    case False
    then have "vec_size v < vec_capacity v" using assms(1) by (simp add: vec_ok_def order.strict_iff_order)
    with False assms(1) that show thesis by auto
  qed
  let ?n = "unat (vec_size v1)"
  have n: "?n < length (vec_data v1)" "unat (vec_size v1 + 1) = Suc ?n"
    using 1(2,5) unsigned_less [of "vec_capacity v1", where ?'a = nat]
    by (auto simp: vec_ok_def word_less_nat_alt unat_word_ariths)
  let ?v = "v1\<lparr>vec_data := (vec_data v1)[?n := Some x], vec_size := vec_size v1 + 1\<rparr>"
  have "vector_push x v h = Inr (?v, h1)"
    using 1(1,4) n(1) by (simp add: vector_push_def)
  moreover have "vec_ok ?v h1"
    using 1(2,5) n by (auto simp: vec_ok_def word_le_nat_alt word_less_nat_alt take_Suc_conv_app_nth)
  moreover have "vec_abs ?v = vec_abs v @ [x]"
    using n 1(3) by (simp add: vec_abs_def take_Suc_conv_app_nth)
  ultimately show ?thesis by blast
qed

lemma vector_remove_ok:
  assumes "vec_ok v h" and "unat i < unat (vec_size v)"
  shows "\<exists>v'. vector_remove i v = Inr v' \<and> vec_ok v' h \<and> vec_abs v' = swap_remove (unat i) (vec_abs v)"
proof -
  let ?n = "unat (vec_size v)" let ?d = "vec_data v"
  have "vec_size v \<noteq> 0" using assms(2) by auto
  then have m: "unat (vec_size v - 1) = ?n - 1" by (simp add: unat_minus_one)
  have len: "?n \<le> length ?d" "length ?d = unat (vec_capacity v)" using assms(1) by (auto simp: vec_ok_def word_le_nat_alt)
  have all: "\<forall>j < ?n. ?d ! j \<noteq> None" using assms(1) len(1) by (auto simp: vec_ok_def list_all_length)
  have l: "last (map the (take ?n ?d)) = the (?d ! (?n - 1))"
    using assms(2) len(1) by (subst last_conv_nth) auto
  have abs: "swap_remove (unat i) (vec_abs v) = map the (take (?n - 1) (?d[unat i := ?d ! (?n - 1)]))"
    using assms(2) len(1)
    by (intro nth_equalityI) (auto simp: swap_remove_def vec_abs_def nth_butlast nth_list_update l)
  show ?thesis
  proof (cases "i < vec_size v - 1")
    case True
    then have i: "unat i < ?n - 1" using m by (simp add: word_less_nat_alt)
    let ?v = "v\<lparr>vec_data := ?d[unat i := ?d ! (?n - 1)], vec_size := vec_size v - 1\<rparr>"
    have "vector_remove i v = Inr ?v" using True m assms(2) len by (simp add: vector_remove_def Let_def)
    moreover have "vec_ok ?v h"
      using assms len all m i by (auto simp: vec_ok_def word_le_nat_alt list_all_length nth_list_update)
    ultimately show ?thesis using abs m by (auto simp: vec_abs_def)
  next
    case False
    then have i: "unat i = ?n - 1" using m assms(2) by (simp add: word_less_nat_alt)
    let ?v = "v\<lparr>vec_size := vec_size v - 1\<rparr>"
    have "vector_remove i v = Inr ?v" using False by (simp add: vector_remove_def)
    moreover have "vec_ok ?v h" using assms len all m by (auto simp: vec_ok_def word_le_nat_alt list_all_length)
    moreover have "?d[unat i := ?d ! (?n - 1)] = ?d" using i by simp
    ultimately show ?thesis using abs m by (auto simp: vec_abs_def)
  qed
qed

section \<open>Properties\<close>

text \<open>
  C36. The vector is a list: a push appends (growing the block when it is full), a removal
  by index drops that element and moves the last one into its place, and a read by index
  returns the element, for every vector and heap in a consistent state.
\<close>

theorem vector_refines_list:
  assumes "vec_ok v h" and "vec_room v h" and "i < length (vec_abs v)"
  shows "\<exists>v1 h1 v2. vector_push x v h = Inr (v1, h1) \<and> vec_ok v1 h1 \<and> vec_abs v1 = vec_abs v @ [x] \<and>
    vector_remove (of_nat i) v = Inr v2 \<and> vec_ok v2 h \<and> vec_abs v2 = swap_remove i (vec_abs v) \<and>
    vector_get (of_nat i) v = Inr (Some (vec_abs v ! i))"
proof -
  have i: "unat (of_nat i :: u32) = i" "i < unat (vec_size v)"
    using assms(3) length_vec_abs [OF assms(1)] unsigned_less [of "vec_size v", where ?'a = nat]
    by (auto simp: unat_of_nat)
  from vector_push_ok [OF assms(1,2), of x] vector_remove_ok [OF assms(1), of "of_nat i"] vec_get_abs [OF assms(1), of "of_nat i"] i
  show ?thesis by metis
qed

theorem vector_refines_list_witness:
  "\<exists>v1 h1. vector_push (7 :: nat)
      \<lparr>vec_at = 16, vec_data = [Some 5, Some 6], vec_size = 2, vec_capacity = 2\<rparr>
      \<lparr>brk = 32, heap_limit = 1000, blocks = [16 \<mapsto> 16]\<rparr> = Inr (v1, h1) \<and> vec_abs v1 = [5, 6, 7]"
proof -
  let ?v = "\<lparr>vec_at = 16, vec_data = [Some 5, Some 6], vec_size = 2, vec_capacity = 2\<rparr> :: nat vector"
  let ?h = "\<lparr>brk = 32, heap_limit = 1000, blocks = [16 \<mapsto> 16]\<rparr>"
  have "vec_ok ?v ?h" "vec_room ?v ?h" "vec_abs ?v = [5, 6]"
    by (auto simp: vec_ok_def vec_room_def heap_ok_def heap_room_def vec_abs_def)
  with vector_refines_list [of ?v ?h 0 7] show ?thesis by auto
qed

text \<open>
  A vector created with capacity 0 cannot take an element: doubling zero stays zero,
  and the store goes past the block.
\<close>

theorem vector_zero_capacity:
  assumes "heap_ok h" and "heap_room 2 h"
  shows "\<exists>v h1. vector_create 0 h = Inr (v, h1) \<and> vector_push x v h1 = Inl Out_Of_Bounds"
  using assms
  by (auto simp: vector_create_def vector_push_def vector_grow_def realloc_cells_def Let_def malloc_def
      c_free_def heap_ok_def heap_room_def)

theorem vector_zero_capacity_witness:
  "\<exists>(v :: nat vector) h1. vector_create 0 \<lparr>brk = 16, heap_limit = 1000, blocks = Map.empty\<rparr> = Inr (v, h1) \<and>
     vector_push 7 v h1 = Inl Out_Of_Bounds"
  by (rule vector_zero_capacity) (simp_all add: heap_ok_def heap_room_def)

end
