(* ===== verification/Swift_Allocator.thy ===== *)
theory Swift_Allocator
  imports Swift_Heap
begin

text \<open>
  The pool allocator of \<open>src/internal/datatype_allocator.c\<close> in the build the profiles
  under \<open>build/profiles\<close> select (\<open>SWIFT_NET_INTERNAL_TESTING\<close> on): stacks of free
  pointers over \<open>malloc\<close>ed slabs, a 64-bit word of per-stack locks, and the
  \<open>ptr_status\<close> bits that record which items are handed out.
  A stack is its \<open>struct\<close> with the arrays it points to; \<open>al_stacks\<close> holds the non-null
  prefix of the 64-entry array \<open>stacks\<close>, so an index at or past its length reads
  \<open>NULL\<close>. The operations here run without interference;
  the theory \<open>Swift_Locks\<close> interleaves them.
\<close>

section \<open>State\<close>

record mem_stack =
  st_self :: ptr
  st_data :: ptr
  st_pointers_at :: ptr
  st_pointers :: "ptr list"
  st_status_at :: "ptr option"
  st_ptr_status :: "u8 list"
  st_size :: u32
  st_index :: u16

record mem_allocator =
  al_occupied :: u64
  al_stacks :: "mem_stack list"
  al_stacks_allocated :: u16
  al_item_size :: u32
  al_chunk_item_amount :: u32
  al_creating_stack :: u8

abbreviation STACK_CREATING_LOCKED :: u8 where "STACK_CREATING_LOCKED \<equiv> 0"
abbreviation STACK_CREATING_UNLOCKED :: u8 where "STACK_CREATING_UNLOCKED \<equiv> 1"
abbreviation ALLOCATOR_STACK_OCCUPIED :: u8 where "ALLOCATOR_STACK_OCCUPIED \<equiv> 1"
abbreviation ALLOCATOR_STACK_FREE :: u8 where "ALLOCATOR_STACK_FREE \<equiv> 0"

section \<open>Operations\<close>

text \<open>\<open>__builtin_ctzll\<close> on a non-zero argument.\<close>

definition ctz64 :: "u64 \<Rightarrow> nat" where
  "ctz64 w = length (takeWhile (\<lambda>i. \<not> bit w i) [0..<64])"

text \<open>
  \<open>occupied &= ~(1u << index)\<close>: the mask is computed in 32 bits and zero-extended,
  and a shift count of 32 or more is undefined.
\<close>

definition lock_mask :: "nat \<Rightarrow> u64" where
  "lock_mask i = ucast (NOT (push_bit i 1 :: u32))"

definition free_stack_lock :: "mem_stack \<Rightarrow> mem_allocator \<Rightarrow> mem_allocator res" where
  "free_stack_lock s a =
     (if 32 \<le> unat (st_index s) then Inl Bad_Shift
      else Inr (a\<lparr>al_occupied := al_occupied a AND lock_mask (unat (st_index s))\<rparr>))"

text \<open>The range test of \<open>set_memory_status\<close> and \<open>is_already_free\<close>.\<close>

definition in_stack :: "mem_allocator \<Rightarrow> mem_stack \<Rightarrow> ptr \<Rightarrow> bool" where
  "in_stack a s p \<longleftrightarrow>
     st_data s \<le> p \<and> p < st_data s + unat (al_item_size a * al_chunk_item_amount a)"

definition owner_index :: "mem_allocator \<Rightarrow> ptr \<Rightarrow> nat option" where
  "owner_index a p =
     List.find (\<lambda>i. i < length (al_stacks a) \<and> in_stack a (al_stacks a ! i) p)
       [0..<unat (al_stacks_allocated a)]"

definition item_index :: "mem_allocator \<Rightarrow> mem_stack \<Rightarrow> ptr \<Rightarrow> u32" where
  "item_index a s p = of_nat (p - st_data s) div al_item_size a"

definition set_memory_status :: "mem_allocator \<Rightarrow> ptr \<Rightarrow> u8 \<Rightarrow> mem_allocator res" where
  "set_memory_status a p status =
     (case owner_index a p of
        None \<Rightarrow> Inr a
      | Some i \<Rightarrow>
          (let s = al_stacks a ! i;
               index = item_index a s p;
               byte = unat (index div 8);
               bt = unat (index mod 8)
           in if length (st_ptr_status s) \<le> byte then Inl Out_Of_Bounds
              else let v = st_ptr_status s ! byte;
                       v' = (if status \<noteq> 0 then v OR push_bit bt 1 else v AND NOT (push_bit bt 1))
                   in Inr (a\<lparr>al_stacks := (al_stacks a)
                               [i := s\<lparr>st_ptr_status := (st_ptr_status s)[byte := v']\<rparr>]\<rparr>)))"

definition is_already_free :: "mem_allocator \<Rightarrow> ptr \<Rightarrow> bool res" where
  "is_already_free a p =
     (case owner_index a p of
        None \<Rightarrow> Inr False
      | Some i \<Rightarrow>
          (let s = al_stacks a ! i;
               index = item_index a s p;
               byte = unat (index div 8);
               bt = unat (index mod 8)
           in if length (st_ptr_status s) \<le> byte then Inl Out_Of_Bounds
              else Inr (\<not> bit (st_ptr_status s ! byte) bt)))"

text \<open>Type 1 looks for a stack to allocate from, type 0 for one to free into.\<close>

definition valid_size :: "mem_allocator \<Rightarrow> u8 \<Rightarrow> mem_stack \<Rightarrow> bool" where
  "valid_size a ty s =
     (if ty = 0 then st_size s < al_chunk_item_amount a
      else st_size s \<le> al_chunk_item_amount a \<and> 0 < st_size s)"

lemma ctz64_less:
  assumes "w \<noteq> (0 :: u64)"
  shows "ctz64 w < 64" and "bit w (ctz64 w)"
proof -
  obtain i where i: "bit w i" using assms by (metis bit_eqI bit_0_eq bot_apply bot_bool_def)
  then have "i < 64" using bit_imp_le_length by fastforce
  with i show "ctz64 w < 64" unfolding ctz64_def
    by (metis atLeastLessThan_iff diff_zero le0 length_takeWhile_le length_upt nat_less_le
        set_upt takeWhile_eq_all_conv takeWhile_eq_take take_all_iff)
  then show "bit w (ctz64 w)"
    using nth_length_takeWhile [of "\<lambda>i. \<not> bit w i" "[0..<64]"] by (simp add: ctz64_def)
qed

lemma free_bit_count:
  assumes "i < 64" and "\<not> bit (m :: u64) i"
  shows "card {j. j < 64 \<and> \<not> bit (m OR push_bit i 1) j} < card {j. j < 64 \<and> \<not> bit m j}"
  using assms by (intro psubset_card_mono) (auto simp: bit_or_iff bit_mask)

function find_free_loop ::
  "u8 \<Rightarrow> u16 \<Rightarrow> mem_allocator \<Rightarrow> u64 \<Rightarrow> u64 \<Rightarrow> (nat option \<times> mem_allocator) res" where
  "find_free_loop ty stacks_allocated a bitmap invalid =
     (if bitmap OR invalid = -1 then Inr (None, a)
      else
        let first_free = ctz64 (NOT (bitmap OR invalid))
        in if unat stacks_allocated \<le> first_free then Inr (None, a)
           else if al_occupied a \<noteq> bitmap
           then find_free_loop ty stacks_allocated a (al_occupied a) invalid
           else if length (al_stacks a) \<le> first_free then Inl Null_Deref
           else
             let a1 = a\<lparr>al_occupied := bitmap OR push_bit first_free 1\<rparr>;
                 s = al_stacks a ! first_free
             in if valid_size a ty s then Inr (Some first_free, a1)
                else rbind (free_stack_lock s a1)
                       (\<lambda>a2. find_free_loop ty stacks_allocated a2 bitmap
                               (invalid OR push_bit first_free 1)))"
  by pat_completeness auto
termination
proof (relation "measures
    [\<lambda>(ty, n, a, bitmap, invalid). card {j. j < 64 \<and> \<not> bit invalid j},
     \<lambda>(ty, n, a, bitmap, invalid). if al_occupied a = bitmap then 0 else 1]", goal_cases)
  case (3 ty n a bitmap invalid ff a1 s a2)
  then have "NOT (bitmap OR invalid) \<noteq> 0" by (metis bit.compl_zero bit.double_compl)
  from ctz64_less [OF this] 3 have "ff < 64" "\<not> bit invalid ff"
    by (auto simp: bit_not_iff bit_or_iff bit_and_iff)
  from free_bit_count [OF this] show ?case by simp
qed auto

declare find_free_loop.simps [simp del]

definition find_free_pointer_stack ::
  "mem_allocator \<Rightarrow> u8 \<Rightarrow> (nat option \<times> mem_allocator) res" where
  "find_free_pointer_stack a ty =
     find_free_loop ty (al_stacks_allocated a) a (al_occupied a) 0"

text \<open>The slab loop: \<open>pointers[i] = data + i * item_size\<close>, the product in 32 bits.\<close>

definition slab_pointers :: "ptr \<Rightarrow> u32 \<Rightarrow> u32 \<Rightarrow> ptr list" where
  "slab_pointers base item_size n =
     map (\<lambda>i. base + unat (of_nat i * item_size)) [0..<unat n]"

text \<open>
  The allocations \<open>allocator_create\<close> and \<open>create_new_stack\<close> both make: slab, pointer
  array, \<open>struct\<close> (32 bytes), status bytes. The first three are checked; the \<open>calloc\<close> is
  not, and a null \<open>ptr_status\<close> has no bytes.
\<close>

definition make_stack :: "u32 \<Rightarrow> u32 \<Rightarrow> u16 \<Rightarrow> heap \<Rightarrow> (mem_stack \<times> heap) res" where
  "make_stack item_size chunk_item_amount index h =
     (case malloc (unat (item_size * chunk_item_amount)) h of
        (allocated_memory, h1) \<Rightarrow>
      (case malloc (unat chunk_item_amount * 8) h1 of
        (pointers_memory, h2) \<Rightarrow>
      (case (allocated_memory, pointers_memory) of
        (Some data, Some pointers) \<Rightarrow>
          (case malloc 32 h2 of
             (None, _) \<Rightarrow> Inl Exit_Failure
           | (Some self, h3) \<Rightarrow>
               (case malloc (unat (chunk_item_amount div 8 + 1)) h3 of
                  (status, h4) \<Rightarrow>
                    Inr (\<lparr>st_self = self, st_data = data, st_pointers_at = pointers,
                          st_pointers = slab_pointers data item_size chunk_item_amount,
                          st_status_at = status,
                          st_ptr_status =
                            (if status = None then []
                             else replicate (unat (chunk_item_amount div 8 + 1)) 0),
                          st_size = chunk_item_amount, st_index = index\<rparr>, h4)))
      | _ \<Rightarrow> Inl Exit_Failure)))"

definition allocator_create :: "u32 \<Rightarrow> u32 \<Rightarrow> heap \<Rightarrow> (mem_allocator \<times> heap) res" where
  "allocator_create item_size chunk_item_amount h =
     rbind (make_stack item_size chunk_item_amount 0 h)
       (\<lambda>(first_stack, h').
          Inr (\<lparr>al_occupied = 0, al_stacks = [first_stack], al_stacks_allocated = 1,
                al_item_size = item_size, al_chunk_item_amount = chunk_item_amount,
                al_creating_stack = STACK_CREATING_UNLOCKED\<rparr>, h'))"

text \<open>
  The creation lock is a spin lock: with nobody else to release it, finding it taken is
  a hang. The store into \<open>stacks[stacks_allocated]\<close> is past the array from 64 on.
\<close>

definition create_new_stack :: "mem_allocator \<Rightarrow> heap \<Rightarrow> (mem_allocator \<times> heap) res" where
  "create_new_stack a h =
     (if al_creating_stack a \<noteq> STACK_CREATING_UNLOCKED then Inl Stuck
      else rbind (make_stack (al_item_size a) (al_chunk_item_amount a) (al_stacks_allocated a) h)
        (\<lambda>(stack, h').
           let n = unat (al_stacks_allocated a)
           in if 64 \<le> n then Inl Out_Of_Bounds
              else Inr (a\<lparr>al_stacks := put n [stack] (al_stacks a),
                          al_stacks_allocated := al_stacks_allocated a + 1,
                          al_creating_stack := STACK_CREATING_UNLOCKED\<rparr>, h')))"

lemma free_stack_lock_frame:
  "free_stack_lock s a = Inr a' \<Longrightarrow> \<exists>w. a' = a\<lparr>al_occupied := w\<rparr>"
  by (auto simp: free_stack_lock_def split: if_splits)

lemma find_free_loop_frame:
  "find_free_loop ty n a bitmap invalid = Inr (r, a') \<Longrightarrow> \<exists>w. a' = a\<lparr>al_occupied := w\<rparr>"
proof (induction ty n a bitmap invalid rule: find_free_loop.induct)
  case (1 ty n a bitmap invalid)
  let ?ff = "ctz64 (NOT (bitmap OR invalid))"
  let ?a1 = "a\<lparr>al_occupied := bitmap OR push_bit ?ff 1\<rparr>"
  have self: "\<exists>w. a = a\<lparr>al_occupied := w\<rparr>" by (rule exI [of _ "al_occupied a"]) simp
  note eq = "1.prems" [unfolded find_free_loop.simps [of ty n a bitmap invalid] Let_def]
  consider (stop) "bitmap OR invalid = -1 \<or> unat n \<le> ?ff"
    | (retry) "bitmap OR invalid \<noteq> -1" "\<not> unat n \<le> ?ff" "al_occupied a \<noteq> bitmap"
    | (take) "bitmap OR invalid \<noteq> -1" "\<not> unat n \<le> ?ff" "al_occupied a = bitmap"
    by blast
  then show ?case
  proof cases
    case stop
    with eq self show ?thesis by (auto split: if_splits)
  next
    case retry
    with eq show ?thesis by (intro "1.IH"(1)) simp_all
  next
    case take
    note take_eq = eq [unfolded if_not_P [OF take(1)] if_not_P [OF take(2)]]
    show ?thesis
    proof (cases "length (al_stacks a) \<le> ?ff \<or> valid_size a ty (al_stacks a ! ?ff)")
      case True
      with take_eq take(3) show ?thesis by (auto split: if_splits)
    next
      case False
      with take_eq take(3) obtain a2 where lock: "free_stack_lock (al_stacks a ! ?ff) ?a1 = Inr a2"
        and rec: "find_free_loop ty n a2 bitmap (invalid OR push_bit ?ff 1) = Inr (r, a')"
        by (auto simp: res_simps)
      have "\<exists>w. a' = a2\<lparr>al_occupied := w\<rparr>"
        by (rule "1.IH"(2) [OF take(1) refl take(2) _ _ refl refl _ lock rec])
          (use False take in auto)
      with free_stack_lock_frame [OF lock] show ?thesis by auto
    qed
  qed
qed

lemma create_new_stack_count:
  assumes "create_new_stack a h = Inr (a', h')"
  shows "64 - unat (al_stacks_allocated a') < 64 - unat (al_stacks_allocated a)"
  using assms by (auto simp: create_new_stack_def Let_def res_simps unat_word_ariths split: if_splits)

text \<open>
  An empty-handed search makes a new stack and starts again; the 64-entry bound of
  \<open>create_new_stack\<close> ends the recursion.
\<close>

function allocator_allocate :: "mem_allocator \<Rightarrow> heap \<Rightarrow> (ptr \<times> mem_allocator \<times> heap) res" where
  "allocator_allocate a h =
     rbind (find_free_pointer_stack a 1)
       (\<lambda>(r, a1).
          case r of
            None \<Rightarrow> rbind (create_new_stack a1 h) (\<lambda>(a2, h2). allocator_allocate a2 h2)
          | Some i \<Rightarrow>
              (let s = al_stacks a1 ! i;
                   n = st_size s;
                   a2 = a1\<lparr>al_stacks := (al_stacks a1)[i := s\<lparr>st_size := n - 1\<rparr>]\<rparr>
               in if length (st_pointers s) \<le> unat n - 1 then Inl Out_Of_Bounds
                  else let item_ptr = st_pointers s ! (unat n - 1)
                       in rbind (set_memory_status a2 item_ptr ALLOCATOR_STACK_OCCUPIED)
                            (\<lambda>a3. rbind (free_stack_lock (al_stacks a3 ! i) a3)
                              (\<lambda>a4. Inr (item_ptr, a4, h)))))"
  by pat_completeness auto
termination
proof (relation "measure (\<lambda>(a, h). 64 - unat (al_stacks_allocated a))", goal_cases)
  case (2 a h x r a1 y a2 h2)
  then have "al_stacks_allocated a1 = al_stacks_allocated a"
    by (auto simp: find_free_pointer_stack_def dest: find_free_loop_frame)
  with 2 create_new_stack_count [of a1 h a2 h2] show ?case by auto
qed auto

declare allocator_allocate.simps [simp del]

function allocator_free :: "mem_allocator \<Rightarrow> ptr \<Rightarrow> heap \<Rightarrow> (mem_allocator \<times> heap) res" where
  "allocator_free a memory_location h =
     rbind (is_already_free a memory_location)
       (\<lambda>already_free.
          if already_free then Inl Exit_Failure
          else rbind (find_free_pointer_stack a 0)
            (\<lambda>(r, a1).
               case r of
                 None \<Rightarrow> rbind (create_new_stack a1 h)
                           (\<lambda>(a2, h2). allocator_free a2 memory_location h2)
               | Some i \<Rightarrow>
                   (let s = al_stacks a1 ! i;
                        n = st_size s
                    in if length (st_pointers s) \<le> unat n then Inl Out_Of_Bounds
                       else
                         let a2 = a1\<lparr>al_stacks := (al_stacks a1)
                                      [i := s\<lparr>st_size := n + 1,
                                              st_pointers := (st_pointers s)[unat n := memory_location]\<rparr>]\<rparr>
                         in rbind (set_memory_status a2 memory_location ALLOCATOR_STACK_FREE)
                              (\<lambda>a3. rbind (free_stack_lock (al_stacks a3 ! i) a3)
                                (\<lambda>a4. Inr (a4, h))))))"
  by pat_completeness auto
termination
proof (relation "measure (\<lambda>(a, p, h). 64 - unat (al_stacks_allocated a))", goal_cases)
  case (2 a p h x y r a1 z a2 h2)
  then have "al_stacks_allocated a1 = al_stacks_allocated a"
    by (auto simp: find_free_pointer_stack_def dest: find_free_loop_frame)
  with 2 create_new_stack_count [of a1 h a2 h2] show ?case by auto
qed auto

declare allocator_free.simps [simp del]

text \<open>
  \<open>allocator_destroy\<close> returns every block of every stack and, unless the check is
  disabled, adds the items still handed out to the global leak counters.
\<close>

record leak_counters =
  items_leaked :: u32
  bytes_leaked :: u32

definition leaked_in_byte :: "nat \<Rightarrow> nat \<Rightarrow> u8 \<Rightarrow> nat" where
  "leaked_in_byte total_items byte m =
     (if m = 0 then 0
      else length (filter (bit m) (takeWhile (\<lambda>bt. byte * 8 + bt < total_items) [0..<8])))"

definition leaked_items :: "nat \<Rightarrow> u8 list \<Rightarrow> nat" where
  "leaked_items total_items status =
     sum_list (map (\<lambda>byte. leaked_in_byte total_items byte (status ! byte))
       [0..<total_items div 8 + 1])"

definition count_leaks :: "mem_allocator \<Rightarrow> mem_stack \<Rightarrow> leak_counters \<Rightarrow> leak_counters res" where
  "count_leaks a s c =
     (if length (st_ptr_status s) \<le> unat (al_chunk_item_amount a) div 8 then Inl Out_Of_Bounds
      else let k = of_nat (leaked_items (unat (al_chunk_item_amount a)) (st_ptr_status s))
           in Inr (c\<lparr>items_leaked := items_leaked c + k,
                     bytes_leaked := bytes_leaked c + k * al_item_size a\<rparr>))"

fun destroy_stacks ::
  "mem_allocator \<Rightarrow> bool \<Rightarrow> mem_stack list \<Rightarrow> leak_counters \<Rightarrow> heap \<Rightarrow> (leak_counters \<times> heap) res" where
  "destroy_stacks a disable_internal_check [] c h = Inr (c, h)"
| "destroy_stacks a disable_internal_check (s # ss) c h =
     rbind (c_free (Some (st_data s)) h) (\<lambda>h1.
     rbind (c_free (Some (st_pointers_at s)) h1) (\<lambda>h2.
     rbind (if disable_internal_check then Inr c else count_leaks a s c) (\<lambda>c'.
     rbind (c_free (st_status_at s) h2) (\<lambda>h3.
     rbind (c_free (Some (st_self s)) h3) (\<lambda>h4.
     destroy_stacks a disable_internal_check ss c' h4)))))"

definition allocator_destroy ::
  "mem_allocator \<Rightarrow> bool \<Rightarrow> leak_counters \<Rightarrow> heap \<Rightarrow> (leak_counters \<times> heap) res" where
  "allocator_destroy a disable_internal_check c h =
     (if length (al_stacks a) < unat (al_stacks_allocated a) then Inl Null_Deref
      else destroy_stacks a disable_internal_check
             (take (unat (al_stacks_allocated a)) (al_stacks a)) c h)"

section \<open>Well-formedness\<close>

definition item_addr :: "mem_allocator \<Rightarrow> mem_stack \<Rightarrow> nat \<Rightarrow> ptr" where
  "item_addr a s i = st_data s + i * unat (al_item_size a)"

abbreviation chunk_amount_of :: "mem_allocator \<Rightarrow> nat" where
  "chunk_amount_of a \<equiv> unat (al_chunk_item_amount a)"

abbreviation slab_bytes :: "mem_allocator \<Rightarrow> nat" where
  "slab_bytes a \<equiv> unat (al_item_size a) * chunk_amount_of a"

text \<open>All items, the items handed out, and the pointers on the free stacks.\<close>

definition al_items :: "mem_allocator \<Rightarrow> ptr set" where
  "al_items a = {item_addr a s i | s i. s \<in> set (al_stacks a) \<and> i < chunk_amount_of a}"

definition al_live :: "mem_allocator \<Rightarrow> ptr set" where
  "al_live a = {item_addr a s i | s i.
     s \<in> set (al_stacks a) \<and> i < chunk_amount_of a \<and> bits_get (st_ptr_status s) i}"

definition al_frees :: "mem_allocator \<Rightarrow> ptr list" where
  "al_frees a = concat (map (\<lambda>s. take (unat (st_size s)) (st_pointers s)) (al_stacks a))"

definition stack_ok :: "mem_allocator \<Rightarrow> nat \<Rightarrow> mem_stack \<Rightarrow> bool" where
  "stack_ok a i s \<longleftrightarrow>
     unat (st_index s) = i \<and> st_size s \<le> al_chunk_item_amount a \<and>
     length (st_pointers s) = chunk_amount_of a \<and>
     length (st_ptr_status s) = chunk_amount_of a div 8 + 1"

text \<open>The part of the invariant that \<open>size\<close> and \<open>ptr_status\<close> changes do not touch.\<close>

definition alloc_shape :: "heap \<Rightarrow> mem_allocator \<Rightarrow> bool" where
  "alloc_shape h a \<longleftrightarrow>
     al_creating_stack a = STACK_CREATING_UNLOCKED \<and>
     length (al_stacks a) = unat (al_stacks_allocated a) \<and>
     0 < length (al_stacks a) \<and> length (al_stacks a) \<le> 32 \<and>
     0 < al_item_size a \<and> 0 < al_chunk_item_amount a \<and> slab_bytes a < 2 ^ 32 \<and>
     (\<forall>i < length (al_stacks a). stack_ok a i (al_stacks a ! i)) \<and>
     sorted_wrt (\<lambda>s t. st_data s + slab_bytes a \<le> st_data t) (al_stacks a) \<and>
     (\<forall>s \<in> set (al_stacks a). st_data s + slab_bytes a \<le> brk h)"

definition alloc_ok :: "heap \<Rightarrow> mem_allocator \<Rightarrow> bool" where
  "alloc_ok h a \<longleftrightarrow>
     alloc_shape h a \<and> al_occupied a = 0 \<and>
     distinct (al_frees a) \<and> set (al_frees a) = al_items a - al_live a"

section \<open>The search for a stack\<close>

lemma ctz64_NOT_mask: "k < 64 \<Longrightarrow> ctz64 (NOT (mask k)) = k"
proof -
  assume k: "k < 64"
  have "[0..<64] = [0..<k] @ k # [Suc k..<64]"
    using k upt_add_eq_append [of 0 k "64 - k"] by (simp add: upt_conv_Cons)
  then have "takeWhile (\<lambda>i. \<not> bit (NOT (mask k) :: u64) i) [0..<64] = [0..<k]"
    using k by (auto simp: takeWhile_append bit_not_iff bit_mask_iff)
  then show ?thesis by (simp add: ctz64_def)
qed

lemma mask_Suc_or: "mask k OR push_bit k 1 = (mask (Suc k) :: u64)"
  by (rule bit_word_eqI) (auto simp: bit_or_iff bit_mask_iff bit_mask less_Suc_eq)

lemma mask_not_full: "k < 64 \<Longrightarrow> mask k \<noteq> (-1 :: u64)"
proof
  assume k: "k < 64" and "mask k = (-1 :: u64)"
  then have "bit (mask k :: u64) k = bit (-1 :: u64) k" by simp
  with k show False by (simp add: bit_mask_iff)
qed

lemma lock_mask_self: "k < 32 \<Longrightarrow> 2 ^ k AND lock_mask k = 0"
  by (rule bit_word_eqI) (auto simp: lock_mask_def bit_and_iff bit_ucast_iff bit_not_iff bit_mask)

lemma find_free_loop_spec:
  assumes "length (al_stacks a) = unat n" and "unat n \<le> 32" and "al_occupied a = 0"
    and "\<forall>i < unat n. unat (st_index (al_stacks a ! i)) = i"
    and "k \<le> unat n"
  shows "find_free_loop ty n a 0 (mask k) =
     Inr (case List.find (\<lambda>i. valid_size a ty (al_stacks a ! i)) [k..<unat n] of
            None \<Rightarrow> (None, a) | Some i \<Rightarrow> (Some i, a\<lparr>al_occupied := 2 ^ i\<rparr>))"
  using assms(5)
proof (induction "unat n - k" arbitrary: k)
  case 0
  then have "k = unat n" by simp
  with assms(2) mask_not_full [of k] show ?case
    by (subst find_free_loop.simps) (simp add: ctz64_NOT_mask)
next
  case (Suc d)
  then have k: "k < unat n" "k < 64" "k < 32" using assms(2) by auto
  have upt: "[k..<unat n] = k # [Suc k..<unat n]" using k by (simp add: upt_conv_Cons)
  have unlock: "free_stack_lock (al_stacks a ! k) (a\<lparr>al_occupied := 2 ^ k\<rparr>) = Inr a"
    using k assms(3,4) by (simp add: free_stack_lock_def lock_mask_self)
  have rec: "find_free_loop ty n a 0 (mask (Suc k)) =
     Inr (case List.find (\<lambda>i. valid_size a ty (al_stacks a ! i)) [Suc k..<unat n] of
            None \<Rightarrow> (None, a) | Some i \<Rightarrow> (Some i, a\<lparr>al_occupied := 2 ^ i\<rparr>))"
    by (rule Suc.hyps) (use Suc.hyps k in auto)
  show ?case
    using k assms(1,3) mask_not_full [OF k(2)] unlock rec mask_Suc_or [of k]
    by (subst find_free_loop.simps) (simp add: ctz64_NOT_mask upt Let_def)
qed

lemma find_free_pointer_stack_spec:
  assumes "alloc_ok h a"
  shows "find_free_pointer_stack a ty =
     Inr (case List.find (\<lambda>i. valid_size a ty (al_stacks a ! i)) [0..<length (al_stacks a)] of
            None \<Rightarrow> (None, a) | Some i \<Rightarrow> (Some i, a\<lparr>al_occupied := 2 ^ i\<rparr>))"
  using find_free_loop_spec [of a "al_stacks_allocated a" 0 ty] assms
  by (simp add: find_free_pointer_stack_def alloc_ok_def alloc_shape_def stack_ok_def)

section \<open>Items and their stacks\<close>

lemma item_addr_frame [simp]:
  "item_addr (a\<lparr>al_stacks := ss\<rparr>) s i = item_addr a s i"
  "item_addr (a\<lparr>al_occupied := w\<rparr>) s i = item_addr a s i"
  "item_addr a (s\<lparr>st_ptr_status := st\<rparr>) i = item_addr a s i"
  by (simp_all add: item_addr_def)

lemma item_addr_nth_update:
  "st_data s' = st_data (ss ! k) \<Longrightarrow> k < length ss \<Longrightarrow>
   item_addr a (ss[k := s'] ! j) i = item_addr a (ss ! j) i"
  by (simp add: item_addr_def nth_list_update)

abbreviation stack_frees :: "mem_stack \<Rightarrow> ptr list" where
  "stack_frees s \<equiv> take (unat (st_size s)) (st_pointers s)"

lemma slab_no_wrap: "slab_bytes a < 2 ^ 32 \<Longrightarrow> unat (al_item_size a * al_chunk_item_amount a) = slab_bytes a"
  by (simp add: unat_word_ariths)

lemma item_in_stack:
  assumes "slab_bytes a < 2 ^ 32" and "0 < al_item_size a" and "i < chunk_amount_of a"
  shows "in_stack a s (item_addr a s i)"
    and "item_addr a s i < st_data s + slab_bytes a"
proof -
  have "0 < unat (al_item_size a)" using assms(2) by (simp add: word_less_nat_alt)
  with assms(3) have "i * unat (al_item_size a) < slab_bytes a" by simp
  then show "in_stack a s (item_addr a s i)"
    and "item_addr a s i < st_data s + slab_bytes a"
    using assms(1) by (simp_all add: in_stack_def item_addr_def slab_no_wrap)
qed

lemma owner_index_item:
  assumes "alloc_shape h a" and "k < length (al_stacks a)" and "i < chunk_amount_of a"
  shows "owner_index a (item_addr a (al_stacks a ! k) i) = Some k"
proof -
  let ?p = "item_addr a (al_stacks a ! k) i"
  have "\<not> in_stack a (al_stacks a ! j) ?p" if "j < k" for j
  proof -
    have "st_data (al_stacks a ! j) + slab_bytes a \<le> st_data (al_stacks a ! k)"
      using assms(1,2) that by (auto simp: alloc_shape_def sorted_wrt_iff_nth_less)
    then show ?thesis
      using assms(1) by (auto simp: in_stack_def item_addr_def alloc_shape_def slab_no_wrap)
  qed
  moreover have "in_stack a (al_stacks a ! k) ?p"
    using assms by (intro item_in_stack) (auto simp: alloc_shape_def)
  ultimately show ?thesis
    using assms(1,2) by (auto simp: owner_index_def find_Some_iff alloc_shape_def intro!: exI [of _ k])
qed

lemma item_index_item:
  assumes "alloc_shape h a" and "i < chunk_amount_of a"
  shows "unat (item_index a s (item_addr a s i)) = i"
proof -
  have pos: "0 < unat (al_item_size a)" and lt: "slab_bytes a < 2 ^ 32"
    using assms(1) by (auto simp: alloc_shape_def word_less_nat_alt)
  from assms(2) pos have "i * unat (al_item_size a) < slab_bytes a" by simp
  with lt have "i * unat (al_item_size a) < 2 ^ 32" by linarith
  then have "unat (of_nat (i * unat (al_item_size a)) :: u32) = i * unat (al_item_size a)"
    by (simp add: unat_of_nat del: of_nat_mult)
  then show ?thesis
    using pos by (simp add: item_index_def item_addr_def unat_div del: of_nat_mult)
qed

lemma item_addr_inj:
  assumes "alloc_shape h a" and "k < length (al_stacks a)" and "k' < length (al_stacks a)"
    and "i < chunk_amount_of a" and "i' < chunk_amount_of a"
    and "item_addr a (al_stacks a ! k) i = item_addr a (al_stacks a ! k') i'"
  shows "k = k' \<and> i = i'"
proof -
  have "Some k = Some k'"
    using owner_index_item [OF assms(1,2,4)] owner_index_item [OF assms(1,3,5)] assms(6) by simp
  moreover have "0 < unat (al_item_size a)" using assms(1) by (auto simp: alloc_shape_def word_less_nat_alt)
  ultimately show ?thesis using assms(6) by (simp add: item_addr_def)
qed

lemma item_byte_bit:
  assumes "alloc_shape h a" and "i < chunk_amount_of a"
  shows "unat (item_index a s (item_addr a s i) div 8) = i div 8"
    and "unat (item_index a s (item_addr a s i) mod 8) = i mod 8"
  using item_index_item [OF assms] by (simp_all add: unat_div unat_mod)

lemma stack_okD:
  assumes "alloc_shape h a" and "k < length (al_stacks a)"
  shows "unat (st_index (al_stacks a ! k)) = k" and "k < 32"
    and "unat (st_size (al_stacks a ! k)) \<le> chunk_amount_of a"
    and "length (st_pointers (al_stacks a ! k)) = chunk_amount_of a"
    and "length (st_ptr_status (al_stacks a ! k)) = chunk_amount_of a div 8 + 1"
  using assms by (auto simp: alloc_shape_def stack_ok_def word_le_nat_alt)

lemma set_memory_status_spec:
  assumes shape: "alloc_shape h a" and k: "k < length (al_stacks a)" and i: "i < chunk_amount_of a"
  defines "s \<equiv> al_stacks a ! k"
  shows "set_memory_status a (item_addr a s i) st =
     Inr (a\<lparr>al_stacks := (al_stacks a)[k := s\<lparr>st_ptr_status :=
        (if st \<noteq> 0 then bits_set else bits_clear) (st_ptr_status s) i\<rparr>]\<rparr>)"
proof -
  have "i div 8 < length (st_ptr_status s)"
    using stack_okD(5) [OF shape k] i by (simp add: s_def div_le_mono less_Suc_eq_le)
  then show ?thesis
    using owner_index_item [OF shape k i] item_byte_bit [OF shape i, of s]
    by (simp add: set_memory_status_def s_def Let_def bits_set_def bits_clear_def)
qed

lemma is_already_free_spec:
  assumes shape: "alloc_shape h a" and k: "k < length (al_stacks a)" and i: "i < chunk_amount_of a"
  defines "s \<equiv> al_stacks a ! k"
  shows "is_already_free a (item_addr a s i) = Inr (\<not> bits_get (st_ptr_status s) i)"
proof -
  have "i div 8 < length (st_ptr_status s)"
    using stack_okD(5) [OF shape k] i by (simp add: s_def div_le_mono less_Suc_eq_le)
  then show ?thesis
    using owner_index_item [OF shape k i] item_byte_bit [OF shape i, of s]
    by (simp add: is_already_free_def s_def Let_def bits_get_def)
qed

section \<open>Views of the state\<close>

lemma al_items_iff:
  "p \<in> al_items a \<longleftrightarrow>
     (\<exists>k < length (al_stacks a). \<exists>i < chunk_amount_of a. p = item_addr a (al_stacks a ! k) i)"
  by (auto simp: al_items_def in_set_conv_nth)

lemma al_live_iff:
  "p \<in> al_live a \<longleftrightarrow>
     (\<exists>k < length (al_stacks a). \<exists>i < chunk_amount_of a.
        p = item_addr a (al_stacks a ! k) i \<and> bits_get (st_ptr_status (al_stacks a ! k)) i)"
  by (auto simp: al_live_def in_set_conv_nth)

lemma al_frees_update:
  assumes "k < length (al_stacks a)"
  shows "al_frees (a\<lparr>al_stacks := (al_stacks a)[k := s]\<rparr>) =
     concat (map stack_frees (take k (al_stacks a))) @ stack_frees s @
     concat (map stack_frees (drop (Suc k) (al_stacks a)))"
  using assms by (simp add: al_frees_def upd_conv_take_nth_drop)

lemma al_frees_split:
  assumes "k < length (al_stacks a)"
  shows "al_frees a =
     concat (map stack_frees (take k (al_stacks a))) @ stack_frees (al_stacks a ! k) @
     concat (map stack_frees (drop (Suc k) (al_stacks a)))"
  using al_frees_update [OF assms, of "al_stacks a ! k"] by simp

lemma al_live_set_status:
  assumes shape: "alloc_shape h a" and k: "k < length (al_stacks a)" and i: "i < chunk_amount_of a"
  defines "s \<equiv> al_stacks a ! k"
  shows "al_live (a\<lparr>al_stacks := (al_stacks a)[k := s\<lparr>st_ptr_status := bits_set (st_ptr_status s) i\<rparr>]\<rparr>) =
     insert (item_addr a s i) (al_live a)" (is "al_live ?a = _")
    and "al_live (a\<lparr>al_stacks := (al_stacks a)[k := s\<lparr>st_ptr_status := bits_clear (st_ptr_status s) i\<rparr>]\<rparr>) =
     al_live a - {item_addr a s i}" (is "al_live ?b = _")
proof -
  have byte: "i div 8 < length (st_ptr_status s)"
    using stack_okD(5) [OF shape k] i by (simp add: s_def div_le_mono less_Suc_eq_le)
  have set: "bits_get (st_ptr_status ((al_stacks a)[k := s\<lparr>st_ptr_status := bits_set (st_ptr_status s) i\<rparr>] ! j)) i' \<longleftrightarrow>
      j = k \<and> i' = i \<or> bits_get (st_ptr_status (al_stacks a ! j)) i'"
    and clear: "bits_get (st_ptr_status ((al_stacks a)[k := s\<lparr>st_ptr_status := bits_clear (st_ptr_status s) i\<rparr>] ! j)) i' \<longleftrightarrow>
      \<not> (j = k \<and> i' = i) \<and> bits_get (st_ptr_status (al_stacks a ! j)) i'" for j i'
    using k byte by (auto simp: nth_list_update bits_simps s_def)
  have item: "item_addr a ((al_stacks a)[k := s\<lparr>st_ptr_status := st\<rparr>] ! j) i' = item_addr a (al_stacks a ! j) i'" for st j i'
    using k by (intro item_addr_nth_update) (simp_all add: s_def)
  show "al_live ?a = insert (item_addr a s i) (al_live a)"
    using k i by (auto simp: al_live_iff item [unfolded s_def] set [unfolded s_def] s_def) blast+
  have "p \<in> al_live ?b \<longleftrightarrow> p \<in> al_live a \<and> p \<noteq> item_addr a s i" for p
    unfolding al_live_iff using k i
    by (simp add: item [unfolded s_def] clear [unfolded s_def] s_def) (metis item_addr_inj [OF shape _ k _ i])
  then show "al_live ?b = al_live a - {item_addr a s i}" by blast
qed

text \<open>Changing the size or the pointer array of a stack leaves items and status alone.\<close>

lemma al_views_pointers:
  assumes "k < length (al_stacks a)" and "st_data s' = st_data (al_stacks a ! k)"
  shows "al_items (a\<lparr>al_stacks := (al_stacks a)[k := s']\<rparr>) = al_items a"
    and "st_ptr_status s' = st_ptr_status (al_stacks a ! k) \<Longrightarrow>
     al_live (a\<lparr>al_stacks := (al_stacks a)[k := s']\<rparr>) = al_live a"
proof -
  let ?a = "a\<lparr>al_stacks := (al_stacks a)[k := s']\<rparr>"
  show "al_items ?a = al_items a"
    by (rule set_eqI) (simp add: al_items_iff item_addr_nth_update assms)
  show "st_ptr_status s' = st_ptr_status (al_stacks a ! k) \<Longrightarrow> al_live ?a = al_live a"
    by (rule set_eqI) (simp add: al_live_iff item_addr_nth_update assms, simp add: nth_list_update assms(1) cong: conj_cong)
qed

text \<open>The heap blocks an allocator owns.\<close>

definition stack_blocks :: "mem_stack \<Rightarrow> ptr list" where
  "stack_blocks s = [st_data s, st_pointers_at s, st_self s] @ option_list (st_status_at s)"

definition al_blocks :: "mem_allocator \<Rightarrow> ptr list" where
  "al_blocks a = concat (map stack_blocks (al_stacks a))"

lemma al_blocks_update:
  "k < length (al_stacks a) \<Longrightarrow> stack_blocks s' = stack_blocks (al_stacks a ! k) \<Longrightarrow>
   al_blocks (a\<lparr>al_stacks := (al_stacks a)[k := s']\<rparr>) = al_blocks a"
  by (simp add: al_blocks_def map_list_update_same)

lemma alloc_shape_update:
  assumes "alloc_shape h a" and "k < length (al_stacks a)" and "stack_ok a k s'"
    and "st_data s' = st_data (al_stacks a ! k)"
  shows "alloc_shape h (a\<lparr>al_stacks := (al_stacks a)[k := s']\<rparr>)"
proof -
  let ?ss = "(al_stacks a)[k := s']"
  have data: "map st_data ?ss = map st_data (al_stacks a)"
    using assms(2,4) by (simp add: map_list_update_same)
  have set: "st_data ` set ?ss = st_data ` set (al_stacks a)"
    using data by (metis list.set_map)
  have bound: "\<forall>d \<in> st_data ` set (al_stacks a). d + slab_bytes a \<le> brk h"
    using assms(1) by (auto simp: alloc_shape_def)
  have "\<forall>s \<in> set ?ss. st_data s + slab_bytes a \<le> brk h"
    using bound unfolding set [symmetric] by blast
  moreover have "sorted_wrt (\<lambda>s t. st_data s + slab_bytes a \<le> st_data t) ?ss"
    using assms(1) sorted_wrt_map [of "\<lambda>d e. d + slab_bytes a \<le> e" st_data ?ss]
      sorted_wrt_map [of "\<lambda>d e. d + slab_bytes a \<le> e" st_data "al_stacks a"]
    by (simp only: data alloc_shape_def)
  ultimately show ?thesis
    using assms(1-3) by (simp add: alloc_shape_def nth_list_update stack_ok_def)
qed


lemma alloc_frame_occupied [simp]:
  "alloc_shape h (a\<lparr>al_occupied := w\<rparr>) = alloc_shape h a"
  "al_items (a\<lparr>al_occupied := w\<rparr>) = al_items a"
  "al_live (a\<lparr>al_occupied := w\<rparr>) = al_live a"
  "al_frees (a\<lparr>al_occupied := w\<rparr>) = al_frees a"
  "al_blocks (a\<lparr>al_occupied := w\<rparr>) = al_blocks a"
  by (simp_all add: alloc_shape_def stack_ok_def al_items_def al_live_def al_frees_def al_blocks_def)

text \<open>Marking an item changes its liveness and nothing else.\<close>

lemma mark_item:
  assumes shape: "alloc_shape h a" and p: "p \<in> al_items a"
  shows "\<exists>a'. set_memory_status a p st = Inr a' \<and> alloc_shape h a' \<and>
     al_live a' = (if st \<noteq> 0 then insert p (al_live a) else al_live a - {p}) \<and>
     al_items a' = al_items a \<and> al_frees a' = al_frees a \<and> al_occupied a' = al_occupied a \<and>
     length (al_stacks a') = length (al_stacks a) \<and> al_blocks a' = al_blocks a"
proof -
  from p obtain k i where k: "k < length (al_stacks a)" and i: "i < chunk_amount_of a"
    and p: "p = item_addr a (al_stacks a ! k) i" by (auto simp: al_items_iff)
  define s where "s = al_stacks a ! k"
  define s' where "s' = s\<lparr>st_ptr_status :=
    (if st \<noteq> 0 then bits_set else bits_clear) (st_ptr_status s) i\<rparr>"
  define a' where "a' = a\<lparr>al_stacks := (al_stacks a)[k := s']\<rparr>"
  have run: "set_memory_status a p st = Inr a'"
    using set_memory_status_spec [OF shape k i] by (simp add: p a'_def s'_def s_def)
  have "stack_ok a k s'"
    using stack_okD [OF shape k] by (simp add: stack_ok_def s'_def s_def word_le_nat_alt)
  then have shape': "alloc_shape h a'"
    unfolding a'_def by (intro alloc_shape_update [OF shape k]) (simp_all add: s'_def s_def)
  have live: "al_live a' = (if st \<noteq> 0 then insert p (al_live a) else al_live a - {p})"
    using al_live_set_status [OF shape k i] by (simp add: a'_def s'_def s_def p)
  have items: "al_items a' = al_items a"
    unfolding a'_def by (rule al_views_pointers(1) [OF k]) (simp add: s'_def s_def)
  have "map stack_frees (al_stacks a') = map stack_frees (al_stacks a)"
    using k by (simp add: a'_def s'_def s_def map_list_update_same)
  then have "al_frees a' = al_frees a" by (simp add: al_frees_def)
  moreover have "al_blocks a' = al_blocks a"
    unfolding a'_def by (rule al_blocks_update [OF k]) (simp add: s'_def s_def stack_blocks_def)
  ultimately show ?thesis using run shape' live items by (auto simp: a'_def)
qed

section \<open>Allocation and release\<close>

lemma unlock_found:
  assumes "alloc_shape h a" and "k < length (al_stacks a)" and "al_occupied a = 2 ^ k"
  shows "free_stack_lock (al_stacks a ! k) a = Inr (a\<lparr>al_occupied := 0\<rparr>)"
  using stack_okD(1,2) [OF assms(1,2)] assms(3) by (simp add: free_stack_lock_def lock_mask_self)

lemma take_pred: "0 < n \<Longrightarrow> n \<le> length xs \<Longrightarrow> take n xs = take (n - 1) xs @ [xs ! (n - 1)]"
  by (cases n) (auto simp: take_Suc_conv_app_nth)

text \<open>Popping and pushing a pointer on stack \<open>k\<close>, with \<open>ptr_status\<close> still to be updated.\<close>

definition pop_stack :: "mem_allocator \<Rightarrow> nat \<Rightarrow> mem_allocator" where
  "pop_stack a k = a\<lparr>al_stacks := (al_stacks a)
     [k := (al_stacks a ! k)\<lparr>st_size := st_size (al_stacks a ! k) - 1\<rparr>]\<rparr>"

definition push_stack :: "mem_allocator \<Rightarrow> nat \<Rightarrow> ptr \<Rightarrow> mem_allocator" where
  "push_stack a k p = (let s = al_stacks a ! k in a\<lparr>al_stacks := (al_stacks a)
     [k := s\<lparr>st_size := st_size s + 1, st_pointers := (st_pointers s)[unat (st_size s) := p]\<rparr>]\<rparr>)"

lemma pop_stack_spec:
  assumes shape: "alloc_shape h a" and k: "k < length (al_stacks a)"
    and pos: "0 < st_size (al_stacks a ! k)"
  defines "p \<equiv> st_pointers (al_stacks a ! k) ! (unat (st_size (al_stacks a ! k)) - 1)"
  shows "alloc_shape h (pop_stack a k)" and "al_live (pop_stack a k) = al_live a"
    and "al_items (pop_stack a k) = al_items a" and "al_blocks (pop_stack a k) = al_blocks a"
    and "\<exists>xs ys. al_frees a = xs @ p # ys \<and> al_frees (pop_stack a k) = xs @ ys"
proof -
  define s where "s = al_stacks a ! k"
  define s1 where "s1 = s\<lparr>st_size := st_size s - 1\<rparr>"
  have pop: "pop_stack a k = a\<lparr>al_stacks := (al_stacks a)[k := s1]\<rparr>"
    by (simp add: pop_stack_def s1_def s_def)
  note sk = stack_okD [OF shape k, folded s_def]
  have n1: "unat (st_size s - 1) = unat (st_size s) - 1"
    using pos by (simp add: s_def unat_minus_one word_neq_0_conv)
  have "stack_ok a k s1" using sk n1 by (simp add: stack_ok_def s1_def word_le_nat_alt)
  then show "alloc_shape h (pop_stack a k)"
    unfolding pop by (rule alloc_shape_update [OF shape k]) (simp add: s1_def s_def)
  show "al_live (pop_stack a k) = al_live a" and "al_items (pop_stack a k) = al_items a"
    unfolding pop by (rule al_views_pointers [OF k]; simp add: s1_def s_def)+
  show "al_blocks (pop_stack a k) = al_blocks a"
    unfolding pop by (rule al_blocks_update [OF k]) (simp add: s1_def s_def stack_blocks_def)
  have "stack_frees s = stack_frees s1 @ [p]"
    using take_pred [of "unat (st_size s)" "st_pointers s"] sk n1 pos
    by (simp add: s1_def p_def s_def word_less_nat_alt)
  then show "\<exists>xs ys. al_frees a = xs @ p # ys \<and> al_frees (pop_stack a k) = xs @ ys"
    unfolding pop al_frees_update [OF k] al_frees_split [OF k] s_def [symmetric]
    by (intro exI [of _ "concat (map stack_frees (take k (al_stacks a))) @ stack_frees s1"]
        exI [of _ "concat (map stack_frees (drop (Suc k) (al_stacks a)))"]) simp
qed

lemma push_stack_spec:
  assumes shape: "alloc_shape h a" and k: "k < length (al_stacks a)"
    and room: "st_size (al_stacks a ! k) < al_chunk_item_amount a"
  shows "alloc_shape h (push_stack a k p)" and "al_live (push_stack a k p) = al_live a"
    and "al_items (push_stack a k p) = al_items a" and "al_blocks (push_stack a k p) = al_blocks a"
    and "\<exists>xs ys. al_frees a = xs @ ys \<and> al_frees (push_stack a k p) = xs @ p # ys"
proof -
  define s where "s = al_stacks a ! k"
  define s1 where "s1 = s\<lparr>st_size := st_size s + 1, st_pointers := (st_pointers s)[unat (st_size s) := p]\<rparr>"
  have push: "push_stack a k p = a\<lparr>al_stacks := (al_stacks a)[k := s1]\<rparr>"
    by (simp add: push_stack_def s1_def s_def Let_def)
  note sk = stack_okD [OF shape k, folded s_def]
  have lt: "unat (st_size s) < chunk_amount_of a" using room by (simp add: s_def word_less_nat_alt)
  then have n1: "unat (st_size s + 1) = Suc (unat (st_size s))"
    using unsigned_less [of "al_chunk_item_amount a", where ?'a = nat] by (simp add: unat_word_ariths)
  have "stack_ok a k s1" using sk n1 lt by (simp add: stack_ok_def s1_def word_le_nat_alt)
  then show "alloc_shape h (push_stack a k p)"
    unfolding push by (rule alloc_shape_update [OF shape k]) (simp add: s1_def s_def)
  show "al_live (push_stack a k p) = al_live a" and "al_items (push_stack a k p) = al_items a"
    unfolding push by (rule al_views_pointers [OF k]; simp add: s1_def s_def)+
  show "al_blocks (push_stack a k p) = al_blocks a"
    unfolding push by (rule al_blocks_update [OF k]) (simp add: s1_def s_def stack_blocks_def)
  have "stack_frees s1 = stack_frees s @ [p]"
    using sk lt by (simp add: s1_def n1 take_Suc_conv_app_nth)
  then show "\<exists>xs ys. al_frees a = xs @ ys \<and> al_frees (push_stack a k p) = xs @ p # ys"
    unfolding push al_frees_update [OF k] al_frees_split [OF k] s_def [symmetric]
    by (intro exI [of _ "concat (map stack_frees (take k (al_stacks a))) @ stack_frees s"]
        exI [of _ "concat (map stack_frees (drop (Suc k) (al_stacks a)))"]) simp
qed

lemma allocate_from:
  assumes ok: "alloc_ok h a" and k: "k < length (al_stacks a)"
    and found: "find_free_pointer_stack a 1 = Inr (Some k, a\<lparr>al_occupied := 2 ^ k\<rparr>)"
    and pos: "0 < st_size (al_stacks a ! k)"
  shows "\<exists>p a'. allocator_allocate a h = Inr (p, a', h) \<and> alloc_ok h a' \<and>
     p \<in> al_items a - al_live a \<and> al_live a' = insert p (al_live a) \<and>
     al_items a' = al_items a \<and> Suc (length (al_frees a')) = length (al_frees a) \<and>
     length (al_stacks a') = length (al_stacks a) \<and> al_blocks a' = al_blocks a"
proof -
  define b where "b = a\<lparr>al_occupied := 2 ^ k\<rparr>"
  define p where "p = st_pointers (al_stacks a ! k) ! (unat (st_size (al_stacks a ! k)) - 1)"
  have b: "alloc_shape h b" "al_stacks b = al_stacks a" "al_live b = al_live a" "al_items b = al_items a"
    "al_frees b = al_frees a" "al_blocks b = al_blocks a" using ok by (simp_all add: b_def alloc_ok_def)
  note pop = pop_stack_spec [OF b(1), unfolded b, OF k pos, folded p_def]
  obtain xs ys where frees: "al_frees a = xs @ p # ys" "al_frees (pop_stack b k) = xs @ ys"
    using pop(5) by blast
  have free_set: "set (al_frees a) = al_items a - al_live a" and dist: "distinct (al_frees a)"
    using ok by (simp_all add: alloc_ok_def)
  have pnew: "p \<in> al_items a - al_live a" using frees free_set by auto
  from mark_item [OF pop(1), of p 1] pnew pop(3) obtain c where
    c: "set_memory_status (pop_stack b k) p 1 = Inr c" "alloc_shape h c"
      "al_live c = insert p (al_live a)" "al_items c = al_items a" "al_frees c = xs @ ys"
      "al_occupied c = 2 ^ k" "length (al_stacks c) = length (al_stacks a)"
      "al_blocks c = al_blocks a"
    using pop(2,4) frees by (auto simp: b_def pop_stack_def)
  have "\<not> length (st_pointers (al_stacks a ! k)) \<le> unat (st_size (al_stacks a ! k)) - 1"
    using stack_okD [OF b(1), unfolded b, OF k] pos by (simp add: b_def word_less_nat_alt)
  moreover have "free_stack_lock (al_stacks c ! k) c = Inr (c\<lparr>al_occupied := 0\<rparr>)"
    using c k by (intro unlock_found [OF c(2)]) auto
  ultimately have run: "allocator_allocate a h = Inr (p, c\<lparr>al_occupied := 0\<rparr>, h)"
    using found c(1)
    by (subst allocator_allocate.simps) (simp add: Let_def p_def b_def pop_stack_def)
  have "alloc_ok h (c\<lparr>al_occupied := 0\<rparr>)"
    using c dist free_set frees by (auto simp: alloc_ok_def)
  then show ?thesis using run pnew c frees by auto
qed

lemma al_items_image:
  "al_items a = (\<lambda>(k, i). item_addr a (al_stacks a ! k) i) `
     ({..<length (al_stacks a)} \<times> {..<chunk_amount_of a})"
  by (auto simp: al_items_iff image_iff) blast+

lemma card_al_items: "alloc_shape h a \<Longrightarrow> card (al_items a) = length (al_stacks a) * chunk_amount_of a"
  unfolding al_items_image
  by (subst card_image) (auto simp: inj_on_def dest: item_addr_inj)

lemma finite_al_items [simp]: "finite (al_items a)"
  by (simp add: al_items_image)

lemma al_live_subset: "al_live a \<subseteq> al_items a"
  by (auto simp: al_live_def al_items_def)

lemma length_al_frees: "alloc_ok h a \<Longrightarrow> length (al_frees a) + card (al_live a) = card (al_items a)"
  using al_live_subset [of a]
  by (metis alloc_ok_def card_Diff_subset card_mono distinct_card finite_al_items finite_subset le_add_diff_inverse2)

lemma room_exists:
  assumes ok: "alloc_ok h a" and p: "p \<in> al_live a"
  shows "\<exists>k < length (al_stacks a). st_size (al_stacks a ! k) < al_chunk_item_amount a"
proof (rule ccontr)
  assume full: "\<not> ?thesis"
  have shape: "alloc_shape h a" using ok by (simp add: alloc_ok_def)
  have "length (stack_frees s) = chunk_amount_of a" if "s \<in> set (al_stacks a)" for s
    using that full stack_okD [OF shape] by (fastforce simp: in_set_conv_nth word_less_nat_alt)
  then have "map length (map stack_frees (al_stacks a)) =
      map (\<lambda>_. chunk_amount_of a) (al_stacks a)" by simp
  then have "length (al_frees a) = card (al_items a)"
    by (simp only: al_frees_def length_concat card_al_items [OF shape]) (simp add: sum_list_triv)
  with length_al_frees [OF ok] have "card (al_live a) = 0" by simp
  with p show False by (metis al_live_subset card_0_eq empty_iff finite_al_items finite_subset)
qed

lemma find_first:
  assumes "k < n" and "P k"
  shows "\<exists>j < n. List.find P [0..<n] = Some j \<and> P j"
proof -
  have "List.find P [0..<n] \<noteq> None" using assms by (auto simp: find_None_iff)
  then obtain j where j: "List.find P [0..<n] = Some j" by blast
  then have "j < n \<and> P j" by (auto simp: find_Some_iff)
  with j show ?thesis by blast
qed

lemma allocate_ok:
  assumes ok: "alloc_ok h a" and free: "al_frees a \<noteq> []"
  shows "\<exists>p a'. allocator_allocate a h = Inr (p, a', h) \<and> alloc_ok h a' \<and>
     p \<in> al_items a - al_live a \<and> al_live a' = insert p (al_live a) \<and>
     al_items a' = al_items a \<and> Suc (length (al_frees a')) = length (al_frees a) \<and>
     length (al_stacks a') = length (al_stacks a) \<and> al_blocks a' = al_blocks a"
proof -
  have shape: "alloc_shape h a" using ok by (simp add: alloc_ok_def)
  from free obtain k where k: "k < length (al_stacks a)" "stack_frees (al_stacks a ! k) \<noteq> []"
    by (auto simp: al_frees_def concat_eq_Nil_conv in_set_conv_nth)
  let ?P = "\<lambda>i. valid_size a 1 (al_stacks a ! i)"
  have P: "?P i \<longleftrightarrow> 0 < st_size (al_stacks a ! i)" if "i < length (al_stacks a)" for i
    using stack_okD(3) [OF shape that] by (auto simp: valid_size_def word_le_nat_alt)
  from k have "?P k" using P [OF k(1)] by (auto simp: word_less_nat_alt)
  from find_first [of k _ ?P, OF k(1) this] obtain j where
    j: "j < length (al_stacks a)" "List.find ?P [0..<length (al_stacks a)] = Some j" "?P j" by blast
  have "find_free_pointer_stack a 1 = Inr (Some j, a\<lparr>al_occupied := 2 ^ j\<rparr>)"
    using find_free_pointer_stack_spec [OF ok, of 1] j(2) by simp
  from allocate_from [OF ok j(1) this] P [OF j(1)] j(3) show ?thesis by blast
qed

lemma free_ok:
  assumes ok: "alloc_ok h a" and p: "p \<in> al_live a"
  shows "\<exists>a'. allocator_free a p h = Inr (a', h) \<and> alloc_ok h a' \<and>
     al_live a' = al_live a - {p} \<and> al_items a' = al_items a \<and>
     length (al_frees a') = Suc (length (al_frees a)) \<and>
     length (al_stacks a') = length (al_stacks a) \<and> al_blocks a' = al_blocks a"
proof -
  have shape: "alloc_shape h a" and free_set: "set (al_frees a) = al_items a - al_live a"
    and dist: "distinct (al_frees a)" using ok by (simp_all add: alloc_ok_def)
  have item: "p \<in> al_items a" using p al_live_subset by blast
  have live: "is_already_free a p = Inr False"
    using p is_already_free_spec [OF shape] by (auto simp: al_live_iff)
  let ?P = "\<lambda>i. valid_size a 0 (al_stacks a ! i)"
  from room_exists [OF ok p] obtain k0 where "k0 < length (al_stacks a)" "?P k0"
    by (auto simp: valid_size_def)
  from find_first [of k0 _ ?P, OF this] obtain k where
    k: "k < length (al_stacks a)" "List.find ?P [0..<length (al_stacks a)] = Some k" "?P k" by blast
  define b where "b = a\<lparr>al_occupied := 2 ^ k\<rparr>"
  have found: "find_free_pointer_stack a 0 = Inr (Some k, b)"
    using find_free_pointer_stack_spec [OF ok, of 0] k(2) by (simp add: b_def)
  have room: "st_size (al_stacks a ! k) < al_chunk_item_amount a" using k(3) by (simp add: valid_size_def)
  have b: "alloc_shape h b" "al_stacks b = al_stacks a" "al_live b = al_live a" "al_items b = al_items a"
    "al_frees b = al_frees a" "al_blocks b = al_blocks a" "al_chunk_item_amount b = al_chunk_item_amount a"
    using shape by (simp_all add: b_def)
  note push = push_stack_spec [OF b(1), unfolded b, OF k(1) room, of p]
  obtain xs ys where frees: "al_frees a = xs @ ys" "al_frees (push_stack b k p) = xs @ p # ys"
    using push(5) by blast
  from mark_item [OF push(1), of p 0] item push(3) obtain c where
    c: "set_memory_status (push_stack b k p) p 0 = Inr c" "alloc_shape h c"
      "al_live c = al_live a - {p}" "al_items c = al_items a" "al_frees c = xs @ p # ys"
      "al_occupied c = 2 ^ k" "length (al_stacks c) = length (al_stacks a)"
      "al_blocks c = al_blocks a"
    using push(2,4) frees by (auto simp: b_def push_stack_def Let_def)
  have "\<not> length (st_pointers (al_stacks a ! k)) \<le> unat (st_size (al_stacks a ! k))"
    using stack_okD(4) [OF shape k(1)] room by (simp add: word_less_nat_alt)
  moreover have "free_stack_lock (al_stacks c ! k) c = Inr (c\<lparr>al_occupied := 0\<rparr>)"
    using c k by (intro unlock_found [OF c(2)]) auto
  ultimately have run: "allocator_free a p h = Inr (c\<lparr>al_occupied := 0\<rparr>, h)"
    using found c(1) live
    by (subst allocator_free.simps) (simp add: Let_def b_def push_stack_def)
  have "alloc_ok h (c\<lparr>al_occupied := 0\<rparr>)"
    using c dist free_set frees p item by (auto simp: alloc_ok_def)
  then show ?thesis using run c frees by auto
qed

lemma double_free_caught:
  assumes "alloc_ok h a" and "p \<in> al_items a - al_live a"
  shows "allocator_free a p h = Inl Exit_Failure"
proof -
  have shape: "alloc_shape h a" using assms(1) by (simp add: alloc_ok_def)
  from assms(2) have "is_already_free a p = Inr True"
    using is_already_free_spec [OF shape] by (auto simp: al_items_iff al_live_iff)
  then show ?thesis by (subst allocator_free.simps) simp
qed

section \<open>Growing\<close>

definition stack_cost :: "nat \<Rightarrow> nat \<Rightarrow> nat" where
  "stack_cost item_size n = item_size * n + 8 * n + 32 + (n div 8 + 1)"

lemma div8_plus1: "unat (n div 8 + 1 :: u32) = unat n div 8 + 1"
proof -
  have "unat n div 8 + 1 < 2 ^ 32" using unsigned_less [of n, where ?'a = nat] by simp
  then show ?thesis by (simp add: unat_word_ariths unat_div)
qed

lemma slab_item_range:
  assumes "i < unat (n :: u32)" and "0 < unat isz"
  shows "b + i * unat isz < b + unat isz * unat n"
proof -
  have "i * unat isz < unat n * unat isz" by (rule mult_strict_right_mono [OF assms])
  then show ?thesis by (simp only: mult.commute add_less_cancel_left)
qed

lemma make_stack_spec:
  assumes pos: "0 < isz" "0 < n" and fit: "unat isz * unat n < 2 ^ 32"
    and room: "heap_room (stack_cost (unat isz) (unat n)) h" and hok: "heap_ok h"
  shows "\<exists>s h'. make_stack isz n idx h = Inr (s, h') \<and> heap_ok h' \<and> heap_grows h h' \<and>
     st_data s = brk h \<and> brk h + unat isz * unat n \<le> brk h' \<and> st_index s = idx \<and> st_size s = n \<and>
     st_pointers s = map (\<lambda>i. brk h + i * unat isz) [0..<unat n] \<and>
     st_ptr_status s = replicate (unat n div 8 + 1) 0"
proof -
  have n: "0 < unat n" "0 < unat isz" using pos by (simp_all add: word_less_nat_alt)
  have wrap: "unat (isz * n) = unat isz * unat n" using fit by (simp add: unat_word_ariths)
  have "unat (of_nat i * isz) = i * unat isz" if "i < unat n" for i
  proof -
    have "i * unat isz < 2 ^ 32"
      using order_less_trans [OF slab_item_range [OF that n(2), of 0, unfolded add_0] fit] .
    then show ?thesis using that unsigned_less [of n, where ?'a = nat]
      by (simp add: unat_word_ariths unat_of_nat)
  qed
  then have ptrs: "slab_pointers (brk h) isz n = map (\<lambda>i. brk h + i * unat isz) [0..<unat n]"
    by (simp add: slab_pointers_def)
  let ?k0 = "stack_cost (unat isz) (unat n)"
  let ?k1 = "8 * unat n + 32 + (unat n div 8 + 1)"
  obtain h1 where h1: "malloc (unat isz * unat n) h = (Some (brk h), h1)" "heap_room ?k1 h1"
    using malloc_room [OF room, of "unat isz * unat n"] n
    by (auto simp: stack_cost_def max_def Suc_le_eq split: if_splits)
  obtain h2 where h2: "malloc (unat n * 8) h1 = (Some (brk h1), h2)" "heap_room (32 + (unat n div 8 + 1)) h2"
    using malloc_room [OF h1(2), of "unat n * 8"] n by (auto simp: max_def Suc_le_eq split: if_splits)
  obtain h3 where h3: "malloc 32 h2 = (Some (brk h2), h3)" "heap_room (unat n div 8 + 1) h3"
    using malloc_room [OF h2(2), of 32] by auto
  obtain h4 where h4: "malloc (unat n div 8 + 1) h3 = (Some (brk h3), h4)"
    using malloc_room [OF h3(2), of "unat n div 8 + 1"] by auto
  have oks: "heap_ok h1" "heap_ok h2" "heap_ok h3" "heap_ok h4"
    using malloc_heap_ok [OF hok h1(1)] malloc_heap_ok [OF _ h2(1)] malloc_heap_ok [OF _ h3(1)]
      malloc_heap_ok [OF _ h4] by auto
  have "heap_grows h h1" "heap_grows h1 h4"
    using malloc_grows [OF hok h1(1)] malloc_grows [OF oks(1) h2(1)] malloc_grows [OF oks(2) h3(1)]
      malloc_grows [OF oks(3) h4] heap_grows_trans by blast+
  moreover have "brk h + unat isz * unat n \<le> brk h1" using malloc_SomeD(2) [OF h1(1)] by simp
  ultimately show ?thesis
    using h1(1) h2(1) h3(1) h4 oks(4) heap_grows_trans [of h h1 h4]
    by (auto simp: make_stack_def wrap div8_plus1 ptrs heap_grows_def)
qed


lemma alloc_ok_grows: "alloc_ok h a \<Longrightarrow> heap_grows h h' \<Longrightarrow> alloc_ok h' a"
  using order_trans [of _ "brk h" "brk h'"]
  unfolding alloc_ok_def alloc_shape_def heap_grows_def by blast

lemma stack_new_items:
  assumes "st_ptr_status s = replicate (chunk_amount_of a div 8 + 1) 0" and "i < chunk_amount_of a"
  shows "\<not> bits_get (st_ptr_status s) i"
  unfolding assms(1) using assms(2) by (intro bits_get_zero) (simp add: div_le_mono less_Suc_eq_le)

lemma create_new_stack_ok:
  assumes ok: "alloc_ok h a" and hok: "heap_ok h" and len: "length (al_stacks a) < 32"
    and room: "heap_room (stack_cost (unat (al_item_size a)) (chunk_amount_of a)) h"
  shows "\<exists>a' h'. create_new_stack a h = Inr (a', h') \<and> alloc_ok h' a' \<and> heap_ok h' \<and> heap_grows h h' \<and>
     al_live a' = al_live a \<and> al_items a \<subseteq> al_items a' \<and> al_frees a' \<noteq> [] \<and>
     length (al_stacks a') = Suc (length (al_stacks a))"
proof -
  let ?isz = "unat (al_item_size a)" and ?n = "chunk_amount_of a" and ?len = "length (al_stacks a)"
  have shape: "alloc_shape h a" using ok by (simp add: alloc_ok_def)
  then have pos: "0 < al_item_size a" "0 < al_chunk_item_amount a" "0 < ?isz" "0 < ?n"
    and fit: "?isz * ?n < 2 ^ 32" and cnt: "?len = unat (al_stacks_allocated a)"
    and below: "\<forall>s \<in> set (al_stacks a). st_data s + slab_bytes a \<le> brk h"
    by (auto simp: alloc_shape_def word_less_nat_alt)
  from make_stack_spec [OF pos(1,2) fit room hok] obtain s h' where
    mk: "make_stack (al_item_size a) (al_chunk_item_amount a) (al_stacks_allocated a) h = Inr (s, h')"
    and h': "heap_ok h'" "heap_grows h h'" "brk h + ?isz * ?n \<le> brk h'"
    and s: "st_data s = brk h" "st_index s = al_stacks_allocated a" "st_size s = al_chunk_item_amount a"
      "st_pointers s = map (\<lambda>i. brk h + i * ?isz) [0..<?n]"
      "st_ptr_status s = replicate (?n div 8 + 1) 0" by blast
  define a' where "a' = a\<lparr>al_stacks := al_stacks a @ [s], al_stacks_allocated := al_stacks_allocated a + 1\<rparr>"
  have run: "create_new_stack a h = Inr (a', h')"
    using mk shape len cnt by (simp add: create_new_stack_def alloc_shape_def Let_def put_def a'_def)
  have live: "al_live a' = al_live a"
    using stack_new_items [OF s(5)] by (auto simp: al_live_def a'_def item_addr_def)
  have items: "al_items a' = al_items a \<union> set (st_pointers s)"
    using s(1) by (auto simp: al_items_def a'_def item_addr_def s(4)) metis
  have frees: "al_frees a' = al_frees a @ st_pointers s" by (simp add: al_frees_def a'_def s(3,4))
  have old: "p < brk h" if "p \<in> al_items a" for p
  proof -
    from that obtain s i where "s \<in> set (al_stacks a)" "i < ?n" "p = item_addr a s i"
      by (auto simp: al_items_def)
    with below item_in_stack(2) [OF fit pos(1), of i s] show ?thesis by fastforce
  qed
  have "distinct (st_pointers s)" using pos(3) by (simp add: s(4) distinct_map inj_on_def)
  moreover have new: "brk h \<le> p" if "p \<in> set (st_pointers s)" for p using that by (auto simp: s(4))
  moreover have free_set: "set (al_frees a) = al_items a - al_live a" and "distinct (al_frees a)"
    using ok by (simp_all add: alloc_ok_def)
  moreover have "set (st_pointers s) \<inter> al_items a = {}" using old new by fastforce
  ultimately have "distinct (al_frees a')" "set (al_frees a') = al_items a' - al_live a'"
    using al_live_subset [of a] by (auto simp: frees items live)
  moreover have "alloc_shape h' a'"
    using shape h' cnt len below s
    by (auto simp: alloc_shape_def a'_def stack_ok_def nth_append sorted_wrt_append less_Suc_eq
        heap_grows_def unat_word_ariths)
  moreover have "al_occupied a' = 0" using ok by (simp add: a'_def alloc_ok_def)
  ultimately show ?thesis
    using run h' live items frees pos(4) by (auto simp: alloc_ok_def s(4)) (simp add: a'_def)
qed

lemma allocate_grow:
  assumes ok: "alloc_ok h a" and hok: "heap_ok h" and none: "al_frees a = []"
    and len: "length (al_stacks a) < 32"
    and room: "heap_room (stack_cost (unat (al_item_size a)) (chunk_amount_of a)) h"
  shows "\<exists>p a' h'. allocator_allocate a h = Inr (p, a', h') \<and> alloc_ok h' a' \<and> heap_ok h' \<and>
     heap_grows h h' \<and> p \<notin> al_live a \<and> al_live a' = insert p (al_live a)"
proof -
  have shape: "alloc_shape h a" using ok by (simp add: alloc_ok_def)
  have empty: "st_size (al_stacks a ! i) = 0" if "i < length (al_stacks a)" for i
  proof -
    have "stack_frees (al_stacks a ! i) = []"
      using none that by (auto simp: al_frees_def concat_eq_Nil_conv)
    then show ?thesis
      using stack_okD(3,4) [OF shape that] by (auto simp: unat_eq_0)
  qed
  have "List.find (\<lambda>i. valid_size a 1 (al_stacks a ! i)) [0..<length (al_stacks a)] = None"
    using empty by (auto simp: find_None_iff valid_size_def)
  then have found: "find_free_pointer_stack a 1 = Inr (None, a)"
    using find_free_pointer_stack_spec [OF ok, of 1] by simp
  from create_new_stack_ok [OF ok hok len room] obtain b h' where
    b: "create_new_stack a h = Inr (b, h')" "alloc_ok h' b" "heap_ok h'" "heap_grows h h'"
      "al_live b = al_live a" "al_frees b \<noteq> []" by blast
  from allocate_ok [OF b(2,6)] obtain p a' where
    a': "allocator_allocate b h' = Inr (p, a', h')" "alloc_ok h' a'" "p \<in> al_items b - al_live b"
      "al_live a' = insert p (al_live b)" by blast
  have "allocator_allocate a h = Inr (p, a', h')"
    using found b(1) a'(1) by (subst allocator_allocate.simps) simp
  with a' b show ?thesis by auto
qed

lemma allocator_create_ok:
  assumes pos: "0 < isz" "0 < n" and fit: "unat isz * unat n < 2 ^ 32"
    and room: "heap_room (stack_cost (unat isz) (unat n)) h" and hok: "heap_ok h"
  shows "\<exists>a h'. allocator_create isz n h = Inr (a, h') \<and> alloc_ok h' a \<and> heap_ok h' \<and> heap_grows h h' \<and>
     al_live a = {} \<and> length (al_frees a) = unat n \<and> al_item_size a = isz \<and> al_chunk_item_amount a = n"
proof -
  from make_stack_spec [OF pos fit room hok, of 0] obtain s h' where
    mk: "make_stack isz n 0 h = Inr (s, h')"
    and h': "heap_ok h'" "heap_grows h h'" "brk h + unat isz * unat n \<le> brk h'"
    and s: "st_data s = brk h" "st_index s = 0" "st_size s = n"
      "st_pointers s = map (\<lambda>i. brk h + i * unat isz) [0..<unat n]"
      "st_ptr_status s = replicate (unat n div 8 + 1) 0" by blast
  define a where "a = \<lparr>al_occupied = 0, al_stacks = [s], al_stacks_allocated = 1,
    al_item_size = isz, al_chunk_item_amount = n, al_creating_stack = STACK_CREATING_UNLOCKED\<rparr>"
  have run: "allocator_create isz n h = Inr (a, h')" using mk by (simp add: allocator_create_def a_def)
  have live: "al_live a = {}"
    using stack_new_items [of s a] s(5) by (auto simp: al_live_def a_def)
  have items: "al_items a = set (st_pointers s)"
    using s(1,4) by (auto simp: al_items_def a_def item_addr_def)
  have frees: "al_frees a = st_pointers s" by (simp add: al_frees_def a_def s(3,4))
  have "0 < unat isz" using pos by (simp add: word_less_nat_alt)
  then have "distinct (st_pointers s)" by (simp add: s(4) distinct_map inj_on_def)
  moreover have "alloc_shape h' a"
    using pos fit h'(3) s by (simp add: alloc_shape_def a_def stack_ok_def)
  ultimately have "alloc_ok h' a" by (simp add: alloc_ok_def live items frees) (simp add: a_def)
  then show ?thesis using run h' live frees s(4) by (auto simp: a_def)
qed

section \<open>Leak accounting\<close>

lemma takeWhile_less_upt: "takeWhile (\<lambda>i. i < c) [0..<k] = [0..<min k c]"
  by (induction k) (auto simp: takeWhile_append min_def not_less_eq_eq dest: le_antisym)

lemma leaked_in_byte_card:
  "leaked_in_byte n b m = card {j. j < 8 \<and> b * 8 + j < n \<and> bit m j}"
proof -
  have "length (filter (bit m) (takeWhile (\<lambda>bt. b * 8 + bt < n) [0..<8])) =
      card {j. j < 8 \<and> b * 8 + j < n \<and> bit m j}"
  proof -
    have eq: "takeWhile (\<lambda>bt. b * 8 + bt < n) [0..<8] = [0..<min 8 (n - b * 8)]"
      using takeWhile_less_upt [of "n - b * 8" 8] by (simp add: less_diff_conv add.commute)
    have "{j. j < 8 \<and> b * 8 + j < n \<and> bit m j} = set (filter (bit m) [0..<min 8 (n - b * 8)])"
      by auto
    then show ?thesis by (metis distinct_card distinct_filter distinct_upt eq)
  qed
  then show ?thesis by (auto simp: leaked_in_byte_def)
qed

lemma leaked_items_card: "leaked_items n st = card {i. i < n \<and> bits_get st i}"
proof -
  let ?B = "\<lambda>b. {j. j < 8 \<and> b * 8 + j < n \<and> bit (st ! b) j}"
  have "leaked_items n st = (\<Sum>b = 0..<n div 8 + 1. card (?B b))"
    by (simp add: leaked_items_def leaked_in_byte_card interv_sum_list_conv_sum_set_nat
        del: upt_Suc)
  also have "\<dots> = card (SIGMA b : {0..<n div 8 + 1}. ?B b)" by (simp add: card_SigmaI)
  also have "\<dots> = card {i. i < n \<and> bits_get st i}"
  proof (rule bij_betw_same_card)
    show "bij_betw (\<lambda>(b, j). b * 8 + j) (SIGMA b : {0..<n div 8 + 1}. ?B b) {i. i < n \<and> bits_get st i}"
      by (rule bij_betw_byWitness [where f' = "\<lambda>i. (i div 8, i mod 8)"])
        (auto simp: bits_get_def div_le_mono less_Suc_eq_le)
  qed
  finally show ?thesis .
qed

lemma card_al_live:
  assumes "alloc_shape h a"
  shows "card (al_live a) = (\<Sum>s \<leftarrow> al_stacks a. leaked_items (chunk_amount_of a) (st_ptr_status s))"
proof -
  let ?S = "\<lambda>k. {i. i < chunk_amount_of a \<and> bits_get (st_ptr_status (al_stacks a ! k)) i}"
  have "al_live a = (\<lambda>(k, i). item_addr a (al_stacks a ! k) i) ` (SIGMA k : {0..<length (al_stacks a)}. ?S k)"
    by (auto simp: al_live_iff image_iff Bex_def) blast+
  moreover have "inj_on (\<lambda>(k, i). item_addr a (al_stacks a ! k) i) (SIGMA k : {0..<length (al_stacks a)}. ?S k)"
    using assms by (auto simp: inj_on_def dest: item_addr_inj)
  ultimately have "card (al_live a) = (\<Sum>k = 0..<length (al_stacks a). card (?S k))"
    by (simp add: card_image card_SigmaI)
  also have "\<dots> = (\<Sum>s \<leftarrow> al_stacks a. leaked_items (chunk_amount_of a) (st_ptr_status s))"
    by (simp add: leaked_items_card sum_list_sum_nth)
  finally show ?thesis .
qed

lemma destroy_stacks_ok:
  assumes "distinct (concat (map stack_blocks ss))"
    and "set (concat (map stack_blocks ss)) \<subseteq> dom (blocks h)"
    and "\<forall>s \<in> set ss. chunk_amount_of a div 8 < length (st_ptr_status s)"
  shows "\<exists>h'. destroy_stacks a False ss c h =
     Inr (c\<lparr>items_leaked := items_leaked c + of_nat (\<Sum>s \<leftarrow> ss. leaked_items (chunk_amount_of a) (st_ptr_status s)),
            bytes_leaked := bytes_leaked c +
              of_nat (\<Sum>s \<leftarrow> ss. leaked_items (chunk_amount_of a) (st_ptr_status s)) * al_item_size a\<rparr>, h') \<and>
     blocks h' = (blocks h) |` (- set (concat (map stack_blocks ss)))"
  using assms
proof (induction ss arbitrary: c h)
  case Nil
  then show ?case by simp
next
  case (Cons s ss)
  let ?k = "leaked_items (chunk_amount_of a) (st_ptr_status s)"
  define c' where "c' = c\<lparr>items_leaked := items_leaked c + of_nat ?k,
    bytes_leaked := bytes_leaked c + of_nat ?k * al_item_size a\<rparr>"
  define h' where "h' = h\<lparr>blocks := (blocks h) |` (- set (stack_blocks s))\<rparr>"
  have count: "count_leaks a s c = Inr c'" using Cons.prems(3) by (simp add: count_leaks_def c'_def Let_def)
  have step: "destroy_stacks a False (s # ss) c h = destroy_stacks a False ss c' h'"
    using Cons.prems(1,2) count
    by (cases "st_status_at s")
      (auto simp: stack_blocks_def c_free_def h'_def restrict_map_def fun_upd_def
        intro!: arg_cong [where f = "\<lambda>b. destroy_stacks a False ss c' (h\<lparr>blocks := b\<rparr>)"])
  have "\<exists>h''. destroy_stacks a False ss c' h' =
     Inr (c'\<lparr>items_leaked := items_leaked c' + of_nat (\<Sum>s \<leftarrow> ss. leaked_items (chunk_amount_of a) (st_ptr_status s)),
            bytes_leaked := bytes_leaked c' +
              of_nat (\<Sum>s \<leftarrow> ss. leaked_items (chunk_amount_of a) (st_ptr_status s)) * al_item_size a\<rparr>, h'') \<and>
     blocks h'' = (blocks h') |` (- set (concat (map stack_blocks ss)))"
    using Cons.prems by (intro Cons.IH) (auto simp: h'_def)
  then show ?case
    unfolding step by (auto simp: c'_def h'_def algebra_simps restrict_restrict Int_commute)
qed

lemma make_stack_blocks:
  assumes "heap_ok h" and "make_stack isz n idx h = Inr (s, h')"
  shows "distinct (stack_blocks s)" and "set (stack_blocks s) \<subseteq> dom (blocks h')"
proof -
  from assms(2) obtain d h1 q h2 h3 st where m: "malloc (unat (isz * n)) h = (Some d, h1)"
    "malloc (unat n * 8) h1 = (Some q, h2)" "malloc 32 h2 = (Some (st_self s), h3)"
    "malloc (unat (n div 8 + 1)) h3 = (st, h')"
    "st_data s = d" "st_pointers_at s = q" "st_status_at s = st"
    by (auto simp: make_stack_def split: prod.splits option.splits)
  note m1 = malloc_SomeD [OF m(1)] and m2 = malloc_SomeD [OF m(2)] and m3 = malloc_SomeD [OF m(3)]
  have order: "st_data s < st_pointers_at s" "st_pointers_at s < st_self s" "st_self s < brk h3"
    using m1(1,2) m2(1,2) m3(1,2) m(5,6) by (simp_all add: less_max_iff_disj)
  have dom: "{st_data s, st_pointers_at s, st_self s} \<subseteq> dom (blocks h3)"
    using m1(3) m2(3) m3(3) m(5,6) by auto
  show "distinct (stack_blocks s)"
    using order m(4,7) by (cases st) (auto simp: stack_blocks_def dest: malloc_SomeD(1))
  show "set (stack_blocks s) \<subseteq> dom (blocks h')"
  proof (cases st)
    case None
    with m(4) have "h' = h3" by (auto dest: malloc_None)
    with None m(7) dom show ?thesis by (simp add: stack_blocks_def)
  next
    case (Some b)
    with m(4,7) dom malloc_SomeD(3) [of _ h3 b h'] show ?thesis by (auto simp: stack_blocks_def)
  qed
qed

section \<open>Properties\<close>

text \<open>
  C20. A pool hands out an item that is not in use, marks exactly that item used, and
  stays well formed: from the free stacks when they are not empty, and otherwise from a
  new slab while fewer than 32 stacks exist and the heap has room.
\<close>

theorem allocator_allocate_fresh:
  assumes "alloc_ok h a" and "heap_ok h"
    and "al_frees a \<noteq> [] \<or>
      length (al_stacks a) < 32 \<and> heap_room (stack_cost (unat (al_item_size a)) (chunk_amount_of a)) h"
  shows "\<exists>p a' h'. allocator_allocate a h = Inr (p, a', h') \<and> p \<notin> al_live a \<and>
    al_live a' = insert p (al_live a) \<and> alloc_ok h' a' \<and> heap_ok h' \<and> heap_grows h h'"
proof (cases "al_frees a = []")
  case True
  with assms allocate_grow [OF assms(1,2) True] show ?thesis by blast
next
  case False
  from allocate_ok [OF assms(1) False] obtain p a' where
    "allocator_allocate a h = Inr (p, a', h)" "alloc_ok h a'" "p \<notin> al_live a"
    "al_live a' = insert p (al_live a)" by blast
  with assms(2) show ?thesis by (intro exI [of _ p] exI [of _ a'] exI [of _ h]) simp
qed

abbreviation sample_heap :: heap where
  "sample_heap \<equiv> \<lparr>brk = 16, heap_limit = 1000000, blocks = Map.empty\<rparr>"

lemma sample_heap_ok: "heap_ok sample_heap" "heap_room 900000 sample_heap"
  by (simp_all add: heap_ok_def heap_room_def)

lemma sample_pool:
  "\<exists>a h. allocator_create 24 200 sample_heap = Inr (a, h) \<and> alloc_ok h a \<and> heap_ok h \<and>
     al_live a = {} \<and> length (al_frees a) = 200"
  using allocator_create_ok [of 24 200 sample_heap] sample_heap_ok
  by (auto simp: stack_cost_def heap_room_def)

theorem allocator_allocate_fresh_witness:
  "\<exists>a h p a' h'. allocator_create 24 200 sample_heap = Inr (a, h) \<and>
     allocator_allocate a h = Inr (p, a', h') \<and> al_live a = {} \<and> al_live a' = {p}"
proof -
  obtain a h where a: "allocator_create 24 200 sample_heap = Inr (a, h)" "alloc_ok h a" "heap_ok h"
    "al_live a = {}" "al_frees a \<noteq> []"
    using sample_pool by fastforce
  from allocator_allocate_fresh [OF a(2,3)] a(4,5) show ?thesis
    by (metis a(1))
qed

text \<open>
  C21. Releasing an item in use always succeeds without touching the heap, makes exactly
  that item available again, and a second release of the same item is caught: the run
  ends in \<open>exit(EXIT_FAILURE)\<close>.
\<close>

theorem allocator_free_once:
  assumes "alloc_ok h a" and "p \<in> al_live a"
  shows "\<exists>a'. allocator_free a p h = Inr (a', h) \<and> alloc_ok h a' \<and> al_live a' = al_live a - {p} \<and>
    length (al_frees a') = Suc (length (al_frees a)) \<and> allocator_free a' p h = Inl Exit_Failure"
proof -
  from free_ok [OF assms] obtain a' where
    a': "allocator_free a p h = Inr (a', h)" "alloc_ok h a'" "al_live a' = al_live a - {p}"
      "al_items a' = al_items a" "length (al_frees a') = Suc (length (al_frees a))" by blast
  have "p \<in> al_items a' - al_live a'" using assms(2) a' al_live_subset by auto
  with a' double_free_caught [OF a'(2)] show ?thesis by blast
qed

theorem allocator_free_once_witness:
  "\<exists>a h p a'. alloc_ok h a \<and> p \<in> al_live a \<and> allocator_free a p h = Inr (a', h) \<and>
     allocator_free a' p h = Inl Exit_Failure"
proof -
  obtain a h where a: "alloc_ok h a" "al_frees a \<noteq> []" using sample_pool by fastforce
  from allocate_ok [OF a] obtain p b where "alloc_ok h b" "p \<in> al_live b" by blast
  with allocator_free_once [OF this] show ?thesis by metis
qed

text \<open>
  The leak report is exact: destroying a pool with the check enabled adds the number
  of items still handed out to \<open>items_leaked\<close>, their bytes to \<open>bytes_leaked\<close> (both modulo
  \<open>2^32\<close>), and returns exactly the pool's heap blocks.
\<close>

theorem allocator_destroy_counts:
  assumes "alloc_ok h a" and "distinct (al_blocks a)" and "set (al_blocks a) \<subseteq> dom (blocks h)"
  shows "\<exists>h'. allocator_destroy a False c h =
     Inr (c\<lparr>items_leaked := items_leaked c + of_nat (card (al_live a)),
            bytes_leaked := bytes_leaked c + of_nat (card (al_live a)) * al_item_size a\<rparr>, h') \<and>
     blocks h' = (blocks h) |` (- set (al_blocks a))"
proof -
  have shape: "alloc_shape h a" using assms(1) by (simp add: alloc_ok_def)
  then have len: "length (al_stacks a) = unat (al_stacks_allocated a)" by (simp add: alloc_shape_def)
  have "\<forall>s \<in> set (al_stacks a). chunk_amount_of a div 8 < length (st_ptr_status s)"
    using stack_okD(5) [OF shape] by (auto simp: in_set_conv_nth)
  from destroy_stacks_ok [OF assms(2,3) [unfolded al_blocks_def] this, of c] show ?thesis
    by (simp add: allocator_destroy_def len card_al_live [OF shape] al_blocks_def)
qed

theorem allocator_destroy_counts_witness:
  "\<exists>a h h'. allocator_create 24 200 sample_heap = Inr (a, h) \<and>
     allocator_destroy a False \<lparr>items_leaked = 0, bytes_leaked = 0\<rparr> h =
       Inr (\<lparr>items_leaked = 0, bytes_leaked = 0\<rparr>, h')"
proof -
  obtain a h where a: "allocator_create 24 200 sample_heap = Inr (a, h)" "alloc_ok h a" "al_live a = {}"
    using sample_pool by blast
  then obtain s where s: "make_stack 24 200 0 sample_heap = Inr (s, h)" "al_stacks a = [s]"
    by (auto simp: allocator_create_def res_simps)
  have "distinct (al_blocks a)" "set (al_blocks a) \<subseteq> dom (blocks h)"
    using make_stack_blocks [OF sample_heap_ok(1) s(1)] by (simp_all add: al_blocks_def s(2))
  from allocator_destroy_counts [OF a(2) this, of "\<lparr>items_leaked = 0, bytes_leaked = 0\<rparr>"] a
  show ?thesis by auto
qed

text \<open>
  What releasing the lock of stack \<open>i\<close> does to the lock word: \<open>~(1u << i)\<close> is a 32-bit
  value, so besides bit \<open>i\<close> every bit from 32 on is cleared.
\<close>

lemma lock_mask_bits: "i < 32 \<Longrightarrow> w AND lock_mask i = take_bit 32 (unset_bit i w)"
  by (rule bit_word_eqI)
    (auto simp: lock_mask_def bit_and_iff bit_ucast_iff bit_not_iff bit_mask bit_take_bit_iff
      bit_unset_bit_iff)

end
