(* ===== verification/Swift_Pools.thy ===== *)
theory Swift_Pools
  imports Swift_Allocator
begin

text \<open>
  The library's memory as one state: the C heap and the named pools that
  \<open>src/initialize_swiftnet.c\<close> creates globally and
  \<open>construct_server\<close>/\<open>construct_client_connection\<close> create per connection. The contract
  every pool offers its clients is the locale \<open>item_pool\<close>; it is interpreted on the
  allocator itself and on each named pool.
\<close>

section \<open>The contract of a pool\<close>

primrec allocate_n :: "('s \<Rightarrow> (ptr \<times> 's) res) \<Rightarrow> nat \<Rightarrow> 's \<Rightarrow> (ptr list \<times> 's) res" where
  "allocate_n allocate 0 s = Inr ([], s)"
| "allocate_n allocate (Suc n) s =
     rbind (allocate s) (\<lambda>(p, s'). rbind (allocate_n allocate n s') (\<lambda>(ps, s''). Inr (p # ps, s'')))"

locale item_pool =
  fixes ok :: "'s \<Rightarrow> bool"
    and live :: "'s \<Rightarrow> ptr set"
    and avail :: "'s \<Rightarrow> nat"
    and allocate :: "'s \<Rightarrow> (ptr \<times> 's) res"
    and release :: "ptr \<Rightarrow> 's \<Rightarrow> 's res"
  assumes allocate_spec: "ok s \<Longrightarrow> 0 < avail s \<Longrightarrow>
      \<exists>p s'. allocate s = Inr (p, s') \<and> ok s' \<and> p \<notin> live s \<and> live s' = insert p (live s) \<and>
        Suc (avail s') = avail s"
    and release_spec: "ok s \<Longrightarrow> p \<in> live s \<Longrightarrow>
      \<exists>s'. release p s = Inr s' \<and> ok s' \<and> live s' = live s - {p} \<and> avail s' = Suc (avail s)"
begin

lemma allocateE:
  assumes "ok s" and "0 < avail s"
  obtains p s' where "allocate s = Inr (p, s')" "ok s'" "p \<notin> live s" "live s' = insert p (live s)"
    "Suc (avail s') = avail s"
  using allocate_spec [OF assms] by blast

lemma releaseE:
  assumes "ok s" and "p \<in> live s"
  obtains s' where "release p s = Inr s'" "ok s'" "live s' = live s - {p}" "avail s' = Suc (avail s)"
  using release_spec [OF assms] by blast

lemma allocate_n_distinct:
  assumes "ok s" and "n \<le> avail s"
  shows "\<exists>ps s'. allocate_n allocate n s = Inr (ps, s') \<and> ok s' \<and> length ps = n \<and> distinct ps \<and>
     set ps \<inter> live s = {} \<and> live s' = live s \<union> set ps \<and> avail s' + n = avail s"
  using assms
proof (induction n arbitrary: s)
  case 0
  then show ?case by simp
next
  case (Suc n)
  then obtain p s1 where p: "allocate s = Inr (p, s1)" "ok s1" "p \<notin> live s" "live s1 = insert p (live s)"
    "Suc (avail s1) = avail s" by (auto elim: allocateE)
  from Suc.IH [of s1] p Suc.prems obtain ps s2 where
    "allocate_n allocate n s1 = Inr (ps, s2)" "ok s2" "length ps = n" "distinct ps"
    "set ps \<inter> live s1 = {}" "live s2 = live s1 \<union> set ps" "avail s2 + n = avail s1" by auto
  with p show ?case by auto
qed

lemma release_after_allocate:
  assumes "ok s" and "allocate s = Inr (p, s')" and "0 < avail s"
  shows "\<exists>s''. release p s' = Inr s'' \<and> ok s'' \<and> live s'' = live s \<and> avail s'' = avail s"
proof -
  from assms obtain "ok s'" "p \<notin> live s" "live s' = insert p (live s)" "Suc (avail s') = avail s"
    by (metis Inr_inject Pair_inject allocate_spec)
  with release_spec [of s' p] show ?thesis by auto
qed

end

text \<open>One allocator with its heap meets the contract.\<close>

abbreviation alloc_step :: "mem_allocator \<times> heap \<Rightarrow> (ptr \<times> mem_allocator \<times> heap) res" where
  "alloc_step s \<equiv> allocator_allocate (fst s) (snd s)"

interpretation allocator_pool: item_pool
  "\<lambda>s. alloc_ok (snd s) (fst s)" "\<lambda>s. al_live (fst s)" "\<lambda>s. length (al_frees (fst s))"
  "\<lambda>s. alloc_step s" "\<lambda>p s. allocator_free (fst s) p (snd s)"
proof (unfold_locales, goal_cases)
  case (1 s)
  then show ?case using allocate_ok [of "snd s" "fst s"] by fastforce
next
  case (2 s p)
  then show ?case using free_ok [of "snd s" "fst s" p] by fastforce
qed

section \<open>Named pools\<close>

datatype pool_id =
    Packet_queue_node_pool
  | Packet_callback_queue_node_pool
  | Server_packet_data_pool
  | Client_packet_data_pool
  | Packet_buffer_pool
  | Server_pool
  | Client_connection_pool
  | Listener_pool
  | Hashmap_item_pool
  | Uint16_pool
  | Pending_message_key_pool
  | Packet_completed_key_pool
  | Requests_sent_pool
  | Pending_messages_pool
  | Packets_sending_pool
  | Packets_completed_pool

record env =
  c_heap :: heap
  pool :: "pool_id \<Rightarrow> mem_allocator"

definition pool_allocate :: "pool_id \<Rightarrow> env \<Rightarrow> (ptr \<times> env) res" where
  "pool_allocate i e =
     rbind (allocator_allocate (pool e i) (c_heap e))
       (\<lambda>(p, a, h). Inr (p, e\<lparr>c_heap := h, pool := (pool e)(i := a)\<rparr>))"

definition pool_free :: "pool_id \<Rightarrow> ptr \<Rightarrow> env \<Rightarrow> env res" where
  "pool_free i p e =
     rbind (allocator_free (pool e i) p (c_heap e))
       (\<lambda>(a, h). Inr (e\<lparr>c_heap := h, pool := (pool e)(i := a)\<rparr>))"

definition env_malloc :: "nat \<Rightarrow> env \<Rightarrow> ptr option \<times> env" where
  "env_malloc n e = (case malloc n (c_heap e) of (r, h) \<Rightarrow> (r, e\<lparr>c_heap := h\<rparr>))"

definition env_free :: "ptr option \<Rightarrow> env \<Rightarrow> env res" where
  "env_free q e = rbind (c_free q (c_heap e)) (\<lambda>h. Inr (e\<lparr>c_heap := h\<rparr>))"

definition env_ok :: "env \<Rightarrow> bool" where
  "env_ok e \<longleftrightarrow> heap_ok (c_heap e) \<and> (\<forall>i. alloc_ok (c_heap e) (pool e i))"

abbreviation pool_live :: "env \<Rightarrow> pool_id \<Rightarrow> ptr set" where
  "pool_live e i \<equiv> al_live (pool e i)"

abbreviation pool_avail :: "env \<Rightarrow> pool_id \<Rightarrow> nat" where
  "pool_avail e i \<equiv> length (al_frees (pool e i))"

text \<open>What an operation on pool \<open>i\<close> leaves alone: the other pools and the heap.\<close>

definition same_except :: "pool_id set \<Rightarrow> env \<Rightarrow> env \<Rightarrow> bool" where
  "same_except I e e' \<longleftrightarrow> c_heap e' = c_heap e \<and> (\<forall>i. i \<notin> I \<longrightarrow> pool e' i = pool e i)"

lemma same_except_refl [simp]: "same_except I e e"
  by (simp add: same_except_def)

lemma same_except_trans [trans]: "same_except I e1 e2 \<Longrightarrow> same_except I e2 e3 \<Longrightarrow> same_except I e1 e3"
  by (simp add: same_except_def)

lemma same_except_mono: "same_except I e e' \<Longrightarrow> I \<subseteq> J \<Longrightarrow> same_except J e e'"
  by (auto simp: same_except_def)

lemma pool_allocate_ok:
  assumes "env_ok e" and "0 < pool_avail e i"
  shows "\<exists>p e'. pool_allocate i e = Inr (p, e') \<and> env_ok e' \<and> p \<notin> pool_live e i \<and>
     pool_live e' i = insert p (pool_live e i) \<and> Suc (pool_avail e' i) = pool_avail e i \<and>
     same_except {i} e e'"
proof -
  have ok: "alloc_ok (c_heap e) (pool e i)" and free: "al_frees (pool e i) \<noteq> []"
    using assms by (auto simp: env_ok_def)
  from allocate_ok [OF this] obtain p a where a: "allocator_allocate (pool e i) (c_heap e) = Inr (p, a, c_heap e)"
    "alloc_ok (c_heap e) a" "p \<notin> pool_live e i" "al_live a = insert p (pool_live e i)"
    "Suc (length (al_frees a)) = pool_avail e i" by blast
  define e' where "e' = e\<lparr>pool := (pool e)(i := a)\<rparr>"
  have "pool_allocate i e = Inr (p, e')" using a(1) by (simp add: pool_allocate_def e'_def)
  moreover have "env_ok e'" using assms(1) a(2) by (simp add: env_ok_def e'_def)
  moreover have "same_except {i} e e'" by (simp add: same_except_def e'_def)
  ultimately show ?thesis using a by (auto simp: e'_def)
qed

lemma pool_free_ok:
  assumes "env_ok e" and "p \<in> pool_live e i"
  shows "\<exists>e'. pool_free i p e = Inr e' \<and> env_ok e' \<and> pool_live e' i = pool_live e i - {p} \<and>
     pool_avail e' i = Suc (pool_avail e i) \<and> same_except {i} e e'"
proof -
  have "alloc_ok (c_heap e) (pool e i)" using assms by (auto simp: env_ok_def)
  from free_ok [OF this assms(2)] obtain a where a: "allocator_free (pool e i) p (c_heap e) = Inr (a, c_heap e)"
    "alloc_ok (c_heap e) a" "al_live a = pool_live e i - {p}" "length (al_frees a) = Suc (pool_avail e i)" by blast
  define e' where "e' = e\<lparr>pool := (pool e)(i := a)\<rparr>"
  have "pool_free i p e = Inr e'" using a(1) by (simp add: pool_free_def e'_def)
  moreover have "env_ok e'" using assms(1) a(2) by (simp add: env_ok_def e'_def)
  moreover have "same_except {i} e e'" by (simp add: same_except_def e'_def)
  ultimately show ?thesis using a by (auto simp: e'_def)
qed

interpretation named_pool: item_pool
  env_ok "\<lambda>e. pool_live e i" "\<lambda>e. pool_avail e i" "pool_allocate i" "pool_free i" for i
  by unfold_locales (use pool_allocate_ok pool_free_ok in blast)+

lemma env_ok_malloc:
  assumes "env_ok e" and "env_malloc n e = (r, e')"
  shows "env_ok e'" and "pool e' = pool e"
  using assms malloc_heap_ok [of "c_heap e" n] malloc_grows [of "c_heap e" n]
  by (auto simp: env_ok_def env_malloc_def split: prod.splits) (metis alloc_ok_grows)

lemma env_ok_free:
  assumes "env_ok e" and "env_free q e = Inr e'"
  shows "env_ok e'" and "pool e' = pool e"
proof -
  from assms(2) obtain h where h: "c_free q (c_heap e) = Inr h" "e' = e\<lparr>c_heap := h\<rparr>"
    by (auto simp: env_free_def res_simps)
  have "alloc_ok h a" if "alloc_ok (c_heap e) a" for a
    using that unfolding alloc_ok_def alloc_shape_def c_free_brk [OF h(1)] .
  with assms(1) h c_free_heap_ok [OF _ h(1)] show "env_ok e'" by (simp add: env_ok_def)
  show "pool e' = pool e" using h by simp
qed

lemma env_malloc_room:
  assumes "env_ok e" and "heap_room k (c_heap e)" and "max 1 n \<le> k"
  shows "\<exists>p e'. env_malloc n e = (Some p, e') \<and> env_ok e' \<and> pool e' = pool e \<and> heap_room (k - max 1 n) (c_heap e') \<and>
     p \<notin> dom (blocks (c_heap e)) \<and> dom (blocks (c_heap e')) = insert p (dom (blocks (c_heap e)))"
proof -
  from malloc_room [OF assms(2,3)] obtain h where
    h: "malloc n (c_heap e) = (Some (brk (c_heap e)), h)" "heap_room (k - max 1 n) h" by blast
  then have m: "env_malloc n e = (Some (brk (c_heap e)), e\<lparr>c_heap := h\<rparr>)" by (simp add: env_malloc_def)
  have "brk (c_heap e) \<notin> dom (blocks (c_heap e))"
    using assms(1) by (fastforce simp: env_ok_def heap_ok_def)
  with m h env_ok_malloc [OF assms(1) m] malloc_SomeD(3) [OF h(1)] show ?thesis by simp
qed

lemma env_free_block:
  assumes "env_ok e" and "p \<in> dom (blocks (c_heap e))"
  shows "\<exists>e'. env_free (Some p) e = Inr e' \<and> env_ok e' \<and> pool e' = pool e \<and>
     dom (blocks (c_heap e')) = dom (blocks (c_heap e)) - {p} \<and>
     (\<forall>k. heap_room k (c_heap e) \<longrightarrow> heap_room k (c_heap e'))"
proof -
  obtain e' where f: "env_free (Some p) e = Inr e'"
    and c: "c_heap e' = (c_heap e)\<lparr>blocks := (blocks (c_heap e))(p := None)\<rparr>"
    using assms(2) by (auto simp: env_free_def c_free_def)
  from env_ok_free [OF assms(1) f] f c show ?thesis by (auto simp: heap_room_def)
qed

text \<open>A memory with fresh pools and room to spare.\<close>

lemma sample_env:
  "\<exists>e. env_ok e \<and> (\<forall>i. pool_live e i = {} \<and> pool_avail e i = 200) \<and> heap_room 1000000 (c_heap e)"
proof -
  obtain a h where a: "alloc_ok h a" "heap_ok h" "al_live a = {}" "length (al_frees a) = 200"
    using sample_pool by blast
  define h' where "h' = h\<lparr>heap_limit := brk h + 1000000\<rparr>"
  have b: "brk h' = brk h" by (simp add: h'_def)
  have "alloc_ok h' a" using a(1) unfolding alloc_ok_def alloc_shape_def b .
  with a(2-4) show ?thesis
    by (intro exI [of _ "\<lparr>c_heap = h', pool = \<lambda>i. a\<rparr>"]) (simp add: env_ok_def h'_def heap_ok_def heap_room_def)
qed

section \<open>Properties\<close>

text \<open>
  A fresh pool of \<open>n\<close> items serves \<open>n\<close> allocations in a row with \<open>n\<close> different
  items, none of them in use before, and leaves none over.
\<close>

theorem pool_serves_chunk:
  assumes "heap_ok h" and "0 < item_size" and "0 < n" and "unat item_size * unat n < 2 ^ 32"
    and "heap_room (stack_cost (unat item_size) (unat n)) h"
  shows "\<exists>a h' ps s'. allocator_create item_size n h = Inr (a, h') \<and>
    allocate_n (\<lambda>s. allocator_allocate (fst s) (snd s)) (unat n) (a, h') = Inr (ps, s') \<and>
    distinct ps \<and> length ps = unat n \<and> al_live (fst s') = set ps \<and> al_frees (fst s') = []"
proof -
  from allocator_create_ok [OF assms(2-5,1)] obtain a h' where
    a: "allocator_create item_size n h = Inr (a, h')" "alloc_ok h' a" "al_live a = {}"
      "length (al_frees a) = unat n" by blast
  from allocator_pool.allocate_n_distinct [of "(a, h')" "unat n"] a
  obtain ps s' where "allocate_n (\<lambda>s. alloc_step s) (unat n) (a, h') = Inr (ps, s')"
    "length ps = unat n" "distinct ps" "al_live (fst s') = set ps"
    "length (al_frees (fst s')) + unat n = unat n" by auto
  with a(1) show ?thesis
    by (intro exI [of _ a] exI [of _ h'] exI [of _ ps] exI [of _ s']) simp
qed

theorem pool_serves_chunk_witness:
  "\<exists>a h' ps s'. allocator_create 24 200 sample_heap = Inr (a, h') \<and>
     allocate_n (\<lambda>s. allocator_allocate (fst s) (snd s)) 200 (a, h') = Inr (ps, s') \<and>
     distinct ps \<and> length ps = 200"
  using pool_serves_chunk [of sample_heap 24 200] sample_heap_ok
  by (auto simp: stack_cost_def heap_room_def)

end
