(* ===== verification/Swift_Hashmap.thy ===== *)
theory Swift_Hashmap
  imports Swift_Pools "HOL-Library.Multiset"
begin

text \<open>
  The hash map of \<open>src/internal/datatype_hashmap.c\<close>: an array of items, each the head of
  a chain linked by \<open>next\<close>, over the key and node pools. A bucket is its head item and
  the chain of pool nodes behind it, each with its address. A key is the address of its
  storage with the bytes stored there. An array that \<open>calloc\<close> failed to provide has no
  elements, and indexing it is a null dereference.
\<close>

section \<open>State\<close>

record 'v hm_item =
  key_original_data :: ptr
  key_bytes :: "u8 list"
  key_original_data_size :: u32
  hm_value :: "'v option"

type_synonym 'v hm_bucket = "'v hm_item \<times> (ptr \<times> 'v hm_item) list"

record 'v hashmap =
  hm_items_at :: "ptr option"
  hm_items :: "'v hm_bucket list"
  key_memory_allocator :: "pool_id option"
  item_occupation_at :: "ptr option"
  item_occupation :: "u32 list"
  hm_capacity :: u32
  hm_size :: u32

text \<open>An item as \<open>calloc\<close> leaves it.\<close>

definition null_item :: "'v hm_item" where
  "null_item = \<lparr>key_original_data = 0, key_bytes = [], key_original_data_size = 0, hm_value = None\<rparr>"

section \<open>Operations\<close>

definition hash64 :: "u64 \<Rightarrow> u8 list \<Rightarrow> u32 \<Rightarrow> u64" where
  "hash64 seed data data_size =
     fold (\<lambda>b res. (res XOR ucast b) * seed) (take (unat data_size) data) 0"

definition key_slot :: "u64 \<Rightarrow> u8 list \<Rightarrow> u32 \<Rightarrow> u32 \<Rightarrow> u32" where
  "key_slot seed key_data data_size capacity =
     ucast (drop_bit 64 (ucast (hash64 seed key_data data_size) * ucast capacity :: 128 word))"

definition get_key :: "u64 \<Rightarrow> u8 list \<Rightarrow> u32 \<Rightarrow> 'v hashmap \<Rightarrow> u32" where
  "get_key seed key_data data_size hm = key_slot seed key_data data_size (hm_capacity hm)"

text \<open>\<open>data_size == item->key_original_data_size && memcmp(...) == 0\<close>\<close>

definition key_matches :: "u8 list \<Rightarrow> u32 \<Rightarrow> 'v hm_item \<Rightarrow> bool" where
  "key_matches key_data data_size it \<longleftrightarrow>
     data_size = key_original_data_size it \<and>
     take (unat data_size) (key_bytes it) = take (unat data_size) key_data"

definition bucket_items :: "'v hm_bucket \<Rightarrow> 'v hm_item list" where
  "bucket_items b = fst b # map snd (snd b)"

definition occupation_words :: "u32 \<Rightarrow> u32" where
  "occupation_words capacity = (capacity + 31) div 32"

definition hashmap_calloc :: "u32 \<Rightarrow> 'v hashmap \<Rightarrow> env \<Rightarrow> 'v hashmap \<times> env" where
  "hashmap_calloc capacity hm e =
     (case env_malloc (32 * unat capacity) e of
        (items_at, e1) \<Rightarrow>
          (hm\<lparr>hm_items_at := items_at,
              hm_items := (if items_at = None then [] else replicate (unat capacity) (null_item, []))\<rparr>, e1))"

definition occupation_calloc :: "u32 \<Rightarrow> 'v hashmap \<Rightarrow> env \<Rightarrow> 'v hashmap \<times> env" where
  "occupation_calloc capacity hm e =
     (case env_malloc (4 * unat (occupation_words capacity)) e of
        (occ_at, e1) \<Rightarrow>
          (hm\<lparr>item_occupation_at := occ_at,
              item_occupation := (if occ_at = None then [] else replicate (unat (occupation_words capacity)) 0)\<rparr>, e1))"

abbreviation initial_capacity :: u32 where
  "initial_capacity \<equiv> 0x40 * 5"

definition hashmap_create :: "pool_id option \<Rightarrow> env \<Rightarrow> 'v hashmap \<times> env" where
  "hashmap_create key_pool e =
     (case hashmap_calloc initial_capacity
             \<lparr>hm_items_at = None, hm_items = [], key_memory_allocator = key_pool,
              item_occupation_at = None, item_occupation = [],
              hm_capacity = initial_capacity, hm_size = 0\<rparr> e of
        (hm, e1) \<Rightarrow> occupation_calloc initial_capacity hm e1)"

definition hashmap_get :: "u64 \<Rightarrow> u8 list \<Rightarrow> u32 \<Rightarrow> 'v hashmap \<Rightarrow> 'v option res" where
  "hashmap_get seed key_data data_size hm =
     (let key = unat (get_key seed key_data data_size hm)
      in if length (hm_items hm) \<le> key then Inl Null_Deref
         else Inr (case List.find (key_matches key_data data_size) (bucket_items (hm_items hm ! key)) of
                     None \<Rightarrow> None | Some it \<Rightarrow> hm_value it))"

text \<open>
  The insertion walk: stop at the first item without a value, or link a new node after
  the last one. The item written there always gets \<open>next = NULL\<close>.
\<close>

fun insert_chain ::
  "'v hm_item \<Rightarrow> (ptr \<times> 'v hm_item) list \<Rightarrow> env \<Rightarrow> ((ptr \<times> 'v hm_item) list \<times> env) res" where
  "insert_chain it [] e = rbind (pool_allocate Hashmap_item_pool e) (\<lambda>(p, e'). Inr ([(p, it)], e'))"
| "insert_chain it ((p, c) # cs) e =
     (if hm_value c = None then Inr ([(p, it)], e)
      else rbind (insert_chain it cs e) (\<lambda>(cs', e'). Inr ((p, c) # cs', e')))"

definition insert_bucket :: "'v hm_item \<Rightarrow> 'v hm_bucket \<Rightarrow> env \<Rightarrow> ('v hm_bucket \<times> env) res" where
  "insert_bucket it b e =
     (if hm_value (fst b) = None then Inr ((it, []), e)
      else rbind (insert_chain it (snd b) e) (\<lambda>(cs, e'). Inr ((fst b, cs), e')))"

definition occupy :: "nat \<Rightarrow> u32 \<Rightarrow> 'v hashmap \<Rightarrow> 'v hashmap res" where
  "occupy key m hm =
     (if length (item_occupation hm) \<le> key div 32 then Inl Null_Deref
      else Inr (hm\<lparr>item_occupation := (item_occupation hm)
                   [key div 32 := item_occupation hm ! (key div 32) OR m]\<rparr>))"

text \<open>
  Rehashing one item: its slot's occupation bit is set, and the item is copied to the
  head slot if that has no value, else to a new node behind the last of the chain.
\<close>

definition append_bucket :: "'v hm_item \<Rightarrow> 'v hm_bucket \<Rightarrow> env \<Rightarrow> ('v hm_bucket \<times> env) res" where
  "append_bucket it b e =
     (if hm_value (fst b) \<noteq> None
      then rbind (pool_allocate Hashmap_item_pool e) (\<lambda>(p, e'). Inr ((fst b, snd b @ [(p, it)]), e'))
      else Inr ((it, []), e))"

definition rehash_item :: "u64 \<Rightarrow> 'v hm_item \<Rightarrow> 'v hashmap \<Rightarrow> env \<Rightarrow> ('v hashmap \<times> env) res" where
  "rehash_item seed it hm e =
     (let new_key = unat (get_key seed (key_bytes it) (key_original_data_size it) hm)
      in rbind (occupy new_key (push_bit (new_key mod 32) 1) hm)
           (\<lambda>hm1. if length (hm_items hm1) \<le> new_key then Inl Null_Deref
                  else rbind (append_bucket it (hm_items hm1 ! new_key) e)
                         (\<lambda>(b, e'). Inr (hm1\<lparr>hm_items := (hm_items hm1)[new_key := b]\<rparr>, e'))))"

primrec rehash_items :: "u64 \<Rightarrow> 'v hm_item list \<Rightarrow> 'v hashmap \<Rightarrow> env \<Rightarrow> ('v hashmap \<times> env) res" where
  "rehash_items seed [] hm e = Inr (hm, e)"
| "rehash_items seed (it # its) hm e =
     rbind (rehash_item seed it hm e) (\<lambda>(hm', e'). rehash_items seed its hm' e')"

text \<open>The items the outer loop visits: buckets whose head has no value are skipped.\<close>

definition visited_items :: "'v hm_bucket list \<Rightarrow> 'v hm_item list" where
  "visited_items bs = concat (map (\<lambda>b. if hm_value (fst b) = None then [] else bucket_items b) bs)"

definition hashmap_resize :: "u64 \<Rightarrow> 'v hashmap \<Rightarrow> env \<Rightarrow> ('v hashmap \<times> env) res" where
  "hashmap_resize seed hm e =
     (let old_capacity = hm_capacity hm;
          new_capacity = hm_capacity hm * 4;
          old_items = hm_items hm;
          old_at = hm_items_at hm
      in case hashmap_calloc new_capacity (hm\<lparr>hm_capacity := new_capacity\<rparr>) e of
           (hm1, e1) \<Rightarrow>
         rbind (env_free (item_occupation_at hm) e1)
           (\<lambda>e2. case occupation_calloc new_capacity hm1 e2 of
              (hm2, e3) \<Rightarrow>
                if length old_items < unat old_capacity then Inl Null_Deref
                else rbind (rehash_items seed (visited_items (take (unat old_capacity) old_items)) hm2 e3)
                       (\<lambda>(hm3, e4). rbind (env_free old_at e4) (\<lambda>e5. Inr (hm3, e5)))))"

text \<open>
  \<open>hashmap_insert\<close>. The occupation update in the source is \<open>|= (uint32_t)(0 << bit)\<close>.
\<close>

definition hashmap_insert ::
  "u64 \<Rightarrow> ptr \<Rightarrow> u8 list \<Rightarrow> u32 \<Rightarrow> 'v option \<Rightarrow> 'v hashmap \<Rightarrow> env \<Rightarrow> ('v hashmap \<times> env) res" where
  "hashmap_insert seed key_at key_data data_size val hm e =
     (let key = unat (get_key seed key_data data_size hm);
          it = \<lparr>key_original_data = key_at, key_bytes = key_data,
                key_original_data_size = data_size, hm_value = val\<rparr>
      in if length (hm_items hm) \<le> key then Inl Null_Deref
         else rbind (insert_bucket it (hm_items hm ! key) e)
           (\<lambda>(b, e1).
              rbind (occupy key (push_bit (key mod 32) 0)
                       (hm\<lparr>hm_items := (hm_items hm)[key := b], hm_size := hm_size hm + 1\<rparr>))
                (\<lambda>hm1. if hm_capacity hm1 \<le> hm_size hm1 then hashmap_resize seed hm1 e1
                       else Inr (hm1, e1))))"

definition free_hashmap_item_key :: "'v hashmap \<Rightarrow> 'v hm_item \<Rightarrow> env \<Rightarrow> env res" where
  "free_hashmap_item_key hm it e =
     (case key_memory_allocator hm of
        None \<Rightarrow> env_free (Some (key_original_data it)) e
      | Some i \<Rightarrow> pool_free i (key_original_data it) e)"

text \<open>
  Removal. A matching head loses its value; its key storage is released and the next
  item copied over it only when there is a next item. A matching chain node is
  unlinked and released with its key.
\<close>

fun remove_chain ::
  "'v hashmap \<Rightarrow> u8 list \<Rightarrow> u32 \<Rightarrow> (ptr \<times> 'v hm_item) list \<Rightarrow> env \<Rightarrow>
   ((ptr \<times> 'v hm_item) list option \<times> env) res" where
  "remove_chain hm key_data data_size [] e = Inr (None, e)"
| "remove_chain hm key_data data_size ((p, c) # cs) e =
     (if key_matches key_data data_size c
      then rbind (free_hashmap_item_key hm c e)
             (\<lambda>e1. rbind (pool_free Hashmap_item_pool p e1) (\<lambda>e2. Inr (Some cs, e2)))
      else rbind (remove_chain hm key_data data_size cs e)
             (\<lambda>(r, e'). Inr (map_option ((#) (p, c)) r, e')))"

definition remove_bucket ::
  "'v hashmap \<Rightarrow> u8 list \<Rightarrow> u32 \<Rightarrow> 'v hm_bucket \<Rightarrow> env \<Rightarrow> ('v hm_bucket option \<times> env) res" where
  "remove_bucket hm key_data data_size b e =
     (if key_matches key_data data_size (fst b)
      then (case snd b of
              [] \<Rightarrow> Inr (Some ((fst b)\<lparr>hm_value := None\<rparr>, []), e)
            | (p, c) # cs \<Rightarrow>
                rbind (free_hashmap_item_key hm (fst b) e)
                  (\<lambda>e1. rbind (pool_free Hashmap_item_pool p e1) (\<lambda>e2. Inr (Some (c, cs), e2))))
      else rbind (remove_chain hm key_data data_size (snd b) e)
             (\<lambda>(r, e'). Inr (map_option (\<lambda>cs. (fst b, cs)) r, e')))"

text \<open>The occupation update for a bucket without chain is \<open>&= ~(0 << bit)\<close>.\<close>

definition vacate :: "nat \<Rightarrow> u32 \<Rightarrow> 'v hashmap \<Rightarrow> 'v hashmap res" where
  "vacate key m hm =
     (if length (item_occupation hm) \<le> key div 32 then Inl Null_Deref
      else Inr (hm\<lparr>item_occupation := (item_occupation hm)
                   [key div 32 := item_occupation hm ! (key div 32) AND m]\<rparr>))"

definition hashmap_remove ::
  "u64 \<Rightarrow> u8 list \<Rightarrow> u32 \<Rightarrow> 'v hashmap \<Rightarrow> env \<Rightarrow> ('v hashmap \<times> env) res" where
  "hashmap_remove seed key_data data_size hm e =
     (let key = unat (get_key seed key_data data_size hm)
      in if length (hm_items hm) \<le> key then Inl Null_Deref
         else let b = hm_items hm ! key
              in rbind (if snd b = [] then vacate key (NOT (push_bit (key mod 32) 0)) hm else Inr hm)
                   (\<lambda>hm1. rbind (remove_bucket hm1 key_data data_size b e)
                      (\<lambda>(r, e1). case r of
                           None \<Rightarrow> Inr (hm1, e1)
                         | Some b' \<Rightarrow> Inr (hm1\<lparr>hm_items := (hm_items hm1)[key := b'],
                                              hm_size := hm_size hm1 - 1\<rparr>, e1))))"

text \<open>\<open>hashmap_destroy\<close> releases chain nodes with their keys and the item array.\<close>

primrec destroy_chain :: "'v hashmap \<Rightarrow> (ptr \<times> 'v hm_item) list \<Rightarrow> env \<Rightarrow> env res" where
  "destroy_chain hm [] e = Inr e"
| "destroy_chain hm (n # cs) e =
     rbind (free_hashmap_item_key hm (snd n) e)
       (\<lambda>e1. rbind (pool_free Hashmap_item_pool (fst n) e1) (destroy_chain hm cs))"

definition hashmap_destroy :: "'v hashmap \<Rightarrow> env \<Rightarrow> env res" where
  "hashmap_destroy hm e =
     (if length (hm_items hm) < unat (hm_capacity hm) then Inl Null_Deref
      else rbind (destroy_chain hm
                    (concat (map (\<lambda>b. if hm_value (fst b) = None then [] else snd b)
                       (take (unat (hm_capacity hm)) (hm_items hm)))) e)
             (env_free (hm_items_at hm)))"

text \<open>
  The loop of \<open>LOOP_HASHMAP\<close> over one occupation word, as the list of bit positions it
  visits. \<open>inverted\<close> starts as the complement of the word; \<open>None\<close> is a loop still
  running when the fuel ends.
\<close>

primrec loop_word :: "nat \<Rightarrow> u32 \<Rightarrow> nat list option" where
  "loop_word 0 inverted = None"
| "loop_word (Suc fuel) inverted =
     (if inverted = -1 then Some []
      else let bit_index = ctz64 (ucast inverted)
           in map_option ((#) bit_index) (loop_word fuel (inverted OR push_bit bit_index 1)))"

fun loop_words :: "nat \<Rightarrow> nat \<Rightarrow> u32 list \<Rightarrow> nat list option" where
  "loop_words fuel i [] = Some []"
| "loop_words fuel i (w # ws) =
     (if w = 0 then loop_words fuel (Suc i) ws
      else case loop_word fuel (NOT w) of
             None \<Rightarrow> None
           | Some bs \<Rightarrow> map_option ((@) (map (\<lambda>b. i * 32 + b) bs)) (loop_words fuel (Suc i) ws))"

text \<open>The slots \<open>LOOP_HASHMAP\<close> visits.\<close>

definition loop_hashmap :: "nat \<Rightarrow> 'v hashmap \<Rightarrow> nat list option" where
  "loop_hashmap fuel hm = loop_words fuel 0 (take (unat (occupation_words (hm_capacity hm))) (item_occupation hm))"

section \<open>Well-formed maps and what they hold\<close>

text \<open>The slot of a key is an index of the item array.\<close>

lemma key_slot_less:
  assumes "0 < capacity"
  shows "unat (key_slot seed k n capacity) < unat capacity"
proof -
  let ?h = "hash64 seed k n"
  have h: "unat ?h < 2 ^ 64" and c: "unat capacity < 2 ^ 32"
    using unsigned_less [of ?h, where ?'a = nat] unsigned_less [of capacity, where ?'a = nat] by simp_all
  have "unat ?h * unat capacity < 2 ^ 64 * 2 ^ 32"
    using h c by (intro mult_strict_mono) simp_all
  then have "unat (ucast ?h * ucast capacity :: 128 word) = unat ?h * unat capacity"
    using h c by (simp add: unat_word_ariths unsigned_ucast_eq take_bit_nat_eq_self)
  then have d: "unat (drop_bit 64 (ucast ?h * ucast capacity :: 128 word)) = unat ?h * unat capacity div 2 ^ 64"
    by (simp add: drop_bit_eq_div unat_div)
  have "unat ?h * unat capacity div 2 ^ 64 < unat capacity"
    using h assms by (intro less_mult_imp_div_less) (simp add: word_less_nat_alt)
  with c d show ?thesis
    unfolding key_slot_def by (simp add: unsigned_ucast_eq take_bit_nat_eq_self)
qed

text \<open>The items of a bucket that hold a value, in chain order.\<close>

definition live_items :: "'v hm_bucket \<Rightarrow> 'v hm_item list" where
  "live_items b = (if hm_value (fst b) = None then [] else bucket_items b)"

definition item_wf :: "u64 \<Rightarrow> u32 \<Rightarrow> nat \<Rightarrow> 'v hm_item \<Rightarrow> bool" where
  "item_wf seed capacity i it \<longleftrightarrow> hm_value it \<noteq> None \<and>
     length (key_bytes it) = unat (key_original_data_size it) \<and>
     unat (key_slot seed (key_bytes it) (key_original_data_size it) capacity) = i"

definition bucket_wf :: "u64 \<Rightarrow> u32 \<Rightarrow> nat \<Rightarrow> 'v hm_bucket \<Rightarrow> bool" where
  "bucket_wf seed capacity i b \<longleftrightarrow>
     (hm_value (fst b) = None \<longrightarrow> snd b = []) \<and> list_all (item_wf seed capacity i) (live_items b)"

definition hm_wf :: "u64 \<Rightarrow> 'v hashmap \<Rightarrow> bool" where
  "hm_wf seed hm \<longleftrightarrow> 0 < hm_capacity hm \<and> length (hm_items hm) = unat (hm_capacity hm) \<and>
     unat (hm_capacity hm) \<le> 32 * length (item_occupation hm) \<and>
     (\<forall>i < length (hm_items hm). bucket_wf seed (hm_capacity hm) i (hm_items hm ! i))"

definition hm_entries :: "'v hashmap \<Rightarrow> 'v hm_item list" where
  "hm_entries hm = visited_items (hm_items hm)"

text \<open>
  The abstract value: the map holds for each key the values inserted under it, oldest
  first.
\<close>

definition hm_abs :: "'v hashmap \<Rightarrow> u8 list \<Rightarrow> 'v list" where
  "hm_abs hm k = map (\<lambda>it. the (hm_value it)) (filter (\<lambda>it. key_bytes it = k) (hm_entries hm))"

lemma visited_items_live: "visited_items bs = concat (map live_items bs)"
  by (simp add: visited_items_def live_items_def [abs_def])

lemma visited_update:
  assumes "i < length bs"
  shows "visited_items (bs[i := b]) =
     visited_items (take i bs) @ live_items b @ visited_items (drop (Suc i) bs)"
  using assms by (simp add: visited_items_live upd_conv_take_nth_drop)

lemma visited_split:
  "i < length bs \<Longrightarrow> visited_items bs =
     visited_items (take i bs) @ live_items (bs ! i) @ visited_items (drop (Suc i) bs)"
  using visited_update [of i bs "bs ! i"] by simp

lemma key_matches_iff:
  assumes "length k = unat n" and "length (key_bytes it) = unat (key_original_data_size it)"
  shows "key_matches k n it \<longleftrightarrow> key_bytes it = k"
proof -
  have "n = key_original_data_size it" if "key_bytes it = k"
    using assms that by (simp add: word_unat_eq_iff)
  with assms show ?thesis by (auto simp: key_matches_def)
qed

lemma hm_wf_bucket: "hm_wf seed hm \<Longrightarrow> i < length (hm_items hm) \<Longrightarrow> bucket_wf seed (hm_capacity hm) i (hm_items hm ! i)"
  by (simp add: hm_wf_def)

lemma get_key_in_range: "hm_wf seed hm \<Longrightarrow> unat (get_key seed k n hm) < length (hm_items hm)"
  by (simp add: hm_wf_def get_key_def key_slot_less)

lemma occupation_in_range:
  "hm_wf seed hm \<Longrightarrow> i < length (hm_items hm) \<Longrightarrow> i div 32 < length (item_occupation hm)"
  by (auto simp: hm_wf_def less_mult_imp_div_less mult.commute)

text \<open>All entries of a key are in the bucket of its slot.\<close>

lemma entry_in_slot:
  assumes "hm_wf seed hm" and "length k = unat n" and "i < length (hm_items hm)"
    and "it \<in> set (live_items (hm_items hm ! i))" and "key_bytes it = k"
  shows "i = unat (get_key seed k n hm)"
proof -
  from hm_wf_bucket [OF assms(1,3)] assms(4) have "item_wf seed (hm_capacity hm) i it"
    by (auto simp: bucket_wf_def list_all_iff)
  moreover from this assms(2,5) have "key_original_data_size it = n"
    by (simp add: item_wf_def word_unat_eq_iff)
  ultimately show ?thesis using assms(5) by (simp add: item_wf_def get_key_def)
qed

lemma filter_visited_other:
  assumes "\<And>i it. i < length bs \<Longrightarrow> it \<in> set (live_items (bs ! i)) \<Longrightarrow> \<not> P it"
  shows "filter P (visited_items bs) = []"
proof -
  have "\<not> P it" if "b \<in> set bs" and "it \<in> set (live_items b)" for b it
    using assms that by (metis in_set_conv_nth)
  then show ?thesis by (auto simp: visited_items_live filter_empty_conv)
qed

lemma entries_of_key:
  assumes "hm_wf seed hm" and "length k = unat n" and "i = unat (get_key seed k n hm)"
  shows "filter (\<lambda>it. key_bytes it = k) (visited_items (take i (hm_items hm))) = []"
    and "filter (\<lambda>it. key_bytes it = k) (visited_items (drop (Suc i) (hm_items hm))) = []"
proof -
  show "filter (\<lambda>it. key_bytes it = k) (visited_items (take i (hm_items hm))) = []"
    using entry_in_slot [OF assms(1,2)] assms(3) by (intro filter_visited_other) force
  show "filter (\<lambda>it. key_bytes it = k) (visited_items (drop (Suc i) (hm_items hm))) = []"
  proof (rule filter_visited_other)
    fix j it assume "j < length (drop (Suc i) (hm_items hm))" "it \<in> set (live_items (drop (Suc i) (hm_items hm) ! j))"
    then have "Suc i + j < length (hm_items hm)" "it \<in> set (live_items (hm_items hm ! (Suc i + j)))" by simp_all
    from entry_in_slot [OF assms(1,2) this] assms(3) show "key_bytes it \<noteq> k" by auto
  qed
qed

lemma hm_abs_slot:
  assumes "hm_wf seed hm" and "length k = unat n" and "i = unat (get_key seed k n hm)"
  shows "hm_abs hm k = map (\<lambda>it. the (hm_value it)) (filter (\<lambda>it. key_bytes it = k) (live_items (hm_items hm ! i)))"
proof -
  have i: "i < length (hm_items hm)" using get_key_in_range [OF assms(1)] assms(3) by simp
  show ?thesis
    unfolding hm_abs_def hm_entries_def visited_split [OF i]
    using entries_of_key [OF assms] by simp
qed

text \<open>Rewriting one bucket: only the keys of that slot can change.\<close>

lemma hm_abs_update:
  assumes "i < length (hm_items hm)"
    and "filter (\<lambda>it. key_bytes it = k) (live_items b) = filter (\<lambda>it. key_bytes it = k) (live_items (hm_items hm ! i))"
  shows "hm_abs (hm\<lparr>hm_items := (hm_items hm)[i := b], hm_size := z\<rparr>) k = hm_abs hm k"
  using visited_update [OF assms(1), of b] visited_split [OF assms(1)] assms(2)
  by (simp add: hm_abs_def hm_entries_def)

lemma hm_wf_update:
  assumes "hm_wf seed hm" and "i < length (hm_items hm)" and "bucket_wf seed (hm_capacity hm) i b"
  shows "hm_wf seed (hm\<lparr>hm_items := (hm_items hm)[i := b], hm_size := z\<rparr>)"
  using assms by (auto simp: hm_wf_def nth_list_update)

definition first_of :: "'v list \<Rightarrow> 'v option" where
  "first_of vs = (case vs of [] \<Rightarrow> None | v # _ \<Rightarrow> Some v)"

lemma find_filter: "List.find P xs = (case filter P xs of [] \<Rightarrow> None | x # _ \<Rightarrow> Some x)"
  by (induction xs) auto

lemma hashmap_get_abs:
  assumes "hm_wf seed hm" and "length k = unat n"
  shows "hashmap_get seed k n hm = Inr (first_of (hm_abs hm k))"
proof -
  let ?i = "unat (get_key seed k n hm)" let ?b = "hm_items hm ! ?i"
  have i: "?i < length (hm_items hm)" by (rule get_key_in_range [OF assms(1)])
  have wf: "bucket_wf seed (hm_capacity hm) ?i ?b" by (rule hm_wf_bucket [OF assms(1) i])
  have abs: "hm_abs hm k = map (\<lambda>it. the (hm_value it)) (filter (\<lambda>it. key_bytes it = k) (live_items ?b))"
    by (rule hm_abs_slot [OF assms refl])
  show ?thesis
  proof (cases "hm_value (fst ?b) = None")
    case True
    with wf have "bucket_items ?b = [fst ?b]" by (simp add: bucket_wf_def bucket_items_def)
    with i abs True show ?thesis
      by (simp add: hashmap_get_def Let_def live_items_def first_of_def)
  next
    case False
    then have live: "live_items ?b = bucket_items ?b" unfolding live_items_def by (rule if_not_P)
    with wf have m: "filter (key_matches k n) (bucket_items ?b) = filter (\<lambda>it. key_bytes it = k) (bucket_items ?b)"
      by (intro filter_cong) (auto simp: bucket_wf_def item_wf_def list_all_iff key_matches_iff [OF assms(2)])
    have "hm_value it \<noteq> None" if "it \<in> set (bucket_items ?b)" for it
      using wf that by (auto simp: bucket_wf_def item_wf_def list_all_iff live)
    then have "hm_value it \<noteq> None" if "filter (\<lambda>it. key_bytes it = k) (bucket_items ?b) = it # r" for it r
      using that by (auto simp: filter_eq_Cons_iff)
    with i abs show ?thesis
      by (auto simp: hashmap_get_def Let_def find_filter m live first_of_def split: list.splits)
  qed
qed

section \<open>Ownership\<close>

definition hm_nodes :: "'v hashmap \<Rightarrow> ptr list" where
  "hm_nodes hm = concat (map (\<lambda>b. map fst (snd b)) (hm_items hm))"

definition hm_keys :: "'v hashmap \<Rightarrow> ptr list" where
  "hm_keys hm = map key_original_data (hm_entries hm)"

text \<open>The storage that the map releases keys to.\<close>

definition key_live :: "pool_id option \<Rightarrow> env \<Rightarrow> ptr set" where
  "key_live kma e = (case kma of None \<Rightarrow> dom (blocks (c_heap e)) | Some i \<Rightarrow> pool_live e i)"

definition nodes_owned :: "'v hashmap \<Rightarrow> env \<Rightarrow> bool" where
  "nodes_owned hm e \<longleftrightarrow> distinct (hm_nodes hm) \<and> set (hm_nodes hm) \<subseteq> pool_live e Hashmap_item_pool"

definition keys_owned :: "'v hashmap \<Rightarrow> env \<Rightarrow> bool" where
  "keys_owned hm e \<longleftrightarrow> distinct (hm_keys hm) \<and> set (hm_keys hm) \<subseteq> key_live (key_memory_allocator hm) e \<and>
     key_memory_allocator hm \<noteq> Some Hashmap_item_pool"

definition arrays_owned :: "'v hashmap \<Rightarrow> env \<Rightarrow> bool" where
  "arrays_owned hm e \<longleftrightarrow> (\<exists>p q. hm_items_at hm = Some p \<and> item_occupation_at hm = Some q \<and> p \<noteq> q \<and>
     {p, q} \<subseteq> dom (blocks (c_heap e)) \<and> (key_memory_allocator hm = None \<longrightarrow> {p, q} \<inter> set (hm_keys hm) = {}))"

definition hm_ok :: "u64 \<Rightarrow> 'v hashmap \<Rightarrow> env \<Rightarrow> bool" where
  "hm_ok seed hm e \<longleftrightarrow> hm_wf seed hm \<and> env_ok e \<and> nodes_owned hm e \<and> keys_owned hm e \<and> arrays_owned hm e"

section \<open>Appending to a bucket\<close>

lemma insert_chain_append:
  "list_all (\<lambda>n. hm_value (snd n) \<noteq> None) cs \<Longrightarrow>
   insert_chain it cs e = rbind (pool_allocate Hashmap_item_pool e) (\<lambda>(p, e'). Inr (cs @ [(p, it)], e'))"
  by (induction cs) (auto simp: rbind_def split: sum.splits)

lemma insert_bucket_append:
  assumes "bucket_wf seed c i b"
  shows "insert_bucket it b e = append_bucket it b e"
proof (cases "hm_value (fst b) = None")
  case True
  then show ?thesis by (simp add: insert_bucket_def append_bucket_def)
next
  case False
  with assms have "list_all (\<lambda>n. hm_value (snd n) \<noteq> None) (snd b)"
    by (auto simp: bucket_wf_def live_items_def bucket_items_def item_wf_def list_all_iff)
  with False show ?thesis
    by (auto simp: insert_bucket_def append_bucket_def insert_chain_append rbind_def split: sum.splits)
qed

text \<open>Appending an item needs at most one new node.\<close>

lemma append_bucket_ok:
  assumes "env_ok e" and "bucket_wf seed c i b" and "item_wf seed c i it" and "0 < pool_avail e Hashmap_item_pool"
  shows "\<exists>b' e' new. append_bucket it b e = Inr (b', e') \<and> env_ok e' \<and> bucket_wf seed c i b' \<and>
     live_items b' = live_items b @ [it] \<and> map fst (snd b') = map fst (snd b) @ new \<and> distinct new \<and>
     set new \<inter> pool_live e Hashmap_item_pool = {} \<and>
     pool_live e' Hashmap_item_pool = pool_live e Hashmap_item_pool \<union> set new \<and>
     pool_avail e Hashmap_item_pool \<le> Suc (pool_avail e' Hashmap_item_pool) \<and>
     same_except {Hashmap_item_pool} e e'"
proof (cases "hm_value (fst b) = None")
  case True
  with assms show ?thesis
    by (intro exI [of _ "(it, [])"] exI [of _ e] exI [of _ "[]"])
      (auto simp: append_bucket_def bucket_wf_def live_items_def bucket_items_def item_wf_def)
next
  case False
  from pool_allocate_ok [OF assms(1,4)] obtain p e' where "pool_allocate Hashmap_item_pool e = Inr (p, e')"
    "env_ok e'" "p \<notin> pool_live e Hashmap_item_pool"
    "pool_live e' Hashmap_item_pool = insert p (pool_live e Hashmap_item_pool)"
    "Suc (pool_avail e' Hashmap_item_pool) = pool_avail e Hashmap_item_pool" "same_except {Hashmap_item_pool} e e'"
    by blast
  with False assms show ?thesis
    by (intro exI [of _ "(fst b, snd b @ [(p, it)])"] exI [of _ e'] exI [of _ "[p]"])
      (auto simp: append_bucket_def bucket_wf_def live_items_def bucket_items_def)
qed

section \<open>Placing an item in its slot\<close>

lemma hm_items_split:
  "i < length bs \<Longrightarrow> concat (map f (bs[i := b])) = concat (map f (take i bs)) @ f b @ concat (map f (drop (Suc i) bs))"
  by (simp add: upd_conv_take_nth_drop)

lemma hm_items_split_same:
  "i < length bs \<Longrightarrow> concat (map f bs) = concat (map f (take i bs)) @ f (bs ! i) @ concat (map f (drop (Suc i) bs))"
  using hm_items_split [of i bs f "bs ! i"] by simp

lemma place_nodes:
  assumes "nodes_owned hm e" and "i < length (hm_items hm)"
    and "map fst (snd b') = map fst (snd (hm_items hm ! i)) @ new" and "distinct new"
    and "set new \<inter> pool_live e Hashmap_item_pool = {}"
    and "pool_live e' Hashmap_item_pool = pool_live e Hashmap_item_pool \<union> set new"
  shows "nodes_owned (hm\<lparr>hm_items := (hm_items hm)[i := b']\<rparr>) e'"
proof -
  let ?f = "\<lambda>b. map fst (snd b)"
  obtain xs ys where old: "hm_nodes hm = xs @ ?f (hm_items hm ! i) @ ys"
    and new: "hm_nodes (hm\<lparr>hm_items := (hm_items hm)[i := b']\<rparr>) = xs @ (?f (hm_items hm ! i) @ new) @ ys"
    using hm_items_split [OF assms(2), of ?f b'] hm_items_split_same [OF assms(2), of ?f] assms(3)
    by (simp add: hm_nodes_def)
  have "mset (hm_nodes (hm\<lparr>hm_items := (hm_items hm)[i := b']\<rparr>)) = mset (hm_nodes hm @ new)"
    unfolding old new by simp
  moreover have "distinct (hm_nodes hm @ new)" "set (hm_nodes hm @ new) \<subseteq> pool_live e' Hashmap_item_pool"
    using assms(1,4-6) by (auto simp: nodes_owned_def)
  ultimately show ?thesis
    unfolding nodes_owned_def by (metis mset_eq_imp_distinct_iff mset_eq_setD)
qed

lemma place_abs:
  assumes "hm_wf seed hm" and "i < length (hm_items hm)" and "item_wf seed (hm_capacity hm) i it"
    and "bucket_wf seed (hm_capacity hm) i b'" and "live_items b' = live_items (hm_items hm ! i) @ [it]"
  defines "hm' \<equiv> hm\<lparr>hm_items := (hm_items hm)[i := b']\<rparr>"
  shows "hm_wf seed hm'" and "hm_abs hm' = (hm_abs hm)(key_bytes it := hm_abs hm (key_bytes it) @ [the (hm_value it)])"
    and "mset (hm_entries hm') = add_mset it (mset (hm_entries hm))"
proof -
  show wf': "hm_wf seed hm'"
    using hm_wf_update [OF assms(1,2,4), of "hm_size hm"] by (simp add: hm'_def)
  show "mset (hm_entries hm') = add_mset it (mset (hm_entries hm))"
    by (simp add: hm_entries_def hm'_def visited_update assms(2,5) visited_split [OF assms(2)])
  have i: "i = unat (get_key seed (key_bytes it) (key_original_data_size it) hm)"
    and l: "length (key_bytes it) = unat (key_original_data_size it)"
    using assms(3) by (simp_all add: item_wf_def get_key_def)
  have i': "i = unat (get_key seed (key_bytes it) (key_original_data_size it) hm')"
    using i by (simp add: get_key_def hm'_def)
  show "hm_abs hm' = (hm_abs hm)(key_bytes it := hm_abs hm (key_bytes it) @ [the (hm_value it)])"
  proof
    fix k
    show "hm_abs hm' k = ((hm_abs hm)(key_bytes it := hm_abs hm (key_bytes it) @ [the (hm_value it)])) k"
    proof (cases "k = key_bytes it")
      case True
      then show ?thesis
        using hm_abs_slot [OF assms(1) l i] hm_abs_slot [OF wf' l i'] assms(2,5) by (simp add: hm'_def)
    next
      case False
      then show ?thesis
        using hm_abs_update [OF assms(2), of k b' "hm_size hm"] assms(5) by (simp add: hm'_def)
    qed
  qed
qed

lemma occupy_fields:
  assumes "hm_wf seed hm" and "i < length (hm_items hm)"
  shows "\<exists>ow. occupy i m hm = Inr (hm\<lparr>item_occupation := ow\<rparr>) \<and> length ow = length (item_occupation hm)"
    and "\<exists>ow. vacate i m hm = Inr (hm\<lparr>item_occupation := ow\<rparr>) \<and> length ow = length (item_occupation hm)"
  using occupation_in_range [OF assms] by (auto simp: occupy_def vacate_def)

lemma occupation_irrelevant [simp]:
  "hm_abs (hm\<lparr>item_occupation := ow\<rparr>) = hm_abs hm" "hm_entries (hm\<lparr>item_occupation := ow\<rparr>) = hm_entries hm"
  "nodes_owned (hm\<lparr>item_occupation := ow\<rparr>) e = nodes_owned hm e"
  "length ow = length (item_occupation hm) \<Longrightarrow> hm_wf seed (hm\<lparr>item_occupation := ow\<rparr>) = hm_wf seed hm"
  by (auto simp: hm_abs_def hm_entries_def nodes_owned_def hm_nodes_def hm_wf_def fun_eq_iff)

section \<open>Rehashing\<close>

definition rehashable :: "'v hm_item \<Rightarrow> bool" where
  "rehashable it \<longleftrightarrow> hm_value it \<noteq> None \<and> length (key_bytes it) = unat (key_original_data_size it)"

lemma rehash_item_ok:
  assumes "hm_wf seed hm" and "env_ok e" and "nodes_owned hm e" and "rehashable it"
    and "0 < pool_avail e Hashmap_item_pool"
  shows "\<exists>hm' e' bs ow. rehash_item seed it hm e = Inr (hm', e') \<and> hm' = hm\<lparr>hm_items := bs, item_occupation := ow\<rparr> \<and>
     hm_wf seed hm' \<and> env_ok e' \<and> nodes_owned hm' e' \<and>
     hm_abs hm' = (hm_abs hm)(key_bytes it := hm_abs hm (key_bytes it) @ [the (hm_value it)]) \<and>
     mset (hm_entries hm') = add_mset it (mset (hm_entries hm)) \<and>
     pool_avail e Hashmap_item_pool \<le> Suc (pool_avail e' Hashmap_item_pool) \<and>
     same_except {Hashmap_item_pool} e e'"
proof -
  let ?i = "unat (get_key seed (key_bytes it) (key_original_data_size it) hm)" let ?b = "hm_items hm ! ?i"
  have i: "?i < length (hm_items hm)" by (rule get_key_in_range [OF assms(1)])
  have itwf: "item_wf seed (hm_capacity hm) ?i it"
    using assms(4) by (simp add: item_wf_def rehashable_def get_key_def)
  obtain ow where ow: "occupy ?i (push_bit (?i mod 32) 1) hm = Inr (hm\<lparr>item_occupation := ow\<rparr>)"
    "length ow = length (item_occupation hm)" using occupy_fields(1) [OF assms(1) i] by blast
  from append_bucket_ok [OF assms(2) hm_wf_bucket [OF assms(1) i] itwf assms(5)] obtain b' e' new where
    b: "append_bucket it ?b e = Inr (b', e')" "env_ok e'" "bucket_wf seed (hm_capacity hm) ?i b'"
      "live_items b' = live_items ?b @ [it]" "map fst (snd b') = map fst (snd ?b) @ new" "distinct new"
      "set new \<inter> pool_live e Hashmap_item_pool = {}"
      "pool_live e' Hashmap_item_pool = pool_live e Hashmap_item_pool \<union> set new"
      "pool_avail e Hashmap_item_pool \<le> Suc (pool_avail e' Hashmap_item_pool)"
      "same_except {Hashmap_item_pool} e e'" by blast
  let ?hm = "hm\<lparr>hm_items := (hm_items hm)[?i := b']\<rparr>"
  have eq: "rehash_item seed it hm e = Inr (?hm\<lparr>item_occupation := ow\<rparr>, e')"
    using i ow(1) b(1) by (simp add: rehash_item_def Let_def)
  show ?thesis
    using eq b(2,9,10) ow(2) place_nodes [OF assms(3) i b(5-8)] place_abs [OF assms(1) i itwf b(3,4)]
    by (intro exI [of _ "?hm\<lparr>item_occupation := ow\<rparr>"] exI [of _ e'] exI [of _ "(hm_items hm)[?i := b']"] exI [of _ ow])
       simp
qed

lemma rehash_items_ok:
  assumes "hm_wf seed hm" and "env_ok e" and "nodes_owned hm e" and "list_all rehashable its"
    and "length its \<le> pool_avail e Hashmap_item_pool"
  shows "\<exists>hm' e' bs ow. rehash_items seed its hm e = Inr (hm', e') \<and> hm' = hm\<lparr>hm_items := bs, item_occupation := ow\<rparr> \<and>
     hm_wf seed hm' \<and> env_ok e' \<and> nodes_owned hm' e' \<and>
     (\<forall>k. hm_abs hm' k = hm_abs hm k @ map (\<lambda>it. the (hm_value it)) (filter (\<lambda>it. key_bytes it = k) its)) \<and>
     mset (hm_entries hm') = mset its + mset (hm_entries hm) \<and>
     same_except {Hashmap_item_pool} e e'"
  using assms
proof (induction its arbitrary: hm e)
  case Nil
  then show ?case
    by (intro exI [of _ hm] exI [of _ e] exI [of _ "hm_items hm"] exI [of _ "item_occupation hm"]) simp
next
  case (Cons it its)
  from Cons.prems have "rehashable it" "0 < pool_avail e Hashmap_item_pool" by auto
  from rehash_item_ok [OF Cons.prems(1-3) this] obtain hm1 e1 bs1 ow1 where
    1: "rehash_item seed it hm e = Inr (hm1, e1)" "hm1 = hm\<lparr>hm_items := bs1, item_occupation := ow1\<rparr>"
     "hm_wf seed hm1" "env_ok e1" "nodes_owned hm1 e1"
     "hm_abs hm1 = (hm_abs hm)(key_bytes it := hm_abs hm (key_bytes it) @ [the (hm_value it)])"
     "mset (hm_entries hm1) = add_mset it (mset (hm_entries hm))"
     "pool_avail e Hashmap_item_pool \<le> Suc (pool_avail e1 Hashmap_item_pool)"
     "same_except {Hashmap_item_pool} e e1" by blast
  from Cons.IH [OF 1(3-5)] 1(8) Cons.prems(4,5) obtain hm2 e2 bs2 ow2 where
    2: "rehash_items seed its hm1 e1 = Inr (hm2, e2)" "hm2 = hm1\<lparr>hm_items := bs2, item_occupation := ow2\<rparr>"
     "hm_wf seed hm2" "env_ok e2" "nodes_owned hm2 e2"
     "\<forall>k. hm_abs hm2 k = hm_abs hm1 k @ map (\<lambda>it. the (hm_value it)) (filter (\<lambda>it. key_bytes it = k) its)"
     "mset (hm_entries hm2) = mset its + mset (hm_entries hm1)" "same_except {Hashmap_item_pool} e1 e2"
    by auto
  from 1 2 same_except_trans [OF 1(9) 2(8)] show ?case
    by (intro exI [of _ hm2] exI [of _ e2] exI [of _ bs2] exI [of _ ow2]) simp
qed

section \<open>Growing\<close>

definition resize_room :: "'v hashmap \<Rightarrow> env \<Rightarrow> bool" where
  "resize_room hm e \<longleftrightarrow> 4 * unat (hm_capacity hm) + 31 < 2 ^ 32 \<and>
     length (hm_entries hm) \<le> pool_avail e Hashmap_item_pool \<and>
     heap_room (132 * unat (hm_capacity hm)) (c_heap e)"

lemma occupation_words_unat:
  "unat c + 31 < 2 ^ 32 \<Longrightarrow> unat (occupation_words c) = (unat c + 31) div 32"
  by (simp add: occupation_words_def unat_div unat_word_ariths)

lemma entries_rehashable:
  assumes "hm_wf seed hm"
  shows "list_all rehashable (hm_entries hm)"
proof -
  have "rehashable it" if "b \<in> set (hm_items hm)" "it \<in> set (live_items b)" for b it
  proof -
    from that(1) obtain i where "i < length (hm_items hm)" "b = hm_items hm ! i" by (metis in_set_conv_nth)
    with hm_wf_bucket [OF assms this(1)] that(2) show ?thesis
      by (auto simp: bucket_wf_def list_all_iff item_wf_def rehashable_def)
  qed
  then show ?thesis by (auto simp: hm_entries_def visited_items_live list_all_iff)
qed

lemma empty_map:
  assumes "0 < c" and "unat c \<le> 32 * length ow" and "hm_items hm = replicate (unat c) (null_item, [])"
    and "hm_capacity hm = c" and "item_occupation hm = ow"
  shows "hm_wf seed hm" and "hm_entries hm = []" and "hm_abs hm k = []" and "nodes_owned hm e"
proof -
  show e: "hm_entries hm = []"
    by (simp add: assms hm_entries_def visited_items_def null_item_def)
  then show "hm_abs hm k = []" by (simp add: hm_abs_def)
  show "hm_wf seed hm"
    using assms by (simp add: hm_wf_def bucket_wf_def live_items_def null_item_def)
  have "hm_nodes hm = []" by (simp add: assms hm_nodes_def)
  then show "nodes_owned hm e" by (simp add: nodes_owned_def)
qed

lemma key_live_mono:
  assumes "pool e' = pool e" and "dom (blocks (c_heap e)) - B \<subseteq> dom (blocks (c_heap e'))"
    and "kma = None \<Longrightarrow> B \<inter> K = {}" and "K \<subseteq> key_live kma e"
  shows "K \<subseteq> key_live kma e'"
  using assms by (cases kma) (simp_all add: key_live_def, blast)

lemma key_live_same_except:
  "same_except {i} e e' \<Longrightarrow> kma \<noteq> Some i \<Longrightarrow> key_live kma e' = key_live kma e"
  by (auto simp: key_live_def same_except_def split: option.splits)

lemma arrays_ownedE:
  assumes "arrays_owned hm e"
  obtains p q where "hm_items_at hm = Some p" "item_occupation_at hm = Some q" "p \<noteq> q"
    "p \<in> dom (blocks (c_heap e))" "q \<in> dom (blocks (c_heap e))"
    "key_memory_allocator hm = None \<longrightarrow> {p, q} \<inter> set (hm_keys hm) = {}"
proof -
  from assms obtain p q where "hm_items_at hm = Some p \<and> item_occupation_at hm = Some q \<and> p \<noteq> q \<and>
     {p, q} \<subseteq> dom (blocks (c_heap e)) \<and> (key_memory_allocator hm = None \<longrightarrow> {p, q} \<inter> set (hm_keys hm) = {})"
    unfolding arrays_owned_def by (elim exE)
  with that [of p q] show thesis by simp
qed

text \<open>The two arrays of the enlarged map, empty.\<close>

lemma resize_arrays:
  assumes "hm_ok seed hm e" and "resize_room hm e"
    and "item_occupation_at hm = Some q" and "q \<in> dom (blocks (c_heap e))"
  defines "c \<equiv> hm_capacity hm * 4"
  shows "\<exists>hm1 e1 e2 hm2 e3 p' q'. hashmap_calloc c (hm\<lparr>hm_capacity := c\<rparr>) e = (hm1, e1) \<and>
     env_free (Some q) e1 = Inr e2 \<and> occupation_calloc c hm1 e2 = (hm2, e3) \<and>
     hm2 = hm\<lparr>hm_capacity := c, hm_items_at := Some p', hm_items := replicate (unat c) (null_item, []),
              item_occupation_at := Some q', item_occupation := replicate (unat (occupation_words c)) 0\<rparr> \<and>
     hm_wf seed hm2 \<and> env_ok e3 \<and> pool e3 = pool e \<and>
     p' \<notin> dom (blocks (c_heap e)) \<and> q' \<notin> insert p' (dom (blocks (c_heap e))) - {q} \<and> p' \<noteq> q' \<and>
     dom (blocks (c_heap e3)) = insert q' (insert p' (dom (blocks (c_heap e))) - {q})"
proof -
  let ?c = "unat (hm_capacity hm)"
  have c: "unat c = 4 * ?c" and c0: "0 < ?c" and room: "heap_room (132 * ?c) (c_heap e)" and env: "env_ok e"
    using assms(1,2) by (auto simp: c_def hm_ok_def resize_room_def unat_word_ariths hm_wf_def word_less_nat_alt)
  have words: "unat (occupation_words c) = (4 * ?c + 31) div 32"
    using assms(2) occupation_words_unat [of c] c by (simp add: resize_room_def)
  have r1: "max 1 (32 * unat c) \<le> 132 * ?c" using c c0 by simp
  obtain p' e1 where 1: "env_malloc (32 * unat c) e = (Some p', e1)" "env_ok e1" "pool e1 = pool e"
    "heap_room (4 * ?c) (c_heap e1)" "p' \<notin> dom (blocks (c_heap e))" "dom (blocks (c_heap e1)) = insert p' (dom (blocks (c_heap e)))"
    using env_malloc_room [OF env room r1] c c0 by (auto simp: max_def)
  have "q \<in> dom (blocks (c_heap e1))" using 1(6) assms(4) by simp
  from env_free_block [OF 1(2) this] obtain e2 where
    2: "env_free (Some q) e1 = Inr e2" "env_ok e2" "pool e2 = pool e"
      "dom (blocks (c_heap e2)) = dom (blocks (c_heap e1)) - {q}" "heap_room (4 * ?c) (c_heap e2)"
    using 1(3,4) by auto
  have r3: "max 1 (4 * unat (occupation_words c)) \<le> 4 * ?c" using words c0 by linarith
  obtain q' e3 where 3: "env_malloc (4 * unat (occupation_words c)) e2 = (Some q', e3)" "env_ok e3" "pool e3 = pool e2"
     "q' \<notin> dom (blocks (c_heap e2))" "dom (blocks (c_heap e3)) = insert q' (dom (blocks (c_heap e2)))"
    using env_malloc_room [OF 2(2,5) r3] by auto
  define hm1 where "hm1 = hm\<lparr>hm_capacity := c, hm_items_at := Some p', hm_items := replicate (unat c) (null_item, [])\<rparr>"
  have h1: "hashmap_calloc c (hm\<lparr>hm_capacity := c\<rparr>) e = (hm1, e1)" using 1(1) by (simp add: hashmap_calloc_def hm1_def)
  let ?hm2 = "hm1\<lparr>item_occupation_at := Some q', item_occupation := replicate (unat (occupation_words c)) 0\<rparr>"
  have h2: "occupation_calloc c hm1 e2 = (?hm2, e3)" using 3(1) by (simp add: occupation_calloc_def)
  have "p' \<noteq> q" using assms(4) 1(5) by blast
  then have "p' \<noteq> q'" using 3(4) 2(4) 1(6) by auto
  moreover have "hm_wf seed ?hm2"
    using c c0 words by (intro empty_map [of c]) (auto simp: hm1_def word_less_nat_alt)
  ultimately show ?thesis
    using h1 2 h2 3 1(5,6) by (intro exI [of _ hm1] exI [of _ e1] exI [of _ e2] exI [of _ ?hm2] exI [of _ e3] exI [of _ p'] exI [of _ q']) (simp add: hm1_def)
qed

lemma hashmap_resize_ok:
  assumes "hm_ok seed hm e" and "resize_room hm e"
  shows "\<exists>hm' e'. hashmap_resize seed hm e = Inr (hm', e') \<and> hm_ok seed hm' e' \<and>
     hm_abs hm' = hm_abs hm \<and> mset (hm_entries hm') = mset (hm_entries hm) \<and> hm_size hm' = hm_size hm \<and>
     hm_capacity hm' = hm_capacity hm * 4 \<and> key_memory_allocator hm' = key_memory_allocator hm"
proof -
  let ?c = "hm_capacity hm * 4" let ?kma = "key_memory_allocator hm"
  have wf: "hm_wf seed hm" and keys: "keys_owned hm e" and arr: "arrays_owned hm e"
    using assms(1) by (simp_all add: hm_ok_def)
  obtain p q where pq: "hm_items_at hm = Some p" "item_occupation_at hm = Some q" "p \<noteq> q"
    "p \<in> dom (blocks (c_heap e))" "q \<in> dom (blocks (c_heap e))" "?kma = None \<longrightarrow> {p, q} \<inter> set (hm_keys hm) = {}"
    by (rule arrays_ownedE [OF arr])
  from resize_arrays [OF assms pq(2,5)] obtain hm1 e1 e2 hm2 e3 p' q' where
    a: "hashmap_calloc ?c (hm\<lparr>hm_capacity := ?c\<rparr>) e = (hm1, e1)" "env_free (Some q) e1 = Inr e2"
      "occupation_calloc ?c hm1 e2 = (hm2, e3)"
      "hm2 = hm\<lparr>hm_capacity := ?c, hm_items_at := Some p', hm_items := replicate (unat ?c) (null_item, []),
              item_occupation_at := Some q', item_occupation := replicate (unat (occupation_words ?c)) 0\<rparr>"
      "hm_wf seed hm2" "env_ok e3" "pool e3 = pool e" "p' \<notin> dom (blocks (c_heap e))"
      "q' \<notin> insert p' (dom (blocks (c_heap e))) - {q}" "p' \<noteq> q'"
      "dom (blocks (c_heap e3)) = insert q' (insert p' (dom (blocks (c_heap e))) - {q})" by blast
  have e0: "hm_entries hm2 = []" "hm_abs hm2 k = []" "nodes_owned hm2 e3" for k
    by (simp_all add: a(4) hm_entries_def visited_items_def null_item_def hm_abs_def nodes_owned_def hm_nodes_def)
  have "length (hm_entries hm) \<le> pool_avail e3 Hashmap_item_pool" using assms(2) a(7) by (simp add: resize_room_def)
  from rehash_items_ok [OF a(5,6) e0(3) entries_rehashable [OF wf] this] obtain hm3 e4 bs ow where
    3: "rehash_items seed (hm_entries hm) hm2 e3 = Inr (hm3, e4)" "hm3 = hm2\<lparr>hm_items := bs, item_occupation := ow\<rparr>"
      "hm_wf seed hm3" "env_ok e4" "nodes_owned hm3 e4" "\<forall>k. hm_abs hm3 k = hm_abs hm k"
      "mset (hm_entries hm3) = mset (hm_entries hm)" "same_except {Hashmap_item_pool} e3 e4"
    by (auto simp: e0 hm_abs_def [of hm])
  have d4: "dom (blocks (c_heap e4)) = dom (blocks (c_heap e3))" using 3(8) by (simp add: same_except_def)
  then have "p \<in> dom (blocks (c_heap e4))" using a(11) pq by simp
  from env_free_block [OF 3(4) this] obtain e5 where
    5: "env_free (Some p) e4 = Inr e5" "env_ok e5" "pool e5 = pool e4" "dom (blocks (c_heap e5)) = dom (blocks (c_heap e4)) - {p}"
    by blast
  have run: "hashmap_resize seed hm e = Inr (hm3, e5)"
    using wf a(1-3) 3(1) 5(1) pq(1,2) by (simp add: hashmap_resize_def Let_def hm_wf_def hm_entries_def)
  have kset: "set (hm_keys hm3) = set (hm_keys hm)" and kd: "distinct (hm_keys hm3) = distinct (hm_keys hm)"
    using 3(7) by (metis hm_keys_def list.set_map mset_eq_setD, metis hm_keys_def mset_eq_imp_distinct_iff mset_map)
  have kma: "key_memory_allocator hm3 = ?kma" using 3(2) a(4) by simp
  have "set (hm_keys hm) \<subseteq> key_live ?kma e3"
    using keys pq(6) a(7,11) by (intro key_live_mono [of e3 e "{p, q}"]) (auto simp: keys_owned_def)
  then have "set (hm_keys hm) \<subseteq> key_live ?kma e4"
    using key_live_same_except [OF 3(8), of ?kma] keys by (simp add: keys_owned_def)
  then have "set (hm_keys hm) \<subseteq> key_live ?kma e5"
    using pq(6) 5(3,4) by (intro key_live_mono [of e5 e4 "{p, q}"]) auto
  then have keys3: "keys_owned hm3 e5" using keys by (simp add: keys_owned_def kset kd kma)
  have nodes: "nodes_owned hm3 e5" using 3(5) 5(3) by (simp add: nodes_owned_def)
  have "{p', q'} \<inter> set (hm_keys hm) = {}" if "?kma = None"
    using that keys a(8,9) pq(6) by (auto simp: keys_owned_def key_live_def)
  moreover have "p \<noteq> p'" "p \<noteq> q'" "p' \<noteq> q" using a(8,9) pq(3-5) by auto
  ultimately have "arrays_owned hm3 e5"
    unfolding arrays_owned_def kset kma using 3(2) a(4,10,11) 5(4) d4
    by (intro exI [of _ p'] exI [of _ q']) simp
  then show ?thesis
    using run keys3 nodes 3 5(2) a(4) kma by (intro exI [of _ hm3] exI [of _ e5]) (auto simp: hm_ok_def)
qed

section \<open>Insertion\<close>

definition key_fresh :: "ptr \<Rightarrow> 'v hashmap \<Rightarrow> env \<Rightarrow> bool" where
  "key_fresh key_at hm e \<longleftrightarrow> key_at \<in> key_live (key_memory_allocator hm) e \<and> key_at \<notin> set (hm_keys hm) \<and>
     (key_memory_allocator hm = None \<longrightarrow> Some key_at \<notin> {hm_items_at hm, item_occupation_at hm})"

definition insert_room :: "'v hashmap \<Rightarrow> env \<Rightarrow> bool" where
  "insert_room hm e \<longleftrightarrow> 0 < pool_avail e Hashmap_item_pool \<and>
     (hm_capacity hm \<le> hm_size hm + 1 \<longrightarrow> 4 * unat (hm_capacity hm) + 31 < 2 ^ 32 \<and>
        length (hm_entries hm) + 2 \<le> pool_avail e Hashmap_item_pool \<and>
        heap_room (132 * unat (hm_capacity hm)) (c_heap e))"

lemma hm_size_irrelevant [simp]:
  "hm_abs (hm\<lparr>hm_size := z\<rparr>) = hm_abs hm" "hm_entries (hm\<lparr>hm_size := z\<rparr>) = hm_entries hm"
  "nodes_owned (hm\<lparr>hm_size := z\<rparr>) e = nodes_owned hm e" "hm_wf seed (hm\<lparr>hm_size := z\<rparr>) = hm_wf seed hm"
  "hm_keys (hm\<lparr>hm_size := z\<rparr>) = hm_keys hm"
  by (auto simp: hm_abs_def hm_entries_def nodes_owned_def hm_nodes_def hm_wf_def fun_eq_iff hm_keys_def)

lemma arrays_owned_cong:
  assumes "arrays_owned hm e" and "hm_items_at hm1 = hm_items_at hm" and "item_occupation_at hm1 = item_occupation_at hm"
    and "key_memory_allocator hm1 = key_memory_allocator hm"
    and "\<And>x. key_memory_allocator hm = None \<Longrightarrow> x \<in> set (hm_keys hm1) \<Longrightarrow> x \<notin> set (hm_keys hm) \<Longrightarrow>
           Some x \<notin> {hm_items_at hm, item_occupation_at hm}"
    and "\<And>x. x \<in> dom (blocks (c_heap e)) \<Longrightarrow> Some x \<in> {hm_items_at hm, item_occupation_at hm} \<Longrightarrow>
           x \<in> dom (blocks (c_heap e1))"
  shows "arrays_owned hm1 e1"
proof -
  obtain p q where pq: "hm_items_at hm = Some p" "item_occupation_at hm = Some q" "p \<noteq> q"
    "p \<in> dom (blocks (c_heap e))" "q \<in> dom (blocks (c_heap e))"
    "key_memory_allocator hm = None \<longrightarrow> {p, q} \<inter> set (hm_keys hm) = {}" by (rule arrays_ownedE [OF assms(1)])
  have "{p, q} \<inter> set (hm_keys hm1) = {}" if "key_memory_allocator hm = None"
    using assms(5) [OF that] pq that by force
  with pq assms(2-4,6) show ?thesis
    unfolding arrays_owned_def by (intro exI [of _ p] exI [of _ q]) simp
qed

text \<open>The insertion itself, before the map may grow.\<close>

lemma insert_step_ok:
  fixes v :: "'v"
  assumes "hm_ok seed hm e" and "length k = unat n" and "key_fresh key_at hm e" and "0 < pool_avail e Hashmap_item_pool"
  defines "i \<equiv> unat (get_key seed k n hm)"
    and "it \<equiv> \<lparr>key_original_data = key_at, key_bytes = k, key_original_data_size = n, hm_value = Some v\<rparr>"
  shows "\<exists>b e1 hm1. insert_bucket it (hm_items hm ! i) e = Inr (b, e1) \<and>
     occupy i m (hm\<lparr>hm_items := (hm_items hm)[i := b], hm_size := z\<rparr>) = Inr hm1 \<and>
     hm_ok seed hm1 e1 \<and> hm_abs hm1 = (hm_abs hm)(k := hm_abs hm k @ [v]) \<and>
     mset (hm_entries hm1) = add_mset it (mset (hm_entries hm)) \<and> hm_size hm1 = z \<and>
     hm_capacity hm1 = hm_capacity hm \<and> key_memory_allocator hm1 = key_memory_allocator hm \<and>
     pool_avail e Hashmap_item_pool \<le> Suc (pool_avail e1 Hashmap_item_pool) \<and> c_heap e1 = c_heap e"
proof -
  have wf: "hm_wf seed hm" and env: "env_ok e" and nodes: "nodes_owned hm e" and keys: "keys_owned hm e"
    and arr: "arrays_owned hm e" using assms(1) by (simp_all add: hm_ok_def)
  have i: "i < length (hm_items hm)" unfolding i_def by (rule get_key_in_range [OF wf])
  have itwf: "item_wf seed (hm_capacity hm) i it" using assms(2) by (simp add: item_wf_def it_def i_def get_key_def)
  note bwf = hm_wf_bucket [OF wf i]
  from append_bucket_ok [OF env bwf itwf assms(4)] obtain b e1 new where
    b: "append_bucket it (hm_items hm ! i) e = Inr (b, e1)" "env_ok e1" "bucket_wf seed (hm_capacity hm) i b"
      "live_items b = live_items (hm_items hm ! i) @ [it]" "map fst (snd b) = map fst (snd (hm_items hm ! i)) @ new"
      "distinct new" "set new \<inter> pool_live e Hashmap_item_pool = {}"
      "pool_live e1 Hashmap_item_pool = pool_live e Hashmap_item_pool \<union> set new"
      "pool_avail e Hashmap_item_pool \<le> Suc (pool_avail e1 Hashmap_item_pool)"
      "same_except {Hashmap_item_pool} e e1" by blast
  define hm0 where "hm0 = hm\<lparr>hm_items := (hm_items hm)[i := b]\<rparr>"
  note place = place_abs [OF wf i itwf b(3,4), folded hm0_def]
  have nodes0: "nodes_owned hm0 e1" unfolding hm0_def by (rule place_nodes [OF nodes i b(5-8)])
  have i0: "i < length (hm_items (hm0\<lparr>hm_size := z\<rparr>))" using i by (simp add: hm0_def)
  obtain ow where ow: "occupy i m (hm0\<lparr>hm_size := z\<rparr>) = Inr (hm0\<lparr>hm_size := z, item_occupation := ow\<rparr>)"
      "length ow = length (item_occupation hm0)"
    using occupy_fields(1) [of seed "hm0\<lparr>hm_size := z\<rparr>", OF _ i0] place(1) by auto
  define hm1 where "hm1 = hm0\<lparr>hm_size := z, item_occupation := ow\<rparr>"
  have fields: "hm_items_at hm1 = hm_items_at hm" "item_occupation_at hm1 = item_occupation_at hm"
    "key_memory_allocator hm1 = key_memory_allocator hm" by (simp_all add: hm1_def hm0_def)
  have ks: "mset (hm_keys hm1) = add_mset key_at (mset (hm_keys hm))"
    using place(3) by (simp add: hm_keys_def hm1_def it_def)
  then have kset: "set (hm_keys hm1) = insert key_at (set (hm_keys hm))" by (metis set_mset_add_mset_insert set_mset_mset)
  have "mset (hm_keys hm1) = mset (key_at # hm_keys hm)" using ks by simp
  from mset_eq_imp_distinct_iff [OF this] have kd: "distinct (hm_keys hm1)"
    using keys assms(3) by (simp add: keys_owned_def key_fresh_def)
  have kl: "key_live (key_memory_allocator hm) e1 = key_live (key_memory_allocator hm) e"
    using key_live_same_except [OF b(10)] keys by (simp add: keys_owned_def)
  have "keys_owned hm1 e1" using keys kd kl assms(3) by (simp add: keys_owned_def kset fields key_fresh_def)
  moreover have "arrays_owned hm1 e1"
  proof (rule arrays_owned_cong [OF arr fields])
    fix x assume "key_memory_allocator hm = None" "x \<in> set (hm_keys hm1)" "x \<notin> set (hm_keys hm)"
    with assms(3) kset show "Some x \<notin> {hm_items_at hm, item_occupation_at hm}" by (simp add: key_fresh_def)
  next
    fix x assume "x \<in> dom (blocks (c_heap e))"
    with b(10) show "x \<in> dom (blocks (c_heap e1))" by (simp add: same_except_def)
  qed
  ultimately have "hm_ok seed hm1 e1" using b(2) place(1) nodes0 ow(2) by (simp add: hm_ok_def hm1_def)
  then show ?thesis
    using b(1,9,10) place(2,3) ow(1)
    by (intro exI [of _ b] exI [of _ e1] exI [of _ hm1])
       (simp add: insert_bucket_append [OF bwf] hm1_def hm0_def it_def same_except_def)
qed

lemma hashmap_insert_ok:
  assumes "hm_ok seed hm e" and "length k = unat n" and "key_fresh key_at hm e" and "insert_room hm e"
  shows "\<exists>hm' e'. hashmap_insert seed key_at k n (Some v) hm e = Inr (hm', e') \<and> hm_ok seed hm' e' \<and>
     hm_abs hm' = (hm_abs hm)(k := hm_abs hm k @ [v]) \<and> hm_size hm' = hm_size hm + 1 \<and>
     length (hm_entries hm') = Suc (length (hm_entries hm)) \<and>
     mset (hm_keys hm') = add_mset key_at (mset (hm_keys hm)) \<and>
     key_memory_allocator hm' = key_memory_allocator hm"
proof -
  have avail: "0 < pool_avail e Hashmap_item_pool" using assms(4) by (simp add: insert_room_def)
  let ?i = "unat (get_key seed k n hm)"
  let ?it = "\<lparr>key_original_data = key_at, key_bytes = k, key_original_data_size = n, hm_value = Some v\<rparr>"
  have i: "?i < length (hm_items hm)" using assms(1) by (simp add: hm_ok_def get_key_in_range)
  from insert_step_ok [OF assms(1-3) avail, of v "push_bit (?i mod 32) 0" "hm_size hm + 1"] obtain b e1 hm1 where
    1: "insert_bucket ?it (hm_items hm ! ?i) e = Inr (b, e1)"
     "occupy ?i (push_bit (?i mod 32) 0) (hm\<lparr>hm_items := (hm_items hm)[?i := b], hm_size := hm_size hm + 1\<rparr>) = Inr hm1"
     "hm_ok seed hm1 e1" "hm_abs hm1 = (hm_abs hm)(k := hm_abs hm k @ [v])"
     "mset (hm_entries hm1) = add_mset ?it (mset (hm_entries hm))" "hm_size hm1 = hm_size hm + 1"
     "hm_capacity hm1 = hm_capacity hm" "key_memory_allocator hm1 = key_memory_allocator hm"
     "pool_avail e Hashmap_item_pool \<le> Suc (pool_avail e1 Hashmap_item_pool)" "c_heap e1 = c_heap e" by blast
  have run: "hashmap_insert seed key_at k n (Some v) hm e =
     (if hm_capacity hm1 \<le> hm_size hm1 then hashmap_resize seed hm1 e1 else Inr (hm1, e1))"
    using i 1(1,2) by (simp add: hashmap_insert_def Let_def)
  have len: "length (hm_entries h) = Suc (length (hm_entries hm))"
    and ks: "mset (hm_keys h) = add_mset key_at (mset (hm_keys hm))"
    if "mset (hm_entries h) = mset (hm_entries hm1)" for h :: "'a hashmap"
    using that 1(5) by (metis size_mset size_add_mset, simp add: hm_keys_def)
  show ?thesis
  proof (cases "hm_capacity hm1 \<le> hm_size hm1")
    case True
    then have "resize_room hm1 e1"
      using assms(4) 1(6,7,9,10) len [of hm1] by (auto simp: insert_room_def resize_room_def)
    from hashmap_resize_ok [OF 1(3) this] True run 1(4,6,8) len ks show ?thesis by (metis (no_types, lifting))
  next
    case False
    with run 1(3,4,6,8) len [of hm1] ks [of hm1] show ?thesis by simp
  qed
qed

section \<open>Removal\<close>

text \<open>What releasing nodes \<open>ps\<close> and keys \<open>ks\<close> does to the memory.\<close>

definition released :: "pool_id option \<Rightarrow> ptr list \<Rightarrow> ptr list \<Rightarrow> env \<Rightarrow> env \<Rightarrow> bool" where
  "released kma ps ks e e' \<longleftrightarrow> env_ok e' \<and>
     pool_live e' Hashmap_item_pool = pool_live e Hashmap_item_pool - set ps \<and>
     key_live kma e' = key_live kma e - set ks \<and>
     dom (blocks (c_heap e)) - (if kma = None then set ks else {}) \<subseteq> dom (blocks (c_heap e'))"

lemma released_none: "env_ok e \<Longrightarrow> released kma [] [] e e"
  by (simp add: released_def)

lemma release_item:
  assumes "env_ok e" and "key_original_data it \<in> key_live (key_memory_allocator hm) e"
    and "p \<in> pool_live e Hashmap_item_pool" and "key_memory_allocator hm \<noteq> Some Hashmap_item_pool"
  shows "\<exists>e1 e2. free_hashmap_item_key hm it e = Inr e1 \<and> pool_free Hashmap_item_pool p e1 = Inr e2 \<and>
     released (key_memory_allocator hm) [p] [key_original_data it] e e2"
proof -
  have "\<exists>e1. free_hashmap_item_key hm it e = Inr e1 \<and> env_ok e1 \<and>
     pool_live e1 Hashmap_item_pool = pool_live e Hashmap_item_pool \<and>
     key_live (key_memory_allocator hm) e1 = key_live (key_memory_allocator hm) e - {key_original_data it} \<and>
     dom (blocks (c_heap e)) - (if key_memory_allocator hm = None then {key_original_data it} else {})
       \<subseteq> dom (blocks (c_heap e1))"
  proof (cases "key_memory_allocator hm")
    case None
    with env_free_block [OF assms(1), of "key_original_data it"] assms(2) show ?thesis
      by (auto simp: free_hashmap_item_key_def key_live_def)
  next
    case (Some i)
    with assms(2) have "key_original_data it \<in> pool_live e i" by (simp add: key_live_def)
    from pool_free_ok [OF assms(1) this] Some assms(4) show ?thesis
      by (auto simp: free_hashmap_item_key_def key_live_def same_except_def)
  qed
  then obtain e1 where 1: "free_hashmap_item_key hm it e = Inr e1" "env_ok e1"
    "pool_live e1 Hashmap_item_pool = pool_live e Hashmap_item_pool"
    "key_live (key_memory_allocator hm) e1 = key_live (key_memory_allocator hm) e - {key_original_data it}"
    "dom (blocks (c_heap e)) - (if key_memory_allocator hm = None then {key_original_data it} else {})
       \<subseteq> dom (blocks (c_heap e1))" by blast
  have "p \<in> pool_live e1 Hashmap_item_pool" using assms(3) 1(3) by simp
  from pool_free_ok [OF 1(2) this] obtain e2 where 2: "pool_free Hashmap_item_pool p e1 = Inr e2" "env_ok e2"
    "pool_live e2 Hashmap_item_pool = pool_live e Hashmap_item_pool - {p}" "same_except {Hashmap_item_pool} e1 e2"
    using 1(3) by auto
  have "key_live (key_memory_allocator hm) e2 = key_live (key_memory_allocator hm) e1"
    by (rule key_live_same_except [OF 2(4) assms(4)])
  moreover have "c_heap e2 = c_heap e1" using 2(4) by (simp add: same_except_def)
  ultimately have "released (key_memory_allocator hm) [p] [key_original_data it] e e2"
    unfolding released_def using 1 2 by (cases "key_memory_allocator hm") simp_all
  with 1(1) 2(1) show ?thesis by blast
qed

text \<open>The first matching element dropped.\<close>

definition drop_first :: "('a \<Rightarrow> bool) \<Rightarrow> 'a list \<Rightarrow> 'a list" where
  "drop_first P xs = takeWhile (\<lambda>x. \<not> P x) xs @ tl (dropWhile (\<lambda>x. \<not> P x) xs)"

lemma drop_first_simps [simp]:
  "drop_first P [] = []"
  "P x \<Longrightarrow> drop_first P (x # xs) = xs"
  "\<not> P x \<Longrightarrow> drop_first P (x # xs) = x # drop_first P xs"
  by (simp_all add: drop_first_def)

lemma filter_drop_first: "filter P (drop_first P xs) = tl (filter P xs)"
proof (induction xs)
  case (Cons x xs)
  then show ?case by (cases "P x") simp_all
qed simp

lemma filter_drop_first_other: "(\<And>x. P x \<Longrightarrow> \<not> Q x) \<Longrightarrow> filter Q (drop_first P xs) = filter Q xs"
proof (induction xs)
  case (Cons x xs)
  then show ?case by (cases "P x") simp_all
qed simp

lemma drop_first_cases:
  "(drop_first P xs = xs \<and> (\<forall>x \<in> set xs. \<not> P x)) \<or>
   (\<exists>us x vs. xs = us @ x # vs \<and> P x \<and> (\<forall>x \<in> set us. \<not> P x) \<and> drop_first P xs = us @ vs)"
proof (induction xs)
  case (Cons y xs)
  show ?case
  proof (cases "P y")
    case True
    then show ?thesis by (intro disjI2 exI [of _ "[]"]) simp
  next
    case False
    from Cons.IH show ?thesis
    proof
      assume "\<exists>us x vs. xs = us @ x # vs \<and> P x \<and> (\<forall>x \<in> set us. \<not> P x) \<and> drop_first P xs = us @ vs"
      then obtain us x vs where "xs = us @ x # vs" "P x" "\<forall>x \<in> set us. \<not> P x" "drop_first P xs = us @ vs" by blast
      with False show ?thesis by (intro disjI2 exI [of _ "y # us"] exI [of _ x] exI [of _ vs]) simp
    qed (use False in simp)
  qed
qed simp

lemma remove_chain_none:
  "\<forall>n \<in> set cs. \<not> key_matches k m (snd n) \<Longrightarrow> remove_chain hm k m cs e = Inr (None, e)"
  by (induction cs) auto

lemma remove_chain_hit:
  "\<forall>n \<in> set us. \<not> key_matches k m (snd n) \<Longrightarrow> key_matches k m c \<Longrightarrow>
   free_hashmap_item_key hm c e = Inr e1 \<Longrightarrow> pool_free Hashmap_item_pool p e1 = Inr e2 \<Longrightarrow>
   remove_chain hm k m (us @ (p, c) # vs) e = Inr (Some (us @ vs), e2)"
  by (induction us) auto

text \<open>One bucket: the first entry of the key goes, the others stay in order.\<close>

definition bucket_removed ::
  "u64 \<Rightarrow> 'v hashmap \<Rightarrow> nat \<Rightarrow> u8 list \<Rightarrow> 'v hm_bucket \<Rightarrow> 'v hm_bucket \<Rightarrow> env \<Rightarrow> env \<Rightarrow> bool" where
  "bucket_removed seed hm i k b b' e e' \<longleftrightarrow> bucket_wf seed (hm_capacity hm) i b' \<and>
     live_items b' = drop_first (\<lambda>it. key_bytes it = k) (live_items b) \<and>
     (\<exists>ps ks. mset (map fst (snd b)) = mset (map fst (snd b')) + mset ps \<and>
        mset (map key_original_data (live_items b')) + mset ks \<subseteq># mset (map key_original_data (live_items b)) \<and>
        released (key_memory_allocator hm) ps ks e e')"

lemma bucket_removed_none:
  assumes "env_ok e" and "bucket_wf seed (hm_capacity hm) i b" and "\<forall>it \<in> set (live_items b). key_bytes it \<noteq> k"
  shows "bucket_removed seed hm i k b b e e"
  unfolding bucket_removed_def
  using assms drop_first_cases [of "\<lambda>it. key_bytes it = k" "live_items b"] released_none [OF assms(1)]
  by (intro conjI exI [of _ "[]"]) auto

lemma bucket_wf_live:
  assumes "bucket_wf seed c i b" and "hm_value (fst b) \<noteq> None"
  shows "live_items b = fst b # map snd (snd b)" and "list_all (item_wf seed c i) (fst b # map snd (snd b))"
proof -
  show l: "live_items b = fst b # map snd (snd b)"
    using assms(2) unfolding live_items_def bucket_items_def by (rule if_not_P)
  show "list_all (item_wf seed c i) (fst b # map snd (snd b))"
    using assms(1) unfolding bucket_wf_def l by simp
qed

lemma remove_bucket_ok:
  assumes "env_ok e" and bwf: "bucket_wf seed (hm_capacity hm) i b" and "set (map fst (snd b)) \<subseteq> pool_live e Hashmap_item_pool"
    and "key_original_data ` set (live_items b) \<subseteq> key_live (key_memory_allocator hm) e"
    and kma: "key_memory_allocator hm \<noteq> Some Hashmap_item_pool" and "length k = unat m"
  shows "\<exists>r e'. remove_bucket hm k m b e = Inr (r, e') \<and>
     bucket_removed seed hm i k b (case r of None \<Rightarrow> b | Some b' \<Rightarrow> b') e e'"
proof (cases "hm_value (fst b) = None")
  case True
  then have "snd b = []" "live_items b = []" using bwf by (simp_all add: bucket_wf_def live_items_def)
  with True assms(1,2) show ?thesis
    by (auto simp: remove_bucket_def bucket_removed_def bucket_wf_def live_items_def released_none intro: exI [of _ "[]"])
next
  case False
  note live = bucket_wf_live [OF bwf False]
  have m: "key_matches k m it \<longleftrightarrow> key_bytes it = k" if "it \<in> set (fst b # map snd (snd b))" for it
    using live(2) that assms(6) by (intro key_matches_iff) (auto simp: list_all_iff item_wf_def)
  show ?thesis
  proof (cases "key_bytes (fst b) = k")
    case head: True
    show ?thesis
    proof (cases "snd b")
      case Nil
      with head m live(1) assms(1) show ?thesis
        by (auto simp: remove_bucket_def bucket_removed_def bucket_wf_def live_items_def released_none intro: exI [of _ "[]"])
    next
      case (Cons n cs)
      obtain p c where n: "n = (p, c)" by (cases n)
      obtain e1 e2 where r: "free_hashmap_item_key hm (fst b) e = Inr e1" "pool_free Hashmap_item_pool p e1 = Inr e2"
        "released (key_memory_allocator hm) [p] [key_original_data (fst b)] e e2"
        using release_item [OF assms(1), of "fst b" hm p] assms(3,4) kma live(1) Cons n by auto
      have "hm_value c \<noteq> None" using live(2) Cons n by (simp add: item_wf_def)
      then have l': "live_items (c, cs) = c # map snd cs"
        unfolding live_items_def bucket_items_def by simp
      have wf': "bucket_wf seed (hm_capacity hm) i (c, cs)"
        using live(2) Cons n \<open>hm_value c \<noteq> None\<close> unfolding bucket_wf_def l' by auto
      have "remove_bucket hm k m b e = Inr (Some (c, cs), e2)"
        using head m Cons n r(1,2) by (simp add: remove_bucket_def)
      moreover have "bucket_removed seed hm i k b (c, cs) e e2"
        unfolding bucket_removed_def live(1) l' using wf' r(3) head Cons n
        by (intro conjI exI [of _ "[p]"] exI [of _ "[key_original_data (fst b)]"]) simp_all
      ultimately show ?thesis by (intro exI [of _ "Some (c, cs)"] exI [of _ e2]) simp
    qed
  next
    case nohead: False
    let ?P = "\<lambda>n. key_bytes (snd n) = k"
    from drop_first_cases [of ?P "snd b"] show ?thesis
    proof
      assume none: "drop_first ?P (snd b) = snd b \<and> (\<forall>n \<in> set (snd b). \<not> ?P n)"
      then have "remove_bucket hm k m b e = Inr (None, e)"
        using nohead m by (simp add: remove_bucket_def remove_chain_none)
      moreover have "bucket_removed seed hm i k b b e e"
        using none nohead by (intro bucket_removed_none [OF assms(1) bwf]) (simp add: live(1))
      ultimately show ?thesis by (intro exI [of _ None] exI [of _ e]) simp
    next
      assume "\<exists>us x vs. snd b = us @ x # vs \<and> ?P x \<and> (\<forall>x \<in> set us. \<not> ?P x) \<and> drop_first ?P (snd b) = us @ vs"
      then obtain us p c vs where u: "snd b = us @ (p, c) # vs" "key_bytes c = k" "\<forall>x \<in> set us. \<not> ?P x" by auto
      obtain e1 e2 where r: "free_hashmap_item_key hm c e = Inr e1" "pool_free Hashmap_item_pool p e1 = Inr e2"
        "released (key_memory_allocator hm) [p] [key_original_data c] e e2"
        using release_item [OF assms(1), of c hm p] assms(3,4) kma live(1) u(1) by auto
      have "remove_chain hm k m (us @ (p, c) # vs) e = Inr (Some (us @ vs), e2)"
        using u m r(1,2) by (intro remove_chain_hit) auto
      then have "remove_bucket hm k m b e = Inr (Some (fst b, us @ vs), e2)"
        using nohead m u(1) by (simp add: remove_bucket_def)
      moreover have l': "live_items (fst b, us @ vs) = fst b # map snd us @ map snd vs"
        using False unfolding live_items_def bucket_items_def by simp
      moreover have "bucket_wf seed (hm_capacity hm) i (fst b, us @ vs)"
        using live(2) u(1) False unfolding bucket_wf_def l' by auto
      moreover have "drop_first (\<lambda>it. key_bytes it = k) (map snd us @ c # map snd vs) = map snd us @ map snd vs"
        using u(3) by (induction us) (simp_all add: u(2))
      ultimately show ?thesis
        using r(3) nohead u(1)
        by (intro exI [of _ "Some (fst b, us @ vs)"] exI [of _ e2])
           (auto simp: bucket_removed_def live(1) intro!: exI [of _ "[p]"] exI [of _ "[key_original_data c]"])
    qed
  qed
qed

lemma live_items_keys: "i < length (hm_items hm) \<Longrightarrow> set (live_items (hm_items hm ! i)) \<subseteq> set (hm_entries hm)"
  by (auto simp: hm_entries_def visited_split)

lemma bucket_nodes_in: "i < length (hm_items hm) \<Longrightarrow> set (map fst (snd (hm_items hm ! i))) \<subseteq> set (hm_nodes hm)"
  unfolding hm_nodes_def by (subst hm_items_split_same) auto

text \<open>Ownership survives the release of what one bucket gave up.\<close>

lemma removed_nodes:
  assumes "nodes_owned hm e" and "i < length (hm_items hm)"
    and "mset (map fst (snd (hm_items hm ! i))) = mset (map fst (snd b')) + mset ps"
    and "released kma ps ks e e'"
  shows "nodes_owned (hm\<lparr>hm_items := (hm_items hm)[i := b']\<rparr>) e'"
proof -
  let ?f = "\<lambda>b. map fst (snd b)" let ?hm' = "hm\<lparr>hm_items := (hm_items hm)[i := b']\<rparr>"
  have "mset (hm_nodes hm) = mset (hm_nodes ?hm' @ ps)"
    using assms(3) hm_items_split [OF assms(2), of ?f b'] hm_items_split_same [OF assms(2), of ?f]
    by (simp add: hm_nodes_def)
  then have "distinct (hm_nodes hm) = distinct (hm_nodes ?hm' @ ps)" "set (hm_nodes hm) = set (hm_nodes ?hm' @ ps)"
    by (rule mset_eq_imp_distinct_iff, rule mset_eq_setD)
  with assms(1,4) show ?thesis by (auto simp: nodes_owned_def released_def)
qed

lemma removed_keys:
  assumes "keys_owned hm e" and "i < length (hm_items hm)"
    and "mset (map key_original_data (live_items b')) + mset ks \<subseteq># mset (map key_original_data (live_items (hm_items hm ! i)))"
    and "released (key_memory_allocator hm) ps ks e e'"
  shows "keys_owned (hm\<lparr>hm_items := (hm_items hm)[i := b']\<rparr>) e'"
    and "set (hm_keys (hm\<lparr>hm_items := (hm_items hm)[i := b']\<rparr>)) \<union> set ks \<subseteq> set (hm_keys hm)"
proof -
  let ?hm' = "hm\<lparr>hm_items := (hm_items hm)[i := b']\<rparr>"
  have "mset (hm_keys ?hm' @ ks) \<subseteq># mset (hm_keys hm)"
    using assms(3) by (simp add: hm_keys_def hm_entries_def visited_update [OF assms(2)] visited_split [OF assms(2)])
  then have d: "distinct (hm_keys hm) \<Longrightarrow> distinct (hm_keys ?hm' @ ks)"
    and s: "set (hm_keys ?hm' @ ks) \<subseteq> set (hm_keys hm)"
    by (metis distinct_append ex_mset mset_append mset_eq_imp_distinct_iff subset_mset.le_iff_add, metis set_mset_mono set_mset_mset)
  show "set (hm_keys ?hm') \<union> set ks \<subseteq> set (hm_keys hm)" using s by simp
  show "keys_owned ?hm' e'" using assms(1,4) d s by (auto simp: keys_owned_def released_def)
qed

text \<open>The occupation updates of insertion and removal change nothing.\<close>

lemma occupation_noop:
  assumes "hm_wf seed hm" and "i < length (hm_items hm)"
  shows "vacate i (NOT (push_bit j 0)) hm = Inr hm" and "occupy i (push_bit j 0) hm = Inr hm"
  using occupation_in_range [OF assms] by (simp_all add: vacate_def occupy_def)

lemma bucket_removed_abs:
  assumes "hm_wf seed hm" and "length k = unat n" and "i = unat (get_key seed k n hm)"
    and "bucket_wf seed (hm_capacity hm) i b'"
    and "live_items b' = drop_first (\<lambda>it. key_bytes it = k) (live_items (hm_items hm ! i))"
  defines "hm' \<equiv> hm\<lparr>hm_items := (hm_items hm)[i := b']\<rparr>"
  shows "hm_wf seed hm'" and "hm_abs hm' = (hm_abs hm)(k := tl (hm_abs hm k))"
proof -
  have i: "i < length (hm_items hm)" using get_key_in_range [OF assms(1)] assms(3) by simp
  show wf': "hm_wf seed hm'"
    using hm_wf_update [OF assms(1) i assms(4), of "hm_size hm"] by (simp add: hm'_def)
  have i': "i = unat (get_key seed k n hm')" using assms(3) by (simp add: get_key_def hm'_def)
  show "hm_abs hm' = (hm_abs hm)(k := tl (hm_abs hm k))"
  proof
    fix k'
    show "hm_abs hm' k' = ((hm_abs hm)(k := tl (hm_abs hm k))) k'"
    proof (cases "k' = k")
      case True
      then show ?thesis
        using hm_abs_slot [OF assms(1-3)] hm_abs_slot [OF wf' assms(2) i'] i assms(5)
        by (simp add: hm'_def filter_drop_first map_tl)
    next
      case False
      then have "filter (\<lambda>it. key_bytes it = k') (live_items b') = filter (\<lambda>it. key_bytes it = k') (live_items (hm_items hm ! i))"
        unfolding assms(5) by (intro filter_drop_first_other) simp
      from hm_abs_update [OF i this, of "hm_size hm"] False show ?thesis by (simp add: hm'_def)
    qed
  qed
qed

lemma hashmap_remove_ok:
  assumes "hm_ok seed hm e" and "length k = unat n"
  shows "\<exists>hm' e'. hashmap_remove seed k n hm e = Inr (hm', e') \<and> hm_ok seed hm' e' \<and>
     hm_abs hm' = (hm_abs hm)(k := tl (hm_abs hm k)) \<and> set (hm_keys hm') \<subseteq> set (hm_keys hm) \<and>
     key_memory_allocator hm' = key_memory_allocator hm"
proof -
  let ?i = "unat (get_key seed k n hm)" let ?b = "hm_items hm ! ?i" let ?kma = "key_memory_allocator hm"
  have wf: "hm_wf seed hm" and env: "env_ok e" and nodes: "nodes_owned hm e" and keys: "keys_owned hm e"
    and arr: "arrays_owned hm e" using assms(1) by (simp_all add: hm_ok_def)
  have i: "?i < length (hm_items hm)" by (rule get_key_in_range [OF wf])
  have ns: "set (map fst (snd ?b)) \<subseteq> pool_live e Hashmap_item_pool"
    using bucket_nodes_in [OF i] nodes by (auto simp: nodes_owned_def)
  have ks: "key_original_data ` set (live_items ?b) \<subseteq> key_live ?kma e"
    using live_items_keys [OF i] keys by (auto simp: keys_owned_def hm_keys_def)
  have "?kma \<noteq> Some Hashmap_item_pool" using keys by (simp add: keys_owned_def)
  from remove_bucket_ok [OF env hm_wf_bucket [OF wf i] ns ks this assms(2)] obtain r e' where
    r: "remove_bucket hm k n ?b e = Inr (r, e')"
      "bucket_removed seed hm ?i k ?b (case r of None \<Rightarrow> ?b | Some b' \<Rightarrow> b') e e'" by blast
  define b' where "b' = (case r of None \<Rightarrow> ?b | Some b' \<Rightarrow> b')"
  define hm0 where "hm0 = hm\<lparr>hm_items := (hm_items hm)[?i := b']\<rparr>"
  obtain ps ks where b': "bucket_wf seed (hm_capacity hm) ?i b'"
     "live_items b' = drop_first (\<lambda>it. key_bytes it = k) (live_items ?b)"
     "mset (map fst (snd ?b)) = mset (map fst (snd b')) + mset ps"
     "mset (map key_original_data (live_items b')) + mset ks \<subseteq># mset (map key_original_data (live_items ?b))"
     "released ?kma ps ks e e'" using r(2) unfolding b'_def [symmetric] bucket_removed_def by blast
  have run: "hashmap_remove seed k n hm e = Inr (hm0\<lparr>hm_size := (if r = None then hm_size hm else hm_size hm - 1)\<rparr>, e')"
    using i r(1) occupation_noop(1) [OF wf i] by (cases r) (auto simp: hashmap_remove_def Let_def hm0_def b'_def)
  note abs = bucket_removed_abs [OF wf assms(2) refl b'(1,2), folded hm0_def]
  note keys0 = removed_keys [OF keys i b'(4,5), folded hm0_def]
  have nodes0: "nodes_owned hm0 e'" unfolding hm0_def by (rule removed_nodes [OF nodes i b'(3,5)])
  obtain p q where pq: "hm_items_at hm = Some p" "item_occupation_at hm = Some q"
    "?kma = None \<longrightarrow> {p, q} \<inter> set (hm_keys hm) = {}" by (rule arrays_ownedE [OF arr])
  have "arrays_owned hm0 e'"
  proof (rule arrays_owned_cong [OF arr])
    fix x assume "x \<in> dom (blocks (c_heap e))" "Some x \<in> {hm_items_at hm, item_occupation_at hm}"
    with pq keys0(2) b'(5) show "x \<in> dom (blocks (c_heap e'))"
      by (cases "?kma = None") (auto simp: released_def)
  qed (use keys0(2) in \<open>auto simp: hm0_def\<close>)
  then have "hm_ok seed (hm0\<lparr>hm_size := z\<rparr>) e'" for z
    using abs(1) nodes0 keys0(1) b'(5)
    by (simp add: hm_ok_def keys_owned_def arrays_owned_def released_def)
  with run abs(2) keys0(2) show ?thesis by (auto simp: hm0_def)
qed

section \<open>Pools a map leaves alone\<close>

lemma pool_allocate_frame: "pool_allocate j e = Inr (p, e') \<Longrightarrow> i \<noteq> j \<Longrightarrow> pool e' i = pool e i"
  by (auto simp: pool_allocate_def res_simps)

lemma pool_free_frame: "pool_free j p e = Inr e' \<Longrightarrow> i \<noteq> j \<Longrightarrow> pool e' i = pool e i"
  by (auto simp: pool_free_def res_simps)

lemma env_malloc_pool: "env_malloc n e = (r, e') \<Longrightarrow> pool e' = pool e"
  by (auto simp: env_malloc_def split: prod.splits)

lemma env_free_pool: "env_free q e = Inr e' \<Longrightarrow> pool e' = pool e"
  by (auto simp: env_free_def res_simps)

lemma append_bucket_frame:
  "append_bucket it b e = Inr (b', e') \<Longrightarrow> i \<noteq> Hashmap_item_pool \<Longrightarrow> pool e' i = pool e i"
  by (auto simp: append_bucket_def res_simps split: if_splits dest: pool_allocate_frame)

lemma insert_chain_frame:
  "insert_chain it cs e = Inr (cs', e') \<Longrightarrow> i \<noteq> Hashmap_item_pool \<Longrightarrow> pool e' i = pool e i"
  by (induction it cs e arbitrary: cs' e' rule: insert_chain.induct)
     (auto simp: res_simps split: if_splits dest: pool_allocate_frame)

lemma rehash_items_frame:
  "rehash_items seed its hm e = Inr (hm', e') \<Longrightarrow> i \<noteq> Hashmap_item_pool \<Longrightarrow> pool e' i = pool e i"
proof (induction its arbitrary: hm e)
  case (Cons it its)
  from Cons.prems(1) obtain hm1 e1 where 1: "rehash_item seed it hm e = Inr (hm1, e1)" "rehash_items seed its hm1 e1 = Inr (hm', e')"
    by (auto simp: res_simps)
  then have "pool e1 i = pool e i"
    using Cons.prems(2) by (auto simp: rehash_item_def Let_def res_simps split: if_splits dest: append_bucket_frame)
  with Cons.IH [OF 1(2) Cons.prems(2)] show ?case by simp
qed simp

lemma hashmap_resize_frame:
  assumes "hashmap_resize seed hm e = Inr (hm', e')" and "i \<noteq> Hashmap_item_pool"
  shows "pool e' i = pool e i"
  using assms
  by (auto simp: hashmap_resize_def hashmap_calloc_def occupation_calloc_def Let_def res_simps
      split: prod.splits if_splits dest!: env_malloc_pool env_free_pool rehash_items_frame)

lemma hashmap_insert_frame:
  assumes "hashmap_insert seed a k n v hm e = Inr (hm', e')" and "i \<noteq> Hashmap_item_pool"
  shows "pool e' i = pool e i"
proof -
  have *: "pool e1 i = pool e i" if "insert_bucket it b e = Inr (b', e1)" for it b b' e1
    using that assms(2) by (auto simp: insert_bucket_def res_simps split: if_splits dest: insert_chain_frame)
  from assms show ?thesis
    by (auto simp: hashmap_insert_def Let_def res_simps occupy_def split: if_splits dest!: * hashmap_resize_frame)
qed

lemma free_key_frame:
  "free_hashmap_item_key hm it e = Inr e' \<Longrightarrow> Some i \<noteq> key_memory_allocator hm \<Longrightarrow> pool e' i = pool e i"
  by (auto simp: free_hashmap_item_key_def split: option.splits dest: env_free_pool pool_free_frame)

lemma remove_chain_frame:
  "remove_chain hm k n cs e = Inr (r, e') \<Longrightarrow> i \<noteq> Hashmap_item_pool \<Longrightarrow> Some i \<noteq> key_memory_allocator hm \<Longrightarrow>
   pool e' i = pool e i"
  by (induction hm k n cs e arbitrary: r e' rule: remove_chain.induct)
     (auto simp: res_simps split: if_splits dest!: free_key_frame pool_free_frame [of Hashmap_item_pool])

lemma hashmap_remove_frame:
  assumes "hashmap_remove seed k n hm e = Inr (hm', e')" and "i \<noteq> Hashmap_item_pool"
    and "Some i \<noteq> key_memory_allocator hm"
  shows "pool e' i = pool e i"
proof -
  have *: "pool e1 i = pool e i" if "remove_bucket h k n b e = Inr (r, e1)" "key_memory_allocator h = key_memory_allocator hm" for h b r e1
    using that assms(2,3)
    by (auto simp: remove_bucket_def res_simps split: if_splits list.splits
        dest!: remove_chain_frame free_key_frame pool_free_frame [of Hashmap_item_pool])
  from assms(1) show ?thesis
    by (auto simp: hashmap_remove_def Let_def res_simps vacate_def split: if_splits option.splits dest!: *)
qed

text \<open>An insertion that does not make the map grow only takes from the node pool.\<close>

lemma hashmap_insert_small:
  assumes "hm_ok seed hm e" and "length k = unat n" and "key_fresh a hm e" and "0 < pool_avail e Hashmap_item_pool"
    and "hm_size hm + 1 < hm_capacity hm"
  shows "\<exists>hm' e'. hashmap_insert seed a k n (Some v) hm e = Inr (hm', e') \<and> hm_ok seed hm' e' \<and>
     hm_abs hm' = (hm_abs hm)(k := hm_abs hm k @ [v]) \<and> hm_size hm' = hm_size hm + 1 \<and> hm_capacity hm' = hm_capacity hm \<and>
     key_memory_allocator hm' = key_memory_allocator hm \<and> mset (hm_keys hm') = add_mset a (mset (hm_keys hm)) \<and>
     same_except {Hashmap_item_pool} e e' \<and> pool_avail e Hashmap_item_pool \<le> Suc (pool_avail e' Hashmap_item_pool)"
proof -
  let ?i = "unat (get_key seed k n hm)"
  have i: "?i < length (hm_items hm)" using assms(1) by (simp add: hm_ok_def get_key_in_range)
  from insert_step_ok [OF assms(1-4), of v "push_bit (?i mod 32) 0" "hm_size hm + 1"] obtain b e1 hm1 where
    1: "insert_bucket \<lparr>key_original_data = a, key_bytes = k, key_original_data_size = n, hm_value = Some v\<rparr> (hm_items hm ! ?i) e = Inr (b, e1)"
     "occupy ?i (push_bit (?i mod 32) 0) (hm\<lparr>hm_items := (hm_items hm)[?i := b], hm_size := hm_size hm + 1\<rparr>) = Inr hm1"
     "hm_ok seed hm1 e1" "hm_abs hm1 = (hm_abs hm)(k := hm_abs hm k @ [v])"
     "mset (hm_entries hm1) = add_mset \<lparr>key_original_data = a, key_bytes = k, key_original_data_size = n, hm_value = Some v\<rparr> (mset (hm_entries hm))"
     "hm_size hm1 = hm_size hm + 1" "hm_capacity hm1 = hm_capacity hm" "key_memory_allocator hm1 = key_memory_allocator hm"
     "pool_avail e Hashmap_item_pool \<le> Suc (pool_avail e1 Hashmap_item_pool)" "c_heap e1 = c_heap e" by blast
  have "\<not> hm_capacity hm1 \<le> hm_size hm1" using 1(6,7) assms(5) by simp
  then have run: "hashmap_insert seed a k n (Some v) hm e = Inr (hm1, e1)"
    using i 1(1,2) by (simp add: hashmap_insert_def Let_def)
  have "same_except {Hashmap_item_pool} e e1"
    unfolding same_except_def using 1(10) hashmap_insert_frame [OF run] by blast
  moreover have "mset (hm_keys hm1) = add_mset a (mset (hm_keys hm))" using 1(5) by (simp add: hm_keys_def)
  ultimately show ?thesis using run 1 by blast
qed

section \<open>The contract of a keyed store\<close>

text \<open>
  What the rest of the library relies on: a store keeps for each key the values put
  under it, a lookup answers the oldest, a removal drops the oldest.
\<close>

locale keyed_store =
  fixes ok :: "'s \<Rightarrow> bool"
    and valid_key :: "'k \<Rightarrow> bool"
    and contents :: "'s \<Rightarrow> 'k \<Rightarrow> 'v list"
    and can_put :: "ptr \<Rightarrow> 's \<Rightarrow> bool"
    and get :: "'k \<Rightarrow> 's \<Rightarrow> 'v option res"
    and put_value :: "ptr \<Rightarrow> 'k \<Rightarrow> 'v \<Rightarrow> 's \<Rightarrow> 's res"
    and remove :: "'k \<Rightarrow> 's \<Rightarrow> 's res"
  assumes get_spec: "ok s \<Longrightarrow> valid_key k \<Longrightarrow> get k s = Inr (first_of (contents s k))"
    and put_spec: "ok s \<Longrightarrow> valid_key k \<Longrightarrow> can_put a s \<Longrightarrow>
      \<exists>s'. put_value a k v s = Inr s' \<and> ok s' \<and> contents s' = (contents s)(k := contents s k @ [v])"
    and remove_spec: "ok s \<Longrightarrow> valid_key k \<Longrightarrow>
      \<exists>s'. remove k s = Inr s' \<and> ok s' \<and> contents s' = (contents s)(k := tl (contents s k))"
begin

lemma get_put_absent:
  assumes "ok s" and "valid_key k" and "can_put a s" and "get k s = Inr None"
  shows "\<exists>s'. put_value a k v s = Inr s' \<and> ok s' \<and> get k s' = Inr (Some v) \<and>
     (\<forall>j. valid_key j \<longrightarrow> j \<noteq> k \<longrightarrow> get j s' = get j s)"
proof -
  have "contents s k = []" using assms(4) get_spec [OF assms(1,2)] by (auto simp: first_of_def split: list.splits)
  with put_spec [OF assms(1-3), of v] obtain s' where
    "put_value a k v s = Inr s'" "ok s'" "contents s' = (contents s)(k := [v])" by auto
  then show ?thesis using get_spec [OF assms(1)] get_spec [of s'] assms(2) by (auto simp: first_of_def)
qed

lemma get_put_present:
  assumes "ok s" and "valid_key k" and "can_put a s" and "get k s = Inr (Some u)"
  shows "\<exists>s'. put_value a k v s = Inr s' \<and> ok s' \<and> get k s' = Inr (Some u)"
proof -
  obtain us where "contents s k = u # us"
    using assms(4) get_spec [OF assms(1,2)] by (auto simp: first_of_def split: list.splits)
  with put_spec [OF assms(1-3), of v] obtain s' where
    "put_value a k v s = Inr s'" "ok s'" "contents s' = (contents s)(k := u # us @ [v])" by auto
  then show ?thesis using get_spec [of s' k] assms(2) by (auto simp: first_of_def)
qed

lemma put_remove:
  assumes "ok s" and "valid_key k" and "can_put a s" and "get k s = Inr None"
  shows "\<exists>s' s''. put_value a k v s = Inr s' \<and> remove k s' = Inr s'' \<and> ok s'' \<and> contents s'' = contents s"
proof -
  have k: "contents s k = []" using assms(4) get_spec [OF assms(1,2)] by (auto simp: first_of_def split: list.splits)
  with put_spec [OF assms(1-3), of v] obtain s' where
    1: "put_value a k v s = Inr s'" "ok s'" "contents s' = (contents s)(k := [v])" by auto
  from remove_spec [OF 1(2) assms(2)] obtain s'' where
    "remove k s' = Inr s''" "ok s''" "contents s'' = (contents s')(k := tl (contents s' k))" by blast
  with 1 k show ?thesis by (intro exI [of _ s'] exI [of _ s'']) (auto simp: fun_eq_iff)
qed

lemma get_remove:
  assumes "ok s" and "valid_key k" and "\<And>u v us. contents s k \<noteq> u # v # us"
  shows "\<exists>s'. remove k s = Inr s' \<and> ok s' \<and> get k s' = Inr None \<and>
     (\<forall>j. valid_key j \<longrightarrow> j \<noteq> k \<longrightarrow> get j s' = get j s)"
proof -
  from remove_spec [OF assms(1,2)] obtain s' where
    s': "remove k s = Inr s'" "ok s'" "contents s' = (contents s)(k := tl (contents s k))" by blast
  moreover have "tl (contents s k) = []" using assms(3) by (metis list.exhaust_sel list.sel(2))
  ultimately show ?thesis using get_spec [OF assms(1)] get_spec [OF s'(2)] assms(2)
    by (auto simp: first_of_def)
qed

end

abbreviation key_len :: "u8 list \<Rightarrow> u32" where
  "key_len k \<equiv> of_nat (length k)"

interpretation hm_store: keyed_store
  "\<lambda>s. hm_ok seed (fst s) (snd s)" "\<lambda>k. length k < 2 ^ 32" "\<lambda>s. hm_abs (fst s)"
  "\<lambda>a s. key_fresh a (fst s) (snd s) \<and> insert_room (fst s) (snd s)"
  "\<lambda>k s. hashmap_get seed k (key_len k) (fst s)"
  "\<lambda>a k v s. hashmap_insert seed a k (key_len k) (Some v) (fst s) (snd s)"
  "\<lambda>k s. hashmap_remove seed k (key_len k) (fst s) (snd s)" for seed
proof (unfold_locales, goal_cases)
  case (1 s k)
  then have "length k = unat (key_len k)" by (simp add: unat_of_nat)
  with 1 show ?case by (simp add: hm_ok_def hashmap_get_abs)
next
  case (2 s k a v)
  then have "length k = unat (key_len k)" by (simp add: unat_of_nat)
  with 2 hashmap_insert_ok [of seed "fst s" "snd s" k "key_len k" a v] show ?case by fastforce
next
  case (3 s k)
  then have "length k = unat (key_len k)" by (simp add: unat_of_nat)
  with 3 hashmap_remove_ok [of seed "fst s" "snd s" k "key_len k"] show ?case by fastforce
qed

section \<open>Creation\<close>

lemma hashmap_create_ok:
  assumes "env_ok e" and "heap_room 10280 (c_heap e)" and "kma \<noteq> Some Hashmap_item_pool"
  shows "\<exists>hm e'. hashmap_create kma e = (hm, e') \<and> hm_ok seed hm e' \<and> hm_abs hm = (\<lambda>k. []) \<and> hm_size hm = 0 \<and>
     hm_capacity hm = 320 \<and> key_memory_allocator hm = kma \<and> hm_entries hm = [] \<and> pool e' = pool e \<and>
     hm_items hm = replicate 320 (null_item, []) \<and> item_occupation hm = replicate 10 0 \<and>
     (\<forall>k. heap_room (k + 10280) (c_heap e) \<longrightarrow> heap_room k (c_heap e'))"
proof -
  have w: "unat (occupation_words initial_capacity) = 10" by (simp add: occupation_words_def)
  obtain p e1 where 1: "env_malloc (32 * 320) e = (Some p, e1)" "env_ok e1" "pool e1 = pool e" "heap_room 40 (c_heap e1)"
    "dom (blocks (c_heap e1)) = insert p (dom (blocks (c_heap e)))"
    using env_malloc_room [OF assms(1,2), of "32 * 320"] by auto
  obtain q e2 where 2: "env_malloc (4 * 10) e1 = (Some q, e2)" "env_ok e2" "pool e2 = pool e1"
    "q \<notin> dom (blocks (c_heap e1))" "dom (blocks (c_heap e2)) = insert q (dom (blocks (c_heap e1)))"
    using env_malloc_room [OF 1(2,4), of "4 * 10"] by auto
  define hm :: "'a hashmap" where "hm = \<lparr>hm_items_at = Some p, hm_items = replicate 320 (null_item, []), key_memory_allocator = kma,
     item_occupation_at = Some q, item_occupation = replicate 10 0, hm_capacity = initial_capacity, hm_size = 0\<rparr>"
  have run: "hashmap_create kma e = (hm, e2)"
    using 1(1) 2(1) w by (simp add: hashmap_create_def hashmap_calloc_def occupation_calloc_def hm_def)
  have wf: "hm_wf seed hm" and en: "hm_entries hm = []" and no: "nodes_owned hm e2"
    using empty_map [of initial_capacity "replicate 10 0" hm] by (simp_all add: hm_def)
  have "keys_owned hm e2" using assms(3) en by (simp add: keys_owned_def hm_keys_def hm_def)
  moreover have "arrays_owned hm e2"
    unfolding arrays_owned_def hm_keys_def en using 1(5) 2(4,5)
    by (intro exI [of _ p] exI [of _ q]) (auto simp: hm_def)
  ultimately have "hm_ok seed hm e2" using wf no 2(2) by (simp add: hm_ok_def)
  moreover have "heap_room k (c_heap e2)" if "heap_room (k + 10280) (c_heap e)" for k
    using that 1(1) 2(1) by (auto simp: env_malloc_def malloc_def heap_room_def split: if_splits)
  ultimately show ?thesis
    using run en 1(3) 2(3) by (intro exI [of _ hm] exI [of _ e2]) (auto simp: hm_abs_def hm_def)
qed

section \<open>The iteration macro\<close>

lemma ctz_bit_set: "w OR push_bit (ctz64 (ucast w)) 1 = (w :: u32)"
proof (cases "w = 0")
  case True
  have "takeWhile (\<lambda>i. True) [0..<64] = [0..<64::nat]" by (simp only: takeWhile_eq_all_conv simp_thms ball_triv)
  then have "length (takeWhile (\<lambda>i. True) [0..<64::nat]) = 64" by (simp only: length_upt)
  then have "ctz64 (ucast w) = 64" using True by (simp add: ctz64_def del: upt_rec_numeral)
  then have "push_bit (ctz64 (ucast w)) 1 = (0 :: u32)" by simp
  with True show ?thesis by simp
next
  case False
  then obtain n where n: "bit w n" by (metis bit_eqI bit_0_eq bot_apply bot_bool_def)
  then have "n < 32" using bit_imp_le_length by fastforce
  with n have "bit (ucast w :: u64) n" by (simp add: bit_ucast_iff)
  then have "ucast w \<noteq> (0 :: u64)" by auto
  from ctz64_less(2) [OF this] have "bit w (ctz64 (ucast w))" by (simp add: bit_ucast_iff)
  then show ?thesis by (auto intro!: bit_eqI simp: bit_or_iff bit_mask)
qed

lemma loop_word_stuck: "w \<noteq> -1 \<Longrightarrow> loop_word fuel w = None"
  by (induction fuel) (simp_all add: Let_def ctz_bit_set [simplified])

lemma loop_words_all: "loop_words fuel i ws = (if \<forall>w \<in> set ws. w = 0 then Some [] else None)"
proof (induction ws arbitrary: i)
  case (Cons w ws)
  show ?case
  proof (cases "w = 0")
    case False
    then have "NOT w \<noteq> -1" by (metis bit.double_compl bit.compl_zero)
    with False show ?thesis by (simp add: loop_word_stuck)
  qed (use Cons.IH in simp)
qed simp

section \<open>Properties\<close>

text \<open>A map over a sample memory with a key ready to be inserted.\<close>

lemma sample_map:
  "\<exists>(hm :: 'v hashmap) e a. hm_ok seed hm e \<and> hm_abs hm = (\<lambda>k. []) \<and> hm_size hm = 0 \<and>
     key_fresh a hm e \<and> insert_room hm e \<and> item_occupation hm = replicate 10 0 \<and> hm_capacity hm = 320 \<and>
     hm_items hm = replicate 320 (null_item, [])"
proof -
  obtain e0 where e0: "env_ok e0" "\<forall>i. pool_live e0 i = {} \<and> pool_avail e0 i = 200" "heap_room 1000000 (c_heap e0)"
    using sample_env by blast
  then obtain a e where e: "env_ok e" "pool_live e Uint16_pool = {a}" "same_except {Uint16_pool} e0 e"
    using pool_allocate_ok [of e0 Uint16_pool] by fastforce
  have room: "heap_room 10280 (c_heap e)" using e(3) e0(3) by (auto simp: same_except_def heap_room_def)
  have avail: "0 < pool_avail e Hashmap_item_pool" using e(3) e0(2) by (simp add: same_except_def)
  from hashmap_create_ok [OF e(1) room, of "Some Uint16_pool" seed] obtain hm e' where hm: "hm_ok seed (hm :: 'v hashmap) e'"
    "hm_abs hm = (\<lambda>k. [])" "hm_size hm = 0" "hm_capacity hm = 320" "key_memory_allocator hm = Some Uint16_pool"
    "hm_entries hm = []" "pool e' = pool e" "hm_items hm = replicate 320 (null_item, [])"
    "item_occupation hm = replicate 10 0" by auto
  have "key_fresh a hm e'" using hm(5-7) e(2) by (simp add: key_fresh_def key_live_def hm_keys_def)
  moreover have "insert_room hm e'" using hm(3,4,7) avail by (simp add: insert_room_def word_le_nat_alt)
  ultimately show ?thesis using hm by blast
qed

text \<open>
  C18. The hash map is a map. Inserting under a key that has no value makes exactly that
  key answer the new value, whether or not the insertion makes the map grow and rehash
  every entry, and every other key answers as before; inserting under a key that
  already has one leaves the old answer in place.
\<close>

theorem hashmap_insert_get:
  assumes "hm_ok seed hm e" and "length k = unat n" and "key_fresh a hm e" and "insert_room hm e"
  shows "\<exists>hm' e'. hashmap_insert seed a k n (Some v) hm e = Inr (hm', e') \<and> hm_ok seed hm' e' \<and>
    hashmap_get seed k n hm' =
      Inr (Some (case hashmap_get seed k n hm of Inr (Some u) \<Rightarrow> u | _ \<Rightarrow> v)) \<and>
    (\<forall>j m. length j = unat m \<longrightarrow> j \<noteq> k \<longrightarrow> hashmap_get seed j m hm' = hashmap_get seed j m hm) \<and>
    hm_size hm' = hm_size hm + 1"
proof -
  from hashmap_insert_ok [OF assms, of v] obtain hm' e' where
    1: "hashmap_insert seed a k n (Some v) hm e = Inr (hm', e')" "hm_ok seed hm' e'"
      "hm_abs hm' = (hm_abs hm)(k := hm_abs hm k @ [v])" "hm_size hm' = hm_size hm + 1" by blast
  have g: "hashmap_get seed j m hm = Inr (first_of (hm_abs hm j))" "hashmap_get seed j m hm' = Inr (first_of (hm_abs hm' j))"
    if "length j = unat m" for j m
    using assms(1) 1(2) that by (simp_all add: hm_ok_def hashmap_get_abs)
  have "first_of (hm_abs hm' k) = Some (case hashmap_get seed k n hm of Inr (Some u) \<Rightarrow> u | _ \<Rightarrow> v)"
    unfolding g(1) [OF assms(2)] using 1(3) by (cases "hm_abs hm k") (simp_all add: first_of_def)
  with 1 g assms(2) show ?thesis by (intro exI [of _ hm'] exI [of _ e']) simp
qed

theorem hashmap_insert_get_witness:
  "\<exists>hm e a hm' e'. hashmap_insert 7 a [1, 2] 2 (Some True) hm e = Inr (hm', e') \<and>
     hashmap_get 7 [1, 2] 2 hm = Inr None \<and> hashmap_get 7 [1, 2] 2 hm' = Inr (Some True)"
proof -
  obtain hm :: "bool hashmap" and e a where s: "hm_ok 7 hm e" "hm_abs hm = (\<lambda>k. [])" "key_fresh a hm e" "insert_room hm e"
    using sample_map by blast
  have g: "hashmap_get 7 [1, 2] 2 hm = Inr None"
    using hashmap_get_abs [of 7 hm "[1, 2]" 2] s by (simp add: hm_ok_def first_of_def)
  from hashmap_insert_get [OF s(1) _ s(3,4), of "[1, 2]" 2 True] g show ?thesis by auto blast
qed



text \<open>
  Inserting a key that has no value and removing it again gives back a map with the
  same contents: every key answers as it did before.
\<close>

theorem hashmap_insert_remove:
  assumes "hm_ok seed hm e" and "length k < 2 ^ 32" and "key_fresh a hm e" and "insert_room hm e"
    and "hashmap_get seed k (key_len k) hm = Inr None"
  shows "\<exists>hm' e' hm'' e''. hashmap_insert seed a k (key_len k) (Some v) hm e = Inr (hm', e') \<and>
    hashmap_remove seed k (key_len k) hm' e' = Inr (hm'', e'') \<and> hm_ok seed hm'' e'' \<and>
    (\<forall>j. length j < 2 ^ 32 \<longrightarrow> hashmap_get seed j (key_len j) hm'' = hashmap_get seed j (key_len j) hm)"
proof -
  from hm_store.put_remove [of seed "(hm, e)" k a v] assms obtain s' s'' where
    1: "hashmap_insert seed a k (key_len k) (Some v) hm e = Inr s'" "hm_ok seed (fst s'') (snd s'')"
       "hashmap_remove seed k (key_len k) (fst s') (snd s') = Inr s''" "hm_abs (fst s'') = hm_abs hm" by auto
  have "hashmap_get seed j (key_len j) (fst s'') = hashmap_get seed j (key_len j) hm" if "length j < 2 ^ 32" for j
    using hm_store.get_spec [of seed s'' j] hm_store.get_spec [of seed "(hm, e)" j] 1(2,4) assms(1) that by simp
  with 1 show ?thesis
    by (intro exI [of _ "fst s'"] exI [of _ "snd s'"] exI [of _ "fst s''"] exI [of _ "snd s''"]) simp
qed

theorem hashmap_insert_remove_witness:
  "\<exists>(hm :: bool hashmap) e a hm' e' hm'' e''. hashmap_insert 7 a [1, 2] 2 (Some True) hm e = Inr (hm', e') \<and>
     hashmap_remove 7 [1, 2] 2 hm' e' = Inr (hm'', e'') \<and> hashmap_get 7 [1, 2] 2 hm'' = Inr None"
proof -
  obtain hm :: "bool hashmap" and e a where s: "hm_ok 7 hm e" "hm_abs hm = (\<lambda>k. [])" "key_fresh a hm e" "insert_room hm e"
    using sample_map by blast
  have g: "hashmap_get 7 [1, 2] 2 hm = Inr None"
    using hashmap_get_abs [of 7 hm "[1, 2]" 2] s by (simp add: hm_ok_def first_of_def)
  from hashmap_insert_remove [OF s(1) _ s(3,4), of "[1, 2]" True] g obtain hm' e' hm'' e'' where
    "hashmap_insert 7 a [1, 2] 2 (Some True) hm e = Inr (hm', e')" "hashmap_remove 7 [1, 2] 2 hm' e' = Inr (hm'', e'')"
    and r: "\<forall>j. length j < 2 ^ 32 \<longrightarrow> hashmap_get 7 j (key_len j) hm'' = hashmap_get 7 j (key_len j) hm" by auto
  moreover from r [rule_format, of "[1, 2]"] g have "hashmap_get 7 [1, 2] 2 hm'' = Inr None" by simp
  ultimately show ?thesis by blast
qed

text \<open>
  Growing keeps the map: after \<open>hashmap_resize\<close> the capacity is four times the old
  one, every key answers as before, and the map still owns its nodes and keys.
\<close>

theorem hashmap_resize_get:
  assumes "hm_ok seed hm e" and "resize_room hm e"
  shows "\<exists>hm' e'. hashmap_resize seed hm e = Inr (hm', e') \<and> hm_ok seed hm' e' \<and>
    hm_capacity hm' = hm_capacity hm * 4 \<and> hm_size hm' = hm_size hm \<and>
    (\<forall>k n. length k = unat n \<longrightarrow> hashmap_get seed k n hm' = hashmap_get seed k n hm)"
proof -
  from hashmap_resize_ok [OF assms] obtain hm' e' where
    "hashmap_resize seed hm e = Inr (hm', e')" "hm_ok seed hm' e'" "hm_abs hm' = hm_abs hm"
    "hm_size hm' = hm_size hm" "hm_capacity hm' = hm_capacity hm * 4" by blast
  with assms(1) show ?thesis by (auto simp: hm_ok_def hashmap_get_abs)
qed

theorem hashmap_resize_get_witness:
  "\<exists>(hm :: bool hashmap) e hm' e'. hm_capacity hm = 320 \<and> hashmap_resize 7 hm e = Inr (hm', e') \<and>
     hm_capacity hm' = 1280"
proof -
  obtain e where e: "env_ok e" "\<forall>i. pool_live e i = {} \<and> pool_avail e i = 200" "heap_room 1000000 (c_heap e)"
    using sample_env by blast
  then have "heap_room 10280 (c_heap e)" "heap_room (500000 + 10280) (c_heap e)" by (simp_all add: heap_room_def)
  with hashmap_create_ok [OF e(1), of "Some Uint16_pool" 7] obtain hm :: "bool hashmap" and e' where
    hm: "hm_ok 7 hm e'" "hm_capacity hm = 320" "hm_entries hm = []" "heap_room 500000 (c_heap e')" by blast
  then have "resize_room hm e'" by (simp add: resize_room_def heap_room_def)
  from hashmap_resize_get [OF hm(1) this] hm(2) show ?thesis by auto
qed

text \<open>
  C40. The iteration macro \<open>LOOP_HASHMAP\<close> never visits a slot and returns: with no
  occupation bit set it visits nothing, and with any bit set it does not end, since the
  bit it adds to \<open>inverted\<close> is one that is already there.
\<close>

theorem loop_hashmap_useless:
  "loop_hashmap fuel hm =
     (if \<forall>w \<in> set (take (unat (occupation_words (hm_capacity hm))) (item_occupation hm)). w = 0
      then Some [] else None)"
  by (simp only: loop_hashmap_def loop_words_all)

theorem loop_hashmap_useless_witness:
  "loop_hashmap 1000 \<lparr>hm_items_at = None, hm_items = [], key_memory_allocator = None, item_occupation_at = None,
      item_occupation = [0, 6], hm_capacity = 64, hm_size = 2\<rparr> = (None :: nat list option)"
  unfolding loop_hashmap_useless by (simp add: occupation_words_def)

text \<open>
  \<open>hashmap_insert\<close> leaves the occupation words as they are when the map does not
  grow, so a map filled by insertions alone is one that \<open>LOOP_HASHMAP\<close> takes as empty.
\<close>

theorem hashmap_insert_unoccupied:
  assumes "hm_ok seed hm e" and "length k = unat n" and "key_fresh a hm e" and "insert_room hm e"
    and "hm_size hm + 1 < hm_capacity hm"
  shows "\<exists>hm' e'. hashmap_insert seed a k n (Some v) hm e = Inr (hm', e') \<and>
    item_occupation hm' = item_occupation hm \<and> loop_hashmap fuel hm' = loop_hashmap fuel hm \<and>
    v \<in> set (hm_abs hm' k)"
proof -
  let ?i = "unat (get_key seed k n hm)"
  from hashmap_insert_ok [OF assms(1-4), of v] obtain hm' e' where
    1: "hashmap_insert seed a k n (Some v) hm e = Inr (hm', e')" "hm_abs hm' = (hm_abs hm)(k := hm_abs hm k @ [v])" by blast
  have wf: "hm_wf seed hm" and i: "?i < length (hm_items hm)"
    using assms(1) by (simp_all add: hm_ok_def get_key_in_range)
  from 1(1) occupation_in_range [OF wf i] assms(5) have
    "item_occupation hm' = item_occupation hm" "hm_capacity hm' = hm_capacity hm"
    by (auto simp: hashmap_insert_def Let_def res_simps occupy_def split: if_splits prod.splits)
  with 1 show ?thesis by (intro exI [of _ hm'] exI [of _ e']) (simp add: loop_hashmap_def)
qed

theorem hashmap_insert_unoccupied_witness:
  "\<exists>(hm :: bool hashmap) hm' e' a e. hashmap_insert 7 a [1, 2] 2 (Some True) hm e = Inr (hm', e') \<and>
     True \<in> set (hm_abs hm' [1, 2]) \<and> loop_hashmap 1 hm' = Some []"
proof -
  obtain hm :: "bool hashmap" and e a where s: "hm_ok 7 hm e" "key_fresh a hm e" "insert_room hm e" "hm_size hm = 0"
    "item_occupation hm = replicate 10 0" "hm_capacity hm = 320"
    using sample_map by blast
  have "loop_hashmap 1 hm = Some []" using s(5,6) by (simp add: loop_hashmap_def loop_words_all occupation_words_def)
  moreover have "hm_size hm + 1 < hm_capacity hm" using s(4,6) by (simp add: word_less_nat_alt)
  ultimately show ?thesis using hashmap_insert_unoccupied [OF s(1) _ s(2,3), of "[1, 2]" 2 True 1] by auto blast
qed

text \<open>
  Removing a key whose entry is the only one of its bucket keeps the key's bytes in
  the slot, so removing the key once more is counted again: two removals of one entry
  take two off \<open>size\<close>, modulo \<open>2^32\<close>, and the key storage is never released.
\<close>

theorem hashmap_remove_twice:
  assumes "hm_wf seed hm" and "length k = unat n"
    and "hm_items hm ! unat (get_key seed k n hm) = (it, [])"
    and "key_bytes it = k" and "key_original_data_size it = n"
  shows "\<exists>hm1 hm2. hashmap_remove seed k n hm e = Inr (hm1, e) \<and> hashmap_remove seed k n hm1 e = Inr (hm2, e) \<and>
    hm_size hm1 = hm_size hm - 1 \<and> hm_size hm2 = hm_size hm - 2"
proof -
  let ?i = "unat (get_key seed k n hm)"
  have step: "hashmap_remove seed k n h e = Inr (h\<lparr>hm_items := (hm_items h)[?i := (it'\<lparr>hm_value := None\<rparr>, [])], hm_size := hm_size h - 1\<rparr>, e)"
    if "hm_capacity h = hm_capacity hm" "length (hm_items h) = length (hm_items hm)"
      "length (item_occupation h) = length (item_occupation hm)" "hm_items h ! ?i = (it', [])"
      "key_bytes it' = k" "key_original_data_size it' = n" for h :: "'a hashmap" and it'
    using that get_key_in_range [OF assms(1), of k n] occupation_in_range [OF assms(1), of ?i]
    by (simp add: hashmap_remove_def Let_def get_key_def vacate_def remove_bucket_def key_matches_def)
  let ?hm1 = "hm\<lparr>hm_items := (hm_items hm)[?i := (it\<lparr>hm_value := None\<rparr>, [])], hm_size := hm_size hm - 1\<rparr>"
  have "?i < length (hm_items hm)" by (rule get_key_in_range [OF assms(1)])
  then have "hm_items ?hm1 ! ?i = (it\<lparr>hm_value := None\<rparr>, [])" by simp
  let ?hm2 = "?hm1\<lparr>hm_items := (hm_items ?hm1)[?i := (it\<lparr>hm_value := None\<rparr>, [])], hm_size := hm_size ?hm1 - 1\<rparr>"
  have "hashmap_remove seed k n ?hm1 e = Inr (?hm2, e)"
    using step [OF _ _ _ \<open>hm_items ?hm1 ! ?i = _\<close>] assms(4,5) by simp
  moreover have "hm_size ?hm2 = hm_size hm - 2" by simp
  moreover note step [OF refl refl refl assms(3-5)]
  ultimately show ?thesis by (intro exI [of _ ?hm1] exI [of _ ?hm2] conjI) simp_all
qed

theorem hashmap_remove_twice_witness:
  "\<exists>hm hm1 hm2 e. hm_size hm = 1 \<and> hashmap_remove 7 [1, 2] 2 (hm :: bool hashmap) e = Inr (hm1, e) \<and>
     hashmap_remove 7 [1, 2] 2 hm1 e = Inr (hm2, e) \<and> hm_size hm2 = - 1"
proof -
  let ?it = "\<lparr>key_original_data = 64, key_bytes = [1, 2], key_original_data_size = 2, hm_value = Some True\<rparr>"
  let ?hm = "\<lparr>hm_items_at = Some 16, hm_items = [(?it, [])], key_memory_allocator = None, item_occupation_at = Some 48,
      item_occupation = [0], hm_capacity = 1, hm_size = 1\<rparr>"
  have z: "unat (key_slot 7 [1, 2] 2 1) = 0" using key_slot_less [of 1 7 "[1, 2]" 2] by simp
  then have "hm_wf 7 ?hm" by (simp add: hm_wf_def bucket_wf_def live_items_def bucket_items_def item_wf_def)
  from hashmap_remove_twice [OF this, of "[1, 2]" 2 ?it e] z obtain hm1 hm2 where
    "hashmap_remove 7 [1, 2] 2 ?hm e = Inr (hm1, e)" "hashmap_remove 7 [1, 2] 2 hm1 e = Inr (hm2, e)" "hm_size hm2 = - 1"
    by (auto simp: get_key_def)
  then show ?thesis by (intro exI [of _ ?hm] exI [of _ hm1] exI [of _ hm2] exI [of _ e]) simp
qed

end
