(* ===== verification/Swift_Tables.thy ===== *)
theory Swift_Tables
  imports Swift_Hashmap
begin

text \<open>
  What the tables of a connection (messages being sent, pending messages, completed
  messages, requests) share: taking items and blocks from memory that has room keeps every
  map over that memory well formed, and an entry is a key from the key pool with a value
  in the map.
\<close>

section \<open>Live items of a growing map\<close>

lemma pool_allocate_live:
  assumes "env_ok e" and "0 < pool_avail e i" and "pool_allocate i e = Inr (p, e')"
  shows "pool_live e j \<subseteq> pool_live e' j"
  using pool_allocate_ok [OF assms(1,2)] assms(3) by (cases "j = i") (auto simp: same_except_def)

lemma insert_chain_live:
  assumes "env_ok e" and "0 < pool_avail e Hashmap_item_pool" and "insert_chain it cs e = Inr (cs', e')"
  shows "pool_live e j \<subseteq> pool_live e' j"
  using assms
proof (induction it cs e arbitrary: cs' e' rule: insert_chain.induct)
  case (1 it e)
  then show ?case by (auto simp: res_simps dest: pool_allocate_live)
next
  case (2 it p c cs e)
  then show ?case by (fastforce simp: res_simps split: if_splits)
qed

lemma hashmap_insert_live:
  assumes "env_ok e" and "0 < pool_avail e Hashmap_item_pool" and "hm_size hm + 1 < hm_capacity hm"
    and "hashmap_insert seed a k n v hm e = Inr (hm', e')"
  shows "pool_live e j \<subseteq> pool_live e' j"
proof -
  have no: "\<not> hm_capacity hm \<le> hm_size hm + 1" using assms(3) by simp
  from assms(4) no obtain b where "insert_bucket \<lparr>key_original_data = a, key_bytes = k, key_original_data_size = n, hm_value = v\<rparr>
      (hm_items hm ! unat (get_key seed k n hm)) e = Inr (b, e')"
    by (auto simp: hashmap_insert_def Let_def res_simps occupy_def split: if_splits)
  then show ?thesis
    using assms(1,2) by (auto simp: insert_bucket_def res_simps split: if_splits dest: insert_chain_live)
qed

section \<open>Memory that grows\<close>

text \<open>
  Steps that only take memory, and the map invariant they keep: more live items in each
  pool, more heap blocks.
\<close>

definition env_grows :: "env \<Rightarrow> env \<Rightarrow> bool" where
  "env_grows e e' \<longleftrightarrow> env_ok e' \<and> dom (blocks (c_heap e)) \<subseteq> dom (blocks (c_heap e')) \<and> (\<forall>i. pool_live e i \<subseteq> pool_live e' i)"

lemma env_grows_trans: "env_grows e1 e2 \<Longrightarrow> env_grows e2 e3 \<Longrightarrow> env_grows e1 e3"
  unfolding env_grows_def by blast

lemma hm_ok_mono:
  assumes "hm_ok seed hm e" and "key_live (key_memory_allocator hm) e \<subseteq> key_live (key_memory_allocator hm) e'"
    and "pool_live e Hashmap_item_pool \<subseteq> pool_live e' Hashmap_item_pool" and "env_ok e'"
    and "dom (blocks (c_heap e)) \<subseteq> dom (blocks (c_heap e'))"
  shows "hm_ok seed hm e'"
proof -
  have o: "hm_wf seed hm" "nodes_owned hm e" "keys_owned hm e" "arrays_owned hm e" using assms(1) by (simp_all add: hm_ok_def)
  have "nodes_owned hm e'" using o(2) by (simp add: nodes_owned_def order.trans [OF _ assms(3)])
  moreover have "keys_owned hm e'" using o(3) by (simp add: keys_owned_def order.trans [OF _ assms(2)])
  moreover have "arrays_owned hm e'"
    using o(4) order.trans [OF _ assms(5)] unfolding arrays_owned_def by meson
  ultimately show ?thesis using o(1) assms(4) by (simp add: hm_ok_def)
qed

lemma hm_ok_grows:
  assumes "hm_ok seed hm e" and "env_grows e e'"
  shows "hm_ok seed hm e'"
  by (rule hm_ok_mono [OF assms(1)]) (use assms(2) in \<open>auto simp: env_grows_def key_live_def split: option.splits\<close>)

text \<open>An allocation from a pool with items left, and what it leaves of every pool.\<close>

lemma take_item:
  assumes "env_ok e" and "0 < pool_avail e i"
  obtains p e' where "pool_allocate i e = Inr (p, e')" "env_grows e e'" "p \<notin> pool_live e i" "p \<in> pool_live e' i"
    "Suc (pool_avail e' i) = pool_avail e i" "same_except {i} e e'" "pool_live e' i = insert p (pool_live e i)"
proof -
  from pool_allocate_ok [OF assms] obtain p e' where
    1: "pool_allocate i e = Inr (p, e')" "env_ok e'" "p \<notin> pool_live e i" "pool_live e' i = insert p (pool_live e i)"
      "Suc (pool_avail e' i) = pool_avail e i" "same_except {i} e e'" by blast
  then have "env_grows e e'"
    using pool_allocate_live [OF assms 1(1)] by (simp add: env_grows_def same_except_def)
  with 1 that show ?thesis by simp
qed

lemma take_block:
  assumes "env_ok e" and "heap_room k (c_heap e)" and "max 1 n \<le> k"
  obtains p e' where "env_malloc n e = (Some p, e')" "env_grows e e'" "pool e' = pool e" "heap_room (k - max 1 n) (c_heap e')"
    "p \<notin> dom (blocks (c_heap e))" "p \<in> dom (blocks (c_heap e'))"
proof -
  from env_malloc_room [OF assms] obtain p e' where
    "env_malloc n e = (Some p, e')" "env_ok e'" "pool e' = pool e" "heap_room (k - max 1 n) (c_heap e')"
     "p \<notin> dom (blocks (c_heap e))" "dom (blocks (c_heap e')) = insert p (dom (blocks (c_heap e)))" by blast
  with that show ?thesis by (simp add: env_grows_def subset_insertI)
qed

text \<open>The heap has grown by at most \<open>k\<close>.\<close>

definition heap_within :: "nat \<Rightarrow> env \<Rightarrow> env \<Rightarrow> bool" where
  "heap_within k e e' \<longleftrightarrow> brk (c_heap e) \<le> brk (c_heap e') \<and> brk (c_heap e') \<le> brk (c_heap e) + k \<and>
     heap_limit (c_heap e') = heap_limit (c_heap e)"

lemma heap_within_trans: "heap_within j e1 e2 \<Longrightarrow> heap_within k e2 e3 \<Longrightarrow> heap_within (j + k) e1 e3"
  by (simp add: heap_within_def)

lemma heap_within_same: "c_heap e' = c_heap e \<Longrightarrow> heap_within k e e'"
  by (simp add: heap_within_def)

lemma heap_within_mono: "heap_within j e e' \<Longrightarrow> j \<le> k \<Longrightarrow> heap_within k e e'"
  by (simp add: heap_within_def)

lemma heap_within_room: "heap_within k e e' \<Longrightarrow> heap_room (n + k) (c_heap e) \<Longrightarrow> heap_room n (c_heap e')"
  by (simp add: heap_within_def heap_room_def)

lemma heap_within_malloc: "env_malloc n e = (r, e') \<Longrightarrow> heap_within (max 1 n) e e'"
  by (auto simp: env_malloc_def malloc_def heap_within_def split: if_splits)

text \<open>Entering a value in a table whose keys come from the pool \<open>i\<close>.\<close>

lemma enter_key:
  assumes "hm_ok seed hm e" and "key_memory_allocator hm = Some i" and "length k = unat n"
    and "hm_size hm + 1 < hm_capacity hm" and "0 < pool_avail e i" and "0 < pool_avail e Hashmap_item_pool"
  obtains key e1 hm' e2 where "pool_allocate i e = Inr (key, e1)" "hashmap_insert seed key k n (Some v) hm e1 = Inr (hm', e2)"
    "hm_ok seed hm' e2" "hm_abs hm' = (hm_abs hm)(k := hm_abs hm k @ [v])" "env_grows e e2"
    "same_except {i, Hashmap_item_pool} e e2" "key_memory_allocator hm' = Some i"
    "pool_avail e Hashmap_item_pool \<le> Suc (pool_avail e2 Hashmap_item_pool)"
    "hm_capacity hm' = hm_capacity hm" "hm_size hm' = hm_size hm + 1" "pool_avail e i = Suc (pool_avail e2 i)"
proof -
  have i: "i \<noteq> Hashmap_item_pool" using assms(1,2) by (auto simp: hm_ok_def keys_owned_def)
  have env: "env_ok e" using assms(1) by (simp add: hm_ok_def)
  from take_item [OF env assms(5)] obtain key e1 where
    1: "pool_allocate i e = Inr (key, e1)" "env_grows e e1" "key \<notin> pool_live e i" "key \<in> pool_live e1 i" "same_except {i} e e1"
      "Suc (pool_avail e1 i) = pool_avail e i" by blast
  have ok1: "hm_ok seed hm e1" by (rule hm_ok_grows [OF assms(1) 1(2)])
  have fresh: "key_fresh key hm e1"
    using assms(1,2) 1(3,4) by (auto simp: key_fresh_def key_live_def hm_ok_def keys_owned_def)
  have a: "0 < pool_avail e1 Hashmap_item_pool" using 1(5) i assms(6) by (simp add: same_except_def)
  from hashmap_insert_small [OF ok1 assms(3) fresh a assms(4), of v] obtain hm' e2 where
    2: "hashmap_insert seed key k n (Some v) hm e1 = Inr (hm', e2)" "hm_ok seed hm' e2"
      "hm_abs hm' = (hm_abs hm)(k := hm_abs hm k @ [v])" "hm_size hm' = hm_size hm + 1" "hm_capacity hm' = hm_capacity hm"
      "key_memory_allocator hm' = key_memory_allocator hm" "same_except {Hashmap_item_pool} e1 e2"
      "pool_avail e1 Hashmap_item_pool \<le> Suc (pool_avail e2 Hashmap_item_pool)" by blast
  have "env_grows e1 e2"
    using hashmap_insert_live [OF _ a assms(4) 2(1)] 1(2) 2(2,7) by (simp add: env_grows_def hm_ok_def same_except_def)
  then have "env_grows e e2" by (rule env_grows_trans [OF 1(2)])
  moreover have "same_except {i, Hashmap_item_pool} e e2" using 1(5) 2(7) by (simp add: same_except_def)
  moreover have "pool_avail e Hashmap_item_pool = pool_avail e1 Hashmap_item_pool" using 1(5) i by (simp add: same_except_def)
  moreover have "pool_avail e i = Suc (pool_avail e2 i)" using 1(6) 2(7) i by (simp add: same_except_def)
  ultimately show ?thesis using that 1 2 assms(2) by simp
qed

end
