(* ===== verification/Swift_Crc.thy ===== *)
theory Swift_Crc
  imports Swift_Prelude
begin

text \<open>
  The checksum of \<open>src/internal/internal.h\<close>: \<open>crc32\<close> takes eight bytes at a time with the
  ARM instruction \<open>CRC32X\<close> (\<open>__crc32d\<close>) and the rest with \<open>CRC32B\<close> (\<open>__crc32b\<close>). Both
  instructions divide by the polynomial \<open>0x04C11DB7\<close>, bit-reflected \<open>0xEDB88320\<close>; they are
  written as that division, one bit at a time. The theorem is that the routine is the
  byte-by-byte CRC-32.
\<close>

section \<open>The instructions and the routine\<close>

definition crc_step :: "'a::len word \<Rightarrow> 'a word" where
  "crc_step w = (if bit w 0 then drop_bit 1 w XOR 0xEDB88320 else drop_bit 1 w)"

definition crc32b :: "u32 \<Rightarrow> u8 \<Rightarrow> u32" where
  "crc32b crc b = (crc_step ^^ 8) (crc XOR ucast b)"

definition crc32d :: "u32 \<Rightarrow> u64 \<Rightarrow> u32" where
  "crc32d crc v = ucast ((crc_step ^^ 64) (ucast crc XOR v))"

text \<open>The two loops, on the bytes not consumed yet.\<close>

function crc32_words :: "u32 \<Rightarrow> u8 list \<Rightarrow> u32 \<times> u8 list" where
  "crc32_words crc bs =
     (if 8 \<le> length bs then crc32_words (crc32d crc (le_word (take 8 bs))) (drop 8 bs) else (crc, bs))"
  by pat_completeness auto
termination by (relation "measure (\<lambda>(crc, bs). length bs)") auto

declare crc32_words.simps [simp del]

definition crc32 :: "u8 list \<Rightarrow> u32" where
  "crc32 data = (case crc32_words 0xFFFFFFFF data of (crc, rest) \<Rightarrow> NOT (foldl crc32b crc rest))"

text \<open>The reference: one byte after the other.\<close>

definition crc32_ref :: "u8 list \<Rightarrow> u32" where
  "crc32_ref data = NOT (foldl crc32b 0xFFFFFFFF data)"

section \<open>Equivalence\<close>

text \<open>Feeding one bit.\<close>

definition crc_feed :: "'a::len word \<Rightarrow> bool \<Rightarrow> 'a word" where
  "crc_feed c b = crc_step (c XOR of_bool b)"

lemma bit_of_bool_word: "bit (of_bool b :: 'a::len word) i \<longleftrightarrow> b \<and> i = 0"
  by (auto simp: bit_1_iff)

lemma bit_crc_step:
  "bit (crc_step w) i \<longleftrightarrow> (bit w (Suc i) \<noteq> (bit w 0 \<and> bit (0xEDB88320 :: 'a word) i))" for w :: "'a::len word"
  by (auto simp: crc_step_def bit_xor_iff bit_drop_bit_eq)

lemma crc_step_xor: "crc_step (c XOR w) = crc_feed c (bit w 0) XOR drop_bit 1 w" for c w :: "'a::len word"
  by (rule bit_eqI) (auto simp: crc_feed_def bit_crc_step bit_xor_iff bit_drop_bit_eq bit_of_bool_word)

lemma crc_steps_xor:
  "(crc_step ^^ n) (c XOR w) = foldl crc_feed c (map (bit w) [0..<n]) XOR drop_bit n w" for c w :: "'a::len word"
proof (induction n)
  case (Suc n)
  have "(crc_step ^^ Suc n) (c XOR w) =
      crc_feed (foldl crc_feed c (map (bit w) [0..<n])) (bit (drop_bit n w) 0) XOR drop_bit 1 (drop_bit n w)"
    by (simp add: Suc crc_step_xor)
  then show ?case by (simp add: bit_drop_bit_eq)
qed simp

lemma crc_feed_ucast: "crc_feed (ucast c :: u64) b = ucast (crc_feed c b)" for c :: u32
proof (rule bit_eqI)
  fix i
  have "bit (0xEDB88320 :: u64) i \<longleftrightarrow> bit (0xEDB88320 :: u32) i"
  proof -
    have "(0xEDB88320 :: u64) = ucast (0xEDB88320 :: u32)" by simp
    then show ?thesis by (simp only: bit_ucast_iff) (auto dest: bit_imp_le_length)
  qed
  then show "bit (crc_feed (ucast c :: u64) b) i \<longleftrightarrow> bit (ucast (crc_feed c b) :: u64) i"
    by (auto simp: crc_feed_def bit_crc_step bit_xor_iff bit_ucast_iff bit_of_bool_word dest: bit_imp_le_length)
qed

lemma crc_feeds_ucast: "foldl crc_feed (ucast c :: u64) bs = ucast (foldl crc_feed c bs)" for c :: u32
  by (induction bs arbitrary: c) (simp_all add: crc_feed_ucast)

lemma crc32b_feed: "crc32b crc b = foldl crc_feed crc (map (bit b) [0..<8])"
proof -
  have "bit (ucast b :: u32) = bit b" by (intro ext) (auto simp: bit_ucast_iff dest: bit_imp_le_length)
  moreover have "drop_bit 8 (ucast b :: u32) = 0"
    by (rule bit_eqI) (auto simp: bit_drop_bit_eq bit_ucast_iff dest: bit_imp_le_length)
  ultimately show ?thesis unfolding crc32b_def crc_steps_xor by simp
qed

lemma crc32d_feed: "crc32d crc v = foldl crc_feed crc (map (bit v) [0..<64])"
proof -
  have "drop_bit 64 v = 0" by (rule bit_eqI) (auto simp: bit_drop_bit_eq dest: bit_imp_le_length)
  moreover have "ucast (ucast c :: u64) = c" for c :: u32
    by (rule bit_eqI) (auto simp: bit_ucast_iff dest: bit_imp_le_length)
  ultimately show ?thesis
    unfolding crc32d_def crc_steps_xor crc_feeds_ucast by (simp del: upt_rec_numeral)
qed

lemma le_word_bits:
  assumes "length bs = n" and "8 * n \<le> LENGTH('a::len)"
  shows "map (bit (le_word bs :: 'a word)) [0..<8 * n] = concat (map (\<lambda>b. map (bit b) [0..<8]) bs)"
  using assms
proof (induction bs arbitrary: n)
  case (Cons b bs)
  obtain m where n: "n = Suc m" "length bs = m" using Cons.prems(1) by auto
  have split: "[0..<8 * n] = [0..<8] @ map (\<lambda>i. i + 8) [0..<8 * m]"
    using upt_add_eq_append [of 0 8 "8 * m"] by (simp add: n map_add_upt add.commute del: upt_rec_numeral)
  have low: "bit (le_word (b # bs) :: 'a word) i = bit b i" if "i < 8" for i
    using that Cons.prems(2) n by (auto simp: bit_le_word simp del: le_word.simps)
  have high: "bit (le_word (b # bs) :: 'a word) (i + 8) = bit (le_word bs :: 'a word) i" if "i < 8 * m" for i
  proof -
    have "(i + 8) div 8 = Suc (i div 8)" by simp
    with that Cons.prems(2) n show ?thesis by (auto simp: bit_le_word simp del: le_word.simps)
  qed
  have "8 * m \<le> LENGTH('a)" using Cons.prems(2) n by simp
  note IH = Cons.IH [OF n(2) this]
  have "map (bit (le_word (b # bs) :: 'a word) \<circ> (\<lambda>i. i + 8)) [0..<8 * m] = map (bit (le_word bs :: 'a word)) [0..<8 * m]"
    using high by (auto simp del: le_word.simps)
  with IH low show ?case
    unfolding split by (simp del: upt_rec_numeral le_word.simps)
qed simp

lemma foldl_concat_map: "foldl f a (concat (map g xs)) = foldl (\<lambda>a x. foldl f a (g x)) a xs"
  by (induction xs arbitrary: a) simp_all

text \<open>Eight bytes in one instruction are the same as one after the other.\<close>

lemma crc32d_bytes:
  assumes "length bs = 8"
  shows "crc32d crc (le_word bs) = foldl crc32b crc bs"
proof -
  have "map (bit (le_word bs :: u64)) [0..<8 * 8] = concat (map (\<lambda>b. map (bit b) [0..<8]) bs)"
    by (rule le_word_bits [OF assms]) simp
  then have "crc32d crc (le_word bs) = foldl crc_feed crc (concat (map (\<lambda>b. map (bit b) [0..<8]) bs))"
    unfolding crc32d_feed by (simp del: upt_rec_numeral)
  then show ?thesis
    by (simp only: foldl_concat_map crc32b_feed [abs_def, symmetric])
qed

lemma crc32_words_ref: "case crc32_words crc bs of (c, rest) \<Rightarrow> foldl crc32b c rest = foldl crc32b crc bs"
proof (induction crc bs rule: crc32_words.induct)
  case (1 crc bs)
  show ?case
  proof (cases "8 \<le> length bs")
    case True
    have "foldl crc32b crc bs = foldl crc32b (foldl crc32b crc (take 8 bs)) (drop 8 bs)"
      by (simp only: foldl_append [symmetric] append_take_drop_id)
    moreover have "foldl crc32b crc (take 8 bs) = crc32d crc (le_word (take 8 bs))"
      using True by (simp add: crc32d_bytes)
    ultimately show ?thesis using 1 [OF True] True by (simp add: crc32_words.simps [of crc bs])
  next
    case False
    then show ?thesis by (simp add: crc32_words.simps [of crc bs])
  qed
qed

lemma crc32_words_ref_eq: "crc32 data = NOT (foldl crc32b 0xFFFFFFFF data)"
  using crc32_words_ref [of "0xFFFFFFFF" data] by (auto simp: crc32_def split: prod.splits)

section \<open>Error detection\<close>

text \<open>The top bit of the polynomial is set, so a step can be undone.\<close>

lemma crc_step_inj: "crc_step v = crc_step w \<Longrightarrow> v = w" for v w :: u32
proof -
  assume eq: "crc_step v = crc_step w"
  have top: "bit (crc_step u) 31 = bit u 0" for u :: u32
    by (auto simp: bit_crc_step dest: bit_imp_le_length)
  then have low: "bit v 0 = bit w 0" using eq by metis
  have "bit v i = bit w i" for i
  proof (cases i)
    case (Suc j)
    from eq have "bit (crc_step v) j = bit (crc_step w) j" by simp
    then show ?thesis using low by (auto simp: bit_crc_step Suc)
  qed (use low in simp)
  then show "v = w" by (rule bit_eqI)
qed

lemma crc_steps_inj: "(crc_step ^^ n) v = (crc_step ^^ n) w \<Longrightarrow> v = w" for v w :: u32
  by (induction n) (auto dest: crc_step_inj)

lemma crc32b_inj: "crc32b c a = crc32b d b \<Longrightarrow> c XOR ucast a = d XOR ucast b"
  by (simp add: crc32b_def crc_steps_inj)

lemma xor_right_cancel: "v XOR u = w XOR u \<Longrightarrow> v = w" for u v w :: "'a::len word"
  by (metis xor.assoc xor_self_eq xor.right_neutral)

lemma crc32b_state_inj: "crc32b c b = crc32b d b \<Longrightarrow> c = d"
  by (rule xor_right_cancel) (rule crc32b_inj)

lemma crc32b_byte_inj: "crc32b c a = crc32b c b \<Longrightarrow> a = b"
proof -
  assume "crc32b c a = crc32b c b"
  from crc32b_inj [OF this] have "ucast a XOR c = ucast b XOR c" by (simp only: xor.commute)
  then have "(ucast a :: u32) = ucast b" by (rule xor_right_cancel)
  moreover have "ucast (ucast x :: u32) = x" for x :: u8
    by (rule bit_eqI) (auto simp: bit_ucast_iff dest: bit_imp_le_length)
  ultimately show "a = b" by metis
qed

lemma crc_fold_inj: "foldl crc32b c bs = foldl crc32b d bs \<Longrightarrow> c = d"
  by (induction bs arbitrary: c d) (auto dest: crc32b_state_inj)

lemma crc32_flip:
  assumes "i < length data" and "b \<noteq> data ! i"
  shows "crc32 (data[i := b]) \<noteq> crc32 data"
proof
  assume eq: "crc32 (data[i := b]) = crc32 data"
  let ?s = "foldl crc32b 0xFFFFFFFF (take i data)"
  have split: "foldl crc32b 0xFFFFFFFF (data[i := x]) = foldl crc32b (crc32b ?s x) (drop (Suc i) data)" for x
    using assms(1) by (simp add: upd_conv_take_nth_drop)
  have "NOT (foldl crc32b 0xFFFFFFFF (data[i := b])) = NOT (foldl crc32b 0xFFFFFFFF (data[i := data ! i]))"
    using eq by (simp only: crc32_words_ref_eq list_update_id)
  then have "foldl crc32b (crc32b ?s b) (drop (Suc i) data) = foldl crc32b (crc32b ?s (data ! i)) (drop (Suc i) data)"
    unfolding split by (simp only: bit.compl_eq_compl_iff)
  then have "crc32b ?s b = crc32b ?s (data ! i)" by (rule crc_fold_inj)
  with crc32b_byte_inj assms(2) show False by blast
qed

section \<open>Properties\<close>

text \<open>
  C23. The checksum routine, which mixes eight-byte and one-byte instructions, computes
  the byte-by-byte CRC-32 of its input for every length.
\<close>

theorem crc32_is_bytewise: "crc32 data = crc32_ref data"
  by (simp add: crc32_words_ref_eq crc32_ref_def)

text \<open>
  A frame with one damaged byte never has the checksum of the original: changing any
  single byte of a message to any other value changes its CRC.
\<close>

theorem crc32_detects_byte:
  assumes "i < length data" and "b \<noteq> data ! i"
  shows "crc32 (data[i := b]) \<noteq> crc32 data"
  using assms by (rule crc32_flip)

theorem crc32_detects_byte_witness: "crc32 [1, 2, 3] \<noteq> crc32 [1, 9, 3]"
  using crc32_detects_byte [of 1 "[1, 9, 3]" 2] by simp

text \<open>The standard check value, of the digits 1 to 9.\<close>

lemma crc_step_8: "(crc_step ^^ 8) w = crc_step (crc_step (crc_step (crc_step (crc_step (crc_step (crc_step (crc_step w)))))))"
  by (simp add: eval_nat_numeral)

lemma crc32_check: "crc32_ref [0x31, 0x32, 0x33, 0x34, 0x35, 0x36, 0x37, 0x38, 0x39] = 0xCBF43926"
  unfolding crc32_ref_def crc32b_def crc_step_8 foldl.simps by (simp add: crc_step_def)

end
