(* ===== verification/Swift_Wire.thy ===== *)
theory Swift_Wire
  imports Swift_Crc
begin

text \<open>
  What goes over the wire: the packet information block, the IP and Ethernet headers, and
  the macros that lay them out (\<open>src/swift_net.h\<close>, \<open>src/internal/internal.h\<close>,
  \<open>src/internal/networking.h\<close>). A frame is a list of bytes: a link-level prefix of
  \<open>prepend_size\<close> bytes, 20 bytes of IP header, 24 bytes of packet information, then data.
  Fields that the code keeps in network order are kept so; addresses are the raw \<open>s_addr\<close>.
\<close>

section \<open>Headers\<close>

record port_info =
  destination_port :: u16
  source_port :: u16

record packet_info =
  packet_length :: u32
  chunk_amount :: u32
  chunk_index :: u32
  checksum :: u32
  ports :: port_info
  pi_mtu :: u16
  packet_type :: u8

record ip_header =
  ip_vhl :: u8
  ip_tos :: u8
  ip_len :: u16
  ip_id :: u16
  ip_off :: u16
  ip_ttl :: u8
  ip_p :: u8
  ip_sum :: u16
  ip_src :: u32
  ip_dst :: u32

record ether_header =
  ether_dhost :: "u8 list"
  ether_shost :: "u8 list"
  ether_type :: u16

abbreviation MESSAGE :: u8 where "MESSAGE \<equiv> 0x01"
abbreviation REQUEST_INFORMATION :: u8 where "REQUEST_INFORMATION \<equiv> 0x02"
abbreviation SEND_LOST_PACKETS_REQUEST :: u8 where "SEND_LOST_PACKETS_REQUEST \<equiv> 0x03"
abbreviation SEND_LOST_PACKETS_RESPONSE :: u8 where "SEND_LOST_PACKETS_RESPONSE \<equiv> 0x04"
abbreviation SUCCESSFULLY_RECEIVED_PACKET :: u8 where "SUCCESSFULLY_RECEIVED_PACKET \<equiv> 0x05"
abbreviation PACKET_DELAY_UPDATE :: u8 where "PACKET_DELAY_UPDATE \<equiv> 0x06"
abbreviation REQUEST :: u8 where "REQUEST \<equiv> 0x07"
abbreviation RESPONSE :: u8 where "RESPONSE \<equiv> 0x08"

abbreviation IP_SIZE :: nat where "IP_SIZE \<equiv> 20"
abbreviation INFO_SIZE :: nat where "INFO_SIZE \<equiv> 24"
abbreviation ETH_SIZE :: nat where "ETH_SIZE \<equiv> 14"
abbreviation PACKET_HEADER_SIZE :: nat where "PACKET_HEADER_SIZE \<equiv> 44"
abbreviation CHECKSUM_OFFSET :: nat where "CHECKSUM_OFFSET \<equiv> 12"
abbreviation CHUNK_INDEX_OFFSET :: nat where "CHUNK_INDEX_OFFSET \<equiv> 8"
abbreviation PORT_INFO_OFFSET :: nat where "PORT_INFO_OFFSET \<equiv> 16"
abbreviation IP_LEN_OFFSET :: nat where "IP_LEN_OFFSET \<equiv> 2"

text \<open>The object representations; the structure's trailing padding byte is 0.\<close>

definition info_bytes :: "packet_info \<Rightarrow> u8 list" where
  "info_bytes pi =
     le_bytes 4 (packet_length pi) @ le_bytes 4 (chunk_amount pi) @ le_bytes 4 (chunk_index pi) @
     le_bytes 4 (checksum pi) @ le_bytes 2 (destination_port (ports pi)) @ le_bytes 2 (source_port (ports pi)) @
     le_bytes 2 (pi_mtu pi) @ [packet_type pi, 0]"

definition info_of :: "u8 list \<Rightarrow> packet_info" where
  "info_of bs =
     \<lparr>packet_length = le_word (seg 0 4 bs), chunk_amount = le_word (seg 4 4 bs),
      chunk_index = le_word (seg 8 4 bs), checksum = le_word (seg 12 4 bs),
      ports = \<lparr>destination_port = le_word (seg 16 2 bs), source_port = le_word (seg 18 2 bs)\<rparr>,
      pi_mtu = le_word (seg 20 2 bs), packet_type = bs ! 22\<rparr>"

definition ip_bytes :: "ip_header \<Rightarrow> u8 list" where
  "ip_bytes ip =
     [ip_vhl ip, ip_tos ip] @ le_bytes 2 (ip_len ip) @ le_bytes 2 (ip_id ip) @ le_bytes 2 (ip_off ip) @
     [ip_ttl ip, ip_p ip] @ le_bytes 2 (ip_sum ip) @ le_bytes 4 (ip_src ip) @ le_bytes 4 (ip_dst ip)"

definition ip_of :: "u8 list \<Rightarrow> ip_header" where
  "ip_of bs =
     \<lparr>ip_vhl = bs ! 0, ip_tos = bs ! 1, ip_len = le_word (seg 2 2 bs), ip_id = le_word (seg 4 2 bs),
      ip_off = le_word (seg 6 2 bs), ip_ttl = bs ! 8, ip_p = bs ! 9, ip_sum = le_word (seg 10 2 bs),
      ip_src = le_word (seg 12 4 bs), ip_dst = le_word (seg 16 4 bs)\<rparr>"

definition eth_bytes :: "ether_header \<Rightarrow> u8 list" where
  "eth_bytes eh = ether_dhost eh @ ether_shost eh @ le_bytes 2 (ether_type eh)"

definition eth_ok :: "ether_header \<Rightarrow> bool" where
  "eth_ok eh \<longleftrightarrow> length (ether_dhost eh) = 6 \<and> length (ether_shost eh) = 6"

section \<open>Construction\<close>

text \<open>The library's globals that headers are built from.\<close>

record net_globals =
  maximum_transmission_unit :: u16
  private_ip_address :: u32

record network_data =
  addr_type :: u16
  prepend_size :: u8

abbreviation DLT_NULL :: u16 where "DLT_NULL \<equiv> 0"
abbreviation DLT_EN10MB :: u16 where "DLT_EN10MB \<equiv> 1"

definition packet_prepend_size :: "u16 \<Rightarrow> u8" where
  "packet_prepend_size ty = (if ty = DLT_NULL then 4 else if ty = DLT_EN10MB then 14 else 0)"

text \<open>\<open>swiftnet_initialize_networking\<close>, after \<open>pcap_datalink\<close>.\<close>

definition initialize_networking :: "u16 \<Rightarrow> network_data" where
  "initialize_networking datalink =
     (let ty = ucast (ucast datalink :: u8) in \<lparr>addr_type = ty, prepend_size = packet_prepend_size ty\<rparr>)"

definition construct_packet_info ::
  "net_globals \<Rightarrow> u32 \<Rightarrow> u8 \<Rightarrow> u32 \<Rightarrow> u32 \<Rightarrow> port_info \<Rightarrow> packet_info" where
  "construct_packet_info g len ty amount index pts =
     \<lparr>packet_length = len, chunk_amount = amount, chunk_index = index, checksum = 0, ports = pts,
      pi_mtu = maximum_transmission_unit g, packet_type = ty\<rparr>"

definition construct_ip_header :: "net_globals \<Rightarrow> u32 \<Rightarrow> u16 \<Rightarrow> u16 \<Rightarrow> ip_header" where
  "construct_ip_header g dst packet_size packet_id =
     \<lparr>ip_vhl = 0x45, ip_tos = 0, ip_len = htons packet_size, ip_id = htons packet_id, ip_off = htons 0,
      ip_ttl = 64, ip_p = 253, ip_sum = htons 0, ip_src = private_ip_address g, ip_dst = dst\<rparr>"

text \<open>The bytes in front of the IP header, and all headers in order.\<close>

definition link_bytes :: "network_data \<Rightarrow> ether_header \<Rightarrow> u8 list" where
  "link_bytes nd eh = (if addr_type nd = DLT_NULL then le_bytes 4 (2 :: u32) else eth_bytes eh)"

text \<open>
  \<open>HANDLE_PACKET_CONSTRUCTION\<close>: a buffer of \<open>size\<close> bytes with the headers at its start.
  On a link type that is neither of the two, nothing is written. Bytes not written yet
  are 0 here; the code leaves them uninitialised.
\<close>

definition packet_construction ::
  "ip_header \<Rightarrow> packet_info \<Rightarrow> network_data \<Rightarrow> ether_header \<Rightarrow> nat \<Rightarrow> u8 list res" where
  "packet_construction ip pi nd eh n =
     (let hdr = link_bytes nd eh @ ip_bytes ip @ info_bytes pi
      in if addr_type nd = DLT_NULL \<or> addr_type nd = DLT_EN10MB
         then if n < length hdr then Inl Out_Of_Bounds else Inr (put 0 hdr (replicate n 0))
         else Inr (replicate n 0))"

text \<open>A copy into a block, and the fault if it does not fit.\<close>

definition memcpy_at :: "nat \<Rightarrow> u8 list \<Rightarrow> u8 list \<Rightarrow> u8 list res" where
  "memcpy_at off src dst = (if length dst < off + length src then Inl Out_Of_Bounds else Inr (put off src dst))"

definition read_at :: "nat \<Rightarrow> nat \<Rightarrow> u8 list \<Rightarrow> u8 list res" where
  "read_at off n bs = (if length bs < off + n then Inl Out_Of_Bounds else Inr (seg off n bs))"

text \<open>
  \<open>HANDLE_CHECKSUM(buffer + off, n, ...)\<close>: the checksum of \<open>n\<close> bytes goes into the
  \<open>checksum\<close> field of the packet information at \<open>off\<close>.
\<close>

definition handle_checksum :: "nat \<Rightarrow> nat \<Rightarrow> u8 list \<Rightarrow> u8 list res" where
  "handle_checksum off n bs =
     rbind (read_at off n bs) (\<lambda>d. memcpy_at (off + CHECKSUM_OFFSET) (le_bytes 4 (crc32 d)) bs)"

section \<open>Round trips\<close>

lemma length_info_bytes [simp]: "length (info_bytes pi) = INFO_SIZE"
  and length_ip_bytes [simp]: "length (ip_bytes ip) = IP_SIZE"
  by (simp_all add: info_bytes_def ip_bytes_def)

lemma length_eth_bytes [simp]: "eth_ok eh \<Longrightarrow> length (eth_bytes eh) = ETH_SIZE"
  by (simp add: eth_bytes_def eth_ok_def)

lemma seg_head [simp]: "n = length xs \<Longrightarrow> seg 0 n (xs @ ys) = xs"
  by (simp add: seg_def)

lemma seg_full [simp]: "n = length xs \<Longrightarrow> seg 0 n xs = xs"
  by simp

lemma seg_skip: "length xs \<le> off \<Longrightarrow> seg off n (xs @ ys) = seg (off - length xs) n ys"
  by (rule seg_append_right)

lemma info_of_bytes [simp]: "info_of (info_bytes pi) = pi"
  by (simp add: info_of_def info_bytes_def seg_skip nth_append)

lemma seg_Cons: "0 < off \<Longrightarrow> seg off n (x # xs) = seg (off - 1) n xs"
  by (cases off) (simp_all add: seg_def)

lemma ip_of_bytes [simp]: "ip_of (ip_bytes ip) = ip"
  by (simp add: ip_of_def ip_bytes_def seg_skip seg_Cons nth_append)

lemma put_whole: "length src = length dst \<Longrightarrow> put 0 src dst = src"
  by (simp add: put_def)

text \<open>Positions of the parts of a frame \<open>link @ ip @ info @ data\<close>.\<close>

definition frame :: "u8 list \<Rightarrow> ip_header \<Rightarrow> packet_info \<Rightarrow> u8 list \<Rightarrow> u8 list" where
  "frame link ip pi data = link @ ip_bytes ip @ info_bytes pi @ data"

lemma length_frame [simp]: "length (frame link ip pi data) = length link + PACKET_HEADER_SIZE + length data"
  by (simp add: frame_def)

lemma frame_ip [simp]: "length link = p \<Longrightarrow> ip_of (seg p IP_SIZE (frame link ip pi data)) = ip"
  by (simp add: frame_def seg_skip)

lemma frame_info [simp]: "length link = p \<Longrightarrow> info_of (seg (p + IP_SIZE) INFO_SIZE (frame link ip pi data)) = pi"
  by (simp add: frame_def seg_skip)

lemma frame_data: "length link = p \<Longrightarrow> drop (p + PACKET_HEADER_SIZE) (frame link ip pi data) = data"
  by (simp add: frame_def)

lemma put_append_right: "length xs \<le> off \<Longrightarrow> put off src (xs @ ys) = xs @ put (off - length xs) src ys"
  by (simp add: put_def)

lemma put_append_left: "off + length src \<le> length xs \<Longrightarrow> put off src (xs @ ys) = put off src xs @ ys"
  by (simp add: put_def)

lemma put_Cons: "0 < off \<Longrightarrow> put off src (x # xs) = x # put (off - 1) src xs"
  by (cases off) (simp_all add: put_def)

text \<open>Overwriting a field of the packet information.\<close>

lemma put_checksum: "put CHECKSUM_OFFSET (le_bytes 4 c) (info_bytes pi) = info_bytes (pi\<lparr>checksum := c\<rparr>)"
  by (simp add: info_bytes_def put_append_right put_append_left put_whole)

lemma put_chunk_index: "put CHUNK_INDEX_OFFSET (le_bytes 4 c) (info_bytes pi) = info_bytes (pi\<lparr>chunk_index := c\<rparr>)"
  by (simp add: info_bytes_def put_append_right put_append_left put_whole)

lemma put_packet_length: "put 0 (le_bytes 4 c) (info_bytes pi) = info_bytes (pi\<lparr>packet_length := c\<rparr>)"
  by (simp add: info_bytes_def put_append_left put_whole)

lemma put_ip_len: "put IP_LEN_OFFSET (le_bytes 2 c) (ip_bytes ip) = ip_bytes (ip\<lparr>ip_len := c\<rparr>)"
  by (simp add: ip_bytes_def put_Cons put_append_right put_append_left put_whole)

section \<open>Sealing a frame\<close>

text \<open>\<open>packet_corrupted\<close>, on the bytes it is called with.\<close>

definition packet_corrupted :: "u32 \<Rightarrow> u8 list \<Rightarrow> bool" where
  "packet_corrupted received d \<longleftrightarrow> crc32 d \<noteq> received"

definition sealed :: "packet_info \<Rightarrow> u8 list \<Rightarrow> packet_info" where
  "sealed pi data = pi\<lparr>checksum := crc32 (info_bytes pi @ data)\<rparr>"

lemma memcpy_at_frame_checksum:
  assumes "length link = p" and "b = length pre"
  shows "memcpy_at (b + p + IP_SIZE + CHECKSUM_OFFSET) (le_bytes 4 c) (pre @ frame link ip pi data @ rest) =
    Inr (pre @ frame link ip (pi\<lparr>checksum := c\<rparr>) data @ rest)"
  using assms by (simp add: memcpy_at_def frame_def put_append_right put_append_left put_checksum)

lemma memcpy_at_frame_index:
  assumes "length link = p" and "b = length pre"
  shows "memcpy_at (b + IP_SIZE + p + CHUNK_INDEX_OFFSET) (le_bytes 4 c) (pre @ frame link ip pi data @ rest) =
    Inr (pre @ frame link ip (pi\<lparr>chunk_index := c\<rparr>) data @ rest)"
  using assms by (simp add: memcpy_at_def frame_def put_append_right put_append_left put_chunk_index)

lemma memcpy_at_frame_ip_len:
  assumes "length link = p" and "b = length pre"
  shows "memcpy_at (b + p + IP_LEN_OFFSET) (le_bytes 2 c) (pre @ frame link ip pi data @ rest) =
    Inr (pre @ frame link (ip\<lparr>ip_len := c\<rparr>) pi data @ rest)"
  using assms by (simp add: memcpy_at_def frame_def put_append_right put_append_left put_ip_len)

lemma handle_checksum_frame:
  assumes "length link = p" and "b = length pre" and "n = INFO_SIZE + length data"
  shows "handle_checksum (b + p + IP_SIZE) n (pre @ frame link ip pi data @ rest) =
    Inr (pre @ frame link ip (sealed pi data) data @ rest)"
proof -
  have "seg (b + p + IP_SIZE) n (pre @ frame link ip pi data @ rest) = info_bytes pi @ data"
    using assms by (simp add: frame_def seg_skip) (simp add: seg_def)
  moreover have "length (pre @ frame link ip pi data @ rest) \<ge> b + p + IP_SIZE + n" using assms by simp
  ultimately show ?thesis
    using memcpy_at_frame_checksum [OF assms(1,2), of "crc32 (info_bytes pi @ data)" ip pi data rest]
    by (simp add: handle_checksum_def read_at_def sealed_def add.assoc)
qed

section \<open>Properties\<close>

text \<open>
  The header encodings round trip: the packet information and the IP header read back
  from a frame are the ones written, and the identifier that \<open>construct_ip_header\<close> puts in
  network order is the one a second conversion gives back.
\<close>

theorem frame_headers_roundtrip:
  "info_of (seg (length link + IP_SIZE) INFO_SIZE (frame link ip pi data)) = pi \<and>
   ip_of (seg (length link) IP_SIZE (frame link ip pi data)) = ip \<and>
   seg (length link + PACKET_HEADER_SIZE) (length data) (frame link ip pi data) = data \<and>
   htons (ip_id (construct_ip_header g dst n i)) = i"
  by (simp add: construct_ip_header_def) (simp add: frame_def seg_skip)



end
