(* ===== verification/Swift_Buffer.thy ===== *)
theory Swift_Buffer
  imports Swift_Pools Swift_Wire
begin

text \<open>
  The packet buffers of the pcap backend (\<open>src/internal/pcap/pcap_buffer.c\<close>): one heap
  block with room for the headers in front of the data. The three pointers of
  \<open>SwiftNetPacketBuffer\<close> are the block's address and two offsets into it. Fresh memory
  reads as 0 here; the code leaves it uninitialised.
\<close>

section \<open>Operations\<close>

record packet_buffer =
  packet_buffer_start :: "ptr option"
  pb_mem :: "u8 list"
  packet_data_start :: nat
  packet_append_pointer :: nat

abbreviation DATA_START :: nat where
  "DATA_START \<equiv> PACKET_HEADER_SIZE + ETH_SIZE"

definition create_packet_buffer :: "u32 \<Rightarrow> env \<Rightarrow> packet_buffer \<times> env" where
  "create_packet_buffer buffer_size e =
     (case env_malloc (unat buffer_size + DATA_START) e of
        (mem, e1) \<Rightarrow>
          (\<lparr>packet_buffer_start = mem,
            pb_mem = (if mem = None then [] else replicate (unat buffer_size + DATA_START) 0),
            packet_data_start = DATA_START, packet_append_pointer = DATA_START\<rparr>, e1))"

text \<open>
  \<open>resize_packet_buffer\<close>: the new size is computed in 32 bits. \<open>realloc\<close> is a new block
  with the old contents cut or padded, and the old block released.
\<close>

definition resize_packet_buffer :: "u32 \<Rightarrow> packet_buffer \<Rightarrow> env \<Rightarrow> (packet_buffer \<times> env) res" where
  "resize_packet_buffer new_buffer_size pb e =
     (let current_offset = packet_append_pointer pb - packet_data_start pb;
          n = unat (new_buffer_size + of_nat DATA_START :: u32)
      in case env_malloc n e of
           (None, e1) \<Rightarrow> Inl Exit_Failure
         | (Some p, e1) \<Rightarrow>
             rbind (env_free (packet_buffer_start pb) e1)
               (\<lambda>e2. Inr (\<lparr>packet_buffer_start = Some p,
                           pb_mem = take n (pb_mem pb) @ replicate (n - length (pb_mem pb)) 0,
                           packet_data_start = DATA_START,
                           packet_append_pointer = DATA_START + current_offset\<rparr>, e2)))"

definition write_packet_buffer :: "u32 \<Rightarrow> packet_buffer \<Rightarrow> u8 list \<Rightarrow> u32 \<Rightarrow> packet_buffer res" where
  "write_packet_buffer byte_offset pb data data_size =
     rbind (read_at 0 (unat data_size) data)
       (\<lambda>d. rbind (memcpy_at (packet_data_start pb + unat byte_offset) d (pb_mem pb))
          (\<lambda>m. Inr (pb\<lparr>pb_mem := m\<rparr>)))"

definition validate_append_to_packet_args :: "u8 list option \<Rightarrow> u32 \<Rightarrow> u8 list res" where
  "validate_append_to_packet_args data data_size =
     (case data of None \<Rightarrow> Inl Exit_Failure | Some d \<Rightarrow> (if data_size = 0 then Inl Exit_Failure else Inr d))"

definition append_data :: "u8 list \<Rightarrow> u32 \<Rightarrow> packet_buffer \<Rightarrow> packet_buffer res" where
  "append_data data data_size pb =
     rbind (read_at 0 (unat data_size) data)
       (\<lambda>d. rbind (memcpy_at (packet_append_pointer pb) d (pb_mem pb))
          (\<lambda>m. Inr (pb\<lparr>pb_mem := m, packet_append_pointer := packet_append_pointer pb + unat data_size\<rparr>)))"

definition append_to_buffer :: "u8 list option \<Rightarrow> u32 \<Rightarrow> packet_buffer \<Rightarrow> packet_buffer res" where
  "append_to_buffer data data_size pb =
     rbind (validate_append_to_packet_args data data_size) (\<lambda>d. append_data d data_size pb)"

definition destroy_packet_buffer :: "packet_buffer \<Rightarrow> env \<Rightarrow> env res" where
  "destroy_packet_buffer pb e = env_free (packet_buffer_start pb) e"

section \<open>Contents\<close>

definition pb_ok :: "packet_buffer \<Rightarrow> env \<Rightarrow> bool" where
  "pb_ok pb e \<longleftrightarrow> packet_data_start pb = DATA_START \<and> DATA_START \<le> packet_append_pointer pb \<and>
     packet_append_pointer pb \<le> length (pb_mem pb) \<and> env_ok e \<and>
     (\<exists>p. packet_buffer_start pb = Some p \<and> p \<in> dom (blocks (c_heap e)))"

text \<open>The data appended so far, and how much more fits.\<close>

definition pb_data :: "packet_buffer \<Rightarrow> u8 list" where
  "pb_data pb = seg DATA_START (packet_append_pointer pb - DATA_START) (pb_mem pb)"

definition pb_room :: "packet_buffer \<Rightarrow> nat" where
  "pb_room pb = length (pb_mem pb) - packet_append_pointer pb"

lemma length_pb_data: "pb_ok pb e \<Longrightarrow> length (pb_data pb) = packet_append_pointer pb - DATA_START"
  by (simp add: pb_ok_def pb_data_def)

lemma seg_extend: "seg off (n + m) xs = seg off n xs @ seg (off + n) m xs"
  unfolding seg_def take_add drop_drop by (simp only: add.commute)

lemma seg_take: "off + n \<le> k \<Longrightarrow> seg off n (take k xs) = seg off n xs"
  by (simp add: seg_def drop_take)

lemma append_ok:
  assumes "pb_ok pb e" and "length d = unat n" and "unat n \<le> pb_room pb" and "n \<noteq> 0"
  shows "\<exists>pb'. append_to_buffer (Some d) n pb = Inr pb' \<and> pb_ok pb' e \<and> pb_data pb' = pb_data pb @ d \<and>
     pb_room pb' = pb_room pb - unat n \<and> packet_buffer_start pb' = packet_buffer_start pb"
proof -
  let ?a = "packet_append_pointer pb" let ?m = "put ?a d (pb_mem pb)"
  let ?pb = "pb\<lparr>pb_mem := ?m, packet_append_pointer := ?a + unat n\<rparr>"
  have a: "DATA_START \<le> ?a" "?a + length d \<le> length (pb_mem pb)"
    using assms by (auto simp: pb_ok_def pb_room_def)
  have "append_to_buffer (Some d) n pb = Inr ?pb"
    using assms(2,4) a(2) by (simp add: append_to_buffer_def validate_append_to_packet_args_def append_data_def read_at_def memcpy_at_def)
  moreover have "seg DATA_START (?a - DATA_START + length d) ?m = pb_data pb @ d"
  proof -
    have "seg DATA_START (?a - DATA_START + length d) ?m = seg DATA_START (?a - DATA_START) ?m @ seg ?a (length d) ?m"
      using seg_extend [of DATA_START "?a - DATA_START" "length d" ?m] a(1) by simp
    with a show ?thesis by (simp add: pb_data_def copy_simps)
  qed
  ultimately show ?thesis
    using assms a by (intro exI [of _ ?pb]) (auto simp: pb_ok_def pb_data_def pb_room_def add.commute)
qed

lemma create_ok:
  assumes "env_ok e" and "heap_room (unat n + DATA_START) (c_heap e)"
  shows "\<exists>pb e'. create_packet_buffer n e = (pb, e') \<and> pb_ok pb e' \<and> pb_data pb = [] \<and> pb_room pb = unat n \<and>
     pool e' = pool e"
proof -
  have "max 1 (unat n + DATA_START) \<le> unat n + DATA_START" by simp
  from env_malloc_room [OF assms this] obtain p e' where "env_malloc (unat n + DATA_START) e = (Some p, e')" "env_ok e'"
    "pool e' = pool e" "dom (blocks (c_heap e')) = insert p (dom (blocks (c_heap e)))" by blast
  then show ?thesis
    by (auto simp: create_packet_buffer_def pb_ok_def pb_data_def pb_room_def seg_def)
qed

lemma resize_ok:
  assumes "pb_ok pb e" and "unat n + DATA_START < 2 ^ 32" and "length (pb_data pb) \<le> unat n"
    and "heap_room (unat n + DATA_START) (c_heap e)"
  shows "\<exists>pb' e'. resize_packet_buffer n pb e = Inr (pb', e') \<and> pb_ok pb' e' \<and> pb_data pb' = pb_data pb \<and>
     pb_room pb' = unat n - length (pb_data pb)"
proof -
  let ?n = "unat n + DATA_START" let ?a = "packet_append_pointer pb"
  have n: "unat (n + 58 :: u32) = ?n" using assms(2) by (simp add: unat_word_ariths)
  obtain q where q: "packet_buffer_start pb = Some q" "q \<in> dom (blocks (c_heap e))" and env: "env_ok e"
    and a: "DATA_START \<le> ?a" "?a \<le> length (pb_mem pb)" "packet_data_start pb = DATA_START" using assms(1) by (auto simp: pb_ok_def)
  have le: "?a \<le> ?n" using assms(3) length_pb_data [OF assms(1)] a(1) by simp
  have "max 1 ?n \<le> ?n" by simp
  from env_malloc_room [OF env assms(4) this] obtain p e1 where
    1: "env_malloc ?n e = (Some p, e1)" "env_ok e1" "p \<notin> dom (blocks (c_heap e))"
      "dom (blocks (c_heap e1)) = insert p (dom (blocks (c_heap e)))" by blast
  then obtain e2 where 2: "env_free (Some q) e1 = Inr e2" "env_ok e2" "dom (blocks (c_heap e2)) = dom (blocks (c_heap e1)) - {q}"
    using env_free_block [OF 1(2), of q] q by auto
  let ?pb = "\<lparr>packet_buffer_start = Some p, pb_mem = take ?n (pb_mem pb) @ replicate (?n - length (pb_mem pb)) 0,
     packet_data_start = DATA_START, packet_append_pointer = ?a\<rparr>"
  have "resize_packet_buffer n pb e = Inr (?pb, e2)"
    using 1(1) 2(1) q(1) a n by (simp add: resize_packet_buffer_def Let_def)
  moreover have "p \<noteq> q" using 1(3) q(2) by blast
  then have "pb_ok ?pb e2" using a le 1(4) 2(2,3) by (simp add: pb_ok_def)
  moreover have "pb_data ?pb = pb_data pb"
    using a(1,2) le by (simp add: pb_data_def seg_append_left seg_take)
  moreover have "pb_room ?pb = unat n - length (pb_data pb)"
    using length_pb_data [OF assms(1)] a(1,2) le by (simp add: pb_room_def)
  ultimately show ?thesis by blast
qed

lemma write_ok:
  assumes "pb_ok pb e" and "length d = unat n" and "unat off + unat n \<le> length (pb_data pb)"
  shows "\<exists>pb'. write_packet_buffer off pb d n = Inr pb' \<and> pb_ok pb' e \<and> pb_data pb' = put (unat off) d (pb_data pb)"
proof -
  let ?a = "packet_append_pointer pb" let ?m = "put (DATA_START + unat off) d (pb_mem pb)"
  have a: "DATA_START \<le> ?a" "?a \<le> length (pb_mem pb)" "packet_data_start pb = DATA_START" using assms(1) by (auto simp: pb_ok_def)
  have fit: "DATA_START + unat off + length d \<le> ?a" using assms(2,3) length_pb_data [OF assms(1)] a(1) by simp
  have "write_packet_buffer off pb d n = Inr (pb\<lparr>pb_mem := ?m\<rparr>)"
    using assms(2) fit a by (simp add: write_packet_buffer_def read_at_def memcpy_at_def)
  moreover have "pb_ok (pb\<lparr>pb_mem := ?m\<rparr>) e" using assms(1) fit a by (simp add: pb_ok_def)
  moreover have "pb_data (pb\<lparr>pb_mem := ?m\<rparr>) = put (unat off) d (pb_data pb)"
    using fit a by (intro nth_equalityI) (auto simp: pb_data_def nth_seg nth_put)
  ultimately show ?thesis by blast
qed

section \<open>Properties\<close>

text \<open>
  C37. A packet buffer holds what was put in: creating it, appending piece after piece,
  growing it and overwriting a part within the appended data gives the concatenation of
  the pieces with that part replaced, and releasing it succeeds.
\<close>

theorem packet_buffer_contents:
  assumes "env_ok e" and "heap_room (2 * unat n + unat m + 3 * DATA_START) (c_heap e)" and "unat m + DATA_START < 2 ^ 32"
    and "length d1 = unat k1" and "length d2 = unat k2" and "0 < k1" and "0 < k2"
    and "unat k1 \<le> unat n" and "unat k1 + unat k2 \<le> unat m"
    and "length w = unat kw" and "unat off + unat kw \<le> unat k1 + unat k2"
  shows "\<exists>pb0 e0 pb1 pb2 e2 pb3 pb4 e4. create_packet_buffer n e = (pb0, e0) \<and>
    append_to_buffer (Some d1) k1 pb0 = Inr pb1 \<and> resize_packet_buffer m pb1 e0 = Inr (pb2, e2) \<and>
    append_to_buffer (Some d2) k2 pb2 = Inr pb3 \<and> pb_data pb3 = d1 @ d2 \<and>
    write_packet_buffer off pb3 w kw = Inr pb4 \<and> pb_data pb4 = put (unat off) w (d1 @ d2) \<and>
    destroy_packet_buffer pb4 e2 = Inr e4"
proof -
  have "heap_room (unat n + DATA_START) (c_heap e)" using assms(2) by (simp add: heap_room_def)
  from create_ok [OF assms(1) this] obtain pb0 e0 where
    0: "create_packet_buffer n e = (pb0, e0)" "pb_ok pb0 e0" "pb_data pb0 = []" "pb_room pb0 = unat n" by blast
  have room: "heap_room (unat m + DATA_START) (c_heap e0)"
    using 0(1) assms(2) by (auto simp: create_packet_buffer_def env_malloc_def malloc_def heap_room_def split: if_splits prod.splits)
  from append_ok [OF 0(2) assms(4)] assms(6,8) 0(3,4) obtain pb1 where
    1: "append_to_buffer (Some d1) k1 pb0 = Inr pb1" "pb_ok pb1 e0" "pb_data pb1 = d1" by auto
  from resize_ok [OF 1(2) assms(3) _ room] 1(3) assms(4,9) obtain pb2 e2 where
    2: "resize_packet_buffer m pb1 e0 = Inr (pb2, e2)" "pb_ok pb2 e2" "pb_data pb2 = d1" "pb_room pb2 = unat m - length d1" by auto
  have "unat k2 \<le> pb_room pb2" "k2 \<noteq> 0" using 2(4) assms(4,7,9) by auto
  from append_ok [OF 2(2) assms(5) this] 2(3) obtain pb3 where
    3: "append_to_buffer (Some d2) k2 pb2 = Inr pb3" "pb_ok pb3 e2" "pb_data pb3 = d1 @ d2" by auto
  from write_ok [OF 3(2) assms(10)] 3(3) assms(4,5,11) obtain pb4 where
    4: "write_packet_buffer off pb3 w kw = Inr pb4" "pb_ok pb4 e2" "pb_data pb4 = put (unat off) w (d1 @ d2)" by auto
  then obtain p where "packet_buffer_start pb4 = Some p" "p \<in> dom (blocks (c_heap e2))" "env_ok e2" by (auto simp: pb_ok_def)
  with env_free_block [of e2 p] obtain e4 where "destroy_packet_buffer pb4 e2 = Inr e4"
    by (auto simp: destroy_packet_buffer_def)
  with 0 1 2 3 4 show ?thesis by blast
qed

theorem packet_buffer_contents_witness:
  "\<exists>e pb0 e0 pb1 pb2 e2 pb3 pb4 e4. create_packet_buffer 4 e = (pb0, e0) \<and>
     append_to_buffer (Some [1, 2, 3]) 3 pb0 = Inr pb1 \<and> resize_packet_buffer 10 pb1 e0 = Inr (pb2, e2) \<and>
     append_to_buffer (Some [4, 5]) 2 pb2 = Inr pb3 \<and> write_packet_buffer 1 pb3 [9] 1 = Inr pb4 \<and>
     pb_data pb4 = [1, 9, 3, 4, 5] \<and> destroy_packet_buffer pb4 e2 = Inr e4"
proof -
  obtain e where e: "env_ok e" "heap_room 1000000 (c_heap e)" using sample_env by blast
  then have "heap_room (2 * unat (4 :: u32) + unat (10 :: u32) + 3 * DATA_START) (c_heap e)" by (simp add: heap_room_def)
  from packet_buffer_contents [OF e(1) this, of "[1, 2, 3]" 3 "[4, 5]" 2 "[9]" 1 1] show ?thesis
    by (fastforce simp: put_def)
qed

text \<open>
  Appending \<open>NULL\<close> or nothing ends the program with \<open>exit(EXIT_FAILURE)\<close>, and
  appending more than fits writes past the block: the append itself checks no bound.
\<close>

theorem append_errors:
  "append_to_buffer None n pb = Inl Exit_Failure \<and> append_to_buffer data 0 pb = Inl Exit_Failure \<and>
   (length d = unat n \<and> n \<noteq> 0 \<and> length (pb_mem pb) < packet_append_pointer pb + unat n \<longrightarrow>
      append_to_buffer (Some d) n pb = Inl Out_Of_Bounds)"
  by (cases data) (auto simp: append_to_buffer_def validate_append_to_packet_args_def append_data_def read_at_def memcpy_at_def)

theorem append_errors_witness:
  "append_to_buffer (Some [1, 2]) 2 \<lparr>packet_buffer_start = Some 16, pb_mem = replicate 59 0, packet_data_start = 58,
     packet_append_pointer = 58\<rparr> = Inl Out_Of_Bounds"
  using append_errors [of 2 "\<lparr>packet_buffer_start = Some 16, pb_mem = replicate 59 0, packet_data_start = 58,
     packet_append_pointer = 58\<rparr>" None "[1, 2]"] by simp

end
