(* ===== verification/Swift_Send.thy ===== *)
theory Swift_Send
  imports Swift_Tables Swift_Buffer
begin

text \<open>
  Sending (\<open>src/send_packet.c\<close>, pcap backend). A message that fits goes out as one frame
  built in place in front of the data; a longer one is cut into chunks, each sent by
  laying the headers over the bytes in front of the chunk and putting those bytes back
  afterwards. After the last chunk the sender asks for lost chunks until the receiver
  has confirmed the message.

  A frame handed to \<open>swiftnet_pcap_send\<close> is appended to \<open>wire\<close>; the retry while the kernel
  buffer is full and the pacing sleeps have no other effect. While the sender polls
  \<open>packet_sending->updated\<close>, other threads run: what they do before each poll is a given
  function on the state, and a run for which no further poll is given is \<open>Stuck\<close>.
\<close>

section \<open>State\<close>

datatype sending_update = NO_UPDATE | UPDATED_LOST_CHUNKS | SUCCESSFULLY_RECEIVED

record packet_sending =
  lost_chunks_at :: "ptr option"
  lost_chunks :: "u8 list"
  updated :: sending_update
  current_send_delay :: u32
  lost_chunks_size :: u32
  sending_packet_id :: u16

record request_sent =
  request_packet_data :: "ptr option"
  request_address :: u32
  request_packet_id :: u16

record send_state =
  s_env :: env
  packets_sending :: "ptr hashmap"
  sending_at :: "ptr \<Rightarrow> packet_sending option"
  requests_sent :: "ptr hashmap"
  request_at :: "ptr \<Rightarrow> request_sent option"
  wire :: "u8 list list"

text \<open>What stays the same during one send.\<close>

record route =
  rt_globals :: net_globals
  rt_seed :: u64
  rt_mtu :: u16
  rt_ports :: port_info
  rt_dest :: u32
  rt_eth :: ether_header
  rt_net :: network_data

abbreviation rt_prepend :: "route \<Rightarrow> nat" where
  "rt_prepend r \<equiv> unat (prepend_size (rt_net r))"

text \<open>\<open>mtu - PACKET_HEADER_SIZE\<close>, computed in \<open>size_t\<close>.\<close>

definition chunk_size :: "u16 \<Rightarrow> u64" where
  "chunk_size mtu = ucast mtu - 44"

definition count_chunks :: "u32 \<Rightarrow> u16 \<Rightarrow> u32 res" where
  "count_chunks len mtu =
     (if chunk_size mtu = 0 then Inl Div_By_Zero
      else Inr (ucast ((ucast len + chunk_size mtu - 1) div chunk_size mtu)))"

definition emit :: "u8 list \<Rightarrow> 'z send_state_scheme \<Rightarrow> 'z send_state_scheme" where
  "emit fr s = s\<lparr>wire := wire s @ [fr]\<rparr>"

section \<open>Sending the chunks\<close>

text \<open>The headers laid over the bytes at \<open>b\<close>, with the chunk's index and no checksum.\<close>

definition lay_header :: "nat \<Rightarrow> u8 list \<Rightarrow> u32 \<Rightarrow> nat \<Rightarrow> u8 list \<Rightarrow> u8 list res" where
  "lay_header p hdr i b mem =
     rbind (memcpy_at b hdr mem)
       (\<lambda>m1. rbind (memcpy_at (b + IP_SIZE + p + CHUNK_INDEX_OFFSET) (le_bytes 4 i) m1)
          (memcpy_at (b + IP_SIZE + p + CHECKSUM_OFFSET) (le_bytes 4 (0 :: u32))))"

text \<open>The checksum over \<open>n\<close> bytes, the frame of \<open>len\<close> bytes, the covered bytes put back.\<close>

definition seal_and_restore :: "nat \<Rightarrow> nat \<Rightarrow> nat \<Rightarrow> nat \<Rightarrow> u8 list \<Rightarrow> u8 list \<Rightarrow> (u8 list \<times> u8 list) res" where
  "seal_and_restore p b n len temp m =
     rbind (handle_checksum (b + p + IP_SIZE) n m)
       (\<lambda>m1. rbind (read_at b len m1)
          (\<lambda>fr. rbind (memcpy_at b temp m1) (\<lambda>m2. Inr (fr, m2))))"

definition header_position :: "nat \<Rightarrow> packet_buffer \<Rightarrow> u32 \<Rightarrow> nat res" where
  "header_position p pb off =
     (if packet_data_start pb + unat off < p + PACKET_HEADER_SIZE then Inl Out_Of_Bounds
      else Inr (packet_data_start pb + unat off - (p + PACKET_HEADER_SIZE)))"

text \<open>One turn of the sending loop: whether it was the last, the frame, the memory.\<close>

definition send_chunk ::
  "nat \<Rightarrow> u8 list \<Rightarrow> u16 \<Rightarrow> u32 \<Rightarrow> packet_buffer \<Rightarrow> u32 \<Rightarrow> u8 list \<Rightarrow> (bool \<times> u8 list \<times> u8 list) res" where
  "send_chunk p hdr mtu len pb i mem =
     (let off = ucast (ucast i * chunk_size mtu) :: u32
      in rbind (header_position p pb off)
       (\<lambda>b. rbind (read_at b (p + PACKET_HEADER_SIZE) mem)
       (\<lambda>temp. rbind (lay_header p hdr i b mem)
       (\<lambda>m. if ucast len \<le> ucast off + chunk_size mtu
             then let bytes = ucast (ucast (len - off) + 44 + of_nat p :: u64) :: u16
                  in rbind (memcpy_at (b + p + IP_LEN_OFFSET) (le_bytes 2 (htons (bytes - of_nat p))) m)
                       (\<lambda>m1. rbind (seal_and_restore p b (unat (ucast (ucast bytes - of_nat p - 20 :: u64) :: u32)) (unat bytes) temp m1)
                          (\<lambda>(fr, m2). Inr (True, fr, m2)))
             else let bytes = of_nat p + mtu
                  in rbind (seal_and_restore p b (unat (ucast (ucast bytes - of_nat p - 20 :: u64) :: u32)) (unat bytes) temp m)
                       (\<lambda>(fr, m2). Inr (False, fr, m2))))))"

primrec send_loop ::
  "nat \<Rightarrow> nat \<Rightarrow> u8 list \<Rightarrow> u16 \<Rightarrow> u32 \<Rightarrow> packet_buffer \<Rightarrow> u32 \<Rightarrow> u8 list \<Rightarrow> (u8 list list \<times> u8 list) res" where
  "send_loop 0 p hdr mtu len pb i mem = Inl Stuck"
| "send_loop (Suc fuel) p hdr mtu len pb i mem =
     rbind (send_chunk p hdr mtu len pb i mem)
       (\<lambda>(final, fr, m). if final then Inr ([fr], m)
          else rbind (send_loop fuel p hdr mtu len pb (i + 1) m) (\<lambda>(frs, m'). Inr (fr # frs, m')))"

section \<open>Lost chunks\<close>

definition request_frame :: "route \<Rightarrow> u16 \<Rightarrow> u8 list res" where
  "request_frame r packet_id =
     rbind (packet_construction (construct_ip_header (rt_globals r) (rt_dest r) 44 packet_id)
              (construct_packet_info (rt_globals r) 0 SEND_LOST_PACKETS_REQUEST 1 0 (rt_ports r))
              (rt_net r) (rt_eth r) (PACKET_HEADER_SIZE + rt_prepend r))
       (handle_checksum (rt_prepend r + IP_SIZE) INFO_SIZE)"

text \<open>
  \<open>request_lost_packets_bitarray\<close>: the request is sent, then \<open>updated\<close> is polled 255 times
  before the request is sent again.
\<close>

fun poll_updated ::
  "u8 list \<Rightarrow> nat \<Rightarrow> ('z send_state_scheme \<Rightarrow> 'z send_state_scheme) list \<Rightarrow> ptr \<Rightarrow> 'z send_state_scheme \<Rightarrow>
   (sending_update \<times> ('z send_state_scheme \<Rightarrow> 'z send_state_scheme) list \<times> 'z send_state_scheme) res" where
  "poll_updated req checks [] ps s = Inl Stuck"
| "poll_updated req checks (other # others) ps s =
     (let s1 = other s
      in case sending_at s1 ps of
           None \<Rightarrow> Inl Null_Deref
         | Some x \<Rightarrow>
             if updated x = NO_UPDATE
             then (if checks \<le> 1 then poll_updated req 255 others ps (emit req s1)
                   else poll_updated req (checks - 1) others ps s1)
             else Inr (updated x, others, s1\<lparr>sending_at := (sending_at s1)(ps \<mapsto> x\<lparr>updated := NO_UPDATE\<rparr>)\<rparr>))"

definition request_lost_packets_bitarray ::
  "u8 list \<Rightarrow> ('z send_state_scheme \<Rightarrow> 'z send_state_scheme) list \<Rightarrow> ptr \<Rightarrow> 'z send_state_scheme \<Rightarrow>
   (sending_update \<times> ('z send_state_scheme \<Rightarrow> 'z send_state_scheme) list \<times> 'z send_state_scheme) res" where
  "request_lost_packets_bitarray req others ps s = poll_updated req 255 others ps (emit req s)"

text \<open>
  One lost chunk sent again. On the last chunk the new \<open>ip_len\<close> is written at
  \<open>offsetof(struct ip, ip_len)\<close> from the start of the frame, without the link prefix.
\<close>

definition resend_chunk ::
  "nat \<Rightarrow> u8 list \<Rightarrow> u16 \<Rightarrow> u32 \<Rightarrow> packet_buffer \<Rightarrow> u32 \<Rightarrow> u8 list \<Rightarrow> (u8 list \<times> u8 list) res" where
  "resend_chunk p hdr mtu len pb i mem =
     (let off = ucast (ucast i * chunk_size mtu) :: u32
      in rbind (header_position p pb off)
       (\<lambda>b. rbind (read_at b (p + PACKET_HEADER_SIZE) mem)
       (\<lambda>temp. rbind (lay_header p hdr i b mem)
       (\<lambda>m. if ucast len \<le> (ucast (off + ucast mtu) - 44 :: u64)
             then let bytes = ucast (len - off) :: u16
                  in rbind (memcpy_at (b + IP_LEN_OFFSET) (le_bytes 2 (htons (bytes + 44))) m)
                       (seal_and_restore p b (unat bytes + INFO_SIZE) (unat bytes + PACKET_HEADER_SIZE + p) temp)
             else seal_and_restore p b (unat (ucast (ucast mtu - 20 :: u64) :: u32)) (unat mtu + p) temp m))))"

definition lost_chunk_at :: "packet_sending \<Rightarrow> nat \<Rightarrow> u32 res" where
  "lost_chunk_at x i =
     (if lost_chunks_at x = None then Inl Null_Deref
      else rbind (read_at (4 * i) 4 (lost_chunks x)) (\<lambda>bs. Inr (le_word bs)))"

primrec resend_loop ::
  "nat list \<Rightarrow> nat \<Rightarrow> u8 list \<Rightarrow> u16 \<Rightarrow> u32 \<Rightarrow> packet_buffer \<Rightarrow> packet_sending \<Rightarrow> u8 list \<Rightarrow> (u8 list list \<times> u8 list) res" where
  "resend_loop [] p hdr mtu len pb x mem = Inr ([], mem)"
| "resend_loop (i # is) p hdr mtu len pb x mem =
     rbind (lost_chunk_at x i)
       (\<lambda>c. rbind (resend_chunk p hdr mtu len pb c mem)
          (\<lambda>(fr, m). rbind (resend_loop is p hdr mtu len pb x m) (\<lambda>(frs, m'). Inr (fr # frs, m'))))"

lemma poll_updated_shorter:
  "poll_updated req checks others ps s = Inr (u, rest, s') \<Longrightarrow> length rest < length others"
  by (induction req checks others ps s rule: poll_updated.induct) (fastforce simp: Let_def split: option.splits if_splits)+

text \<open>Confirmed: the list of lost chunks, the map entry and the record are released.\<close>

definition finish_sending :: "u64 \<Rightarrow> ptr \<Rightarrow> packet_sending \<Rightarrow> 'z send_state_scheme \<Rightarrow> 'z send_state_scheme res" where
  "finish_sending seed ps x s =
     rbind (env_free (lost_chunks_at x) (s_env s))
       (\<lambda>e1. rbind (hashmap_remove seed (le_bytes 2 (sending_packet_id x)) 2 (packets_sending s) e1)
          (\<lambda>(hm, e2). rbind (pool_free Packets_sending_pool ps e2)
             (\<lambda>e3. Inr (s\<lparr>s_env := e3, packets_sending := hm\<rparr>))))"

function handle_lost_loop ::
  "u64 \<Rightarrow> nat \<Rightarrow> u8 list \<Rightarrow> u8 list \<Rightarrow> u16 \<Rightarrow> u32 \<Rightarrow> ('z send_state_scheme \<Rightarrow> 'z send_state_scheme) list \<Rightarrow> ptr \<Rightarrow> packet_buffer \<Rightarrow>
   'z send_state_scheme \<Rightarrow> (packet_buffer \<times> 'z send_state_scheme) res" where
  "handle_lost_loop seed p req hdr mtu len others ps pb s =
     rbind (request_lost_packets_bitarray req others ps s)
       (\<lambda>(u, rest, s1).
          case sending_at s1 ps of
            None \<Rightarrow> Inl Null_Deref
          | Some x \<Rightarrow>
              if u = SUCCESSFULLY_RECEIVED
              then rbind (finish_sending seed ps x s1) (\<lambda>s2. Inr (pb, s2))
              else rbind (resend_loop [0..<unat (lost_chunks_size x)] p hdr mtu len pb x (pb_mem pb))
                     (\<lambda>(frs, m). handle_lost_loop seed p req hdr mtu len rest ps (pb\<lparr>pb_mem := m\<rparr>)
                                   (s1\<lparr>wire := wire s1 @ frs\<rparr>)))"
  by pat_completeness auto
termination
  by (relation "measure (\<lambda>(seed, p, req, hdr, mtu, len, others, ps, pb, s). length others)")
     (auto simp: request_lost_packets_bitarray_def dest: poll_updated_shorter)

declare handle_lost_loop.simps [simp del]

definition handle_lost_packets ::
  "route \<Rightarrow> u32 \<Rightarrow> u32 \<Rightarrow> u8 \<Rightarrow> ('z send_state_scheme \<Rightarrow> 'z send_state_scheme) list \<Rightarrow> ptr \<Rightarrow> packet_buffer \<Rightarrow> 'z send_state_scheme \<Rightarrow>
   (packet_buffer \<times> 'z send_state_scheme) res" where
  "handle_lost_packets r len amount ty others ps pb s =
     (case sending_at s ps of
        None \<Rightarrow> Inl Null_Deref
      | Some x \<Rightarrow>
          rbind (request_frame r (sending_packet_id x))
            (\<lambda>req. rbind (packet_construction (construct_ip_header (rt_globals r) (rt_dest r) (rt_mtu r) (sending_packet_id x))
                            (construct_packet_info (rt_globals r) len ty amount 0 (rt_ports r))
                            (rt_net r) (rt_eth r) (rt_prepend r + PACKET_HEADER_SIZE))
               (\<lambda>hdr. handle_lost_loop (rt_seed r) (rt_prepend r) req hdr (rt_mtu r) len others ps pb s)))"

section \<open>Sending a message\<close>

text \<open>The request a sender waits on is entered in \<open>requests_sent\<close> under the packet's id.\<close>

definition register_request :: "u64 \<Rightarrow> u16 \<Rightarrow> ptr option \<Rightarrow> 'z send_state_scheme \<Rightarrow> 'z send_state_scheme res" where
  "register_request seed packet_id request s =
     (case request of
        None \<Rightarrow> Inr s
      | Some q \<Rightarrow>
          (case request_at s q of
             None \<Rightarrow> Inl Null_Deref
           | Some x \<Rightarrow>
               rbind (pool_allocate Uint16_pool (s_env s))
                 (\<lambda>(k, e1). rbind (hashmap_insert seed k (le_bytes 2 packet_id) 2 (Some q) (requests_sent s) e1)
                    (\<lambda>(hm, e2). Inr (s\<lparr>request_at := (request_at s)(q \<mapsto> x\<lparr>request_packet_id := packet_id\<rparr>),
                                       s_env := e2, requests_sent := hm\<rparr>)))))"

definition register_sending :: "u64 \<Rightarrow> u16 \<Rightarrow> 'z send_state_scheme \<Rightarrow> (ptr \<times> 'z send_state_scheme) res" where
  "register_sending seed packet_id s =
     rbind (pool_allocate Packets_sending_pool (s_env s))
       (\<lambda>(ps, e1). rbind (pool_allocate Uint16_pool e1)
       (\<lambda>(k, e2). rbind (hashmap_insert seed k (le_bytes 2 packet_id) 2 (Some ps) (packets_sending s) e2)
       (\<lambda>(hm, e3). Inr (ps, s\<lparr>s_env := e3, packets_sending := hm,
           sending_at := (sending_at s)(ps \<mapsto>
             \<lparr>lost_chunks_at = None, lost_chunks = [], updated = NO_UPDATE, current_send_delay = 50,
              lost_chunks_size = 0, sending_packet_id = packet_id\<rparr>)\<rparr>))))"

definition send_chunked ::
  "route \<Rightarrow> u16 \<Rightarrow> u32 \<Rightarrow> u32 \<Rightarrow> u8 \<Rightarrow> ('z send_state_scheme \<Rightarrow> 'z send_state_scheme) list \<Rightarrow> packet_buffer \<Rightarrow> 'z send_state_scheme \<Rightarrow>
   (packet_buffer \<times> 'z send_state_scheme) res" where
  "send_chunked r packet_id len amount ty others pb s =
     (let pi = construct_packet_info (rt_globals r) len ty amount 0 (rt_ports r);
          ip = (construct_ip_header (rt_globals r) (rt_dest r) (rt_mtu r) packet_id)
                 \<lparr>ip_len := htons (rt_mtu r + ucast (prepend_size (rt_net r)))\<rparr>
      in rbind (register_sending (rt_seed r) packet_id s)
       (\<lambda>(ps, s1). rbind (packet_construction ip pi (rt_net r) (rt_eth r) (rt_prepend r + PACKET_HEADER_SIZE))
       (\<lambda>hdr. rbind (send_loop (Suc (unat len)) (rt_prepend r) hdr (rt_mtu r) len pb 0 (pb_mem pb))
       (\<lambda>(frs, m). handle_lost_packets r len amount ty others ps (pb\<lparr>pb_mem := m\<rparr>)
                     (s1\<lparr>wire := wire s1 @ frs\<rparr>)))))"

text \<open>
  A message that fits: the headers are written in front of the data in the buffer itself
  and stay there. On a link that is neither loopback nor Ethernet nothing is sent.
\<close>

definition send_single ::
  "route \<Rightarrow> u16 \<Rightarrow> u32 \<Rightarrow> u8 \<Rightarrow> packet_buffer \<Rightarrow> 'z send_state_scheme \<Rightarrow> (packet_buffer \<times> 'z send_state_scheme) res" where
  "send_single r packet_id len ty pb s =
     (let final_packet_size = ucast (of_nat (rt_prepend r) + 44 + ucast len :: u64) :: u16;
          pi = construct_packet_info (rt_globals r) len ty 1 0 (rt_ports r);
          ip = construct_ip_header (rt_globals r) (rt_dest r) (final_packet_size - ucast (prepend_size (rt_net r))) packet_id;
          at = (if addr_type (rt_net r) = DLT_NULL then ETH_SIZE - 4 else 0);
          prefix = (if addr_type (rt_net r) = DLT_NULL then le_bytes 4 (2 :: u32) else eth_bytes (rt_eth r))
      in if addr_type (rt_net r) \<noteq> DLT_NULL \<and> addr_type (rt_net r) \<noteq> DLT_EN10MB then Inr (pb, s)
         else rbind (memcpy_at at prefix (pb_mem pb))
           (\<lambda>m1. rbind (memcpy_at ETH_SIZE (ip_bytes ip) m1)
           (\<lambda>m2. rbind (memcpy_at (ETH_SIZE + IP_SIZE) (info_bytes pi) m2)
           (\<lambda>m3. rbind (read_at (packet_data_start pb) (unat len) m3)
           (\<lambda>d. rbind (memcpy_at (PACKET_HEADER_SIZE + ETH_SIZE) d m3)
           (\<lambda>m4. rbind (handle_checksum (packet_data_start pb - INFO_SIZE) (unat len + INFO_SIZE) m4)
           (\<lambda>m5. rbind (read_at at (unat final_packet_size) m5)
           (\<lambda>fr. Inr (pb\<lparr>pb_mem := m5\<rparr>, emit fr s)))))))))"

text \<open>\<open>rand_id\<close> is what \<open>rand()\<close> gives.\<close>

definition send_packet ::
  "route \<Rightarrow> u16 \<Rightarrow> u32 \<Rightarrow> ptr option \<Rightarrow> u16 option \<Rightarrow> ('z send_state_scheme \<Rightarrow> 'z send_state_scheme) list \<Rightarrow> packet_buffer \<Rightarrow> 'z send_state_scheme \<Rightarrow>
   (packet_buffer \<times> 'z send_state_scheme) res" where
  "send_packet r rand_id len request response others pb s =
     (let packet_id = (case response of Some i \<Rightarrow> i | None \<Rightarrow> rand_id);
          ty = (case response of Some _ \<Rightarrow> RESPONSE | None \<Rightarrow> (if request = None then MESSAGE else REQUEST))
      in rbind (register_request (rt_seed r) packet_id request s)
       (\<lambda>s1. rbind (count_chunks len (rt_mtu r))
       (\<lambda>amount. if ucast (rt_mtu r) < len then send_chunked r packet_id len amount ty others pb s1
                  else send_single r packet_id len ty pb s1)))"

definition min_mtu :: "u16 \<Rightarrow> net_globals \<Rightarrow> u16" where
  "min_mtu target g = (if maximum_transmission_unit g < target then maximum_transmission_unit g else target)"

section \<open>The frames of a message\<close>

lemma memcpy_at_middle:
  "length x = length y \<Longrightarrow> b = length pre \<Longrightarrow> memcpy_at b x (pre @ y @ rest) = Inr (pre @ x @ rest)"
  by (simp add: memcpy_at_def put_def)

lemma read_at_middle:
  "n = length y \<Longrightarrow> b = length pre \<Longrightarrow> read_at b n (pre @ y @ rest) = Inr y"
  by (simp add: read_at_def seg_def)

lemma lay_header_frame:
  assumes "length link = p" and "b = length pre" and "length temp = p + PACKET_HEADER_SIZE"
  shows "lay_header p (frame link ip pi []) i b (pre @ temp @ d @ rest) =
    Inr (pre @ frame link ip (pi\<lparr>chunk_index := i, checksum := 0\<rparr>) d @ rest)"
proof -
  have "memcpy_at b (frame link ip pi []) (pre @ temp @ d @ rest) = Inr (pre @ frame link ip pi d @ rest)"
    using assms memcpy_at_middle [of "frame link ip pi []" temp b pre "d @ rest"] by (simp add: frame_def)
  moreover note memcpy_at_frame_index [OF assms(1,2), of i ip pi d rest]
  moreover note memcpy_at_frame_checksum [OF assms(1,2), of "0 :: u32" ip "pi\<lparr>chunk_index := i\<rparr>" d rest]
  ultimately show ?thesis by (simp add: lay_header_def ac_simps)
qed

lemma seal_and_restore_frame:
  assumes "length link = p" and "b = length pre" and "length temp = p + PACKET_HEADER_SIZE"
    and "n = INFO_SIZE + length d" and "len = p + PACKET_HEADER_SIZE + length d"
  shows "seal_and_restore p b n len temp (pre @ frame link ip pi d @ rest) =
    Inr (frame link ip (sealed pi d) d, pre @ temp @ d @ rest)"
proof -
  let ?fr = "frame link ip (sealed pi d) d"
  have "read_at b len (pre @ ?fr @ rest) = Inr ?fr"
    using assms by (intro read_at_middle) simp_all
  moreover have "memcpy_at b temp (pre @ ?fr @ rest) = Inr (pre @ temp @ d @ rest)"
    using assms memcpy_at_middle [of temp "frame link ip (sealed pi d) []" b pre "d @ rest"] by (simp add: frame_def)
  ultimately show ?thesis
    by (simp add: seal_and_restore_def handle_checksum_frame [OF assms(1,2,4)])
qed

text \<open>The piece of the message a chunk carries, and the frame it goes in.\<close>

definition chunk_data :: "nat \<Rightarrow> u8 list \<Rightarrow> nat \<Rightarrow> u8 list" where
  "chunk_data cs msg i = take cs (drop (i * cs) msg)"

definition chunk_frame :: "u8 list \<Rightarrow> ip_header \<Rightarrow> packet_info \<Rightarrow> nat \<Rightarrow> u8 list \<Rightarrow> nat \<Rightarrow> u8 list" where
  "chunk_frame link ip pi cs msg i =
     (let d = chunk_data cs msg i
      in frame link (if length msg \<le> i * cs + cs then ip\<lparr>ip_len := htons (of_nat (PACKET_HEADER_SIZE + length d))\<rparr> else ip)
           (sealed (pi\<lparr>chunk_index := of_nat i, checksum := 0\<rparr>) d) d)"

text \<open>The arithmetic of one turn, with the message shorter than \<open>2^32\<close>.\<close>

lemma chunk_size_unat: "44 \<le> unat mtu \<Longrightarrow> unat (chunk_size mtu) = unat mtu - 44"
proof -
  assume m: "44 \<le> unat mtu"
  have "unat mtu < 2 ^ 16" using unsigned_less [of mtu, where ?'a = nat] by simp
  then have "unat (ucast mtu :: u64) = unat mtu" by (simp add: unsigned_ucast_eq take_bit_nat_eq_self)
  with m show ?thesis unfolding chunk_size_def by (subst unat_sub) (simp_all add: word_le_nat_alt)
qed

lemma chunk_offset_unat:
  assumes "44 \<le> unat mtu" and "i * (unat mtu - 44) < unat (len :: u32)" and "44 < unat mtu"
  shows "unat (ucast (ucast (of_nat i :: u32) * chunk_size mtu) :: u32) = i * (unat mtu - 44)"
proof -
  have L: "unat len < 2 ^ 32" using unsigned_less [of len, where ?'a = nat] by simp
  have "i * 1 \<le> i * (unat mtu - 44)" using assms(3) by (intro mult_le_mono) simp_all
  then have i: "i < 2 ^ 32" using assms(2) L by linarith
  then have "unat (ucast (of_nat i :: u32) :: u64) = i"
    by (simp add: unsigned_ucast_eq unat_of_nat take_bit_nat_eq_self)
  then have "unat (ucast (of_nat i :: u32) * chunk_size mtu) = i * (unat mtu - 44)"
    using chunk_size_unat [OF assms(1)] assms(2) L by (simp add: unat_word_ariths)
  then show ?thesis using assms(2) L by (simp add: unsigned_ucast_eq take_bit_nat_eq_self)
qed

text \<open>A buffer ready to be sent: \<open>L\<close> bytes of data behind the space for the headers.\<close>

lemma buffer_split:
  assumes "b + k + n \<le> length mem"
  shows "mem = take b mem @ seg b k mem @ seg (b + k) n mem @ drop (b + k + n) mem"
proof -
  have "mem = take b mem @ take k (drop b mem) @ take n (drop (b + k) mem) @ drop (b + k + n) mem"
    by (metis append_take_drop_id drop_drop add.commute)
  then show ?thesis by (simp only: seg_def)
qed

lemma ucast_u16_u64 [simp]: "unat (ucast (w :: u16) :: u64) = unat w"
  using unsigned_less [of w, where ?'a = nat] by (simp add: unsigned_ucast_eq take_bit_nat_eq_self)

lemma ucast_u32_u64 [simp]: "unat (ucast (w :: u32) :: u64) = unat w"
  using unsigned_less [of w, where ?'a = nat] by (simp add: unsigned_ucast_eq take_bit_nat_eq_self)

lemma checked_bytes:
  assumes "p + 20 \<le> unat (bytes :: u16)" and "p < 2 ^ 16"
  shows "unat (ucast (ucast bytes - of_nat p - 20 :: u64) :: u32) = unat bytes - p - 20"
proof -
  have b: "unat bytes < 2 ^ 16" using unsigned_less [of bytes, where ?'a = nat] by simp
  have p: "unat (of_nat p :: u64) = p" using assms(2) by (simp add: unat_of_nat)
  have "unat (ucast bytes - of_nat p :: u64) = unat bytes - p"
    using assms(1) p by (subst unat_sub) (simp_all add: word_le_nat_alt)
  then have "unat (ucast bytes - of_nat p - 20 :: u64) = unat bytes - p - 20"
    using assms(1) by (subst unat_sub) (simp_all add: word_le_nat_alt)
  then show ?thesis using b by (simp add: unsigned_ucast_eq take_bit_nat_eq_self)
qed

text \<open>What the code relies on when it sends a message of \<open>len\<close> bytes in chunks.\<close>

definition can_send :: "nat \<Rightarrow> u16 \<Rightarrow> u32 \<Rightarrow> packet_buffer \<Rightarrow> u8 list \<Rightarrow> bool" where
  "can_send p mtu len pb mem \<longleftrightarrow> 44 < unat mtu \<and> p \<le> ETH_SIZE \<and> unat mtu + p < 2 ^ 16 \<and>
     packet_data_start pb = DATA_START \<and> DATA_START + unat len \<le> length mem"

lemma final_chunk_bytes:
  assumes "unat (off :: u32) \<le> unat len" and "unat len - unat off + 44 + p < 2 ^ 16"
  shows "unat (ucast (ucast (len - off) + 44 + of_nat p :: u64) :: u16) = unat len - unat off + 44 + p"
    and "ucast (ucast (len - off) + 44 + of_nat p :: u64) - (of_nat p :: u16) = of_nat (44 + (unat len - unat off))"
proof -
  have "unat (len - off) = unat len - unat off" using assms(1) by (subst unat_sub) (simp_all add: word_le_nat_alt)
  then have w: "unat (ucast (len - off) + 44 + of_nat p :: u64) = unat len - unat off + 44 + p"
    using assms(2) by (simp add: unat_word_ariths unat_of_nat)
  then show u: "unat (ucast (ucast (len - off) + 44 + of_nat p :: u64) :: u16) = unat len - unat off + 44 + p"
    using assms(2) by (simp add: unsigned_ucast_eq take_bit_nat_eq_self)
  have p: "unat (of_nat p :: u16) = p" using assms(2) by (simp add: unat_of_nat)
  have "unat (ucast (ucast (len - off) + 44 + of_nat p :: u64) - (of_nat p :: u16)) = 44 + (unat len - unat off)"
    using u p by (subst unat_sub) (simp_all add: word_le_nat_alt)
  moreover have "unat (of_nat (44 + (unat len - unat off)) :: u16) = 44 + (unat len - unat off)"
    using assms(2) by (subst unat_of_nat) simp
  ultimately show "ucast (ucast (len - off) + 44 + of_nat p :: u64) - (of_nat p :: u16) = of_nat (44 + (unat len - unat off))"
    by (simp only: word_unat_eq_iff)
qed

text \<open>Where a chunk lies in the buffer, and the buffer with the headers laid over it.\<close>

lemma chunk_window:
  assumes "can_send p mtu len pb mem" and "length link = p" and "i * (unat mtu - 44) < unat len"
  defines "cs \<equiv> unat mtu - 44" and "msg \<equiv> seg DATA_START (unat len) mem"
    and "off \<equiv> ucast (ucast (of_nat i :: u32) * chunk_size mtu) :: u32"
  obtains pre temp rest where "header_position p pb off = Inr (length pre)"
    and "read_at (length pre) (p + PACKET_HEADER_SIZE) mem = Inr temp" and "length temp = p + PACKET_HEADER_SIZE"
    and "mem = pre @ temp @ chunk_data cs msg i @ rest"
    and "lay_header p (frame link ip pi []) (of_nat i) (length pre) mem =
      Inr (pre @ frame link ip (pi\<lparr>chunk_index := of_nat i, checksum := 0\<rparr>) (chunk_data cs msg i) @ rest)"
    and "unat off = i * cs" and "length (chunk_data cs msg i) = min cs (unat len - i * cs)"
proof -
  let ?L = "unat len" let ?n = "min cs (?L - i * cs)"
  define b where "b = DATA_START + i * cs - (p + PACKET_HEADER_SIZE)"
  have mtu: "44 \<le> unat mtu" "44 < unat mtu" and p: "p \<le> 14"
    and mem: "packet_data_start pb = DATA_START" "DATA_START + ?L \<le> length mem"
    using assms(1) by (auto simp: can_send_def)
  have off: "unat off = i * cs" unfolding cs_def off_def by (rule chunk_offset_unat [OF mtu(1) assms(3) mtu(2)])
  have lt: "i * cs < ?L" using assms(3) by (simp add: cs_def)
  have bk: "b + (p + PACKET_HEADER_SIZE) = DATA_START + i * cs" using p by (simp add: b_def)
  have dn: "chunk_data cs msg i = seg (DATA_START + i * cs) ?n mem"
    by (simp add: chunk_data_def msg_def seg_def drop_take take_take drop_drop ac_simps min.commute)
  have ld: "length (chunk_data cs msg i) = ?n" using mem(2) lt unfolding dn by simp
  define pre temp rest where "pre = take b mem" and "temp = seg b (p + PACKET_HEADER_SIZE) mem"
    and "rest = drop (DATA_START + i * cs + ?n) mem"
  have "b + (p + PACKET_HEADER_SIZE) + ?n \<le> length mem" using bk mem(2) lt by simp
  from buffer_split [OF this] have split: "mem = pre @ temp @ chunk_data cs msg i @ rest"
    unfolding dn pre_def temp_def rest_def bk by simp
  have lens: "b = length pre" "length temp = p + PACKET_HEADER_SIZE"
    using bk mem(2) lt by (simp_all add: pre_def temp_def)
  have "header_position p pb off = Inr (length pre)" using off mem(1) p lens(1) by (simp add: header_position_def b_def)
  moreover have "read_at (length pre) (p + PACKET_HEADER_SIZE) mem = Inr temp"
    by (subst split) (rule read_at_middle [OF lens(2) [symmetric] refl])
  moreover have "lay_header p (frame link ip pi []) (of_nat i) (length pre) mem =
      Inr (pre @ frame link ip (pi\<lparr>chunk_index := of_nat i, checksum := 0\<rparr>) (chunk_data cs msg i) @ rest)"
    by (subst split) (rule lay_header_frame [OF assms(2) refl lens(2)])
  ultimately show ?thesis using that lens(2) split off ld by blast
qed

lemma send_chunk_frame:
  assumes "can_send p mtu len pb mem" and "length link = p" and "i * (unat mtu - 44) < unat len"
  defines "cs \<equiv> unat mtu - 44" and "msg \<equiv> seg DATA_START (unat len) mem"
  shows "send_chunk p (frame link ip pi []) mtu len pb (of_nat i) mem =
    Inr (unat len \<le> i * cs + cs, chunk_frame link ip pi cs msg i, mem)"
proof -
  let ?off = "ucast (ucast (of_nat i :: u32) * chunk_size mtu) :: u32" let ?d = "chunk_data cs msg i"
  let ?L = "unat len" let ?n = "min cs (?L - i * cs)" let ?pi = "pi\<lparr>chunk_index := of_nat i, checksum := 0\<rparr>"
  obtain pre temp rest where w: "header_position p pb ?off = Inr (length pre)"
    "read_at (length pre) (p + PACKET_HEADER_SIZE) mem = Inr temp" "length temp = p + PACKET_HEADER_SIZE"
    "mem = pre @ temp @ ?d @ rest"
    "lay_header p (frame link ip pi []) (of_nat i) (length pre) mem = Inr (pre @ frame link ip ?pi ?d @ rest)"
    "unat ?off = i * cs" "length ?d = ?n"
    unfolding cs_def msg_def by (rule chunk_window [OF assms(1-3)])
  have mtu: "44 \<le> unat mtu" "44 < unat mtu" "unat mtu + p < 2 ^ 16" and p: "p < 2 ^ 16"
    and lmsg: "length msg = ?L" and lt: "i * cs < ?L"
    using assms(1,3) by (auto simp: can_send_def msg_def cs_def)
  have "unat (ucast ?off + chunk_size mtu) = i * cs + cs"
    using w(6) chunk_size_unat [OF mtu(1)] lt unsigned_less [of len, where ?'a = nat] mtu(3)
    by (simp add: unat_word_ariths cs_def)
  then have cond: "ucast len \<le> ucast ?off + chunk_size mtu \<longleftrightarrow> ?L \<le> i * cs + cs"
    by (simp add: word_le_nat_alt)
  show ?thesis
  proof (cases "?L \<le> i * cs + cs")
    case True
    then have n: "?n = ?L - i * cs" "?n + 44 + p < 2 ^ 16" using mtu(2,3) by (auto simp: cs_def)
    let ?bytes = "ucast (ucast (len - ?off) + 44 + of_nat p :: u64) :: u16"
    have by_n: "unat ?bytes = ?n + 44 + p" "?bytes - of_nat p = of_nat (44 + ?n)"
      using final_chunk_bytes [of ?off len p] w(6) lt n by simp_all
    have "unat (ucast (ucast ?bytes - of_nat p - 20 :: u64) :: u32) = INFO_SIZE + length ?d"
      using checked_bytes [of p ?bytes] by_n(1) p w(7) by simp
    moreover have "unat ?bytes = p + PACKET_HEADER_SIZE + length ?d" using by_n(1) w(7) by simp
    moreover have "memcpy_at (length pre + p + IP_LEN_OFFSET) (le_bytes 2 (htons (?bytes - of_nat p))) (pre @ frame link ip ?pi ?d @ rest) =
        Inr (pre @ frame link (ip\<lparr>ip_len := htons (of_nat (44 + ?n))\<rparr>) ?pi ?d @ rest)"
      unfolding by_n(2) by (rule memcpy_at_frame_ip_len [OF assms(2) refl])
    moreover note seal_and_restore_frame [OF assms(2) refl w(3), of _ ?d _ pre "ip\<lparr>ip_len := htons (of_nat (44 + ?n))\<rparr>" ?pi rest]
    ultimately show ?thesis
      unfolding send_chunk_def Let_def w(1) rbind_Inr w(2,5) cond using True w(7) lmsg
      by (simp add: chunk_frame_def Let_def w(4) [symmetric])
  next
    case False
    then have n: "?n = cs" by simp
    have bytes: "unat (of_nat p + mtu :: u16) = p + unat mtu" using mtu(3) by (simp add: unat_word_ariths unat_of_nat)
    have "unat (ucast (ucast (of_nat p + mtu :: u16) - of_nat p - 20 :: u64) :: u32) = INFO_SIZE + length ?d"
      using checked_bytes [of p "of_nat p + mtu"] bytes p w(7) n mtu(2) by (simp add: cs_def)
    moreover have "unat (of_nat p + mtu :: u16) = p + PACKET_HEADER_SIZE + length ?d" using bytes w(7) n mtu(2) by (simp add: cs_def)
    moreover note seal_and_restore_frame [OF assms(2) refl w(3), of _ ?d _ pre ip ?pi rest]
    ultimately show ?thesis
      unfolding send_chunk_def Let_def w(1) rbind_Inr w(2,5) cond using False lmsg
      by (simp add: chunk_frame_def Let_def w(4) [symmetric])
  qed
qed

section \<open>The whole message\<close>

definition chunk_count :: "nat \<Rightarrow> nat \<Rightarrow> nat" where
  "chunk_count cs n = (n + cs - 1) div cs"

lemma chunk_count_last:
  assumes "0 < cs" and "i * cs < n"
  shows "n \<le> i * cs + cs \<longleftrightarrow> Suc i = chunk_count cs n" and "i < chunk_count cs n"
proof -
  have c: "chunk_count cs n = (n - 1) div cs + 1"
    unfolding chunk_count_def using assms
    by (metis Nat.add_diff_assoc2 One_nat_def Suc_leI add.commute assms(1) bot_nat_0.not_eq_extremum div_add_self2 less_nat_zero_code plus_1_eq_Suc Suc_eq_plus1)
  have "i \<le> (n - 1) div cs" using assms by (simp add: less_eq_div_iff_mult_less_eq)
  then show "i < chunk_count cs n" using c by simp
  have "n \<le> i * cs + cs \<longleftrightarrow> n - 1 < Suc i * cs" using assms by auto
  also have "\<dots> \<longleftrightarrow> (n - 1) div cs < Suc i" using assms(1) by (simp add: div_less_iff_less_mult)
  finally show "n \<le> i * cs + cs \<longleftrightarrow> Suc i = chunk_count cs n"
    using c \<open>i \<le> (n - 1) div cs\<close> by auto
qed

lemma count_chunks_ok:
  assumes "44 < unat mtu"
  shows "count_chunks len mtu = Inr (of_nat (chunk_count (unat mtu - 44) (unat len)))"
proof -
  let ?cs = "unat mtu - 44"
  have cs: "unat (chunk_size mtu) = ?cs" using assms by (simp add: chunk_size_unat)
  have b: "unat len < 2 ^ 32" "unat mtu < 2 ^ 16"
    using unsigned_less [of len, where ?'a = nat] unsigned_less [of mtu, where ?'a = nat] by simp_all
  have "unat (ucast len + chunk_size mtu) = unat len + ?cs" using cs b by (simp add: unat_word_ariths)
  then have "unat (ucast len + chunk_size mtu - 1) = unat len + ?cs - 1"
    using assms by (subst unat_sub) (simp_all add: word_le_nat_alt)
  then have e: "unat ((ucast len + chunk_size mtu - 1) div chunk_size mtu) = chunk_count ?cs (unat len)"
    by (simp add: unat_div cs chunk_count_def)
  have "ucast ((ucast len + chunk_size mtu - 1) div chunk_size mtu) =
      (of_nat (unat ((ucast len + chunk_size mtu - 1) div chunk_size mtu)) :: u32)" by simp
  moreover have "chunk_size mtu \<noteq> 0" using cs assms by auto
  ultimately show ?thesis unfolding e by (simp add: count_chunks_def)
qed

text \<open>The loop sends every chunk once, in order, stops after the last and leaves the buffer as it was.\<close>

lemma send_loop_frames:
  assumes "can_send p mtu len pb mem" and "length link = p"
  defines "cs \<equiv> unat mtu - 44" and "msg \<equiv> seg DATA_START (unat len) mem"
  shows "i * cs < unat len \<Longrightarrow> chunk_count cs (unat len) - i \<le> fuel \<Longrightarrow>
    send_loop fuel p (frame link ip pi []) mtu len pb (of_nat i) mem =
      Inr (map (chunk_frame link ip pi cs msg) [i..<chunk_count cs (unat len)], mem)"
proof (induction fuel arbitrary: i)
  case 0
  have "0 < cs" using assms(1) by (simp add: can_send_def cs_def)
  from chunk_count_last(2) [OF this 0(1)] 0(2) show ?case by simp
next
  case (Suc fuel)
  have cs: "0 < cs" using assms(1) by (simp add: can_send_def cs_def)
  note last = chunk_count_last [OF cs Suc.prems(1)]
  have run: "send_chunk p (frame link ip pi []) mtu len pb (of_nat i) mem =
      Inr (Suc i = chunk_count cs (unat len), chunk_frame link ip pi cs msg i, mem)"
    using send_chunk_frame [OF assms(1,2)] Suc.prems(1) last(1) by (simp add: cs_def msg_def)
  show ?case
  proof (cases "Suc i = chunk_count cs (unat len)")
    case True
    with run last(2) show ?thesis by (simp add: upt_conv_Cons)
  next
    case False
    then have "Suc i * cs < unat len" using last(1) by simp
    from Suc.IH [OF this] Suc.prems(2) False run last(2) show ?thesis
      by (simp add: upt_conv_Cons of_nat_Suc add.commute)
  qed
qed

lemma chunk_count_le: "0 < cs \<Longrightarrow> chunk_count cs n \<le> n"
  by (cases n) (simp_all add: chunk_count_def div_add_self2)

text \<open>What a chunk's frame says when it is read again.\<close>

lemma chunk_frame_parts:
  assumes "length link = p"
  shows "info_of (seg (p + IP_SIZE) INFO_SIZE (chunk_frame link ip pi cs msg i)) =
      sealed (pi\<lparr>chunk_index := of_nat i, checksum := 0\<rparr>) (chunk_data cs msg i)"
    and "drop (p + PACKET_HEADER_SIZE) (chunk_frame link ip pi cs msg i) = chunk_data cs msg i"
    and "length (chunk_frame link ip pi cs msg i) = p + PACKET_HEADER_SIZE + length (chunk_data cs msg i)"
  using assms by (simp_all add: chunk_frame_def Let_def frame_data)

text \<open>The pieces of all chunks are the message.\<close>

lemma chunk_data_concat:
  assumes "0 < cs"
  shows "concat (map (chunk_data cs msg) [0..<n]) = take (n * cs) msg"
proof (induction n)
  case (Suc n)
  have "take (n * cs) msg @ take cs (drop (n * cs) msg) = take (n * cs + cs) msg" by (simp add: take_add)
  with Suc show ?case by (simp add: chunk_data_def add.commute)
qed simp

lemma chunk_count_covers: "0 < cs \<Longrightarrow> n \<le> chunk_count cs n * cs"
  unfolding chunk_count_def using div_mult_mod_eq [of "n + cs - 1" cs] mod_less_divisor [of cs "n + cs - 1"] by linarith

section \<open>Headers on the two link types\<close>

definition link_ok :: "network_data \<Rightarrow> ether_header \<Rightarrow> bool" where
  "link_ok nd eh \<longleftrightarrow> addr_type nd = DLT_NULL \<and> prepend_size nd = 4 \<or>
     addr_type nd = DLT_EN10MB \<and> prepend_size nd = 14 \<and> eth_ok eh"

lemma length_link: "link_ok nd eh \<Longrightarrow> length (link_bytes nd eh) = unat (prepend_size nd)"
  by (auto simp: link_ok_def link_bytes_def)

lemma link_prepend: "link_ok nd eh \<Longrightarrow> unat (prepend_size nd) \<le> ETH_SIZE"
  by (auto simp: link_ok_def)

lemma packet_construction_frame:
  assumes "link_ok nd eh" and "n = unat (prepend_size nd) + PACKET_HEADER_SIZE + k"
  shows "packet_construction ip pi nd eh n = Inr (frame (link_bytes nd eh) ip pi (replicate k 0))"
proof -
  have "length (link_bytes nd eh @ ip_bytes ip @ info_bytes pi) + k = n"
    using length_link [OF assms(1)] assms(2) by simp
  moreover have "addr_type nd = DLT_NULL \<or> addr_type nd = DLT_EN10MB" using assms(1) by (auto simp: link_ok_def)
  ultimately show ?thesis by (auto simp: packet_construction_def Let_def put_def frame_def)
qed

lemma request_frame_ok:
  assumes "link_ok (rt_net r) (rt_eth r)"
  shows "request_frame r i = Inr (frame (link_bytes (rt_net r) (rt_eth r))
     (construct_ip_header (rt_globals r) (rt_dest r) 44 i)
     (sealed (construct_packet_info (rt_globals r) 0 SEND_LOST_PACKETS_REQUEST 1 0 (rt_ports r)) []) [])"
proof -
  have "packet_construction (construct_ip_header (rt_globals r) (rt_dest r) 44 i)
        (construct_packet_info (rt_globals r) 0 SEND_LOST_PACKETS_REQUEST 1 0 (rt_ports r)) (rt_net r) (rt_eth r)
        (PACKET_HEADER_SIZE + rt_prepend r) =
      Inr (frame (link_bytes (rt_net r) (rt_eth r)) (construct_ip_header (rt_globals r) (rt_dest r) 44 i)
        (construct_packet_info (rt_globals r) 0 SEND_LOST_PACKETS_REQUEST 1 0 (rt_ports r)) [])"
    by (subst packet_construction_frame [OF assms, of _ 0]) simp_all
  with handle_checksum_frame [OF length_link [OF assms], of 0 "[]" _ "[]" _ _ "[]"]
  show ?thesis by (simp add: request_frame_def)
qed

section \<open>A message that fits one frame\<close>

lemma ucast_u8_u64 [simp]: "unat (ucast (w :: u8) :: u64) = unat w"
  using unsigned_less [of w, where ?'a = nat] by (simp add: unsigned_ucast_eq take_bit_nat_eq_self)

lemma send_single_frame:
  assumes "link_ok (rt_net r) (rt_eth r)" and "packet_data_start pb = DATA_START"
    and "DATA_START + unat len \<le> length (pb_mem pb)" and "unat len + DATA_START < 2 ^ 16"
  defines "msg \<equiv> seg DATA_START (unat len) (pb_mem pb)"
  shows "\<exists>pb'. send_single r packet_id len ty pb s =
    Inr (pb', emit (frame (link_bytes (rt_net r) (rt_eth r))
           (construct_ip_header (rt_globals r) (rt_dest r) (of_nat (PACKET_HEADER_SIZE + unat len)) packet_id)
           (sealed (construct_packet_info (rt_globals r) len ty 1 0 (rt_ports r)) msg) msg) s) \<and>
    seg DATA_START (unat len) (pb_mem pb') = msg \<and> length (pb_mem pb') = length (pb_mem pb)"
proof -
  let ?p = "rt_prepend r" let ?link = "link_bytes (rt_net r) (rt_eth r)" let ?mem = "pb_mem pb"
  let ?pi = "construct_packet_info (rt_globals r) len ty 1 0 (rt_ports r)"
  let ?ip = "construct_ip_header (rt_globals r) (rt_dest r) (of_nat (PACKET_HEADER_SIZE + unat len)) packet_id"
  let ?fin = "ucast (of_nat ?p + 44 + ucast len :: u64) :: u16"
  have p: "?p \<le> 14" and ll: "length ?link = ?p" using link_prepend length_link assms(1) by auto
  have "unat (of_nat ?p + 44 + ucast len :: u64) = ?p + 44 + unat len"
    using p assms(4) by (simp add: unat_word_ariths unat_of_nat)
  then have fin: "unat ?fin = ?p + 44 + unat len" using p assms(4) by (simp add: unsigned_ucast_eq take_bit_nat_eq_self)
  have pu: "unat (ucast (prepend_size (rt_net r)) :: u16) = ?p"
    using unsigned_less [of "prepend_size (rt_net r)", where ?'a = nat] by (simp add: unsigned_ucast_eq take_bit_nat_eq_self)
  have "unat (?fin - ucast (prepend_size (rt_net r))) = 44 + unat len"
    using fin pu by (subst unat_sub) (simp_all add: word_le_nat_alt)
  moreover have "unat (of_nat (44 + unat len) :: u16) = 44 + unat len" using assms(4) by (subst unat_of_nat) simp
  ultimately have len: "?fin - ucast (prepend_size (rt_net r)) = of_nat (44 + unat len)" by (simp only: word_unat_eq_iff)
  define pre rest where "pre = take (14 - ?p) ?mem" and "rest = drop (DATA_START + unat len) ?mem"
  have lpre: "14 - ?p = length pre" using assms(3) by (simp add: pre_def)
  have "(14 - ?p) + (?p + 44) + unat len \<le> length ?mem" using p assms(3) by simp
  from buffer_split [OF this] have split: "?mem = pre @ seg (14 - ?p) (?p + 44) ?mem @ msg @ rest"
    using p by (simp add: pre_def rest_def msg_def)
  define temp where "temp = seg (14 - ?p) (?p + 44) ?mem"
  have lt: "length temp = ?p + 44" using p assms(3) by (simp add: temp_def)
  have split': "?mem = pre @ take ?p temp @ drop ?p temp @ msg @ rest"
    using split unfolding temp_def [symmetric] by (metis append_assoc append_take_drop_id)
  have d2: "drop ?p temp = take 20 (drop ?p temp) @ drop (?p + 20) temp"
    using append_take_drop_id [of 20 "drop ?p temp"] by (simp add: add.commute)
  have m1: "memcpy_at (14 - ?p) ?link ?mem = Inr (pre @ ?link @ drop ?p temp @ msg @ rest)"
    by (subst split') (rule memcpy_at_middle, use lpre ll lt in simp_all)
  have m2: "memcpy_at ETH_SIZE (ip_bytes ?ip) (pre @ ?link @ drop ?p temp @ msg @ rest) =
      Inr (pre @ ?link @ ip_bytes ?ip @ drop (?p + 20) temp @ msg @ rest)"
    using memcpy_at_middle [of "ip_bytes ?ip" "take 20 (drop ?p temp)" 14 "pre @ ?link" "drop (?p + 20) temp @ msg @ rest"] lpre ll lt p
    by (subst d2) simp
  have m3: "memcpy_at (ETH_SIZE + IP_SIZE) (info_bytes ?pi) (pre @ ?link @ ip_bytes ?ip @ drop (?p + 20) temp @ msg @ rest) =
      Inr (pre @ frame ?link ?ip ?pi msg @ rest)"
    using memcpy_at_middle [of "info_bytes ?pi" "drop (?p + 20) temp" 34 "pre @ ?link @ ip_bytes ?ip" "msg @ rest"] lpre ll lt p
    by (simp add: frame_def)
  have lm: "length msg = unat len" using assms(3) by (simp add: msg_def)
  have pos: "length (pre @ frame ?link ?ip ?pi []) = DATA_START" using lpre ll p by simp
  have rd: "read_at DATA_START (unat len) (pre @ frame ?link ?ip ?pi msg @ rest) = Inr msg"
    using read_at_middle [of "unat len" msg DATA_START "pre @ frame ?link ?ip ?pi []" rest] lm pos by (simp add: frame_def)
  have m4: "memcpy_at (PACKET_HEADER_SIZE + ETH_SIZE) msg (pre @ frame ?link ?ip ?pi msg @ rest) =
      Inr (pre @ frame ?link ?ip ?pi msg @ rest)"
    using memcpy_at_middle [of msg msg DATA_START "pre @ frame ?link ?ip ?pi []" rest] pos by (simp add: frame_def)
  have m5: "handle_checksum (DATA_START - INFO_SIZE) (unat len + INFO_SIZE) (pre @ frame ?link ?ip ?pi msg @ rest) =
      Inr (pre @ frame ?link ?ip (sealed ?pi msg) msg @ rest)"
    using handle_checksum_frame [OF ll lpre, of "unat len + INFO_SIZE" msg ?ip ?pi rest] lm p by simp
  have fr: "read_at (14 - ?p) (unat ?fin) (pre @ frame ?link ?ip (sealed ?pi msg) msg @ rest) =
      Inr (frame ?link ?ip (sealed ?pi msg) msg)"
    using lpre ll lm fin by (intro read_at_middle) simp_all
  have ty: "(addr_type (rt_net r) \<noteq> DLT_NULL \<and> addr_type (rt_net r) \<noteq> DLT_EN10MB) = False"
    and at: "(if addr_type (rt_net r) = DLT_NULL then ETH_SIZE - 4 else 0) = 14 - ?p"
    and pf: "(if addr_type (rt_net r) = DLT_NULL then le_bytes 4 (2 :: u32) else eth_bytes (rt_eth r)) = ?link"
    using assms(1) by (auto simp: link_ok_def link_bytes_def)
  let ?pb = "pb\<lparr>pb_mem := pre @ frame ?link ?ip (sealed ?pi msg) msg @ rest\<rparr>"
  have "send_single r packet_id len ty pb s = Inr (?pb, emit (frame ?link ?ip (sealed ?pi msg) msg) s)"
    unfolding send_single_def Let_def at pf len assms(2) ty if_False using m1 m2 m3 rd m4 m5 fr by simp
  moreover have "seg DATA_START (unat len) (pb_mem ?pb) = msg"
    using pos lm by (simp add: frame_def seg_skip)
  moreover have "length (pb_mem ?pb) = length ?mem"
    using arg_cong [OF split', of length] ll lm lt by simp
  ultimately show ?thesis by blast
qed

section \<open>Sending a lost chunk again\<close>

lemma resend_condition:
  assumes "44 < unat mtu" and "unat (off :: u32) < unat len" and "unat len + 2 ^ 16 < 2 ^ 32"
  shows "ucast (len :: u32) \<le> (ucast (off + ucast (mtu :: u16)) - 44 :: u64) \<longleftrightarrow> unat len \<le> unat off + (unat mtu - 44)"
proof -
  have m: "unat (ucast mtu :: u32) = unat mtu" "unat mtu < 2 ^ 16"
    using unsigned_less [of mtu, where ?'a = nat] by (simp_all add: unsigned_ucast_eq take_bit_nat_eq_self)
  have "unat (off + ucast mtu) = unat off + unat mtu" using m assms by (simp add: unat_word_ariths)
  then have "unat (ucast (off + ucast mtu) - 44 :: u64) = unat off + unat mtu - 44"
    using assms(1) by (subst unat_sub) (simp_all add: word_le_nat_alt)
  with assms(1) show ?thesis by (simp add: word_le_nat_alt)
qed

lemma memcpy_at_link:
  assumes "4 \<le> length link"
  shows "memcpy_at (length pre + IP_LEN_OFFSET) (le_bytes 2 c) (pre @ frame link ip pi d @ rest) =
    Inr (pre @ frame (put 2 (le_bytes 2 c) link) ip pi d @ rest)"
  using assms by (simp add: memcpy_at_def frame_def put_append_right put_append_left)

lemma resend_chunk_frame:
  fixes pi :: packet_info
  assumes "can_send p mtu len pb mem" and "length link = p" and "i * (unat mtu - 44) < unat len"
    and "unat len + 2 ^ 16 < 2 ^ 32" and "4 \<le> p"
  defines "cs \<equiv> unat mtu - 44" and "msg \<equiv> seg DATA_START (unat len) mem"
  defines "d \<equiv> chunk_data cs msg i" and "pi' \<equiv> pi\<lparr>chunk_index := of_nat i, checksum := 0\<rparr>"
  shows "resend_chunk p (frame link ip pi []) mtu len pb (of_nat i) mem =
    Inr (frame (if unat len \<le> i * cs + cs then put 2 (le_bytes 2 (htons (of_nat (44 + length d)))) link else link)
           ip (sealed pi' d) d, mem)"
proof -
  let ?off = "ucast (ucast (of_nat i :: u32) * chunk_size mtu) :: u32" let ?L = "unat len"
  obtain pre temp rest where w: "header_position p pb ?off = Inr (length pre)"
    "read_at (length pre) (p + PACKET_HEADER_SIZE) mem = Inr temp" "length temp = p + PACKET_HEADER_SIZE"
    "mem = pre @ temp @ d @ rest"
    "lay_header p (frame link ip pi []) (of_nat i) (length pre) mem = Inr (pre @ frame link ip pi' d @ rest)"
    "unat ?off = i * cs" "length d = min cs (?L - i * cs)"
    unfolding cs_def msg_def d_def pi'_def by (rule chunk_window [OF assms(1-3)])
  have mtu: "44 < unat mtu" "unat mtu + p < 2 ^ 16" using assms(1) by (auto simp: can_send_def)
  have lt: "unat ?off < ?L" using w(6) assms(3) by (simp add: cs_def)
  note cond = resend_condition [OF mtu(1) lt assms(4), unfolded w(6), folded cs_def]
  show ?thesis
  proof (cases "?L \<le> i * cs + cs")
    case True
    let ?bytes = "ucast (len - ?off) :: u16" let ?link = "put 2 (le_bytes 2 (htons (of_nat (44 + length d)))) link"
    have n: "length d = ?L - i * cs" "length d + 44 < 2 ^ 16" using w(7) True mtu by (auto simp: cs_def)
    have "unat (len - ?off) = ?L - i * cs" using lt w(6) by (subst unat_sub) (simp_all add: word_le_nat_alt)
    then have b: "unat ?bytes = length d" using n by (simp add: unsigned_ucast_eq take_bit_nat_eq_self)
    have "unat (?bytes + 44) = 44 + length d" using b n(2) by (simp add: unat_word_ariths)
    moreover have "unat (of_nat (44 + length d) :: u16) = 44 + length d" using n(2) by (subst unat_of_nat) simp
    ultimately have h: "?bytes + 44 = of_nat (44 + length d)" by (simp only: word_unat_eq_iff)
    have ll: "length ?link = p" using assms(2,5) by simp
    have "4 \<le> length link" using assms(2,5) by simp
    note mc = memcpy_at_link [OF this, of pre "htons (of_nat (44 + length d))" ip pi' d rest]
    have seal: "seal_and_restore p (length pre) (unat ?bytes + INFO_SIZE) (unat ?bytes + PACKET_HEADER_SIZE + p) temp
        (pre @ frame ?link ip pi' d @ rest) = Inr (frame ?link ip (sealed pi' d) d, pre @ temp @ d @ rest)"
      unfolding b by (rule seal_and_restore_frame [OF ll refl w(3)]) simp_all
    show ?thesis
      unfolding resend_chunk_def Let_def w(1) rbind_Inr w(2,5) cond using True mc seal
      by (simp only: h if_True rbind_Inr w(4) [symmetric])
  next
    case False
    then have n: "length d = cs" using w(7) by simp
    have "unat (ucast (ucast mtu - 20 :: u64) :: u32) = INFO_SIZE + length d"
      using checked_bytes [of 0 mtu] mtu(1) n by (simp add: cs_def)
    moreover have "unat mtu + p = p + PACKET_HEADER_SIZE + length d" using n mtu(1) by (simp add: cs_def)
    ultimately have "seal_and_restore p (length pre) (unat (ucast (ucast mtu - 20 :: u64) :: u32)) (unat mtu + p) temp
        (pre @ frame link ip pi' d @ rest) = Inr (frame link ip (sealed pi' d) d, pre @ temp @ d @ rest)"
      by (rule seal_and_restore_frame [OF assms(2) refl w(3)])
    then show ?thesis
      unfolding resend_chunk_def Let_def w(1) rbind_Inr w(2,5) cond using False
      by (simp only: if_False w(4) [symmetric])
  qed
qed

section \<open>Entering and leaving the table of messages being sent\<close>

text \<open>What a sender needs of the memory to enter a message.\<close>

definition send_ready :: "u64 \<Rightarrow> 'z send_state_scheme \<Rightarrow> bool" where
  "send_ready seed s \<longleftrightarrow> hm_ok seed (packets_sending s) (s_env s) \<and>
     key_memory_allocator (packets_sending s) = Some Uint16_pool \<and>
     hm_size (packets_sending s) + 1 < hm_capacity (packets_sending s) \<and>
     0 < pool_avail (s_env s) Packets_sending_pool \<and> 0 < pool_avail (s_env s) Uint16_pool \<and>
     0 < pool_avail (s_env s) Hashmap_item_pool"

abbreviation new_sending :: "u16 \<Rightarrow> packet_sending" where
  "new_sending i \<equiv> \<lparr>lost_chunks_at = None, lost_chunks = [], updated = NO_UPDATE, current_send_delay = 50,
        lost_chunks_size = 0, sending_packet_id = i\<rparr>"

text \<open>A message entered: what has changed.\<close>

definition entered :: "u64 \<Rightarrow> u16 \<Rightarrow> ptr \<Rightarrow> 'z send_state_scheme \<Rightarrow> 'z send_state_scheme \<Rightarrow> bool" where
  "entered seed i ps s s' \<longleftrightarrow> hm_ok seed (packets_sending s') (s_env s') \<and>
     hm_abs (packets_sending s') = (hm_abs (packets_sending s))(le_bytes 2 i := hm_abs (packets_sending s) (le_bytes 2 i) @ [ps]) \<and>
     key_memory_allocator (packets_sending s') = Some Uint16_pool \<and> ps \<in> pool_live (s_env s') Packets_sending_pool \<and>
     env_grows (s_env s) (s_env s') \<and> same_except {Packets_sending_pool, Uint16_pool, Hashmap_item_pool} (s_env s) (s_env s') \<and>
     (\<exists>e hm. s' = s\<lparr>s_env := e, packets_sending := hm, sending_at := (sending_at s)(ps \<mapsto> new_sending i)\<rparr>)"

lemma entered_at: "entered seed i ps s s' \<Longrightarrow> sending_at s' ps = Some (new_sending i)"
  and entered_wire: "entered seed i ps s s' \<Longrightarrow> wire s' = wire s"
  by (auto simp: entered_def)

lemma register_sending_ok:
  assumes "send_ready seed s"
  shows "\<exists>ps s'. register_sending seed i s = Inr (ps, s') \<and> entered seed i ps s s'"
proof -
  let ?hm = "packets_sending s"
  have 0: "hm_ok seed ?hm (s_env s)" "key_memory_allocator ?hm = Some Uint16_pool" "hm_size ?hm + 1 < hm_capacity ?hm"
    "0 < pool_avail (s_env s) Packets_sending_pool" "0 < pool_avail (s_env s) Uint16_pool"
    "0 < pool_avail (s_env s) Hashmap_item_pool" using assms by (simp_all add: send_ready_def)
  have "env_ok (s_env s)" using 0(1) by (simp add: hm_ok_def)
  from take_item [OF this 0(4)] obtain ps e1 where
    1: "pool_allocate Packets_sending_pool (s_env s) = Inr (ps, e1)" "env_grows (s_env s) e1"
      "ps \<in> pool_live e1 Packets_sending_pool" "same_except {Packets_sending_pool} (s_env s) e1" by blast
  have a: "0 < pool_avail e1 Uint16_pool" "0 < pool_avail e1 Hashmap_item_pool" using 1(4) 0(5,6) by (simp_all add: same_except_def)
  have "length (le_bytes 2 i) = unat (2 :: u32)" by simp
  then obtain k e2 hm' e3 where
    2: "pool_allocate Uint16_pool e1 = Inr (k, e2)" "hashmap_insert seed k (le_bytes 2 i) 2 (Some ps) ?hm e2 = Inr (hm', e3)"
      "hm_ok seed hm' e3" "hm_abs hm' = (hm_abs ?hm)(le_bytes 2 i := hm_abs ?hm (le_bytes 2 i) @ [ps])" "env_grows e1 e3"
      "same_except {Uint16_pool, Hashmap_item_pool} e1 e3" "key_memory_allocator hm' = Some Uint16_pool"
      "pool_avail e1 Hashmap_item_pool \<le> Suc (pool_avail e3 Hashmap_item_pool)"
      "hm_capacity hm' = hm_capacity ?hm" "hm_size hm' = hm_size ?hm + 1"
    by (rule enter_key [OF hm_ok_grows [OF 0(1) 1(2)] 0(2) _ 0(3) a])
  have "ps \<in> pool_live e3 Packets_sending_pool" using 1(3) 2(5) by (auto simp: env_grows_def)
  moreover have "same_except {Packets_sending_pool, Uint16_pool, Hashmap_item_pool} (s_env s) e3" using 1(4) 2(6) by (simp add: same_except_def)
  ultimately show ?thesis
    using 1(1) 2 env_grows_trans [OF 1(2) 2(5)] by (auto simp: register_sending_def entered_def)
qed

lemma finish_sending_ok:
  assumes "hm_ok seed (packets_sending s) (s_env s)" and "key_memory_allocator (packets_sending s) = Some Uint16_pool"
    and "ps \<in> pool_live (s_env s) Packets_sending_pool" and "lost_chunks_at x = None"
  shows "\<exists>s'. finish_sending seed ps x s = Inr s' \<and> env_ok (s_env s') \<and> wire s' = wire s \<and>
     hm_abs (packets_sending s') = (hm_abs (packets_sending s))
       (le_bytes 2 (sending_packet_id x) := tl (hm_abs (packets_sending s) (le_bytes 2 (sending_packet_id x)))) \<and>
     ps \<notin> pool_live (s_env s') Packets_sending_pool"
proof -
  let ?k = "le_bytes 2 (sending_packet_id x)"
  have "length ?k = unat (2 :: u32)" by simp
  from hashmap_remove_ok [OF assms(1) this] obtain hm' e' where
    1: "hashmap_remove seed ?k 2 (packets_sending s) (s_env s) = Inr (hm', e')" "hm_ok seed hm' e'"
      "hm_abs hm' = (hm_abs (packets_sending s))(?k := tl (hm_abs (packets_sending s) ?k))" by blast
  have "pool e' Packets_sending_pool = pool (s_env s) Packets_sending_pool"
    by (rule hashmap_remove_frame [OF 1(1)]) (simp_all add: assms(2))
  moreover have "env_ok e'" using 1(2) by (simp add: hm_ok_def)
  ultimately obtain e2 where 2: "pool_free Packets_sending_pool ps e' = Inr e2" "env_ok e2" "ps \<notin> pool_live e2 Packets_sending_pool"
    using pool_free_ok [of e' ps Packets_sending_pool] assms(3) by auto
  have "env_free (lost_chunks_at x) (s_env s) = Inr (s_env s)" using assms(4) by (simp add: env_free_def c_free_def)
  with 1 2 show ?thesis by (simp add: finish_sending_def)
qed

section \<open>Properties\<close>

text \<open>The headers every chunk of a message starts from.\<close>

definition message_info :: "route \<Rightarrow> u32 \<Rightarrow> u8 \<Rightarrow> packet_info" where
  "message_info r len ty =
     construct_packet_info (rt_globals r) len ty (of_nat (chunk_count (unat (rt_mtu r) - 44) (unat len))) 0 (rt_ports r)"

definition message_ip :: "route \<Rightarrow> u16 \<Rightarrow> ip_header" where
  "message_ip r packet_id =
     (construct_ip_header (rt_globals r) (rt_dest r) (rt_mtu r) packet_id)
       \<lparr>ip_len := htons (rt_mtu r + ucast (prepend_size (rt_net r)))\<rparr>"

definition message_frames :: "route \<Rightarrow> u16 \<Rightarrow> u8 \<Rightarrow> u8 list \<Rightarrow> u8 list list" where
  "message_frames r packet_id ty msg =
     (let cs = unat (rt_mtu r) - 44
      in map (chunk_frame (link_bytes (rt_net r) (rt_eth r)) (message_ip r packet_id) (message_info r (of_nat (length msg)) ty) cs msg)
           [0..<chunk_count cs (length msg)])"

text \<open>
  What the other threads do before the first poll, when the receiver's confirmation
  arrives: the record of the message says so, and what the sender uses is as before.
\<close>

definition confirms :: "u64 \<Rightarrow> ptr \<Rightarrow> packet_sending \<Rightarrow> ('z send_state_scheme \<Rightarrow> 'z send_state_scheme) \<Rightarrow> 'z send_state_scheme \<Rightarrow> bool" where
  "confirms seed ps x other s \<longleftrightarrow> sending_at (other s) ps = Some (x\<lparr>updated := SUCCESSFULLY_RECEIVED\<rparr>) \<and>
     packets_sending (other s) = packets_sending s \<and> hm_ok seed (packets_sending s) (s_env (other s)) \<and>
     ps \<in> pool_live (s_env (other s)) Packets_sending_pool \<and> wire (other s) = wire s"

lemma handle_lost_confirmed:
  assumes "link_ok (rt_net r) (rt_eth r)" and "key_memory_allocator (packets_sending s) = Some Uint16_pool"
    and "sending_at s ps = Some x" and "updated x = NO_UPDATE" and "lost_chunks_at x = None"
    and "\<And>req. request_frame r (sending_packet_id x) = Inr req \<Longrightarrow> confirms (rt_seed r) ps x other (emit req s)"
  shows "\<exists>s' req. handle_lost_packets r len amount ty [other] ps pb s = Inr (pb, s') \<and>
     request_frame r (sending_packet_id x) = Inr req \<and> wire s' = wire s @ [req] \<and> env_ok (s_env s') \<and>
     hm_abs (packets_sending s') = (hm_abs (packets_sending s))
       (le_bytes 2 (sending_packet_id x) := tl (hm_abs (packets_sending s) (le_bytes 2 (sending_packet_id x)))) \<and>
     ps \<notin> pool_live (s_env s') Packets_sending_pool"
proof -
  obtain req where req: "request_frame r (sending_packet_id x) = Inr req" using request_frame_ok [OF assms(1)] by blast
  let ?hdr = "frame (link_bytes (rt_net r) (rt_eth r)) (construct_ip_header (rt_globals r) (rt_dest r) (rt_mtu r) (sending_packet_id x))
     (construct_packet_info (rt_globals r) len ty amount 0 (rt_ports r)) []"
  have hdr: "packet_construction (construct_ip_header (rt_globals r) (rt_dest r) (rt_mtu r) (sending_packet_id x))
      (construct_packet_info (rt_globals r) len ty amount 0 (rt_ports r)) (rt_net r) (rt_eth r) (rt_prepend r + PACKET_HEADER_SIZE) = Inr ?hdr"
    by (subst packet_construction_frame [OF assms(1), of _ 0]) simp_all
  let ?s1 = "other (emit req s)" let ?x1 = "x\<lparr>updated := SUCCESSFULLY_RECEIVED\<rparr>" let ?x2 = "?x1\<lparr>updated := NO_UPDATE\<rparr>"
  let ?s2 = "?s1\<lparr>sending_at := (sending_at ?s1)(ps \<mapsto> ?x2)\<rparr>"
  have cf: "sending_at ?s1 ps = Some ?x1" "packets_sending ?s1 = packets_sending s" "hm_ok (rt_seed r) (packets_sending s) (s_env ?s1)"
    "ps \<in> pool_live (s_env ?s1) Packets_sending_pool" "wire ?s1 = wire s @ [req]"
    using assms(6) [OF req] by (simp_all add: confirms_def emit_def)
  have poll: "request_lost_packets_bitarray req [other] ps s = Inr (SUCCESSFULLY_RECEIVED, [], ?s2)"
    using cf(1) by (simp add: request_lost_packets_bitarray_def Let_def)
  have x2: "lost_chunks_at ?x2 = None" "sending_packet_id ?x2 = sending_packet_id x" using assms(5) by simp_all
  from finish_sending_ok [of "rt_seed r" ?s2 ps ?x2] assms(2) cf x2 obtain s' where
    f: "finish_sending (rt_seed r) ps ?x2 ?s2 = Inr s'" "env_ok (s_env s')" "wire s' = wire s @ [req]"
      "hm_abs (packets_sending s') = (hm_abs (packets_sending s))
       (le_bytes 2 (sending_packet_id x) := tl (hm_abs (packets_sending s) (le_bytes 2 (sending_packet_id x))))"
      "ps \<notin> pool_live (s_env s') Packets_sending_pool" by auto
  have "handle_lost_loop (rt_seed r) (rt_prepend r) req ?hdr (rt_mtu r) len [other] ps pb s = Inr (pb, s')"
    using poll f(1) by (simp add: handle_lost_loop.simps [of "rt_seed r"])
  with req hdr assms(3) f show ?thesis by (simp add: handle_lost_packets_def)
qed

lemma send_chunked_run:
  assumes "send_ready (rt_seed r) s" and "link_ok (rt_net r) (rt_eth r)"
    and "can_send (rt_prepend r) (rt_mtu r) len pb (pb_mem pb)" and "unat (rt_mtu r) < unat len"
    and "hm_abs (packets_sending s) (le_bytes 2 packet_id) = []"
    and "\<And>ps s1 req. entered (rt_seed r) packet_id ps s s1 \<Longrightarrow> request_frame r packet_id = Inr req \<Longrightarrow>
      confirms (rt_seed r) ps (new_sending packet_id) other
        (s1\<lparr>wire := wire s @ message_frames r packet_id MESSAGE (seg DATA_START (unat len) (pb_mem pb)) @ [req]\<rparr>)"
  defines "msg \<equiv> seg DATA_START (unat len) (pb_mem pb)"
  shows "\<exists>s' req. send_packet r packet_id len None None [other] pb s = Inr (pb, s') \<and>
    request_frame r packet_id = Inr req \<and> wire s' = wire s @ message_frames r packet_id MESSAGE msg @ [req] \<and>
    env_ok (s_env s') \<and> hm_abs (packets_sending s') = hm_abs (packets_sending s)"
proof -
  let ?p = "rt_prepend r" let ?link = "link_bytes (rt_net r) (rt_eth r)" let ?cs = "unat (rt_mtu r) - 44"
  let ?ip = "message_ip r packet_id" let ?pi = "message_info r len MESSAGE" let ?N = "chunk_count ?cs (unat len)"
  have mtu: "44 < unat (rt_mtu r)" and lmsg: "length msg = unat len"
    using assms(3) by (auto simp: can_send_def msg_def)
  have count: "count_chunks len (rt_mtu r) = Inr (of_nat ?N)" by (rule count_chunks_ok [OF mtu])
  have lt: "ucast (rt_mtu r) < len"
    using assms(4) unsigned_less [of "rt_mtu r", where ?'a = nat]
    by (simp add: word_less_nat_alt unsigned_ucast_eq take_bit_nat_eq_self)
  obtain ps s1 where 1: "register_sending (rt_seed r) packet_id s = Inr (ps, s1)" and en: "entered (rt_seed r) packet_id ps s s1"
    using register_sending_ok [OF assms(1), of packet_id] by blast
  note at = entered_at [OF en] and wr = entered_wire [OF en]
  have hdr: "packet_construction ?ip ?pi (rt_net r) (rt_eth r) (?p + PACKET_HEADER_SIZE) = Inr (frame ?link ?ip ?pi [])"
    by (subst packet_construction_frame [OF assms(2), of _ 0]) simp_all
  have z: "0 * ?cs < unat len" "?N - 0 \<le> Suc (unat len)" using assms(4) chunk_count_le [of ?cs "unat len"] mtu by auto
  have frames: "message_frames r packet_id MESSAGE msg = map (chunk_frame ?link ?ip ?pi ?cs msg) [0..<?N]"
    unfolding message_frames_def Let_def lmsg by simp
  have loop: "send_loop (Suc (unat len)) ?p (frame ?link ?ip ?pi []) (rt_mtu r) len pb 0 (pb_mem pb) =
      Inr (message_frames r packet_id MESSAGE msg, pb_mem pb)"
    using send_loop_frames [OF assms(3) length_link [OF assms(2)] z(1,2), of ?ip ?pi, folded msg_def]
    unfolding frames by (simp del: send_loop.simps)
  let ?s2 = "s1\<lparr>wire := wire s @ message_frames r packet_id MESSAGE msg\<rparr>"
  have cf: "confirms (rt_seed r) ps (new_sending packet_id) other (emit req ?s2)" if "request_frame r (sending_packet_id (new_sending packet_id)) = Inr req" for req
    using assms(6) [OF en] that unfolding msg_def [symmetric] by (simp add: emit_def)
  have k: "key_memory_allocator (packets_sending ?s2) = Some Uint16_pool" "sending_at ?s2 ps = Some (new_sending packet_id)"
    using en at by (simp_all add: entered_def)
  from handle_lost_confirmed [OF assms(2) k _ _ cf, of len "of_nat ?N" MESSAGE pb] obtain s' req where
    2: "handle_lost_packets r len (of_nat ?N) MESSAGE [other] ps pb ?s2 = Inr (pb, s')"
      "request_frame r packet_id = Inr req" "wire s' = wire s @ message_frames r packet_id MESSAGE msg @ [req]" "env_ok (s_env s')"
      "hm_abs (packets_sending s') = (hm_abs (packets_sending s1))
         (le_bytes 2 packet_id := tl (hm_abs (packets_sending s1) (le_bytes 2 packet_id)))" by auto
  have "send_chunked r packet_id len (of_nat ?N) MESSAGE [other] pb s = Inr (pb, s')"
    using 1 wr hdr loop 2(1) by (simp add: send_chunked_def Let_def message_ip_def [symmetric] message_info_def [symmetric] del: send_loop.simps)
  then have "send_packet r packet_id len None None [other] pb s = Inr (pb, s')"
    using count lt by (simp add: send_packet_def Let_def register_request_def)
  moreover have "hm_abs (packets_sending s') = hm_abs (packets_sending s)"
    using 2(5) en assms(5) by (auto simp: entered_def fun_eq_iff)
  ultimately show ?thesis using 2 by blast
qed

text \<open>The confirmation of every message under way, as one step of the other threads.\<close>

definition confirm_all :: "'z send_state_scheme \<Rightarrow> 'z send_state_scheme" where
  "confirm_all s = s\<lparr>sending_at := \<lambda>ps. map_option (\<lambda>x. x\<lparr>updated := SUCCESSFULLY_RECEIVED\<rparr>) (sending_at s ps)\<rparr>"

lemma confirm_all_confirms: "entered seed i ps s s1 \<Longrightarrow> confirms seed ps (new_sending i) confirm_all (s1\<lparr>wire := w\<rparr>)"
  using entered_at by (fastforce simp: confirms_def confirm_all_def entered_def)

text \<open>
  C16. A long message is sent whole: every chunk goes out once, in order, in a frame whose
  headers carry its index and a valid checksum and whose data is its piece of the message,
  followed by one request for lost chunks; when the receiver confirms, the call returns
  with the caller's buffer unchanged and the message no longer in the table of messages
  being sent.
\<close>

theorem send_packet_chunked:
  assumes "send_ready (rt_seed r) s" and "link_ok (rt_net r) (rt_eth r)"
    and "can_send (rt_prepend r) (rt_mtu r) len pb (pb_mem pb)" and "unat (rt_mtu r) < unat len"
    and "hm_abs (packets_sending s) (le_bytes 2 packet_id) = []"
  defines "msg \<equiv> seg DATA_START (unat len) (pb_mem pb)"
  shows "\<exists>s' req. send_packet r packet_id len None None [confirm_all] pb s = Inr (pb, s') \<and>
    request_frame r packet_id = Inr req \<and> wire s' = wire s @ message_frames r packet_id MESSAGE msg @ [req] \<and>
    env_ok (s_env s') \<and> hm_abs (packets_sending s') = hm_abs (packets_sending s)"
  unfolding msg_def by (rule send_chunked_run [OF assms(1-5) confirm_all_confirms])

text \<open>A sender over a sample memory, on a loopback link with an MTU of 64 bytes.\<close>

definition sample_route :: "network_data \<Rightarrow> route" where
  "sample_route nd = \<lparr>rt_globals = \<lparr>maximum_transmission_unit = 64, private_ip_address = 0x0100007F\<rparr>, rt_seed = 7, rt_mtu = 64,
     rt_ports = \<lparr>destination_port = 8080, source_port = 5000\<rparr>, rt_dest = 0x0100007F,
     rt_eth = \<lparr>ether_dhost = [], ether_shost = [], ether_type = 0\<rparr>, rt_net = nd\<rparr>"

abbreviation loopback :: network_data where
  "loopback \<equiv> initialize_networking DLT_NULL"

abbreviation sample_pb :: "u8 list \<Rightarrow> packet_buffer" where
  "sample_pb msg \<equiv> \<lparr>packet_buffer_start = Some 16, pb_mem = replicate DATA_START 0 @ msg,
     packet_data_start = DATA_START, packet_append_pointer = DATA_START + length msg\<rparr>"

lemma sample_link: "link_ok (rt_net (sample_route loopback)) (rt_eth (sample_route loopback))"
  by (simp add: link_ok_def sample_route_def initialize_networking_def packet_prepend_size_def)

lemma sample_send:
  "\<exists>s :: send_state. send_ready seed s \<and> hm_abs (packets_sending s) = (\<lambda>k. []) \<and> wire s = []"
proof -
  obtain e0 where e0: "env_ok e0" "\<forall>i. pool_live e0 i = {} \<and> pool_avail e0 i = 200" "heap_room 1000000 (c_heap e0)"
    using sample_env by blast
  have "heap_room 10280 (c_heap e0)" using e0(3) by (simp add: heap_room_def)
  from hashmap_create_ok [OF e0(1) this, of "Some Uint16_pool" seed] obtain hm e where
    hm: "hm_ok seed (hm :: ptr hashmap) e" "hm_abs hm = (\<lambda>k. [])" "hm_size hm = 0" "hm_capacity hm = 320"
      "key_memory_allocator hm = Some Uint16_pool" "pool e = pool e0" by auto
  let ?s = "\<lparr>s_env = e, packets_sending = hm, sending_at = Map.empty, requests_sent = hm, request_at = Map.empty, wire = []\<rparr>"
  have "send_ready seed ?s" using hm e0(2) by (simp add: send_ready_def)
  with hm(2) show ?thesis by (intro exI [of _ ?s]) simp
qed

theorem send_packet_chunked_witness:
  "\<exists>(s :: send_state) s' req. send_packet (sample_route loopback) 9 100 None None [confirm_all] (sample_pb (replicate 100 7)) s =
     Inr (sample_pb (replicate 100 7), s') \<and>
   wire s' = message_frames (sample_route loopback) 9 MESSAGE (replicate 100 7) @ [req]"
proof -
  obtain s :: send_state where s: "send_ready 7 s" "hm_abs (packets_sending s) = (\<lambda>k. [])" "wire s = []" using sample_send by blast
  let ?r = "sample_route loopback" let ?pb = "sample_pb (replicate 100 7)"
  have "can_send (rt_prepend ?r) (rt_mtu ?r) 100 ?pb (pb_mem ?pb)"
    by (simp add: can_send_def sample_route_def initialize_networking_def packet_prepend_size_def)
  moreover have "send_ready (rt_seed ?r) s" "unat (rt_mtu ?r) < unat (100 :: u32)" using s(1) by (simp_all add: sample_route_def)
  moreover have "seg DATA_START 100 (replicate DATA_START 0 @ replicate 100 7) = (replicate 100 7 :: u8 list)"
    by (simp only: seg_skip length_replicate order.refl diff_self_eq_0 seg_full)
  ultimately show ?thesis
    using send_packet_chunked [OF _ sample_link, of s 100 ?pb 9] s by fastforce
qed

text \<open>
  C17. A message no longer than the MTU goes out as one frame whose headers name one
  chunk and its length, sealed with the checksum of the message, and the message stays
  in the buffer.
\<close>

theorem send_packet_single:
  assumes "link_ok (rt_net r) (rt_eth r)" and "packet_data_start pb = DATA_START"
    and "DATA_START + unat len \<le> length (pb_mem pb)" and "unat len + DATA_START < 2 ^ 16"
    and "44 < unat (rt_mtu r)" and "unat len \<le> unat (rt_mtu r)"
  defines "msg \<equiv> seg DATA_START (unat len) (pb_mem pb)"
  shows "\<exists>pb'. send_packet r packet_id len None None others pb s =
    Inr (pb', s\<lparr>wire := wire s @ [frame (link_bytes (rt_net r) (rt_eth r))
           (construct_ip_header (rt_globals r) (rt_dest r) (of_nat (PACKET_HEADER_SIZE + unat len)) packet_id)
           (sealed (construct_packet_info (rt_globals r) len MESSAGE 1 0 (rt_ports r)) msg) msg]\<rparr>) \<and>
    seg DATA_START (unat len) (pb_mem pb') = msg"
proof -
  have "\<not> ucast (rt_mtu r) < len"
    using assms(6) unsigned_less [of "rt_mtu r", where ?'a = nat]
    by (simp add: word_less_nat_alt unsigned_ucast_eq take_bit_nat_eq_self)
  then have "send_packet r packet_id len None None others pb s = send_single r packet_id len MESSAGE pb s"
    using count_chunks_ok [OF assms(5)] by (simp add: send_packet_def Let_def register_request_def)
  then show ?thesis
    using send_single_frame [OF assms(1-4), of packet_id MESSAGE s] unfolding msg_def emit_def by auto
qed

theorem send_packet_single_witness:
  "\<exists>(s :: send_state) pb' s' fr. send_packet (sample_route loopback) 9 3 None None [] (sample_pb [1, 2, 3]) s = Inr (pb', s') \<and>
     wire s' = wire s @ [fr] \<and> drop 48 fr = [1, 2, 3]"
proof -
  have "length (link_bytes (rt_net (sample_route loopback)) (rt_eth (sample_route loopback))) = 4"
    using length_link [OF sample_link] by (simp add: sample_route_def initialize_networking_def packet_prepend_size_def)
  note d = frame_data [OF this]
  have m: "seg DATA_START (unat (3 :: u32)) (pb_mem (sample_pb [1, 2, 3])) = [1, 2, 3]" by (simp add: seg_def)
  let ?s = "undefined :: send_state"
  have n: "DATA_START + unat (3 :: u32) \<le> length (pb_mem (sample_pb [1, 2, 3]))" "unat (3 :: u32) + DATA_START < 2 ^ 16"
    "44 < unat (rt_mtu (sample_route loopback))" "unat (3 :: u32) \<le> unat (rt_mtu (sample_route loopback))"
    "packet_data_start (sample_pb [1, 2, 3]) = DATA_START" by (simp_all add: sample_route_def)
  from send_packet_single [OF sample_link n(5,1-4), of 9 "[]" ?s] obtain pb' fr where
    "send_packet (sample_route loopback) 9 3 None None [] (sample_pb [1, 2, 3]) ?s = Inr (pb', ?s\<lparr>wire := wire ?s @ [fr]\<rparr>)"
    "drop (4 + PACKET_HEADER_SIZE) fr = [1, 2, 3]" unfolding m using d by blast
  then show ?thesis by (intro exI [of _ ?s] exI [of _ pb'] exI [of _ "?s\<lparr>wire := wire ?s @ [fr]\<rparr>"] exI [of _ fr]) simp
qed

text \<open>
  A chunk sent again carries its index, its piece of the message and a checksum over
  both, and the buffer is unchanged. For the last chunk, however, its length is written
  into the bytes in front of the IP header instead of into \<open>ip_len\<close>, which keeps the value
  of a full chunk.
\<close>

theorem resend_chunk_content:
  assumes "can_send p mtu len pb mem" and "length link = p" and "i * (unat mtu - 44) < unat len"
    and "unat len + 2 ^ 16 < 2 ^ 32" and "4 \<le> p"
  defines "d \<equiv> chunk_data (unat mtu - 44) (seg DATA_START (unat len) mem) i"
  shows "\<exists>fr. resend_chunk p (frame link ip pi []) mtu len pb (of_nat i) mem = Inr (fr, mem) \<and>
    info_of (seg (p + IP_SIZE) INFO_SIZE fr) = sealed (pi\<lparr>chunk_index := of_nat i, checksum := 0\<rparr>) d \<and>
    drop (p + PACKET_HEADER_SIZE) fr = d \<and> ip_of (seg p IP_SIZE fr) = ip \<and>
    take p fr = (if unat len \<le> Suc i * (unat mtu - 44)
                 then put IP_LEN_OFFSET (le_bytes 2 (htons (of_nat (PACKET_HEADER_SIZE + length d)))) link else link)"
proof -
  define lk where "lk = (if unat len \<le> Suc i * (unat mtu - 44)
     then put IP_LEN_OFFSET (le_bytes 2 (htons (of_nat (PACKET_HEADER_SIZE + length d)))) link else link)"
  let ?pi = "sealed (pi\<lparr>chunk_index := of_nat i, checksum := 0\<rparr>) d"
  have run: "resend_chunk p (frame link ip pi []) mtu len pb (of_nat i) mem = Inr (frame lk ip ?pi d, mem)"
    unfolding lk_def mult_Suc add.commute [of "unat mtu - 44"] using resend_chunk_frame [OF assms(1-5), of ip pi] unfolding d_def .
  have l: "length lk = p" using assms(2,5) by (simp add: lk_def)
  then have "take p (frame lk ip ?pi d) = lk" unfolding frame_def by (metis append_eq_conv_conj)
  with run show ?thesis
    unfolding lk_def [symmetric] using frame_info [OF l] frame_ip [OF l] frame_data [OF l] by blast
qed

theorem resend_chunk_content_witness:
  "\<exists>fr. resend_chunk 4 (frame [2, 0, 0, 0] (ip_of (replicate 20 0)) (info_of (replicate 24 0)) []) 64 50
       (sample_pb (replicate 50 7)) (of_nat 2) (pb_mem (sample_pb (replicate 50 7))) =
     Inr (fr, pb_mem (sample_pb (replicate 50 7))) \<and> take 4 fr = [2, 0, 0, 54] \<and> ip_of (seg 4 20 fr) = ip_of (replicate 20 0)"
proof -
  let ?pb = "sample_pb (replicate 50 7)"
  have c: "can_send 4 64 50 ?pb (pb_mem ?pb)" by (simp add: can_send_def)
  have l: "length (chunk_data 20 (seg DATA_START 50 (pb_mem ?pb)) 2) = 10" by (simp add: chunk_data_def seg_def)
  have p: "put IP_LEN_OFFSET (le_bytes 2 (htons (of_nat (PACKET_HEADER_SIZE + 10)))) [2, 0, 0, 0] = [2, 0, 0, 54]"
    by code_simp
  have n: "length [2, 0, 0, 0 :: u8] = 4" "2 * (unat (64 :: u16) - 44) < unat (50 :: u32)" "unat (50 :: u32) + 2 ^ 16 < 2 ^ 32"
    "unat (64 :: u16) - 44 = 20" "unat (50 :: u32) = 50" "50 \<le> Suc 2 * (20 :: nat)" by simp_all
  from resend_chunk_content [OF c n(1,2,3) order.refl, of "ip_of (replicate 20 0)" "info_of (replicate 24 0)"]
  show ?thesis unfolding n(4,5) l p if_P [OF n(6)] by blast
qed

end
