(* ===== verification/Swift_Queue.thy ===== *)
theory Swift_Queue
  imports Swift_Prelude
begin

text \<open>
  The two packet queues: the queue of received frames (\<open>insert_queue_node\<close> in
  \<open>src/handle_packets.c\<close>, \<open>wait_for_next_packet\<close> in \<open>src/process_packets.c\<close>) and the queue
  of finished messages (\<open>insert_callback_queue_node\<close> in \<open>src/process_packets.c\<close>,
  \<open>wait_for_next_packet_callback\<close> in \<open>src/execute_packet_callback.c\<close>). Nodes are items of
  a pool, so the queue is a pair of pointers into a node store. Each operation holds the
  queue's lock from its first access to its last, so it is one step.
\<close>

section \<open>State and operations\<close>

record 'a qnode =
  q_next :: "ptr option"
  q_item :: 'a

record packet_queue =
  first_node :: "ptr option"
  last_node :: "ptr option"

type_synonym 'a node_store = "ptr \<Rightarrow> 'a qnode option"

definition empty_queue :: packet_queue where
  "empty_queue = \<lparr>first_node = None, last_node = None\<rparr>"

text \<open>\<open>packet_queue->last_node->next = new_node\<close>\<close>

definition link_last :: "ptr \<Rightarrow> ptr \<Rightarrow> 'a node_store \<Rightarrow> 'a node_store res" where
  "link_last l p st =
     (case st l of None \<Rightarrow> Inl Null_Deref | Some n \<Rightarrow> Inr (st(l \<mapsto> n\<lparr>q_next := Some p\<rparr>)))"

definition insert_queue_node ::
  "ptr option \<Rightarrow> packet_queue \<Rightarrow> 'a node_store \<Rightarrow> (packet_queue \<times> 'a node_store) res" where
  "insert_queue_node new_node q st =
     (case new_node of
        None \<Rightarrow> Inr (q, st)
      | Some p \<Rightarrow>
          rbind (case last_node q of None \<Rightarrow> Inr st | Some l \<Rightarrow> link_last l p st)
            (\<lambda>st1. let q1 = q\<lparr>last_node := Some p\<rparr>
                   in Inr (if first_node q1 = None then q1\<lparr>first_node := Some p\<rparr> else q1, st1)))"

definition insert_callback_queue_node ::
  "ptr option \<Rightarrow> packet_queue \<Rightarrow> 'a node_store \<Rightarrow> (packet_queue \<times> 'a node_store) res" where
  "insert_callback_queue_node new_node q st =
     (case new_node of
        None \<Rightarrow> Inr (q, st)
      | Some p \<Rightarrow>
          rbind (case last_node q of None \<Rightarrow> Inr st | Some l \<Rightarrow> link_last l p st)
            (\<lambda>st1. let q1 = q\<lparr>last_node := Some p\<rparr>
                   in Inr (if first_node q1 = None then q1\<lparr>first_node := Some p\<rparr> else q1, st1)))"

definition wait_for_next_packet :: "packet_queue \<Rightarrow> 'a node_store \<Rightarrow> (ptr option \<times> packet_queue) res" where
  "wait_for_next_packet q st =
     (case first_node q of
        None \<Rightarrow> Inr (None, q)
      | Some p \<Rightarrow>
          (case st p of
             None \<Rightarrow> Inl Null_Deref
           | Some n \<Rightarrow>
               Inr (Some p, if q_next n = None then q\<lparr>first_node := None, last_node := None\<rparr>
                            else q\<lparr>first_node := q_next n\<rparr>)))"

definition wait_for_next_packet_callback :: "packet_queue \<Rightarrow> 'a node_store \<Rightarrow> (ptr option \<times> packet_queue) res" where
  "wait_for_next_packet_callback q st =
     (case first_node q of
        None \<Rightarrow> Inr (None, q)
      | Some p \<Rightarrow>
          (case st p of
             None \<Rightarrow> Inl Null_Deref
           | Some n \<Rightarrow>
               Inr (Some p, if q_next n = None then q\<lparr>first_node := None, last_node := None\<rparr>
                            else q\<lparr>first_node := q_next n\<rparr>)))"

lemma callback_queue_same:
  "insert_callback_queue_node = insert_queue_node" "wait_for_next_packet_callback = wait_for_next_packet"
  by (intro ext, simp add: insert_callback_queue_node_def insert_queue_node_def)
     (intro ext, simp add: wait_for_next_packet_callback_def wait_for_next_packet_def)

section \<open>Representation\<close>

text \<open>The chain of nodes \<open>ps\<close> from \<open>p\<close> to \<open>NULL\<close> in the store.\<close>

fun q_path :: "'a node_store \<Rightarrow> ptr option \<Rightarrow> ptr list \<Rightarrow> bool" where
  "q_path st p [] \<longleftrightarrow> p = None"
| "q_path st p (x # xs) \<longleftrightarrow> p = Some x \<and> (\<exists>n. st x = Some n \<and> q_path st (q_next n) xs)"

definition q_rep :: "packet_queue \<Rightarrow> 'a node_store \<Rightarrow> ptr list \<Rightarrow> bool" where
  "q_rep q st ps \<longleftrightarrow> distinct ps \<and> q_path st (first_node q) ps \<and>
     last_node q = (if ps = [] then None else Some (last ps))"

lemma q_path_upd [simp]: "x \<notin> set ps \<Longrightarrow> q_path (st(x \<mapsto> n)) p ps = q_path st p ps"
  by (induction ps arbitrary: p) auto

lemma q_path_live: "q_path st p ps \<Longrightarrow> x \<in> set ps \<Longrightarrow> st x \<noteq> None"
  by (induction ps arbitrary: p) auto

lemma q_path_snoc:
  assumes "q_path st p (xs @ [l])" and "distinct (xs @ [l])" and "x \<notin> set (xs @ [l])"
    and "st x = Some n" and "q_next n = None" and "st l = Some m"
  shows "q_path (st(l \<mapsto> m\<lparr>q_next := Some x\<rparr>)) p (xs @ [l, x])"
  using assms by (induction xs arbitrary: p) auto

text \<open>Insertion appends a fresh node whose \<open>next\<close> is \<open>NULL\<close>.\<close>

lemma insert_queue_node_rep:
  assumes "q_rep q st ps" and "p \<notin> set ps" and "st p = Some n" and "q_next n = None"
  shows "\<exists>q' st'. insert_queue_node (Some p) q st = Inr (q', st') \<and> q_rep q' st' (ps @ [p]) \<and>
     (\<forall>x. map_option q_item (st' x) = map_option q_item (st x))"
proof (cases ps rule: rev_cases)
  case Nil
  with assms show ?thesis
    by (auto simp: insert_queue_node_def q_rep_def Let_def)
next
  case (snoc xs l)
  then have l: "last_node q = Some l" and path: "q_path st (first_node q) (xs @ [l])" and d: "distinct (xs @ [l])"
    using assms(1) by (simp_all add: q_rep_def)
  obtain m where m: "st l = Some m" using q_path_live [OF path, of l] by auto
  have f: "first_node q \<noteq> None" using path by (cases xs) auto
  let ?st = "st(l \<mapsto> m\<lparr>q_next := Some p\<rparr>)"
  have "insert_queue_node (Some p) q st = Inr (q\<lparr>last_node := Some p\<rparr>, ?st)"
    using l m f by (simp add: insert_queue_node_def link_last_def Let_def)
  moreover have "q_path ?st (first_node q) (xs @ [l, p])"
    using q_path_snoc [OF path d _ assms(3,4) m] assms(2) snoc by simp
  ultimately show ?thesis
    using snoc d assms(2) m by (auto simp: q_rep_def)
qed

text \<open>Waiting takes the first node off, or answers \<open>NULL\<close> on the empty queue.\<close>

lemma wait_for_next_packet_rep:
  assumes "q_rep q st ps"
  shows "\<exists>q'. wait_for_next_packet q st = Inr (case ps of [] \<Rightarrow> None | p # _ \<Rightarrow> Some p, q') \<and> q_rep q' st (tl ps)"
proof (cases ps)
  case Nil
  with assms show ?thesis by (simp add: wait_for_next_packet_def q_rep_def)
next
  case (Cons p xs)
  with assms obtain n where n: "first_node q = Some p" "st p = Some n" "q_path st (q_next n) xs" "distinct xs"
    "last_node q = Some (last (p # xs))" by (auto simp: q_rep_def)
  show ?thesis
  proof (cases xs)
    case Nil
    with Cons n show ?thesis by (auto simp: wait_for_next_packet_def q_rep_def)
  next
    case (Cons y ys)
    with n(3) have "q_next n \<noteq> None" by auto
    with Cons \<open>ps = p # xs\<close> n show ?thesis by (auto simp: wait_for_next_packet_def q_rep_def)
  qed
qed

section \<open>The contract of a queue\<close>

primrec enq_all :: "('a \<Rightarrow> 's \<Rightarrow> 's res) \<Rightarrow> 'a list \<Rightarrow> 's \<Rightarrow> 's res" where
  "enq_all enq [] s = Inr s"
| "enq_all enq (x # xs) s = rbind (enq x s) (enq_all enq xs)"

primrec deq_n :: "('s \<Rightarrow> ('a option \<times> 's) res) \<Rightarrow> nat \<Rightarrow> 's \<Rightarrow> ('a list \<times> 's) res" where
  "deq_n deq 0 s = Inr ([], s)"
| "deq_n deq (Suc n) s = rbind (deq s) (\<lambda>(r, s1). case r of None \<Rightarrow> Inr ([], s1)
     | Some x \<Rightarrow> rbind (deq_n deq n s1) (\<lambda>(xs, s2). Inr (x # xs, s2)))"

locale fifo =
  fixes rep :: "'s \<Rightarrow> 'a list \<Rightarrow> bool"
    and can_enq :: "'a \<Rightarrow> 's \<Rightarrow> 'a list \<Rightarrow> bool"
    and enq :: "'a \<Rightarrow> 's \<Rightarrow> 's res"
    and deq :: "'s \<Rightarrow> ('a option \<times> 's) res"
  assumes enq_rep: "rep s xs \<Longrightarrow> can_enq x s xs \<Longrightarrow> \<exists>s'. enq x s = Inr s' \<and> rep s' (xs @ [x]) \<and>
      (\<forall>y ys. can_enq y s ys \<longrightarrow> y \<noteq> x \<longrightarrow> can_enq y s' (ys @ [x]))"
    and deq_rep: "rep s xs \<Longrightarrow> \<exists>s'. deq s = Inr (case xs of [] \<Rightarrow> None | x # _ \<Rightarrow> Some x, s') \<and> rep s' (tl xs)"
begin

lemma enq_all_rep:
  "rep s ys \<Longrightarrow> distinct xs \<Longrightarrow> \<forall>x \<in> set xs. can_enq x s ys \<Longrightarrow> \<exists>s'. enq_all enq xs s = Inr s' \<and> rep s' (ys @ xs)"
proof (induction xs arbitrary: s ys)
  case (Cons x xs)
  from enq_rep [OF Cons.prems(1), of x] Cons.prems(3) obtain s' where
    1: "enq x s = Inr s'" "rep s' (ys @ [x])" "\<And>y ys. can_enq y s ys \<Longrightarrow> y \<noteq> x \<Longrightarrow> can_enq y s' (ys @ [x])" by auto
  have "\<forall>y \<in> set xs. can_enq y s' (ys @ [x])" using 1(3) Cons.prems(2,3) by auto
  from Cons.IH [OF 1(2) _ this] Cons.prems(2) 1(1) show ?case by auto
qed simp

lemma deq_n_rep: "rep s xs \<Longrightarrow> n \<le> length xs \<Longrightarrow> \<exists>s'. deq_n deq n s = Inr (take n xs, s') \<and> rep s' (drop n xs)"
proof (induction n arbitrary: s xs)
  case (Suc n)
  then obtain x ys where xs: "xs = x # ys" by (cases xs) auto
  from deq_rep [OF Suc.prems(1)] xs obtain s1 where 1: "deq s = Inr (Some x, s1)" "rep s1 ys" by auto
  from Suc.IH [OF 1(2)] Suc.prems(2) xs 1(1) show ?case by auto
qed simp

lemma fifo_order:
  assumes "rep s []" and "distinct xs" and "\<forall>x \<in> set xs. can_enq x s []"
  shows "\<exists>s1 s2. enq_all enq xs s = Inr s1 \<and> deq_n deq (length xs) s1 = Inr (xs, s2) \<and> rep s2 []"
proof -
  from enq_all_rep [OF assms] obtain s1 where 1: "enq_all enq xs s = Inr s1" "rep s1 xs" by auto
  from deq_n_rep [OF 1(2), of "length xs"] 1(1) show ?thesis by auto
qed

end

definition node_ready :: "ptr \<Rightarrow> 'a node_store \<Rightarrow> ptr list \<Rightarrow> bool" where
  "node_ready p st ps \<longleftrightarrow> p \<notin> set ps \<and> (\<exists>n. st p = Some n \<and> q_next n = None)"

lemma insert_queue_node_ready:
  assumes "insert_queue_node (Some p) q st = Inr (q', st')" and "q_rep q st ps" and "node_ready y st ys"
    and "y \<noteq> p" and "last_node q \<noteq> Some y"
  shows "node_ready y st' (ys @ [p])"
  using assms by (auto simp: insert_queue_node_def link_last_def node_ready_def Let_def split: option.splits)

text \<open>Both queues of a connection meet the contract.\<close>

definition enqueue_packet :: "ptr \<Rightarrow> packet_queue \<times> 'a node_store \<Rightarrow> (packet_queue \<times> 'a node_store) res" where
  "enqueue_packet p s = insert_queue_node (Some p) (fst s) (snd s)"

definition dequeue_packet :: "packet_queue \<times> 'a node_store \<Rightarrow> (ptr option \<times> packet_queue \<times> 'a node_store) res" where
  "dequeue_packet s = rbind (wait_for_next_packet (fst s) (snd s)) (\<lambda>(r, q). Inr (r, (q, snd s)))"

interpretation packet_fifo: fifo
  "\<lambda>s ps. q_rep (fst s) (snd s) ps" "\<lambda>p s ps. node_ready p (snd s) ps \<and> last_node (fst s) \<noteq> Some p"
  enqueue_packet dequeue_packet
proof (unfold_locales, goal_cases)
  case (1 s ps p)
  then obtain n where n: "p \<notin> set ps" "snd s p = Some n" "q_next n = None" by (auto simp: node_ready_def)
  have "q_rep (fst s) (snd s) ps" using 1 by simp
  from insert_queue_node_rep [OF this n] obtain q' st' where
    i: "insert_queue_node (Some p) (fst s) (snd s) = Inr (q', st')" "q_rep q' st' (ps @ [p])" by auto
  then have "last_node q' = Some p" by (simp add: q_rep_def)
  with i 1 insert_queue_node_ready [OF i(1)] show ?case by (auto simp: enqueue_packet_def)
next
  case (2 s ps)
  from wait_for_next_packet_rep [OF 2] show ?case by (force simp: dequeue_packet_def)
qed

interpretation callback_fifo: fifo
  "\<lambda>s ps. q_rep (fst s) (snd s) ps" "\<lambda>p s ps. node_ready p (snd s) ps \<and> last_node (fst s) \<noteq> Some p"
  "\<lambda>p s. insert_callback_queue_node (Some p) (fst s) (snd s)"
  "\<lambda>s. rbind (wait_for_next_packet_callback (fst s) (snd s)) (\<lambda>(r, q). Inr (r, (q, snd s)))"
  unfolding callback_queue_same
  using packet_fifo.fifo_axioms unfolding enqueue_packet_def [abs_def] dequeue_packet_def [abs_def] .

section \<open>Properties\<close>

text \<open>
  C25. The packet queue is first in, first out: nodes inserted one after the other into an
  empty queue come out in the same order, each once, and the queue is then empty again.
\<close>

theorem packet_queue_fifo:
  assumes "distinct ps" and "\<And>p. p \<in> set ps \<Longrightarrow> \<exists>n. st p = Some n \<and> q_next n = None"
  shows "\<exists>s1 s2. enq_all enqueue_packet ps (empty_queue, st) = Inr s1 \<and>
    deq_n dequeue_packet (length ps) s1 = Inr (ps, s2) \<and> first_node (fst s2) = None \<and> last_node (fst s2) = None"
proof -
  have "\<forall>p \<in> set ps. node_ready p st [] \<and> last_node empty_queue \<noteq> Some p"
    using assms(2) by (auto simp: node_ready_def empty_queue_def)
  with packet_fifo.fifo_order [of "(empty_queue, st)" ps] assms(1) show ?thesis
    by (auto simp: q_rep_def empty_queue_def)
qed

theorem packet_queue_fifo_witness:
  "\<exists>s1 s2. enq_all enqueue_packet [8, 24, 16] (empty_queue, \<lambda>p. Some \<lparr>q_next = None, q_item = p\<rparr>) = Inr s1 \<and>
     deq_n dequeue_packet 3 s1 = Inr ([8, 24, 16], s2)"
  using packet_queue_fifo [of "[8, 24, 16]" "\<lambda>p. Some \<lparr>q_next = None, q_item = p\<rparr>"]
  by (simp del: enq_all.simps deq_n.simps add: eval_nat_numeral) blast

text \<open>
  On every represented queue the callback queue's operations refine the list
  operations: inserting a fresh node appends it, and waiting answers the head and leaves
  the tail, or answers \<open>NULL\<close> exactly on the empty queue.
\<close>

theorem callback_queue_refines:
  assumes "q_rep q st ps" and "node_ready p st ps"
  shows "\<exists>q1 st1 q2. insert_callback_queue_node (Some p) q st = Inr (q1, st1) \<and> q_rep q1 st1 (ps @ [p]) \<and>
    wait_for_next_packet_callback q1 st1 = Inr (Some (hd (ps @ [p])), q2) \<and> q_rep q2 st1 (tl (ps @ [p])) \<and>
    (wait_for_next_packet_callback q st = Inr (None, q) \<longleftrightarrow> ps = [])"
proof -
  from assms(2) obtain n where n: "p \<notin> set ps" "st p = Some n" "q_next n = None" by (auto simp: node_ready_def)
  from insert_queue_node_rep [OF assms(1) n] obtain q1 st1 where
    1: "insert_queue_node (Some p) q st = Inr (q1, st1)" "q_rep q1 st1 (ps @ [p])" by blast
  from wait_for_next_packet_rep [OF 1(2)] obtain q2 where
    2: "wait_for_next_packet q1 st1 = Inr (Some (hd (ps @ [p])), q2)" "q_rep q2 st1 (tl (ps @ [p]))"
    by (cases ps) auto
  have "wait_for_next_packet q st = Inr (None, q) \<longleftrightarrow> ps = []"
    using wait_for_next_packet_rep [OF assms(1)] assms(1)
    by (cases ps) (auto simp: q_rep_def wait_for_next_packet_def)
  with 1 2 show ?thesis unfolding callback_queue_same by blast
qed

theorem callback_queue_refines_witness:
  "\<exists>q1 st1 q2. insert_callback_queue_node (Some 16) \<lparr>first_node = Some 8, last_node = Some 8\<rparr>
       (\<lambda>p. Some \<lparr>q_next = None, q_item = True\<rparr>) = Inr (q1, st1) \<and>
     wait_for_next_packet_callback q1 st1 = Inr (Some 8, q2)"
  using callback_queue_refines [of "\<lparr>first_node = Some 8, last_node = Some 8\<rparr>" "\<lambda>p. Some \<lparr>q_next = None, q_item = True\<rparr>" "[8]" 16]
  by (auto simp: q_rep_def node_ready_def)

end
