(* ===== verification/Swift_Chunks.thy ===== *)
theory Swift_Chunks
  imports Swift_Prelude
begin

text \<open>
  The bit array of received chunks and the list of lost ones (\<open>chunk_received\<close>,
  \<open>chunk_already_received\<close> and \<open>return_lost_chunk_indexes\<close> in \<open>src/process_packets.c\<close>).
\<close>

section \<open>Operations\<close>

definition chunk_already_received :: "u8 list \<Rightarrow> u32 \<Rightarrow> bool res" where
  "chunk_already_received chunks_received index =
     (if length chunks_received \<le> unat index div 8 then Inl Out_Of_Bounds
      else Inr (bits_get chunks_received (unat index)))"

definition chunk_received :: "u8 list \<Rightarrow> u32 \<Rightarrow> u8 list res" where
  "chunk_received chunks_received index =
     (if length chunks_received \<le> unat index div 8 then Inl Out_Of_Bounds
      else Inr (bits_set chunks_received (unat index)))"

text \<open>
  The inner loop over the bits of one byte: the indexes found so far are the words
  written to \<open>buffer\<close>, and the loop is left for good (\<open>True\<close>) as soon as no further word
  fits.
\<close>

primrec lost_bits :: "u8 \<Rightarrow> nat \<Rightarrow> u32 \<Rightarrow> nat list \<Rightarrow> u32 list \<Rightarrow> bool \<times> u32 list" where
  "lost_bits b byte buffer_size [] found = (False, found)"
| "lost_bits b byte buffer_size (i # is) found =
     (if buffer_size < of_nat (length found) * 4 + 4 then (True, found)
      else lost_bits b byte buffer_size is
             (if bit b i then found else found @ [of_nat byte * 8 + of_nat i]))"

function lost_loop :: "u8 list \<Rightarrow> u32 \<Rightarrow> u32 \<Rightarrow> nat \<Rightarrow> u32 list \<Rightarrow> u32 list res" where
  "lost_loop cr amount buffer_size byte found =
     (if of_nat byte * 8 + 8 < amount
      then if length cr \<le> byte then Inl Out_Of_Bounds
           else if cr ! byte = 0xFF then lost_loop cr amount buffer_size (Suc byte) found
           else (case lost_bits (cr ! byte) byte buffer_size [0..<8] found of
                   (stop, found') \<Rightarrow> if stop then Inr found' else lost_loop cr amount buffer_size (Suc byte) found')
      else if amount - of_nat byte * 8 = 0 \<or> buffer_size < of_nat (length found) * 4 + 4 then Inr found
      else if length cr \<le> byte then Inl Out_Of_Bounds
      else if 32 < amount - of_nat byte * 8 then Inl Bad_Shift
      else Inr (snd (lost_bits (cr ! byte) byte buffer_size [0..<unat (amount - of_nat byte * 8)] found)))"
  by pat_completeness auto
termination by (relation "measure (\<lambda>(cr, amount, buffer_size, byte, found). length cr - byte)") auto

declare lost_loop.simps [simp del]

definition return_lost_chunk_indexes :: "u8 list \<Rightarrow> u32 \<Rightarrow> u32 \<Rightarrow> u32 list res" where
  "return_lost_chunk_indexes chunks_received chunk_amount buffer_size =
     lost_loop chunks_received chunk_amount buffer_size 0 []"

section \<open>Specification\<close>

definition lost_indexes :: "u8 list \<Rightarrow> nat \<Rightarrow> nat \<Rightarrow> nat list" where
  "lost_indexes cr a b = filter (\<lambda>i. \<not> bits_get cr i) [a..<b]"

lemma lost_indexes_split:
  assumes "a \<le> b" and "b \<le> c"
  shows "lost_indexes cr a c = lost_indexes cr a b @ lost_indexes cr b c"
proof -
  have "[a..<c] = [a..<b] @ [b..<c]" using assms by (metis le_Suc_ex upt_add_eq_append)
  then show ?thesis by (simp add: lost_indexes_def)
qed

lemma full_test:
  fixes buffer_size :: u32
  assumes "length found \<le> unat buffer_size div 4" and "unat buffer_size + 4 < 2 ^ 32"
  shows "buffer_size < of_nat (length found) * 4 + 4 \<longleftrightarrow> length found = unat buffer_size div 4"
proof -
  have "length found * 4 + 4 < 2 ^ 32" using assms by linarith
  then have "unat (of_nat (length found) * 4 + 4 :: u32) = length found * 4 + 4"
    by (simp add: unat_word_ariths unat_of_nat)
  then have "buffer_size < of_nat (length found) * 4 + 4 \<longleftrightarrow> unat buffer_size < length found * 4 + 4"
    by (simp only: word_less_nat_alt)
  with assms(1) show ?thesis by linarith
qed

text \<open>One byte: the lost ones among the given bits are added as long as they fit.\<close>

lemma lost_bits_spec:
  assumes "length found \<le> unat buffer_size div 4" and "unat buffer_size + 4 < 2 ^ 32"
    and "\<forall>i \<in> set is. i < 8"
  shows "\<exists>stop found'. lost_bits (cr ! byte) byte buffer_size is found = (stop, found') \<and>
     found' = take (unat buffer_size div 4)
       (found @ map of_nat (filter (\<lambda>i. \<not> bits_get cr i) (map (\<lambda>i. byte * 8 + i) is))) \<and>
     (stop \<longrightarrow> length found' = unat buffer_size div 4)"
  using assms(1,3)
proof (induction "is" arbitrary: found)
  case (Cons i "is")
  have g: "bits_get cr (byte * 8 + i) = bit (cr ! byte) i" using Cons.prems(2) by (simp add: bits_get_def)
  show ?case
  proof (cases "length found = unat buffer_size div 4")
    case True
    then show ?thesis using full_test [OF Cons.prems(1) assms(2)] by (intro exI [of _ True] exI [of _ found]) simp
  next
    case False
    then have room: "Suc (length found) \<le> unat buffer_size div 4" using Cons.prems(1) by simp
    let ?f = "if bit (cr ! byte) i then found else found @ [of_nat byte * 8 + of_nat i]"
    let ?lost = "\<lambda>is. map of_nat (filter (\<lambda>i. \<not> bits_get cr i) (map (\<lambda>i. byte * 8 + i) is)) :: u32 list"
    have "length ?f \<le> unat buffer_size div 4" using room by simp
    moreover have "\<forall>i \<in> set is. i < 8" using Cons.prems(2) by simp
    ultimately obtain stop f' where
      r: "lost_bits (cr ! byte) byte buffer_size is ?f = (stop, f')" "f' = take (unat buffer_size div 4) (?f @ ?lost is)"
         "stop \<longrightarrow> length f' = unat buffer_size div 4" using Cons.IH by blast
    have "lost_bits (cr ! byte) byte buffer_size (i # is) found = (stop, f')"
      using False full_test [OF Cons.prems(1) assms(2)] r(1) by simp
    moreover have "?f @ ?lost is = found @ ?lost (i # is)" using g by simp
    ultimately show ?thesis using r(2,3) by (intro exI [of _ stop] exI [of _ f']) (simp only: simp_thms)
  qed
next
  case Nil
  then show ?case by (intro exI [of _ False] exI [of _ found]) simp
qed

lemma map_upt_offset: "map (\<lambda>i. a + i) [0..<n] = [a..<a + n]"
  by (induction n) simp_all

lemma byte_lost:
  "n \<le> 8 \<Longrightarrow> filter (\<lambda>i. \<not> bits_get cr i) (map (\<lambda>i. byte * 8 + i) [0..<n]) = lost_indexes cr (byte * 8) (byte * 8 + n)"
  by (simp only: map_upt_offset lost_indexes_def)

lemma byte_full: "cr ! byte = 0xFF \<Longrightarrow> lost_indexes cr (byte * 8) (byte * 8 + 8) = []"
proof -
  assume full: "cr ! byte = 0xFF"
  have "bits_get cr i" if "byte * 8 \<le> i" "i < byte * 8 + 8" for i
  proof -
    from that have i: "i div 8 = byte" "i mod 8 < 8" by auto
    have "bit (0xFF :: u8) j" if "j < 8" for j
    proof -
      have "(0xFF :: u8) = mask 8" by (simp add: mask_eq_exp_minus_1)
      with that show ?thesis by (simp only: bit_mask_iff) simp
    qed
    with i full show ?thesis by (simp add: bits_get_def)
  qed
  then show ?thesis by (auto simp: lost_indexes_def filter_empty_conv)
qed

lemma take_all_stop: "length (take n (xs @ ys)) = n \<Longrightarrow> take n (xs @ ys @ zs) = take n (xs @ ys)"
  by (simp add: min_def split: if_splits)

lemma take_trunc: "take n (take n (xs @ ys) @ zs) = take n (xs @ ys @ zs)"
  by (simp add: min_def)

lemma lost_loop_spec:
  assumes "unat amount + 8 < 2 ^ 32" and "unat buffer_size + 4 < 2 ^ 32" and "(unat amount + 7) div 8 \<le> length cr"
    and "length found \<le> unat buffer_size div 4" and "byte * 8 \<le> unat amount"
  shows "lost_loop cr amount buffer_size byte found =
     Inr (take (unat buffer_size div 4) (found @ map of_nat (lost_indexes cr (byte * 8) (unat amount))))"
  using assms(4,5)
proof (induction "length cr - byte" arbitrary: byte found rule: less_induct)
  case less
  let ?K = "unat buffer_size div 4"
  have lt: "byte * 8 + 8 < 2 ^ 32" using less.prems(2) assms(1) by linarith
  then have u: "unat (of_nat byte * 8 + 8 :: u32) = byte * 8 + 8" "unat (of_nat byte * 8 :: u32) = byte * 8"
    by (simp_all add: unat_word_ariths unat_of_nat)
  show ?case
  proof (cases "byte * 8 + 8 < unat amount")
    case True
    then have b: "byte < length cr" using assms(3) by linarith
    have cond: "of_nat byte * 8 + 8 < amount" using True u(1) by (simp add: word_less_nat_alt)
    have split: "lost_indexes cr (byte * 8) (unat amount) =
        lost_indexes cr (byte * 8) (byte * 8 + 8) @ lost_indexes cr (Suc byte * 8) (unat amount)"
      using lost_indexes_split [of "byte * 8" "byte * 8 + 8" "unat amount" cr] True by (simp add: add.commute)
    note IH = less.hyps [of "Suc byte"]
    show ?thesis
    proof (cases "cr ! byte = 0xFF")
      case full: True
      from IH [of found] less.prems(1) b True byte_full [OF full] show ?thesis
        unfolding lost_loop.simps [of cr amount buffer_size byte found] split using cond full by simp
    next
      case False
      have "\<forall>i \<in> set [0..<8]. i < 8" by simp
      from lost_bits_spec [OF less.prems(1) assms(2) this, of cr byte] obtain stop found' where
        r: "lost_bits (cr ! byte) byte buffer_size [0..<8] found = (stop, found')"
        and f: "found' = take ?K (found @ map of_nat (lost_indexes cr (byte * 8) (byte * 8 + 8)))"
          "stop \<longrightarrow> length found' = ?K" using byte_lost [of 8 cr byte] by (simp only: order.refl simp_thms) blast
      have run: "lost_loop cr amount buffer_size byte found =
          (if stop then Inr found' else lost_loop cr amount buffer_size (Suc byte) found')"
        unfolding lost_loop.simps [of cr amount buffer_size byte found] using cond b False r by simp
      have "length found' \<le> ?K" using f(1) by simp
      from IH [of found'] this b True have
        "\<not> stop \<Longrightarrow> lost_loop cr amount buffer_size byte found =
           Inr (take ?K (found' @ map of_nat (lost_indexes cr (Suc byte * 8) (unat amount))))"
        using run by simp
      then show ?thesis
        unfolding split map_append using f run
        by (cases stop) (simp_all only: if_True if_False simp_thms take_trunc take_all_stop)
    qed
  next
    case False
    then have ncond: "\<not> of_nat byte * 8 + 8 < amount" using u(1) by (simp add: word_less_nat_alt)
    have "of_nat byte * 8 \<le> amount" using less.prems(2) u(2) by (simp add: word_le_nat_alt)
    then have n: "unat (amount - of_nat byte * 8) = unat amount - byte * 8" by (simp add: unat_sub u(2))
    let ?n = "unat amount - byte * 8"
    have n8: "?n \<le> 8" "byte * 8 + ?n = unat amount" using False less.prems(2) by simp_all
    show ?thesis
    proof (cases "?n = 0 \<or> length found = ?K")
      case True
      have z: "amount - of_nat byte * 8 = 0 \<longleftrightarrow> ?n = 0" using n by (metis unsigned_0 unsigned_word_eqI)
      show ?thesis
        unfolding lost_loop.simps [of cr amount buffer_size byte found]
        using ncond True z full_test [OF less.prems(1) assms(2)] less.prems(1) n8
        by (auto simp: lost_indexes_def)
    next
      case no: False
      then have b: "byte < length cr" using assms(3) n8 by linarith
      have z: "amount - of_nat byte * 8 \<noteq> 0" using n no by auto
      have s: "\<not> 32 < amount - of_nat byte * 8" using n n8(1) by (simp add: word_less_nat_alt)
      have "\<forall>i \<in> set [0..<?n]. i < 8" using n8(1) by simp
      from lost_bits_spec [OF less.prems(1) assms(2) this, of cr byte]
      have "snd (lost_bits (cr ! byte) byte buffer_size [0..<?n] found) =
          take ?K (found @ map of_nat (lost_indexes cr (byte * 8) (unat amount)))"
        unfolding byte_lost [OF n8(1)] n8(2) by auto
      then show ?thesis
        unfolding lost_loop.simps [of cr amount buffer_size byte found]
        using ncond z s b n no full_test [OF less.prems(1) assms(2)] by simp
    qed
  qed
qed

lemma return_lost_spec:
  assumes "unat amount + 8 < 2 ^ 32" and "unat buffer_size + 4 < 2 ^ 32" and "(unat amount + 7) div 8 \<le> length cr"
  shows "return_lost_chunk_indexes cr amount buffer_size =
     Inr (take (unat buffer_size div 4) (map of_nat (lost_indexes cr 0 (unat amount))))"
  using lost_loop_spec [OF assms, of "[]" 0] by (simp add: return_lost_chunk_indexes_def)

section \<open>Properties\<close>

text \<open>
  C22. The list of lost chunks is exact: it holds the indexes below \<open>chunk_amount\<close> whose
  bit is not set, in increasing order, each once, cut to the words that fit the buffer,
  although the routine skips full bytes and treats the last byte separately.
\<close>

theorem lost_chunks_exact:
  assumes "unat amount + 8 < 2 ^ 32" and "unat buffer_size + 4 < 2 ^ 32" and "length cr = (unat amount + 7) div 8"
  shows "return_lost_chunk_indexes cr amount buffer_size =
    Inr (take (unat buffer_size div 4) (map of_nat (filter (\<lambda>i. \<not> bits_get cr i) [0..<unat amount])))"
  using return_lost_spec [OF assms(1,2)] assms(3) by (simp add: lost_indexes_def)

theorem lost_chunks_exact_witness:
  "return_lost_chunk_indexes [0xFF, 0xFD, 1] 18 8 = Inr [9, 17]"
  using lost_chunks_exact [of 18 8 "[0xFF, 0xFD, 1]"] by (simp add: upt_rec bits_get_def)

text \<open>
  Marking a chunk marks exactly that chunk: after \<open>chunk_received\<close> the chunk counts as
  received, every other chunk as before, and the number of lost chunks drops by one if it
  was lost before.
\<close>

theorem chunk_received_exact:
  assumes "unat i < n" and "n \<le> 8 * length cr" and "\<not> bits_get cr (unat i)"
  shows "\<exists>cr'. chunk_received cr i = Inr cr' \<and> length cr' = length cr \<and>
    chunk_already_received cr' i = Inr True \<and>
    (\<forall>j < n. bits_get cr' j = (j = unat i \<or> bits_get cr j)) \<and>
    lost_indexes cr' 0 n = remove1 (unat i) (lost_indexes cr 0 n)"
proof -
  have b: "unat i div 8 < length cr" using assms(1,2) by linarith
  let ?cr = "bits_set cr (unat i)"
  have "lost_indexes ?cr 0 n = filter (\<lambda>j. j \<noteq> unat i) (lost_indexes cr 0 n)"
    unfolding lost_indexes_def using b by (auto simp: bits_get_set intro: filter_cong)
  also have "\<dots> = remove1 (unat i) (lost_indexes cr 0 n)"
    by (rule sym, rule distinct_remove1_removeAll [THEN trans]) (auto simp: lost_indexes_def removeAll_filter_not_eq intro: filter_cong)
  finally show ?thesis
    using b by (intro exI [of _ ?cr]) (auto simp: chunk_received_def chunk_already_received_def bits_get_set)
qed

theorem chunk_received_exact_witness:
  "\<exists>cr'. chunk_received [0xFF, 0] 9 = Inr cr' \<and> chunk_already_received cr' 9 = Inr True"
  using chunk_received_exact [of 9 16 "[0xFF, 0]"] by (auto simp: bits_get_def)

end
