(* ===== verification/Swift_Receive.thy ===== *)
theory Swift_Receive
  imports Swift_Send Swift_Queue Swift_Chunks
begin

text \<open>
  Receiving (\<open>src/process_packets.c\<close> and the queueing half of \<open>src/handle_packets.c\<close>). A
  captured frame is copied into a pool buffer and queued; the processing thread takes it
  from the queue, answers control frames, and collects the chunks of a message in a
  pending message until the last one is there, when the message goes to the callback
  queue or, for a response, to the waiting request.

  A buffer of the pool keeps whatever was last written to it, so \<open>buffer_at\<close> is total. The
  sleeping and signalling of the processing thread has no effect on this state.
\<close>

section \<open>State\<close>

record pending_message =
  pm_info :: packet_info
  pm_chunks_at :: "ptr option"
  pm_chunks :: "u8 list"
  pm_data_at :: "ptr option"
  pm_data :: "u8 list"
  chunks_received_length :: u32
  chunks_received_number :: u32
  last_index_checked :: u32
  last_chunks_received_number :: u32
  pm_source_port :: u16
  pm_packet_id :: u16
  sending_lost_packets :: bool

record packet_completed_item =
  completed_packet_id :: u16
  marked_cleanup :: bool

record client_addr_data =
  sender_mtu :: u16
  sender_address :: u32
  sender_port :: u16
  sender_mac :: "u8 list"

text \<open>
  \<open>SwiftNetServerPacketData\<close> and \<open>SwiftNetClientPacketData\<close> with their metadata; only the
  server's has a sender.
\<close>

record packet_data =
  internal_pending_message :: "ptr option"
  pd_data :: ptr
  current_pointer :: ptr
  md_sender :: "client_addr_data option"
  md_data_length :: u32
  md_ports :: port_info
  md_packet_id :: u16
  expecting_response :: bool

record received_frame =
  rf_data :: "ptr option"
  data_read :: u32
  rf_sender_address :: u32

record callback_item =
  cb_pending_message :: "ptr option"
  cb_packet_data :: "ptr option"
  cb_packet_id :: u16

record conn_state = send_state +
  pending_messages :: "ptr hashmap"
  pending_at :: "ptr \<Rightarrow> pending_message option"
  packets_completed :: "ptr hashmap"
  completed_at :: "ptr \<Rightarrow> packet_completed_item option"
  frame_queue :: packet_queue
  frame_nodes :: "received_frame node_store"
  callback_queue :: packet_queue
  callback_nodes :: "callback_item node_store"
  buffer_at :: "ptr \<Rightarrow> u8 list"
  packet_data_at :: "ptr \<Rightarrow> packet_data option"

datatype connection_type = CONNECTION_TYPE_SERVER | CONNECTION_TYPE_CLIENT

text \<open>What the processing thread is started with.\<close>

record conn_cfg =
  cf_globals :: net_globals
  cf_seed :: u64
  cf_port :: u16
  cf_net :: network_data
  cf_eth :: ether_header
  cf_type :: connection_type

abbreviation cf_prepend :: "conn_cfg \<Rightarrow> nat" where
  "cf_prepend c \<equiv> unat (prepend_size (cf_net c))"

section \<open>Tables\<close>

text \<open>The key of \<open>PendingMessagesKey\<close> and \<open>PacketCompletedKey\<close>.\<close>

definition conn_key :: "u16 \<Rightarrow> u16 \<Rightarrow> u8 list" where
  "conn_key port i = le_bytes 2 port @ le_bytes 2 i"

definition packet_completed :: "conn_cfg \<Rightarrow> u16 \<Rightarrow> u16 \<Rightarrow> conn_state \<Rightarrow> conn_state res" where
  "packet_completed c i port s =
     rbind (pool_allocate Packets_completed_pool (s_env s))
       (\<lambda>(item, e1). rbind (pool_allocate Uint16_pool e1)
       (\<lambda>(_, e2). rbind (pool_allocate Packet_completed_key_pool e2)
       (\<lambda>(key, e3). rbind (hashmap_insert (cf_seed c) key (conn_key port i) 4 (Some item) (packets_completed s) e3)
       (\<lambda>(hm, e4). Inr (s\<lparr>s_env := e4, packets_completed := hm,
            completed_at := (completed_at s)(item \<mapsto> \<lparr>completed_packet_id = i, marked_cleanup = False\<rparr>)\<rparr>)))))"

definition check_packet_already_completed :: "conn_cfg \<Rightarrow> u16 \<Rightarrow> u16 \<Rightarrow> conn_state \<Rightarrow> bool res" where
  "check_packet_already_completed c i port s =
     rbind (hashmap_get (cf_seed c) (conn_key port i) 4 (packets_completed s)) (\<lambda>v. Inr (v \<noteq> None))"

definition get_pending_message :: "conn_cfg \<Rightarrow> u16 \<Rightarrow> u16 \<Rightarrow> conn_state \<Rightarrow> ptr option res" where
  "get_pending_message c i port s = hashmap_get (cf_seed c) (conn_key port i) 4 (pending_messages s)"

definition get_packet_sending :: "conn_cfg \<Rightarrow> u16 \<Rightarrow> conn_state \<Rightarrow> ptr option res" where
  "get_packet_sending c i s = hashmap_get (cf_seed c) (le_bytes 2 i) 2 (packets_sending s)"

definition create_new_pending_message ::
  "conn_cfg \<Rightarrow> packet_info \<Rightarrow> u16 \<Rightarrow> u16 \<Rightarrow> conn_state \<Rightarrow> (ptr \<times> conn_state) res" where
  "create_new_pending_message c info i port s =
     (let n = (chunk_amount info + 7) div 8
      in rbind (pool_allocate Pending_messages_pool (s_env s))
       (\<lambda>(pm, e1). case env_malloc (unat (packet_length info)) e1 of (data_at, e2) \<Rightarrow>
          (case env_malloc (unat n) e2 of (chunks_at, e3) \<Rightarrow>
             rbind (pool_allocate Pending_message_key_pool e3)
               (\<lambda>(key, e4). rbind (hashmap_insert (cf_seed c) key (conn_key port i) 4 (Some pm) (pending_messages s) e4)
                  (\<lambda>(hm, e5). Inr (pm, s\<lparr>s_env := e5, pending_messages := hm,
                     pending_at := (pending_at s)(pm \<mapsto>
                       \<lparr>pm_info = info,
                        pm_chunks_at = chunks_at, pm_chunks = (if chunks_at = None then [] else replicate (unat n) 0),
                        pm_data_at = data_at,
                        pm_data = (if data_at = None then [] else replicate (unat (packet_length info)) 0),
                        chunks_received_length = n, chunks_received_number = 0, last_index_checked = 0,
                        last_chunks_received_number = 0, pm_source_port = port, pm_packet_id = i,
                        sending_lost_packets = False\<rparr>)\<rparr>))))))"

section \<open>Handing a message on\<close>

definition handle_request_response ::
  "conn_cfg \<Rightarrow> u16 \<Rightarrow> ptr option \<Rightarrow> ptr \<Rightarrow> u16 \<Rightarrow> conn_state \<Rightarrow> conn_state res" where
  "handle_request_response c i pending pd port s =
     rbind (hashmap_get (cf_seed c) (le_bytes 2 i) 2 (requests_sent s))
       (\<lambda>r. case r of
          None \<Rightarrow> Inr s
        | Some q \<Rightarrow>
            (case request_at s q of
               None \<Rightarrow> Inl Null_Deref
             | Some x \<Rightarrow>
                 rbind (hashmap_remove (cf_seed c) (le_bytes 2 i) 2 (requests_sent s) (s_env s))
                   (\<lambda>(hm, e1).
                      let s1 = s\<lparr>request_at := (request_at s)(q \<mapsto> x\<lparr>request_packet_data := Some pd\<rparr>),
                                 requests_sent := hm, s_env := e1\<rparr>
                      in if pending = None then Inr s1
                         else rbind (hashmap_remove (cf_seed c) (conn_key port i) 4 (pending_messages s1) e1)
                                (\<lambda>(pms, e2). Inr (s1\<lparr>pending_messages := pms, s_env := e2\<rparr>)))))"

definition pass_callback_execution :: "ptr \<Rightarrow> ptr option \<Rightarrow> u16 \<Rightarrow> conn_state \<Rightarrow> conn_state res" where
  "pass_callback_execution pd pending i s =
     rbind (pool_allocate Packet_callback_queue_node_pool (s_env s))
       (\<lambda>(node, e1). rbind (insert_callback_queue_node (Some node) (callback_queue s)
              ((callback_nodes s)(node \<mapsto> \<lparr>q_next = None,
                 q_item = \<lparr>cb_pending_message = pending, cb_packet_data = Some pd, cb_packet_id = i\<rparr>\<rparr>)))
          (\<lambda>(q, nodes). Inr (s\<lparr>s_env := e1, callback_queue := q, callback_nodes := nodes\<rparr>)))"

definition packet_data_pool :: "connection_type \<Rightarrow> pool_id" where
  "packet_data_pool ty = (case ty of CONNECTION_TYPE_SERVER \<Rightarrow> Server_packet_data_pool | CONNECTION_TYPE_CLIENT \<Rightarrow> Client_packet_data_pool)"

definition deliver ::
  "conn_cfg \<Rightarrow> packet_info \<Rightarrow> u16 \<Rightarrow> client_addr_data \<Rightarrow> ptr \<Rightarrow> ptr option \<Rightarrow> conn_state \<Rightarrow> conn_state res" where
  "deliver c info i sender data_at pending s =
     rbind (pool_allocate (packet_data_pool (cf_type c)) (s_env s))
       (\<lambda>(pd, e1).
          let s1 = s\<lparr>s_env := e1, packet_data_at := (packet_data_at s)(pd \<mapsto>
                 \<lparr>internal_pending_message = pending, pd_data = data_at, current_pointer = data_at,
                  md_sender = (if cf_type c = CONNECTION_TYPE_SERVER then Some sender else None),
                  md_data_length = packet_length info, md_ports = ports info, md_packet_id = i,
                  expecting_response = (packet_type info = REQUEST)\<rparr>)\<rparr>
          in if packet_type info = RESPONSE
             then handle_request_response c i pending pd (source_port (ports info)) s1
             else pass_callback_execution pd pending i s1)"

section \<open>Control frames\<close>

text \<open>A frame of the library's own: headers, \<open>payload\<close> behind them, and the checksum over both.\<close>

definition internal_frame :: "conn_cfg \<Rightarrow> ip_header \<Rightarrow> packet_info \<Rightarrow> u8 list \<Rightarrow> u8 list res" where
  "internal_frame c ip pi payload =
     rbind (packet_construction ip pi (cf_net c) (cf_eth c) (cf_prepend c + PACKET_HEADER_SIZE + length payload))
       (\<lambda>b. rbind (memcpy_at (cf_prepend c + PACKET_HEADER_SIZE) payload b)
          (handle_checksum (cf_prepend c + IP_SIZE) (INFO_SIZE + length payload)))"

abbreviation LOWER_DELAY :: u8 where "LOWER_DELAY \<equiv> 0"
abbreviation INCREASE_DELAY :: u8 where "INCREASE_DELAY \<equiv> 1"

definition signal_delay_change :: "conn_cfg \<Rightarrow> u8 \<Rightarrow> ip_header \<Rightarrow> u16 \<Rightarrow> conn_state \<Rightarrow> conn_state res" where
  "signal_delay_change c status ip port s =
     rbind (internal_frame c (construct_ip_header (cf_globals c) (ip_src ip) 45 (ip_id ip))
              (construct_packet_info (cf_globals c) 1 PACKET_DELAY_UPDATE 1 0
                 \<lparr>destination_port = port, source_port = cf_port c\<rparr>) [status])
       (\<lambda>fr. Inr (emit fr s))"

text \<open>The structure \<open>SwiftNetServerInformation\<close> has two bytes of padding.\<close>

definition handle_request_information :: "conn_cfg \<Rightarrow> u16 \<Rightarrow> ip_header \<Rightarrow> packet_info \<Rightarrow> conn_state \<Rightarrow> conn_state res" where
  "handle_request_information c rand_id ip info s =
     rbind (internal_frame c (construct_ip_header (cf_globals c) (ip_src ip) 44 rand_id)
              (construct_packet_info (cf_globals c) 4 REQUEST_INFORMATION 1 0
                 \<lparr>destination_port = source_port (ports info), source_port = cf_port c\<rparr>)
              (le_bytes 2 (maximum_transmission_unit (cf_globals c)) @ [0, 0]))
       (\<lambda>fr. Inr (emit fr s))"

definition reply_ports :: "packet_info \<Rightarrow> port_info" where
  "reply_ports info = \<lparr>destination_port = source_port (ports info), source_port = destination_port (ports info)\<rparr>"

definition success_frame :: "conn_cfg \<Rightarrow> ip_header \<Rightarrow> packet_info \<Rightarrow> u8 list res" where
  "success_frame c ip info =
     internal_frame c (construct_ip_header (cf_globals c) (ip_src ip) 44 (ip_id ip))
       (construct_packet_info (cf_globals c) 0 SUCCESSFULLY_RECEIVED_PACKET 1 0 (reply_ports info)) []"

definition words_bytes :: "u32 list \<Rightarrow> u8 list" where
  "words_bytes ws = concat (map (le_bytes 4) ws)"

definition lost_chunks_frame :: "conn_cfg \<Rightarrow> ip_header \<Rightarrow> packet_info \<Rightarrow> pending_message \<Rightarrow> u8 list res" where
  "lost_chunks_frame c ip info pm =
     (let mtu = min_mtu (pi_mtu info) (cf_globals c); p = cf_prepend c
      in rbind (packet_construction (construct_ip_header (cf_globals c) (ip_src ip) 0 (ip_id ip))
                  (construct_packet_info (cf_globals c) 0 SEND_LOST_PACKETS_RESPONSE 1 0 (reply_ports info))
                  (cf_net c) (cf_eth c) (unat mtu + p))
       (\<lambda>b. rbind (return_lost_chunk_indexes (pm_chunks pm) (chunk_amount (pm_info pm)) (ucast (chunk_size mtu)))
       (\<lambda>lost. rbind (memcpy_at (PACKET_HEADER_SIZE + p) (words_bytes lost) b)
       (\<lambda>b1. let n = of_nat (length lost) * 4 :: u32; packet_length = 44 + n
              in rbind (memcpy_at (p + IP_LEN_OFFSET) (le_bytes 2 (htons (ucast packet_length))) b1)
                   (\<lambda>b2. rbind (memcpy_at (p + IP_SIZE) (le_bytes 4 n) b2)
                      (\<lambda>b3. rbind (handle_checksum (p + IP_SIZE) (unat (packet_length - 20)) b3)
                         (read_at 0 (unat (packet_length + of_nat p)))))))))"

definition handle_lost_request :: "conn_cfg \<Rightarrow> ip_header \<Rightarrow> packet_info \<Rightarrow> conn_state \<Rightarrow> conn_state res" where
  "handle_lost_request c ip info s =
     rbind (get_pending_message c (ip_id ip) (source_port (ports info)) s)
       (\<lambda>r. case r of
          None \<Rightarrow>
            rbind (check_packet_already_completed c (ip_id ip) (source_port (ports info)) s)
              (\<lambda>done. if done then rbind (success_frame c ip info) (\<lambda>fr. Inr (emit fr s)) else Inr s)
        | Some pm \<Rightarrow>
            (case pending_at s pm of
               None \<Rightarrow> Inl Null_Deref
             | Some x \<Rightarrow>
                 rbind (lost_chunks_frame c ip info x)
                   (\<lambda>fr. Inr (emit fr (s\<lparr>pending_at := (pending_at s)(pm \<mapsto> x\<lparr>sending_lost_packets := True\<rparr>)\<rparr>)))))"

text \<open>
  The sender's side of the answer: the list of lost chunks is copied into a block of
  \<open>maximum_transmission_unit - 44\<close> bytes, made the first time.
\<close>

definition lost_chunks_block :: "conn_cfg \<Rightarrow> packet_sending \<Rightarrow> env \<Rightarrow> (packet_sending \<times> env) res" where
  "lost_chunks_block c x e =
     (if lost_chunks_at x \<noteq> None then Inr (x, e)
      else let n = unat (chunk_size (maximum_transmission_unit (cf_globals c)))
           in case env_malloc n e of
                (None, e1) \<Rightarrow> Inl Exit_Failure
              | (Some q, e1) \<Rightarrow> Inr (x\<lparr>lost_chunks_at := Some q, lost_chunks := replicate n 0\<rparr>, e1))"

definition handle_lost_response :: "conn_cfg \<Rightarrow> ip_header \<Rightarrow> packet_info \<Rightarrow> u8 list \<Rightarrow> conn_state \<Rightarrow> conn_state res" where
  "handle_lost_response c ip info buf s =
     rbind (get_packet_sending c (ip_id ip) s)
       (\<lambda>r. case r of
          None \<Rightarrow> Inr s
        | Some ps \<Rightarrow>
            (case sending_at s ps of
               None \<Rightarrow> Inl Null_Deref
             | Some x \<Rightarrow>
                 rbind (lost_chunks_block c x (s_env s))
                   (\<lambda>(x1, e1). rbind (read_at (cf_prepend c + PACKET_HEADER_SIZE) (unat (packet_length info)) buf)
                      (\<lambda>d. rbind (memcpy_at 0 d (lost_chunks x1))
                         (\<lambda>l. Inr (s\<lparr>s_env := e1, sending_at := (sending_at s)(ps \<mapsto>
                              x1\<lparr>lost_chunks := l, lost_chunks_size := packet_length info div 4,
                                 updated := UPDATED_LOST_CHUNKS\<rparr>)\<rparr>))))))"

definition handle_success :: "conn_cfg \<Rightarrow> ip_header \<Rightarrow> conn_state \<Rightarrow> conn_state res" where
  "handle_success c ip s =
     rbind (get_packet_sending c (ip_id ip) s)
       (\<lambda>r. case r of
          None \<Rightarrow> Inr s
        | Some ps \<Rightarrow>
            (case sending_at s ps of
               None \<Rightarrow> Inl Null_Deref
             | Some x \<Rightarrow> Inr (s\<lparr>sending_at := (sending_at s)(ps \<mapsto> x\<lparr>updated := SUCCESSFULLY_RECEIVED\<rparr>)\<rparr>)))"

text \<open>\<open>PACKET_DELAY_UPDATE\<close>: there is no test for an unknown id.\<close>

definition handle_delay_update :: "conn_cfg \<Rightarrow> ip_header \<Rightarrow> u8 list \<Rightarrow> conn_state \<Rightarrow> conn_state res" where
  "handle_delay_update c ip buf s =
     rbind (get_packet_sending c (ip_id ip) s)
       (\<lambda>r. case r of
          None \<Rightarrow> Inl Null_Deref
        | Some ps \<Rightarrow>
            (case sending_at s ps of
               None \<Rightarrow> Inl Null_Deref
             | Some x \<Rightarrow>
                 rbind (read_at (cf_prepend c + PACKET_HEADER_SIZE) 1 buf)
                   (\<lambda>status. let d = current_send_delay x div 6
                      in Inr (s\<lparr>sending_at := (sending_at s)(ps \<mapsto>
                           x\<lparr>current_send_delay := (if hd status = INCREASE_DELAY then d * 7 else d * 5)\<rparr>)\<rparr>))))"

section \<open>Chunks\<close>

text \<open>\<open>(float)n\<close> for a 32 bit integer: 24 significant bits, rounded to nearest, ties to even.\<close>

definition f32_nat :: "nat \<Rightarrow> nat" where
  "f32_nat n =
     (let k = length (takeWhile (\<lambda>k. 2 ^ (24 + k) \<le> n) [0..<8]); q = n div 2 ^ k; r = 2 * (n mod 2 ^ k)
      in if 2 ^ k < r \<or> r = 2 ^ k \<and> k \<noteq> 0 \<and> odd q then Suc q * 2 ^ k else q * 2 ^ k)"

text \<open>
  \<open>(float)a / (float)b > 0.95f\<close>. The constant is \<open>15938355 / 2^24\<close>; its significand is odd, so
  a quotient rounds above it exactly from the midpoint to the next float on.
\<close>

definition ratio_above :: "u32 \<Rightarrow> u32 \<Rightarrow> bool" where
  "ratio_above a b \<longleftrightarrow> 31876711 * f32_nat (unat b) \<le> 2 ^ 25 * f32_nat (unat a)"

definition rate_limit ::
  "conn_cfg \<Rightarrow> ip_header \<Rightarrow> packet_info \<Rightarrow> pending_message \<Rightarrow> conn_state \<Rightarrow> (pending_message \<times> conn_state) res" where
  "rate_limit c ip info x s =
     (let new_packets = chunk_index info - last_index_checked x;
          new_packets_validated = chunks_received_number x - last_chunks_received_number x
      in if \<not> sending_lost_packets x \<and> 50 < new_packets
         then rbind (signal_delay_change c (if ratio_above new_packets_validated new_packets then LOWER_DELAY else INCREASE_DELAY)
                       ip (source_port (ports info)) s)
                (\<lambda>s1. Inr (x\<lparr>last_chunks_received_number := chunks_received_number x, last_index_checked := chunk_index info\<rparr>, s1))
         else Inr (x, s))"

text \<open>\<open>bytes_to_write\<close>; \<open>%\<close> by 0 is a fault.\<close>

definition chunk_bytes :: "u32 \<Rightarrow> packet_info \<Rightarrow> u32 res" where
  "chunk_bytes cds info =
     (if chunk_amount info \<le> chunk_index info + 1
      then if cds = 0 then Inl Div_By_Zero else Inr (packet_length info mod cds)
      else Inr cds)"

text \<open>A chunk into the memory of its message; the offset is a 32 bit product.\<close>

definition store_chunk :: "conn_cfg \<Rightarrow> u32 \<Rightarrow> packet_info \<Rightarrow> u32 \<Rightarrow> u8 list \<Rightarrow> pending_message \<Rightarrow> pending_message res" where
  "store_chunk c cds info bytes buf x =
     rbind (read_at (cf_prepend c + PACKET_HEADER_SIZE) (unat bytes) buf)
       (\<lambda>d. rbind (memcpy_at (unat (cds * chunk_index info)) d (pm_data x))
          (\<lambda>m. rbind (chunk_received (pm_chunks x) (chunk_index info))
             (\<lambda>cr. Inr (x\<lparr>pm_data := m, pm_chunks := cr, chunks_received_number := chunks_received_number x + 1\<rparr>))))"

definition drop_buffer :: "ptr \<Rightarrow> conn_state \<Rightarrow> conn_state res" where
  "drop_buffer b s = rbind (pool_free Packet_buffer_pool b (s_env s)) (\<lambda>e. Inr (s\<lparr>s_env := e\<rparr>))"

text \<open>The first chunk of a message to arrive goes to the start of its memory.\<close>

definition first_chunk :: "conn_cfg \<Rightarrow> u32 \<Rightarrow> ip_header \<Rightarrow> packet_info \<Rightarrow> u8 list \<Rightarrow> conn_state \<Rightarrow> conn_state res" where
  "first_chunk c cds ip info buf s =
     rbind (create_new_pending_message c info (ip_id ip) (source_port (ports info)) s)
       (\<lambda>(pm, s1). case pending_at s1 pm of
          None \<Rightarrow> Inl Null_Deref
        | Some x \<Rightarrow>
            rbind (chunk_received (pm_chunks x) (chunk_index info))
              (\<lambda>cr. rbind (read_at (cf_prepend c + PACKET_HEADER_SIZE) (unat cds) buf)
                 (\<lambda>d. rbind (memcpy_at 0 d (pm_data x))
                    (\<lambda>m. Inr (s1\<lparr>pending_at := (pending_at s1)(pm \<mapsto>
                            x\<lparr>chunks_received_number := 1, pm_chunks := cr, pm_data := m\<rparr>)\<rparr>)))))"

definition last_chunk ::
  "conn_cfg \<Rightarrow> u32 \<Rightarrow> ip_header \<Rightarrow> packet_info \<Rightarrow> u32 \<Rightarrow> client_addr_data \<Rightarrow> u8 list \<Rightarrow> ptr \<Rightarrow> pending_message \<Rightarrow>
   conn_state \<Rightarrow> conn_state res" where
  "last_chunk c cds ip info bytes sender buf pm x s =
     rbind (store_chunk c cds info bytes buf x)
       (\<lambda>x1. rbind (return_lost_chunk_indexes (pm_chunks x1) (chunk_amount info) cds)
       (\<lambda>_. rbind (packet_completed c (ip_id ip) (source_port (ports info)) (s\<lparr>pending_at := (pending_at s)(pm \<mapsto> x1)\<rparr>))
       (\<lambda>s1. case pm_data_at x1 of
           None \<Rightarrow> Inl Null_Deref
         | Some q \<Rightarrow> deliver c info (ip_id ip) sender q (Some pm) s1)))"

definition next_chunk ::
  "conn_cfg \<Rightarrow> u32 \<Rightarrow> ip_header \<Rightarrow> packet_info \<Rightarrow> client_addr_data \<Rightarrow> u8 list \<Rightarrow> ptr \<Rightarrow> conn_state \<Rightarrow> conn_state res" where
  "next_chunk c cds ip info sender buf pm s =
     (case pending_at s pm of
        None \<Rightarrow> Inl Null_Deref
      | Some x \<Rightarrow>
          rbind (chunk_already_received (pm_chunks x) (chunk_index info))
            (\<lambda>seen. if seen then Inr s
               else rbind (chunk_bytes cds info)
                 (\<lambda>bytes. if chunks_received_number x + 1 = chunk_amount info
                    then last_chunk c cds ip info bytes sender buf pm x s
                    else rbind (rate_limit c ip info x s)
                      (\<lambda>(x1, s1). rbind (store_chunk c cds info bytes buf x1)
                         (\<lambda>x2. Inr (s1\<lparr>pending_at := (pending_at s1)(pm \<mapsto> x2)\<rparr>))))))"

text \<open>
  A data frame: already delivered, the first chunk of a longer message, a whole message,
  or a further chunk. Only the buffer of a whole message is kept.
\<close>

definition sender_of :: "conn_cfg \<Rightarrow> packet_info \<Rightarrow> client_addr_data" where
  "sender_of c info =
     \<lparr>sender_mtu = pi_mtu info, sender_address = 0, sender_port = source_port (ports info),
      sender_mac = (if addr_type (cf_net c) \<noteq> 0 then ether_shost (cf_eth c) else replicate 6 0)\<rparr>"

definition process_data ::
  "conn_cfg \<Rightarrow> ip_header \<Rightarrow> packet_info \<Rightarrow> ptr \<Rightarrow> u8 list \<Rightarrow> conn_state \<Rightarrow> conn_state res" where
  "process_data c ip info b buf s =
     (let i = ip_id ip; port = source_port (ports info);
          cds = ucast (chunk_size (min_mtu (pi_mtu info) (cf_globals c))) :: u32
      in rbind (check_packet_already_completed c i port s)
       (\<lambda>done. if done then drop_buffer b s
         else rbind (get_pending_message c i port s)
           (\<lambda>r. case r of
              None \<Rightarrow>
                if cds < packet_length info
                then rbind (first_chunk c cds ip info buf s) (drop_buffer b)
                else rbind (packet_completed c i port s)
                       (deliver c info i (sender_of c info) (b + cf_prepend c + PACKET_HEADER_SIZE) None)
            | Some pm \<Rightarrow> rbind (next_chunk c cds ip info (sender_of c info) buf pm s) (drop_buffer b))))"

section \<open>One frame\<close>

definition htonl :: "u32 \<Rightarrow> u32" where
  "htonl a = le_word (rev (le_bytes 4 a))"

definition is_private_ip :: "u32 \<Rightarrow> bool" where
  "is_private_ip a \<longleftrightarrow> drop_bit 24 (htonl a) AND 0xFF = 127"

text \<open>The test before the checksum is looked at, and the verdict.\<close>

definition checksum_refused :: "conn_cfg \<Rightarrow> u32 \<Rightarrow> ip_header \<Rightarrow> u32 \<Rightarrow> u8 list \<Rightarrow> bool res" where
  "checksum_refused c n ip received buf =
     (if IP_SIZE + cf_prepend c < unat n \<and> ip_src ip \<noteq> ip_dst ip \<and> \<not> is_private_ip (ip_src ip) \<and> is_private_ip (ip_dst ip) \<and>
         ip_sum ip \<noteq> 0
      then rbind (read_at (cf_prepend c + IP_SIZE) (unat n - IP_SIZE - cf_prepend c) buf) (\<lambda>d. Inr (packet_corrupted received d))
      else Inr False)"

definition dispatch ::
  "conn_cfg \<Rightarrow> u16 \<Rightarrow> ip_header \<Rightarrow> packet_info \<Rightarrow> ptr \<Rightarrow> u8 list \<Rightarrow> conn_state \<Rightarrow> conn_state res" where
  "dispatch c rand_id ip info b buf s =
     (if packet_type info = REQUEST_INFORMATION then rbind (handle_request_information c rand_id ip info s) (drop_buffer b)
      else if packet_type info = SEND_LOST_PACKETS_REQUEST then rbind (handle_lost_request c ip info s) (drop_buffer b)
      else if packet_type info = SEND_LOST_PACKETS_RESPONSE then rbind (handle_lost_response c ip info buf s) (drop_buffer b)
      else if packet_type info = SUCCESSFULLY_RECEIVED_PACKET then rbind (handle_success c ip s) (drop_buffer b)
      else if packet_type info = PACKET_DELAY_UPDATE then rbind (handle_delay_update c ip buf s) (drop_buffer b)
      else process_data c ip info b buf s)"

definition process_buffer :: "conn_cfg \<Rightarrow> u16 \<Rightarrow> ptr \<Rightarrow> u32 \<Rightarrow> conn_state \<Rightarrow> conn_state res" where
  "process_buffer c rand_id b n s =
     (let p = cf_prepend c; buf = buffer_at s b
      in rbind (read_at p IP_SIZE buf)
       (\<lambda>ib. rbind (read_at (p + IP_SIZE) INFO_SIZE buf)
       (\<lambda>pb. let ip = ip_of ib; info = info_of pb
         in if destination_port (ports info) \<noteq> cf_port c then drop_buffer b s
            else rbind (memcpy_at (p + IP_SIZE + CHECKSUM_OFFSET) (replicate 4 0) buf)
              (\<lambda>b1. rbind (memcpy_at (p + IP_LEN_OFFSET) (le_bytes 2 n) b1)
              (\<lambda>b2. rbind (checksum_refused c n ip (checksum info) b2)
              (\<lambda>refused. let s1 = s\<lparr>buffer_at := (buffer_at s)(b := b2)\<rparr>
                 in if refused then drop_buffer b s1 else dispatch c rand_id ip info b b2 s1))))))"

text \<open>One turn of the processing loop.\<close>

definition process_turn :: "conn_cfg \<Rightarrow> u16 \<Rightarrow> conn_state \<Rightarrow> conn_state res" where
  "process_turn c rand_id s =
     rbind (wait_for_next_packet (frame_queue s) (frame_nodes s))
       (\<lambda>(r, q). case r of
          None \<Rightarrow> Inr (s\<lparr>frame_queue := q\<rparr>)
        | Some node \<Rightarrow>
            (case frame_nodes s node of
               None \<Rightarrow> Inl Null_Deref
             | Some n \<Rightarrow>
                 rbind (case rf_data (q_item n) of
                          None \<Rightarrow> Inr (s\<lparr>frame_queue := q\<rparr>)
                        | Some b \<Rightarrow> process_buffer c rand_id b (data_read (q_item n)) (s\<lparr>frame_queue := q\<rparr>))
                   (\<lambda>s1. rbind (pool_free Packet_queue_node_pool node (s_env s1)) (\<lambda>e. Inr (s1\<lparr>s_env := e\<rparr>)))))"

text \<open>The loop, until it sees \<open>closing\<close>: one entry per turn, with the value of \<open>rand()\<close> in it.\<close>

primrec process_packets :: "conn_cfg \<Rightarrow> u16 list \<Rightarrow> conn_state \<Rightarrow> conn_state res" where
  "process_packets c [] s = Inr s"
| "process_packets c (r # rs) s = rbind (process_turn c r s) (process_packets c rs)"

section \<open>Queueing a captured frame\<close>

definition construct_node :: "u32 \<Rightarrow> ptr \<Rightarrow> u32 \<Rightarrow> conn_state \<Rightarrow> (ptr \<times> conn_state) res" where
  "construct_node n b addr s =
     rbind (pool_allocate Packet_queue_node_pool (s_env s))
       (\<lambda>(node, e). Inr (node, s\<lparr>s_env := e, frame_nodes := (frame_nodes s)(node \<mapsto>
          \<lparr>q_next = None, q_item = \<lparr>rf_data = Some b, data_read = n, rf_sender_address = addr\<rparr>\<rparr>)\<rparr>))"

text \<open>On a link with addresses only IP frames are queued, with the sender's address.\<close>

definition sender_address_of :: "network_data \<Rightarrow> u8 list \<Rightarrow> u32 option res" where
  "sender_address_of nd buf =
     (if addr_type nd = 0 then Inr (Some 0)
      else rbind (read_at 12 2 buf)
        (\<lambda>ty. if htons (le_word ty) = 0x0800
               then rbind (read_at ETH_SIZE IP_SIZE buf) (\<lambda>ib. Inr (Some (ip_src (ip_of ib))))
               else Inr None))"

definition handle_packets :: "conn_cfg \<Rightarrow> u8 list \<Rightarrow> conn_state \<Rightarrow> conn_state res" where
  "handle_packets c data s =
     (if data = [] then Inr s
      else rbind (pool_allocate Packet_buffer_pool (s_env s))
        (\<lambda>(b, e1). rbind (memcpy_at 0 data (buffer_at s b))
           (\<lambda>buf. let s1 = s\<lparr>s_env := e1, buffer_at := (buffer_at s)(b := buf)\<rparr>
              in rbind (sender_address_of (cf_net c) buf)
                   (\<lambda>r. case r of
                      None \<Rightarrow> drop_buffer b s1
                    | Some addr \<Rightarrow>
                        rbind (construct_node (of_nat (length data)) b addr s1)
                          (\<lambda>(node, s2). rbind (insert_queue_node (Some node) (frame_queue s2) (frame_nodes s2))
                             (\<lambda>(q, nodes). Inr (s2\<lparr>frame_queue := q, frame_nodes := nodes\<rparr>)))))))"

end
