(* ===== verification/Swift_Reassembly.thy ===== *)
theory Swift_Reassembly
  imports Swift_Receive
begin

text \<open>
  How a message comes together again at the receiver: the progress of a pending message,
  the memory the processing thread takes and gives back around each frame, and the run of
  all frames of a message in any order that starts with chunk 0, with repetitions.
\<close>

section \<open>Reassembling a message\<close>

text \<open>
  How far a pending message has come: the chunks in \<open>R\<close> are there, each with its data at
  its place, marked and counted.
\<close>

definition progress :: "nat \<Rightarrow> u8 list \<Rightarrow> nat set \<Rightarrow> pending_message \<Rightarrow> bool" where
  "progress cs msg R x \<longleftrightarrow> R \<subseteq> {0..<chunk_count cs (length msg)} \<and> length (pm_data x) = length msg \<and>
     (\<forall>i\<in>R. \<forall>j<length msg. i * cs \<le> j \<and> j < i * cs + cs \<longrightarrow> pm_data x ! j = msg ! j) \<and>
     length (pm_chunks x) = (chunk_count cs (length msg) + 7) div 8 \<and>
     (\<forall>i<chunk_count cs (length msg). bits_get (pm_chunks x) i \<longleftrightarrow> i \<in> R) \<and>
     unat (chunks_received_number x) = card R \<and> chunk_amount (pm_info x) = of_nat (chunk_count cs (length msg))"

lemma chunk_count_index: "0 < cs \<Longrightarrow> i < chunk_count cs n \<longleftrightarrow> i * cs < n"
proof -
  assume cs: "0 < cs"
  have "i < (n + cs - 1) div cs \<longleftrightarrow> Suc i \<le> (n + cs - 1) div cs" by auto
  also have "\<dots> \<longleftrightarrow> Suc i * cs \<le> n + cs - 1" using cs by (simp add: less_eq_div_iff_mult_less_eq)
  also have "\<dots> \<longleftrightarrow> i * cs < n" using cs by auto
  finally show ?thesis by (simp add: chunk_count_def)
qed

lemma progress_complete:
  assumes "progress cs msg R x" and "R = {0..<chunk_count cs (length msg)}" and "0 < cs"
  shows "pm_data x = msg"
proof (rule nth_equalityI)
  show "length (pm_data x) = length msg" using assms(1) by (simp add: progress_def)
  fix j assume "j < length (pm_data x)"
  then have j: "j < length msg" using assms(1) by (simp add: progress_def)
  have "j div cs * cs \<le> j" "j < j div cs * cs + cs"
    using assms(3) div_mult_mod_eq [of j cs] mod_less_divisor [of cs j] by linarith+
  moreover have "j div cs \<in> R"
    using assms(2) le_less_trans [OF calculation(1) j] chunk_count_index [OF assms(3), of "j div cs" "length msg"] by simp
  ultimately show "pm_data x ! j = msg ! j" using assms(1) j by (simp add: progress_def)
qed

text \<open>The packet information of the chunks of a message.\<close>

definition info_for :: "nat \<Rightarrow> u8 list \<Rightarrow> nat \<Rightarrow> packet_info \<Rightarrow> bool" where
  "info_for cs msg i info \<longleftrightarrow> packet_length info = of_nat (length msg) \<and> chunk_amount info = of_nat (chunk_count cs (length msg)) \<and>
     chunk_index info = of_nat i"

text \<open>
  Messages the receiver handles as chunks of \<open>cs\<close> bytes: more than one chunk, and a last
  one that is not full.
\<close>

definition splits :: "nat \<Rightarrow> u8 list \<Rightarrow> bool" where
  "splits cs msg \<longleftrightarrow> 0 < cs \<and> cs < 2 ^ 16 \<and> cs < length msg \<and> length msg + 8 < 2 ^ 32 \<and> length msg mod cs \<noteq> 0"

lemma chunk_count_bound: "splits cs msg \<Longrightarrow> chunk_count cs (length msg) + 8 < 2 ^ 32"
  using chunk_count_le [of cs "length msg"] by (simp add: splits_def)

lemma info_for_unat:
  assumes "splits cs msg" and "info_for cs msg i info" and "i < chunk_count cs (length msg)"
  shows "unat (packet_length info) = length msg" and "unat (chunk_amount info) = chunk_count cs (length msg)"
    and "unat (chunk_index info) = i" and "unat (chunk_index info + 1) = Suc i"
proof -
  note b = chunk_count_bound [OF assms(1)]
  show "unat (packet_length info) = length msg" "unat (chunk_amount info) = chunk_count cs (length msg)"
    using assms b by (simp_all add: info_for_def splits_def unat_of_nat)
  show i: "unat (chunk_index info) = i" using assms(2,3) b by (simp add: info_for_def unat_of_nat)
  then show "unat (chunk_index info + 1) = Suc i" using assms(3) b by (simp add: unat_word_ariths)
qed

lemma length_chunk_data: "length (chunk_data cs msg i) = min cs (length msg - i * cs)"
  by (simp add: chunk_data_def min.commute)

lemma last_chunk_length:
  assumes "splits cs msg" and "i < chunk_count cs (length msg)" and "chunk_count cs (length msg) \<le> Suc i"
  shows "length (chunk_data cs msg i) = length msg mod cs"
proof -
  have cs: "0 < cs" using assms(1) by (simp add: splits_def)
  have lo: "i * cs < length msg" using assms(2) chunk_count_index [OF cs] by simp
  have "length msg \<le> Suc i * cs" using assms(3) chunk_count_index [OF cs, of "Suc i" "length msg"] by simp
  moreover have "length msg \<noteq> Suc i * cs" using assms(1) by (auto simp: splits_def)
  ultimately have "length msg < i * cs + cs" by simp
  then have hi: "length msg - i * cs < cs" using lo by linarith
  have "length msg = i * cs + (length msg - i * cs)" using lo by simp
  then have "length msg mod cs = (length msg - i * cs) mod cs" by (metis mod_mult_self3)
  with hi show ?thesis by (simp add: length_chunk_data)
qed

lemma chunk_bytes_ok:
  assumes "splits cs msg" and "info_for cs msg i info" and "i < chunk_count cs (length msg)" and "unat cds = cs"
  shows "\<exists>n. chunk_bytes cds info = Inr n \<and> unat n = length (chunk_data cs msg i)"
proof -
  note u = info_for_unat [OF assms(1-3)]
  have last: "chunk_amount info \<le> chunk_index info + 1 \<longleftrightarrow> chunk_count cs (length msg) \<le> Suc i"
    using u by (simp add: word_le_nat_alt)
  show ?thesis
  proof (cases "chunk_count cs (length msg) \<le> Suc i")
    case True
    have "cds \<noteq> 0" using assms(1,4) by (auto simp: splits_def)
    with True last last_chunk_length [OF assms(1,3) True] u assms(4) show ?thesis
      by (simp add: chunk_bytes_def unat_mod)
  next
    case False
    then have "Suc i * cs < length msg" using assms(1) chunk_count_index [of cs "Suc i" "length msg"] by (simp add: splits_def)
    with False last assms(4) show ?thesis by (simp add: chunk_bytes_def length_chunk_data)
  qed
qed

text \<open>A new chunk is stored at its place and counted; nothing else of the message changes.\<close>

lemma progress_store:
  assumes "progress cs msg R x" and "0 < cs" and "i < chunk_count cs (length msg)" and "i \<notin> R"
    and "pm_data x' = put (i * cs) (chunk_data cs msg i) (pm_data x)" and "pm_chunks x' = bits_set (pm_chunks x) i"
    and "unat (chunks_received_number x') = Suc (unat (chunks_received_number x))" and "pm_info x' = pm_info x"
  shows "progress cs msg (insert i R) x'"
proof -
  let ?d = "chunk_data cs msg i" let ?N = "chunk_count cs (length msg)"
  have p: "R \<subseteq> {0..<?N}" "length (pm_data x) = length msg" "length (pm_chunks x) = (?N + 7) div 8" "unat (chunks_received_number x) = card R"
    "\<And>k j. k \<in> R \<Longrightarrow> j < length msg \<Longrightarrow> k * cs \<le> j \<Longrightarrow> j < k * cs + cs \<Longrightarrow> pm_data x ! j = msg ! j"
    "\<And>k. k < ?N \<Longrightarrow> bits_get (pm_chunks x) k \<longleftrightarrow> k \<in> R"
    "chunk_amount (pm_info x') = of_nat ?N" using assms(1,8) by (auto simp: progress_def)
  have lt: "i * cs < length msg" using assms(3) chunk_count_index [OF assms(2)] by simp
  have fit: "i * cs + length ?d \<le> length (pm_data x)" using lt p(2) by (simp add: length_chunk_data)
  have nd: "k < length ?d \<Longrightarrow> ?d ! k = msg ! (i * cs + k)" for k using lt by (simp add: chunk_data_def)
  have data: "pm_data x' ! j = msg ! j" if "k \<in> insert i R" "j < length msg" "k * cs \<le> j" "j < k * cs + cs" for k j
  proof (cases "i * cs \<le> j \<and> j < i * cs + cs")
    case True
    then have "j - i * cs < length ?d" using that(2) by (auto simp: length_chunk_data)
    moreover from this have "j < i * cs + length ?d" using True by linarith
    ultimately show ?thesis using True that(2) p(2) nd [of "j - i * cs"] fit by (simp add: assms(5) nth_put)
  next
    case False
    then have "k \<in> R" using that by auto
    moreover have "\<not> (i * cs \<le> j \<and> j < i * cs + length ?d)" using False by (auto simp: length_chunk_data)
    moreover have "j < length (pm_data x)" using that(2) p(2) by simp
    ultimately show ?thesis using that p(5) unfolding assms(5) nth_put [OF fit \<open>j < length (pm_data x)\<close>] by (metis (lifting))
  qed
  have "i div 8 < length (pm_chunks x)" using assms(3) p(3) by simp
  then have bits: "bits_get (pm_chunks x') k \<longleftrightarrow> k = i \<or> bits_get (pm_chunks x) k" for k by (simp add: assms(6) bits_get_set)
  have "finite R" using p(1) finite_subset by blast
  then have "card (insert i R) = Suc (card R)" using assms(4) by simp
  moreover have "length (pm_data x') = length msg" "length (pm_chunks x') = (?N + 7) div 8" using fit p(2,3) by (simp_all add: assms(5,6))
  ultimately show ?thesis using p assms(3,7) data bits by (simp add: progress_def)
qed

lemma store_chunk_ok:
  assumes "progress cs msg R x" and "splits cs msg" and "info_for cs msg i info" and "i < chunk_count cs (length msg)" and "i \<notin> R"
    and "unat cds = cs" and "unat n = length (chunk_data cs msg i)"
    and "seg (cf_prepend c + PACKET_HEADER_SIZE) (length (chunk_data cs msg i)) buf = chunk_data cs msg i"
    and "cf_prepend c + PACKET_HEADER_SIZE + length (chunk_data cs msg i) \<le> length buf"
  shows "\<exists>x'. store_chunk c cds info n buf x = Inr x' \<and> progress cs msg (insert i R) x' \<and>
     x' = x\<lparr>pm_data := pm_data x', pm_chunks := pm_chunks x', chunks_received_number := chunks_received_number x + 1\<rparr>"
proof -
  let ?d = "chunk_data cs msg i" let ?N = "chunk_count cs (length msg)"
  have cs: "0 < cs" using assms(2) by (simp add: splits_def)
  note u = info_for_unat [OF assms(2-4)]
  have lt: "i * cs < length msg" using assms(4) chunk_count_index [OF cs] by simp
  then have off: "unat (cds * chunk_index info) = i * cs"
    using u(3) assms(2,6) by (simp add: unat_word_ariths splits_def mult.commute)
  have len: "length (pm_data x) = length msg" "length (pm_chunks x) = (?N + 7) div 8" "R \<subseteq> {0..<?N}" "unat (chunks_received_number x) = card R"
    using assms(1) by (auto simp: progress_def)
  have rd: "read_at (cf_prepend c + PACKET_HEADER_SIZE) (unat n) buf = Inr ?d" using assms(7-9) by (simp add: read_at_def)
  have cp: "memcpy_at (i * cs) ?d (pm_data x) = Inr (put (i * cs) ?d (pm_data x))"
    using lt len(1) by (simp add: memcpy_at_def length_chunk_data)
  have cr: "chunk_received (pm_chunks x) (chunk_index info) = Inr (bits_set (pm_chunks x) i)"
    using u(3) len(2) assms(4) by (simp add: chunk_received_def)
  have "card R \<le> ?N" using card_mono [OF _ len(3)] by simp
  then have num: "unat (chunks_received_number x + 1) = Suc (unat (chunks_received_number x))"
    using len(4) chunk_count_bound [OF assms(2)] by (simp add: unat_word_ariths)
  let ?x = "x\<lparr>pm_data := put (i * cs) ?d (pm_data x), pm_chunks := bits_set (pm_chunks x) i, chunks_received_number := chunks_received_number x + 1\<rparr>"
  have "store_chunk c cds info n buf x = Inr ?x" using rd cp cr by (simp add: store_chunk_def off)
  moreover have "progress cs msg (insert i R) ?x" by (rule progress_store [OF assms(1) cs assms(4,5)]) (simp_all add: num)
  ultimately show ?thesis by (intro exI [of _ ?x]) simp
qed

section \<open>A frame arrives\<close>

definition receive_frame :: "conn_cfg \<Rightarrow> u16 \<Rightarrow> u8 list \<Rightarrow> conn_state \<Rightarrow> conn_state res" where
  "receive_frame c r fr s = rbind (handle_packets c fr s) (process_turn c r)"

definition free_node :: "ptr \<Rightarrow> conn_state \<Rightarrow> conn_state res" where
  "free_node node s = rbind (pool_free Packet_queue_node_pool node (s_env s)) (\<lambda>e. Inr (s\<lparr>s_env := e\<rparr>))"

lemma le_bytes_ucast: "LENGTH('a::len) \<le> LENGTH('b::len) \<Longrightarrow> 8 * n \<le> LENGTH('a) \<Longrightarrow> le_bytes n (ucast (w :: 'b word) :: 'a word) = le_bytes n w"
  by (auto simp: le_bytes_def bit_eq_iff bit_ucast_iff bit_drop_bit_eq)

text \<open>The frames a link lets through: all on loopback, IP on Ethernet.\<close>

definition link_accepts :: "network_data \<Rightarrow> u8 list \<Rightarrow> bool" where
  "link_accepts nd link \<longleftrightarrow> length link = unat (prepend_size nd) \<and>
     (addr_type nd = 0 \<or> length link = ETH_SIZE \<and> htons (le_word (seg 12 2 link)) = 0x0800)"

lemma sender_address_frame:
  assumes "link_accepts nd link"
  shows "\<exists>a. sender_address_of nd (frame link ip pi d @ rest) = Inr (Some a)"
proof (cases "addr_type nd = 0")
  case False
  then have l: "length link = 14" "htons (le_word (seg 12 2 link)) = 0x0800" using assms by (auto simp: link_accepts_def)
  have "seg 12 2 (frame link ip pi d @ rest) = seg 12 2 link" using l(1) by (simp add: frame_def seg_append_left)
  then show ?thesis using False l by (simp add: sender_address_of_def read_at_def)
qed (simp add: sender_address_of_def)

lemma empty_q_rep [simp]: "q_rep q st [] \<longleftrightarrow> q = empty_queue"
  by (cases q) (auto simp: q_rep_def empty_queue_def)

text \<open>Two items of different pools taken, for the frame and its queue node.\<close>

definition took_frame :: "ptr \<Rightarrow> ptr \<Rightarrow> env \<Rightarrow> env \<Rightarrow> bool" where
  "took_frame b node e e' \<longleftrightarrow> env_ok e' \<and> same_except {Packet_buffer_pool, Packet_queue_node_pool} e e' \<and>
     b \<notin> pool_live e Packet_buffer_pool \<and> pool_live e' Packet_buffer_pool = insert b (pool_live e Packet_buffer_pool) \<and>
     Suc (pool_avail e' Packet_buffer_pool) = pool_avail e Packet_buffer_pool \<and>
     node \<notin> pool_live e Packet_queue_node_pool \<and>
     pool_live e' Packet_queue_node_pool = insert node (pool_live e Packet_queue_node_pool) \<and>
     Suc (pool_avail e' Packet_queue_node_pool) = pool_avail e Packet_queue_node_pool"

lemma receive_frame_run:
  assumes "env_ok (s_env s)" and "frame_queue s = empty_queue"
    and "0 < pool_avail (s_env s) Packet_buffer_pool" and "0 < pool_avail (s_env s) Packet_queue_node_pool"
    and "\<forall>b. length (buffer_at s b) = B" and "length (frame link ip pi d) \<le> B" and "link_accepts (cf_net c) link"
  obtains b node e nodes where "took_frame b node (s_env s) e"
    and "receive_frame c r (frame link ip pi d) s =
      rbind (process_buffer c r b (of_nat (length (frame link ip pi d)))
        (s\<lparr>s_env := e, buffer_at := (buffer_at s)(b := frame link ip pi d @ drop (length (frame link ip pi d)) (buffer_at s b)),
           frame_queue := empty_queue, frame_nodes := nodes\<rparr>)) (free_node node)"
proof -
  let ?fr = "frame link ip pi d"
  from take_item [OF assms(1,3)] obtain b e1 where
    1: "pool_allocate Packet_buffer_pool (s_env s) = Inr (b, e1)" "env_grows (s_env s) e1" "b \<notin> pool_live (s_env s) Packet_buffer_pool"
      "Suc (pool_avail e1 Packet_buffer_pool) = pool_avail (s_env s) Packet_buffer_pool" "same_except {Packet_buffer_pool} (s_env s) e1"
      "pool_live e1 Packet_buffer_pool = insert b (pool_live (s_env s) Packet_buffer_pool)" by blast
  have ok1: "env_ok e1" "0 < pool_avail e1 Packet_queue_node_pool" using 1(2,5) assms(4) by (simp_all add: env_grows_def same_except_def)
  from take_item [OF ok1] obtain node e2 where
    2: "pool_allocate Packet_queue_node_pool e1 = Inr (node, e2)" "env_grows e1 e2" "node \<notin> pool_live e1 Packet_queue_node_pool"
      "Suc (pool_avail e2 Packet_queue_node_pool) = pool_avail e1 Packet_queue_node_pool" "same_except {Packet_queue_node_pool} e1 e2"
      "pool_live e2 Packet_queue_node_pool = insert node (pool_live e1 Packet_queue_node_pool)" by blast
  have took: "took_frame b node (s_env s) e2"
    unfolding took_frame_def using 1 2 by (auto simp: same_except_def env_grows_def)
  let ?buf = "?fr @ drop (length ?fr) (buffer_at s b)"
  have cp: "memcpy_at 0 ?fr (buffer_at s b) = Inr ?buf"
    using assms(5,6) unfolding memcpy_at_def put_def by simp
  obtain a where a: "sender_address_of (cf_net c) ?buf = Inr (Some a)" using sender_address_frame [OF assms(7)] by blast
  have "length ?fr \<noteq> 0" by simp
  then have ne: "?fr \<noteq> []" by (metis list.size(3))
  let ?n = "\<lparr>q_next = None, q_item = \<lparr>rf_data = Some b, data_read = of_nat (length ?fr), rf_sender_address = a\<rparr>\<rparr>"
  let ?s2 = "s\<lparr>s_env := e2, buffer_at := (buffer_at s)(b := ?buf), frame_nodes := (frame_nodes s)(node \<mapsto> ?n)\<rparr>"
  let ?q = "\<lparr>first_node = Some node, last_node = Some node\<rparr>"
  have h: "handle_packets c ?fr s = Inr (?s2\<lparr>frame_queue := ?q\<rparr>)"
    using ne 1(1) 2(1) cp a assms(2)
    by (simp add: handle_packets_def construct_node_def insert_queue_node_def empty_queue_def Let_def del: length_frame)
  have w: "wait_for_next_packet ?q (frame_nodes ?s2) = Inr (Some node, empty_queue)"
    by (simp add: wait_for_next_packet_def empty_queue_def)
  have "receive_frame c r ?fr s = rbind (process_buffer c r b (of_nat (length ?fr)) (?s2\<lparr>frame_queue := empty_queue\<rparr>)) (free_node node)"
    using w unfolding receive_frame_def h rbind_Inr process_turn_def free_node_def by (simp del: length_frame)
  moreover have "?s2\<lparr>frame_queue := empty_queue\<rparr> =
      s\<lparr>s_env := e2, buffer_at := (buffer_at s)(b := ?buf), frame_queue := empty_queue, frame_nodes := (frame_nodes s)(node \<mapsto> ?n)\<rparr>" by simp
  ultimately show ?thesis using that [OF took] by metis
qed

text \<open>A frame for this port with no IP checksum reaches the handler of its type.\<close>

lemma process_buffer_frame:
  fixes n :: u32
  assumes "buffer_at s b = frame link ip pi d @ rest" and "length link = cf_prepend c"
    and "destination_port (ports pi) = cf_port c" and "ip_sum ip = 0"
  defines "buf \<equiv> frame link (ip\<lparr>ip_len := ucast n\<rparr>) (pi\<lparr>checksum := 0\<rparr>) d @ rest"
  shows "process_buffer c r b n s = dispatch c r ip pi b buf (s\<lparr>buffer_at := (buffer_at s)(b := buf)\<rparr>)"
proof -
  let ?p = "cf_prepend c" let ?fr = "frame link ip pi d"
  have r1: "read_at ?p IP_SIZE (?fr @ rest) = Inr (ip_bytes ip)"
    using assms(2) read_at_middle [of 20 "ip_bytes ip" ?p link "info_bytes pi @ d @ rest"] by (simp add: frame_def)
  have r2: "read_at (?p + IP_SIZE) INFO_SIZE (?fr @ rest) = Inr (info_bytes pi)"
    using assms(2) read_at_middle [of 24 "info_bytes pi" "?p + 20" "link @ ip_bytes ip" "d @ rest"] by (simp add: frame_def)
  have z: "replicate 4 0 = le_bytes 4 (0 :: u32)" by (simp add: le_bytes_def numeral_eq_Suc)
  have m1: "memcpy_at (?p + IP_SIZE + CHECKSUM_OFFSET) (replicate 4 0) (?fr @ rest) = Inr (frame link ip (pi\<lparr>checksum := 0\<rparr>) d @ rest)"
    using memcpy_at_frame_checksum [OF assms(2), of 0 "[]" "0 :: u32" ip pi d rest] unfolding z by simp
  have lb: "le_bytes 2 n = le_bytes 2 (ucast n :: u16)" by (rule le_bytes_ucast [symmetric]) simp_all
  have m2: "memcpy_at (?p + IP_LEN_OFFSET) (le_bytes 2 n) (frame link ip (pi\<lparr>checksum := 0\<rparr>) d @ rest) = Inr buf"
    unfolding lb buf_def using memcpy_at_frame_ip_len [OF assms(2), of 0 "[]" "ucast n" ip "pi\<lparr>checksum := 0\<rparr>" d rest] by simp
  have "checksum_refused c n ip k x = Inr False" for k x using assms(4) by (simp add: checksum_refused_def)
  then show ?thesis
    unfolding process_buffer_def Let_def assms(1) r1 r2 rbind_Inr ip_of_bytes info_of_bytes m1 m2 using assms(3) by simp
qed

section \<open>The processing thread's tables\<close>

text \<open>Steps that may give back frames and queue nodes, but nothing the tables use.\<close>

definition tables_grow :: "env \<Rightarrow> env \<Rightarrow> bool" where
  "tables_grow e e' \<longleftrightarrow> env_ok e' \<and> dom (blocks (c_heap e)) \<subseteq> dom (blocks (c_heap e')) \<and>
     (\<forall>i. i \<noteq> Packet_buffer_pool \<and> i \<noteq> Packet_queue_node_pool \<longrightarrow> pool_live e i \<subseteq> pool_live e' i)"

lemma hm_ok_tables_grow:
  assumes "hm_ok seed hm e" and "tables_grow e e'" and "key_memory_allocator hm = Some i"
    and "i \<noteq> Packet_buffer_pool" and "i \<noteq> Packet_queue_node_pool"
  shows "hm_ok seed hm e'"
proof -
  have k: "key_live (key_memory_allocator hm) e \<subseteq> key_live (key_memory_allocator hm) e'"
    using assms(2-5) by (simp add: tables_grow_def key_live_def)
  have g: "pool_live e Hashmap_item_pool \<subseteq> pool_live e' Hashmap_item_pool" "env_ok e'"
    "dom (blocks (c_heap e)) \<subseteq> dom (blocks (c_heap e'))" using assms(2) by (simp_all add: tables_grow_def)
  show ?thesis by (rule hm_ok_mono [OF assms(1) k g])
qed

lemma env_grows_tables: "env_grows e e' \<Longrightarrow> tables_grow e e'"
  by (simp add: env_grows_def tables_grow_def)

lemma took_frame_tables: "took_frame b node e e' \<Longrightarrow> tables_grow e e'"
  by (simp add: took_frame_def tables_grow_def same_except_def)

lemma tables_grow_trans: "tables_grow e1 e2 \<Longrightarrow> tables_grow e2 e3 \<Longrightarrow> tables_grow e1 e3"
  unfolding tables_grow_def by blast

text \<open>The frame and its node given back.\<close>

lemma release_frame:
  assumes "took_frame b node e e1" and "env_ok e2"
    and "pool e2 Packet_buffer_pool = pool e1 Packet_buffer_pool" and "pool e2 Packet_queue_node_pool = pool e1 Packet_queue_node_pool"
    and "s_env s = e2"
  obtains e3 where "rbind (drop_buffer b s) (free_node node) = Inr (s\<lparr>s_env := e3\<rparr>)" and "tables_grow e2 e3" and "env_ok e3"
    and "same_except {Packet_buffer_pool, Packet_queue_node_pool} e2 e3"
    and "pool_avail e3 Packet_buffer_pool = pool_avail e Packet_buffer_pool"
    and "pool_avail e3 Packet_queue_node_pool = pool_avail e Packet_queue_node_pool"
proof -
  have t: "Suc (pool_avail e2 Packet_buffer_pool) = pool_avail e Packet_buffer_pool" "b \<in> pool_live e2 Packet_buffer_pool"
    "Suc (pool_avail e2 Packet_queue_node_pool) = pool_avail e Packet_queue_node_pool" "node \<in> pool_live e2 Packet_queue_node_pool"
    using assms(1,3,4) by (simp_all add: took_frame_def)
  obtain e' where 1: "pool_free Packet_buffer_pool b e2 = Inr e'" "env_ok e'" "pool_avail e' Packet_buffer_pool = Suc (pool_avail e2 Packet_buffer_pool)"
    "same_except {Packet_buffer_pool} e2 e'" using pool_free_ok [OF assms(2) t(2)] by blast
  have "node \<in> pool_live e' Packet_queue_node_pool" using t(4) 1(4) by (simp add: same_except_def)
  from pool_free_ok [OF 1(2) this] obtain e3 where
    2: "pool_free Packet_queue_node_pool node e' = Inr e3" "env_ok e3" "pool_avail e3 Packet_queue_node_pool = Suc (pool_avail e' Packet_queue_node_pool)"
     "same_except {Packet_queue_node_pool} e' e3" by blast
  have se: "same_except {Packet_buffer_pool, Packet_queue_node_pool} e2 e3" using 1(4) 2(4) by (simp add: same_except_def)
  have "pool_avail e3 Packet_buffer_pool = pool_avail e Packet_buffer_pool" using 1(3) 2(4) t(1) by (simp add: same_except_def)
  moreover have "pool_avail e3 Packet_queue_node_pool = pool_avail e Packet_queue_node_pool" using 1(4) 2(3) t(3) by (simp add: same_except_def)
  moreover have "tables_grow e2 e3" using se 2(2) by (simp add: tables_grow_def same_except_def)
  moreover have "rbind (drop_buffer b s) (free_node node) = Inr (s\<lparr>s_env := e3\<rparr>)"
    using 1(1) 2(1) assms(5) by (simp add: drop_buffer_def free_node_def)
  ultimately show ?thesis using that se 2(2) by blast
qed

text \<open>A connection between two frames: tables well formed, queue empty, room for a frame.\<close>

definition conn_ok :: "conn_cfg \<Rightarrow> nat \<Rightarrow> conn_state \<Rightarrow> bool" where
  "conn_ok c B s \<longleftrightarrow> hm_ok (cf_seed c) (pending_messages s) (s_env s) \<and>
     key_memory_allocator (pending_messages s) = Some Pending_message_key_pool \<and>
     hm_ok (cf_seed c) (packets_completed s) (s_env s) \<and>
     key_memory_allocator (packets_completed s) = Some Packet_completed_key_pool \<and>
     frame_queue s = empty_queue \<and> (\<forall>b. length (buffer_at s b) = B) \<and>
     0 < pool_avail (s_env s) Packet_buffer_pool \<and> 0 < pool_avail (s_env s) Packet_queue_node_pool"

lemma conn_ok_env: "conn_ok c B s \<Longrightarrow> env_ok (s_env s)"
  by (simp add: conn_ok_def hm_ok_def)

text \<open>The part of this that looking up and answering needs.\<close>

definition between_frames :: "conn_cfg \<Rightarrow> nat \<Rightarrow> conn_state \<Rightarrow> bool" where
  "between_frames c B s \<longleftrightarrow> env_ok (s_env s) \<and> hm_wf (cf_seed c) (pending_messages s) \<and> hm_wf (cf_seed c) (packets_completed s) \<and>
     frame_queue s = empty_queue \<and> (\<forall>b. length (buffer_at s b) = B) \<and>
     0 < pool_avail (s_env s) Packet_buffer_pool \<and> 0 < pool_avail (s_env s) Packet_queue_node_pool"

lemma conn_ok_between: "conn_ok c B s \<Longrightarrow> between_frames c B s"
  by (simp add: conn_ok_def between_frames_def hm_ok_def)

lemma between_lookup:
  assumes "between_frames c B s" and "pending_messages s' = pending_messages s" and "packets_completed s' = packets_completed s"
  shows "get_pending_message c i port s' = Inr (first_of (hm_abs (pending_messages s) (conn_key port i)))"
    and "check_packet_already_completed c i port s' = Inr (hm_abs (packets_completed s) (conn_key port i) \<noteq> [])"
proof -
  have "length (conn_key port i) = unat (4 :: u32)" by (simp add: conn_key_def)
  moreover have "hm_wf (cf_seed c) (pending_messages s)" "hm_wf (cf_seed c) (packets_completed s)"
    using assms(1) by (simp_all add: between_frames_def)
  ultimately show "get_pending_message c i port s' = Inr (first_of (hm_abs (pending_messages s) (conn_key port i)))"
    and "check_packet_already_completed c i port s' = Inr (hm_abs (packets_completed s) (conn_key port i) \<noteq> [])"
    using assms(2,3) by (simp_all add: get_pending_message_def check_packet_already_completed_def hashmap_get_abs first_of_def split: list.splits)
qed

lemmas conn_ok_lookup = between_lookup [OF conn_ok_between]

text \<open>
  A frame for this connection, and what the processing step does with it: the handler of
  its type runs in the state with the frame in a buffer \<open>b\<close> of the pool.
\<close>

definition addressed :: "conn_cfg \<Rightarrow> nat \<Rightarrow> u8 list \<Rightarrow> ip_header \<Rightarrow> packet_info \<Rightarrow> u8 list \<Rightarrow> bool" where
  "addressed c B link ip pi d \<longleftrightarrow> link_accepts (cf_net c) link \<and> ip_sum ip = 0 \<and> destination_port (ports pi) = cf_port c \<and>
     cf_prepend c + PACKET_HEADER_SIZE + length d \<le> B"

definition data_frame :: "conn_cfg \<Rightarrow> nat \<Rightarrow> u8 list \<Rightarrow> ip_header \<Rightarrow> packet_info \<Rightarrow> u8 list \<Rightarrow> bool" where
  "data_frame c B link ip pi d \<longleftrightarrow> addressed c B link ip pi d \<and> packet_type pi \<in> {MESSAGE, REQUEST, RESPONSE}"

lemma receive_addressed:
  assumes "between_frames c B s" and "addressed c B link ip pi d"
  obtains b node e nodes buf where "took_frame b node (s_env s) e" and "length buf = B"
    and "seg (cf_prepend c + PACKET_HEADER_SIZE) (length d) buf = d"
    and "receive_frame c r (frame link ip pi d) s =
      rbind (dispatch c r ip pi b buf (s\<lparr>s_env := e, frame_queue := empty_queue, frame_nodes := nodes, buffer_at := (buffer_at s)(b := buf)\<rparr>))
        (free_node node)"
proof -
  have acc: "link_accepts (cf_net c) link" using assms(2) by (simp add: addressed_def)
  then have l: "length link = cf_prepend c" by (simp add: link_accepts_def)
  have fit: "length (frame link ip pi d) \<le> B" using assms(2) l by (simp add: addressed_def)
  have c: "frame_queue s = empty_queue" "0 < pool_avail (s_env s) Packet_buffer_pool" "0 < pool_avail (s_env s) Packet_queue_node_pool"
    "\<forall>b. length (buffer_at s b) = B" "env_ok (s_env s)" using assms(1) by (simp_all add: between_frames_def)
  obtain b node e nodes where 1: "took_frame b node (s_env s) e"
    "receive_frame c r (frame link ip pi d) s =
      rbind (process_buffer c r b (of_nat (length (frame link ip pi d)))
        (s\<lparr>s_env := e, buffer_at := (buffer_at s)(b := frame link ip pi d @ drop (length (frame link ip pi d)) (buffer_at s b)),
           frame_queue := empty_queue, frame_nodes := nodes\<rparr>)) (free_node node)"
    by (rule receive_frame_run [OF c(5) c(1-4) fit acc])
  define buf where "buf = frame link (ip\<lparr>ip_len := ucast (of_nat (length (frame link ip pi d)) :: u32)\<rparr>) (pi\<lparr>checksum := 0\<rparr>) d @
    drop (length (frame link ip pi d)) (buffer_at s b)"
  have "length buf = B" using c(4) fit by (simp add: buf_def)
  moreover have "seg (cf_prepend c + PACKET_HEADER_SIZE) (length d) buf = d"
    using l by (simp add: buf_def frame_def seg_skip)
  moreover have "destination_port (ports pi) = cf_port c" "ip_sum ip = 0" using assms(2) by (simp_all add: addressed_def)
  ultimately show ?thesis
    using that [OF 1(1), of buf nodes] 1(2) process_buffer_frame [OF _ l, of _ b ip pi d]
    by (simp add: buf_def [symmetric] del: length_frame)
qed

lemma data_frame_dispatch: "data_frame c B link ip pi d \<Longrightarrow> dispatch c r ip pi b buf s = process_data c ip pi b buf s"
  by (auto simp: dispatch_def data_frame_def)

lemma receive_data_frame:
  assumes "conn_ok c B s" and "data_frame c B link ip pi d"
  obtains b node e nodes buf where "took_frame b node (s_env s) e" and "length buf = B"
    and "seg (cf_prepend c + PACKET_HEADER_SIZE) (length d) buf = d"
    and "receive_frame c r (frame link ip pi d) s =
      rbind (process_data c ip pi b buf (s\<lparr>s_env := e, frame_queue := empty_queue, frame_nodes := nodes, buffer_at := (buffer_at s)(b := buf)\<rparr>))
        (free_node node)"
proof -
  have ad: "addressed c B link ip pi d" using assms(2) by (simp add: data_frame_def)
  show ?thesis
    by (rule receive_addressed [OF conn_ok_between [OF assms(1)] ad, of r]) (rule that, simp_all add: data_frame_dispatch [OF assms(2)])
qed

section \<open>The chunks of one message\<close>

text \<open>Chunk \<open>j\<close> of the message \<open>msg\<close> with identifier \<open>i\<close> from \<open>port\<close>, in a frame for this connection.\<close>

definition chunk_for :: "conn_cfg \<Rightarrow> nat \<Rightarrow> nat \<Rightarrow> u8 list \<Rightarrow> u16 \<Rightarrow> u16 \<Rightarrow> nat \<Rightarrow> u8 list \<Rightarrow> ip_header \<Rightarrow> packet_info \<Rightarrow> bool" where
  "chunk_for c B cs msg i port j link ip info \<longleftrightarrow> data_frame c B link ip info (chunk_data cs msg j) \<and> info_for cs msg j info \<and>
     j < chunk_count cs (length msg) \<and> ip_id ip = i \<and> source_port (ports info) = port \<and> packet_type info \<noteq> RESPONSE \<and>
     unat (chunk_size (min_mtu (pi_mtu info) (cf_globals c))) = cs"

lemma chunk_for_cds:
  assumes "chunk_for c B cs msg i port j link ip info" and "splits cs msg"
  shows "unat (ucast (chunk_size (min_mtu (pi_mtu info) (cf_globals c))) :: u32) = cs"
  using assms by (simp add: chunk_for_def splits_def unsigned_ucast_eq take_bit_nat_eq_self)

text \<open>What a frame that delivers nothing leaves alone.\<close>

definition calm :: "conn_state \<Rightarrow> conn_state \<Rightarrow> bool" where
  "calm s s' \<longleftrightarrow> same_except {Packet_buffer_pool, Packet_queue_node_pool} (s_env s) (s_env s') \<and>
     pool_avail (s_env s') Packet_buffer_pool = pool_avail (s_env s) Packet_buffer_pool \<and>
     pool_avail (s_env s') Packet_queue_node_pool = pool_avail (s_env s) Packet_queue_node_pool \<and>
     pending_messages s' = pending_messages s \<and> packets_completed s' = packets_completed s \<and>
     callback_queue s' = callback_queue s \<and> callback_nodes s' = callback_nodes s \<and> packet_data_at s' = packet_data_at s"

lemma calm_refl: "calm s s"
  by (simp add: calm_def)

lemma calm_trans: "calm s1 s2 \<Longrightarrow> calm s2 s3 \<Longrightarrow> calm s1 s3"
  by (auto simp: calm_def same_except_def)

lemma calm_conn_ok:
  assumes "conn_ok c B s" and "calm s s'" and "tables_grow (s_env s) (s_env s')" and "frame_queue s' = empty_queue"
    and "\<forall>b. length (buffer_at s' b) = B"
  shows "conn_ok c B s'"
proof -
  have k: "key_memory_allocator (pending_messages s) = Some Pending_message_key_pool"
    "key_memory_allocator (packets_completed s) = Some Packet_completed_key_pool" using assms(1) by (simp_all add: conn_ok_def)
  have "hm_ok (cf_seed c) (pending_messages s) (s_env s')" "hm_ok (cf_seed c) (packets_completed s) (s_env s')"
    using assms(1) hm_ok_tables_grow [OF _ assms(3) k(1)] hm_ok_tables_grow [OF _ assms(3) k(2)] by (simp_all add: conn_ok_def)
  with assms k show ?thesis by (simp add: conn_ok_def calm_def)
qed

text \<open>
  Both ends of a frame whose buffer is given back: what the handler does in between, from
  the state with the frame in memory, touches only the messages under way and the wire.
\<close>

lemma receive_quiet:
  assumes "between_frames c B s" and "addressed c B link ip info d"
    and "\<And>b e nodes buf. length buf = B \<Longrightarrow> seg (cf_prepend c + PACKET_HEADER_SIZE) (length d) buf = d \<Longrightarrow> env_ok e \<Longrightarrow>
      \<exists>pa sa w. dispatch c r ip info b buf (s\<lparr>s_env := e, frame_queue := empty_queue, frame_nodes := nodes, buffer_at := (buffer_at s)(b := buf)\<rparr>) =
        drop_buffer b (s\<lparr>s_env := e, frame_queue := empty_queue, frame_nodes := nodes, buffer_at := (buffer_at s)(b := buf),
          pending_at := pa, sending_at := sa, wire := w\<rparr>) \<and> P pa sa w"
  shows "\<exists>s'. receive_frame c r (frame link ip info d) s = Inr s' \<and> between_frames c B s' \<and> calm s s' \<and>
     tables_grow (s_env s) (s_env s') \<and> packets_sending s' = packets_sending s \<and>
     P (pending_at s') (sending_at s') (wire s')"
proof -
  obtain b node e nodes buf where 1: "took_frame b node (s_env s) e" "length buf = B"
    "seg (cf_prepend c + PACKET_HEADER_SIZE) (length d) buf = d"
    "receive_frame c r (frame link ip info d) s =
      rbind (dispatch c r ip info b buf (s\<lparr>s_env := e, frame_queue := empty_queue, frame_nodes := nodes, buffer_at := (buffer_at s)(b := buf)\<rparr>))
        (free_node node)" by (rule receive_addressed [OF assms(1,2)])
  have ok: "env_ok e" using 1(1) by (simp add: took_frame_def)
  obtain pa sa w where 2: "dispatch c r ip info b buf (s\<lparr>s_env := e, frame_queue := empty_queue, frame_nodes := nodes, buffer_at := (buffer_at s)(b := buf)\<rparr>) =
      drop_buffer b (s\<lparr>s_env := e, frame_queue := empty_queue, frame_nodes := nodes, buffer_at := (buffer_at s)(b := buf),
          pending_at := pa, sending_at := sa, wire := w\<rparr>)" "P pa sa w" using assms(3) [OF 1(2,3) ok] by blast
  define s2 where "s2 = s\<lparr>s_env := e, frame_queue := empty_queue, frame_nodes := nodes, buffer_at := (buffer_at s)(b := buf),
          pending_at := pa, sending_at := sa, wire := w\<rparr>"
  have e2: "s_env s2 = e" by (simp add: s2_def)
  obtain e3 where 3: "rbind (drop_buffer b s2) (free_node node) = Inr (s2\<lparr>s_env := e3\<rparr>)" "tables_grow e e3" "env_ok e3"
    "same_except {Packet_buffer_pool, Packet_queue_node_pool} e e3"
    "pool_avail e3 Packet_buffer_pool = pool_avail (s_env s) Packet_buffer_pool"
    "pool_avail e3 Packet_queue_node_pool = pool_avail (s_env s) Packet_queue_node_pool"
    by (rule release_frame [OF 1(1) ok refl refl e2])
  let ?s = "s2\<lparr>s_env := e3\<rparr>"
  have "receive_frame c r (frame link ip info d) s = Inr ?s" unfolding 1(4) 2(1) s2_def [symmetric] by (rule 3(1))
  moreover have calm: "calm s ?s" using 1(1) 3(4-6) by (auto simp: calm_def s2_def took_frame_def same_except_def)
  moreover have "tables_grow (s_env s) (s_env ?s)" using tables_grow_trans [OF took_frame_tables [OF 1(1)] 3(2)] by simp
  moreover have "between_frames c B ?s" using assms(1) 1(2) 3(3,5,6) by (simp add: between_frames_def s2_def)
  moreover have "packets_sending ?s = packets_sending s" "P (pending_at ?s) (sending_at ?s) (wire ?s)" using 2(2) by (simp_all add: s2_def)
  ultimately show ?thesis by blast
qed

lemma receive_dropped:
  assumes "conn_ok c B s" and "data_frame c B link ip info d"
    and "\<And>b e nodes buf. length buf = B \<Longrightarrow> seg (cf_prepend c + PACKET_HEADER_SIZE) (length d) buf = d \<Longrightarrow> env_ok e \<Longrightarrow>
      \<exists>pa w. process_data c ip info b buf (s\<lparr>s_env := e, frame_queue := empty_queue, frame_nodes := nodes, buffer_at := (buffer_at s)(b := buf)\<rparr>) =
        drop_buffer b (s\<lparr>s_env := e, frame_queue := empty_queue, frame_nodes := nodes, buffer_at := (buffer_at s)(b := buf), pending_at := pa, wire := w\<rparr>) \<and> P pa"
  shows "\<exists>s'. receive_frame c r (frame link ip info d) s = Inr s' \<and> conn_ok c B s' \<and> calm s s' \<and> P (pending_at s')"
proof -
  have ad: "addressed c B link ip info d" using assms(2) by (simp add: data_frame_def)
  have "\<exists>s'. receive_frame c r (frame link ip info d) s = Inr s' \<and> between_frames c B s' \<and> calm s s' \<and>
     tables_grow (s_env s) (s_env s') \<and> packets_sending s' = packets_sending s \<and> P (pending_at s')"
  proof (rule receive_quiet [OF conn_ok_between [OF assms(1)] ad, where P = "\<lambda>pa sa w. P pa"])
    fix b e nodes buf assume "length buf = B" "seg (cf_prepend c + PACKET_HEADER_SIZE) (length d) buf = d" "env_ok e"
    let ?S = "s\<lparr>s_env := e, frame_queue := empty_queue, frame_nodes := nodes, buffer_at := (buffer_at s)(b := buf)\<rparr>"
    from assms(3) [OF \<open>length buf = B\<close> \<open>seg _ _ buf = d\<close> \<open>env_ok e\<close>] obtain pa w where
      1: "process_data c ip info b buf ?S = drop_buffer b (?S\<lparr>pending_at := pa, wire := w\<rparr>)" "P pa" by blast
    have "?S\<lparr>pending_at := pa, wire := w\<rparr> = ?S\<lparr>pending_at := pa, sending_at := sending_at s, wire := w\<rparr>" by simp
    with 1 show "\<exists>pa sa w. dispatch c r ip info b buf ?S = drop_buffer b (?S\<lparr>pending_at := pa, sending_at := sa, wire := w\<rparr>) \<and> P pa"
      unfolding data_frame_dispatch [OF assms(2)] by metis
  qed
  then obtain s' where s': "receive_frame c r (frame link ip info d) s = Inr s'" "between_frames c B s'" "calm s s'"
    "tables_grow (s_env s) (s_env s')" "P (pending_at s')" by blast
  have "conn_ok c B s'" by (rule calm_conn_ok [OF assms(1) s'(3,4)]) (use s'(2) in \<open>simp_all add: between_frames_def\<close>)
  with s' show ?thesis by blast
qed

text \<open>The message \<open>i\<close> of the sender at \<open>port\<close>, and what of a pending message never changes.\<close>

definition belongs :: "u16 \<Rightarrow> u16 \<Rightarrow> pending_message \<Rightarrow> bool" where
  "belongs i port x \<longleftrightarrow> pm_packet_id x = i \<and> pm_source_port x = port \<and> pm_data_at x \<noteq> None"

definition same_message :: "pending_message \<Rightarrow> pending_message \<Rightarrow> bool" where
  "same_message x x' \<longleftrightarrow> pm_data_at x' = pm_data_at x \<and> pm_chunks_at x' = pm_chunks_at x \<and>
     pm_source_port x' = pm_source_port x \<and> pm_packet_id x' = pm_packet_id x \<and> pm_info x' = pm_info x"

lemma belongs_same: "same_message x x' \<Longrightarrow> belongs i port x' = belongs i port x"
  by (simp add: same_message_def belongs_def)

text \<open>A message on its way: one pending entry, nothing completed, the chunks in \<open>R\<close> stored.\<close>

definition collecting ::
  "conn_cfg \<Rightarrow> nat \<Rightarrow> nat \<Rightarrow> u8 list \<Rightarrow> u16 \<Rightarrow> u16 \<Rightarrow> ptr \<Rightarrow> nat set \<Rightarrow> conn_state \<Rightarrow> bool" where
  "collecting c B cs msg i port pm R s \<longleftrightarrow> conn_ok c B s \<and> hm_abs (pending_messages s) (conn_key port i) = [pm] \<and>
     hm_abs (packets_completed s) (conn_key port i) = [] \<and>
     (\<exists>x. pending_at s pm = Some x \<and> progress cs msg R x \<and> belongs i port x)"

lemma internal_frame_eq:
  assumes "link_ok (cf_net c) (cf_eth c)"
  shows "internal_frame c ip pi payload = Inr (frame (link_bytes (cf_net c) (cf_eth c)) ip (sealed pi payload) payload)"
proof -
  let ?l = "link_bytes (cf_net c) (cf_eth c)"
  have ll: "length ?l = cf_prepend c" by (rule length_link [OF assms])
  have "packet_construction ip pi (cf_net c) (cf_eth c) (cf_prepend c + PACKET_HEADER_SIZE + length payload) =
      Inr (frame ?l ip pi (replicate (length payload) 0))" by (rule packet_construction_frame [OF assms refl])
  moreover have "memcpy_at (cf_prepend c + PACKET_HEADER_SIZE) payload (frame ?l ip pi (replicate (length payload) 0)) = Inr (frame ?l ip pi payload)"
    using ll memcpy_at_middle [of payload "replicate (length payload) 0" _ "frame ?l ip pi []" "[]"] by (simp add: frame_def)
  moreover note handle_checksum_frame [OF ll, of 0 "[]" "INFO_SIZE + length payload" payload ip pi "[]"]
  ultimately show ?thesis by (simp add: internal_frame_def)
qed

lemma rate_limit_ok:
  assumes "link_ok (cf_net c) (cf_eth c)"
  shows "\<exists>a b w. rate_limit c ip info x s = Inr (x\<lparr>last_chunks_received_number := a, last_index_checked := b\<rparr>, s\<lparr>wire := w\<rparr>)"
proof (cases "\<not> sending_lost_packets x \<and> 50 < chunk_index info - last_index_checked x")
  case True
  have "\<exists>fr. signal_delay_change c st ip (source_port (ports info)) s = Inr (s\<lparr>wire := wire s @ [fr]\<rparr>)" for st
    using internal_frame_eq [OF assms, of "construct_ip_header (cf_globals c) (ip_src ip) 45 (ip_id ip)"
      "construct_packet_info (cf_globals c) 1 PACKET_DELAY_UPDATE 1 0 \<lparr>destination_port = source_port (ports info), source_port = cf_port c\<rparr>" "[st]"]
    by (auto simp: signal_delay_change_def emit_def)
  then obtain fr where "signal_delay_change c (if ratio_above (chunks_received_number x - last_chunks_received_number x)
       (chunk_index info - last_index_checked x) then LOWER_DELAY else INCREASE_DELAY) ip (source_port (ports info)) s = Inr (s\<lparr>wire := wire s @ [fr]\<rparr>)" by blast
  with True show ?thesis unfolding rate_limit_def Let_def by (auto simp del: if_split)
next
  case False
  then have "rate_limit c ip info x s = Inr (x, s)" by (auto simp: rate_limit_def Let_def)
  then show ?thesis
    by (intro exI [of _ "last_chunks_received_number x"] exI [of _ "last_index_checked x"] exI [of _ "wire s"]) simp
qed

lemma progress_number:
  assumes "progress cs msg R x" and "splits cs msg" and "info_for cs msg j info" and "j < chunk_count cs (length msg)" and "j \<notin> R"
  shows "chunks_received_number x + 1 = chunk_amount info \<longleftrightarrow> insert j R = {0..<chunk_count cs (length msg)}"
proof -
  let ?N = "chunk_count cs (length msg)"
  have R: "R \<subseteq> {0..<?N}" "unat (chunks_received_number x) = card R" using assms(1) by (simp_all add: progress_def)
  have sub: "insert j R \<subseteq> {0..<?N}" "finite R" using R(1) assms(4) finite_subset by auto
  then have card: "card (insert j R) = Suc (card R)" "card (insert j R) \<le> ?N" using assms(5) card_mono [OF _ sub(1)] by auto
  then have "unat (chunks_received_number x + 1) = card (insert j R)"
    using R(2) chunk_count_bound [OF assms(2)] by (simp add: unat_word_ariths)
  then have "chunks_received_number x + 1 = chunk_amount info \<longleftrightarrow> card (insert j R) = ?N"
    using info_for_unat(2) [OF assms(2-4)] by (simp add: word_unat_eq_iff)
  also have "\<dots> \<longleftrightarrow> insert j R = {0..<?N}" using card_subset_eq [OF _ sub(1)] by auto
  finally show ?thesis .
qed

lemma progress_seen:
  assumes "progress cs msg R x" and "splits cs msg" and "info_for cs msg j info" and "j < chunk_count cs (length msg)"
  shows "chunk_already_received (pm_chunks x) (chunk_index info) = Inr (j \<in> R)"
  using assms info_for_unat(3) [OF assms(2-4)] by (simp add: progress_def chunk_already_received_def)

lemma progress_cong: "progress cs msg R (x\<lparr>last_chunks_received_number := a, last_index_checked := b\<rparr>) = progress cs msg R x"
  by (simp add: progress_def)

text \<open>A further chunk that does not complete the message, or one that came before.\<close>

lemma next_chunk_middle:
  assumes "progress cs msg R x" and "splits cs msg" and "info_for cs msg j info" and "j < chunk_count cs (length msg)"
    and "j \<in> R \<or> insert j R \<noteq> {0..<chunk_count cs (length msg)}" and "unat cds = cs" and "pending_at s pm = Some x"
    and "link_ok (cf_net c) (cf_eth c)"
    and "seg (cf_prepend c + PACKET_HEADER_SIZE) (length (chunk_data cs msg j)) buf = chunk_data cs msg j"
    and "cf_prepend c + PACKET_HEADER_SIZE + length (chunk_data cs msg j) \<le> length buf"
  shows "\<exists>x' w. next_chunk c cds ip info sender buf pm s = Inr (s\<lparr>pending_at := (pending_at s)(pm \<mapsto> x'), wire := w\<rparr>) \<and>
     progress cs msg (insert j R) x' \<and> same_message x x'"
proof (cases "j \<in> R")
  case True
  have "s\<lparr>pending_at := (pending_at s)(pm \<mapsto> x), wire := wire s\<rparr> = s" using assms(7) by (simp add: fun_upd_idem)
  moreover have "next_chunk c cds ip info sender buf pm s = Inr s"
    using progress_seen [OF assms(1-4)] True assms(7) by (simp add: next_chunk_def)
  ultimately show ?thesis using assms(1) True by (intro exI [of _ x] exI [of _ "wire s"]) (simp add: insert_absorb same_message_def)
next
  case False
  obtain n where n: "chunk_bytes cds info = Inr n" "unat n = length (chunk_data cs msg j)"
    using chunk_bytes_ok [OF assms(2-4,6)] by blast
  obtain a b w where r: "rate_limit c ip info x s = Inr (x\<lparr>last_chunks_received_number := a, last_index_checked := b\<rparr>, s\<lparr>wire := w\<rparr>)"
    using rate_limit_ok [OF assms(8)] by blast
  let ?x1 = "x\<lparr>last_chunks_received_number := a, last_index_checked := b\<rparr>"
  have "progress cs msg R ?x1" using assms(1) by (simp only: progress_cong)
  from store_chunk_ok [OF this assms(2-4) False assms(6) n(2) assms(9,10)] obtain x' where
    x': "store_chunk c cds info n buf ?x1 = Inr x'" "progress cs msg (insert j R) x'"
      "x' = ?x1\<lparr>pm_data := pm_data x', pm_chunks := pm_chunks x', chunks_received_number := chunks_received_number ?x1 + 1\<rparr>" by blast
  have "same_message x x'" unfolding same_message_def by (intro conjI; subst x'(3)) simp_all
  moreover have "chunks_received_number x + 1 \<noteq> chunk_amount info"
    using progress_number [OF assms(1-4) False] assms(5) False by simp
  then have "next_chunk c cds ip info sender buf pm s = Inr (s\<lparr>pending_at := (pending_at s)(pm \<mapsto> x'), wire := w\<rparr>)"
    using progress_seen [OF assms(1-4)] False assms(7) n(1) r x'(1) by (simp add: next_chunk_def)
  ultimately show ?thesis using x'(2) by blast
qed

lemma collect_middle:
  assumes "collecting c B cs msg i port pm R s" and "splits cs msg" and "chunk_for c B cs msg i port j link ip info"
    and "link_ok (cf_net c) (cf_eth c)" and "j \<in> R \<or> insert j R \<noteq> {0..<chunk_count cs (length msg)}"
  shows "\<exists>s'. receive_frame c r (frame link ip info (chunk_data cs msg j)) s = Inr s' \<and>
     collecting c B cs msg i port pm (insert j R) s' \<and> calm s s'"
proof -
  let ?d = "chunk_data cs msg j" let ?P = "\<lambda>pa. \<exists>x. pa pm = Some x \<and> progress cs msg (insert j R) x \<and> belongs i port x"
  have ok: "conn_ok c B s" "hm_abs (pending_messages s) (conn_key port i) = [pm]" "hm_abs (packets_completed s) (conn_key port i) = []"
    using assms(1) by (simp_all add: collecting_def)
  obtain x where x: "pending_at s pm = Some x" "progress cs msg R x" "belongs i port x" using assms(1) by (auto simp: collecting_def)
  have cf: "data_frame c B link ip info ?d" "info_for cs msg j info" "j < chunk_count cs (length msg)" "ip_id ip = i" "source_port (ports info) = port"
    using assms(3) by (simp_all add: chunk_for_def)
  note cds = chunk_for_cds [OF assms(3,2)]
  have fit: "cf_prepend c + PACKET_HEADER_SIZE + length ?d \<le> B" using cf(1) by (simp add: data_frame_def addressed_def)
  have "\<exists>s'. receive_frame c r (frame link ip info ?d) s = Inr s' \<and> conn_ok c B s' \<and> calm s s' \<and> ?P (pending_at s')"
  proof (rule receive_dropped [OF ok(1) cf(1)])
    fix b e nodes buf assume buf: "length buf = B" "seg (cf_prepend c + PACKET_HEADER_SIZE) (length ?d) buf = ?d"
    let ?s = "s\<lparr>s_env := e, frame_queue := empty_queue, frame_nodes := nodes, buffer_at := (buffer_at s)(b := buf)\<rparr>"
    have xs: "pending_at ?s pm = Some x" using x(1) by simp
    have "cf_prepend c + PACKET_HEADER_SIZE + length ?d \<le> length buf" using fit buf(1) by simp
    from next_chunk_middle [OF x(2) assms(2) cf(2,3) assms(5) cds xs assms(4) buf(2) this, of ip "sender_of c info"] obtain x' w where
      n: "next_chunk c (ucast (chunk_size (min_mtu (pi_mtu info) (cf_globals c)))) ip info (sender_of c info) buf pm ?s =
          Inr (?s\<lparr>pending_at := (pending_at s)(pm \<mapsto> x'), wire := w\<rparr>)" "progress cs msg (insert j R) x'" "same_message x x'" by auto
    have "process_data c ip info b buf ?s = drop_buffer b (?s\<lparr>pending_at := (pending_at s)(pm \<mapsto> x'), wire := w\<rparr>)"
      using n(1) conn_ok_lookup [OF ok(1), of ?s i port] ok(2,3) cf(4,5) by (simp add: process_data_def first_of_def)
    moreover have "?P ((pending_at s)(pm \<mapsto> x'))" using n(2) x(3) belongs_same [OF n(3)] by simp
    ultimately show "\<exists>pa w. process_data c ip info b buf ?s = drop_buffer b (?s\<lparr>pending_at := pa, wire := w\<rparr>) \<and> ?P pa" by blast
  qed
  then show ?thesis using ok(2,3) by (fastforce simp: collecting_def calm_def)
qed

section \<open>The first chunk\<close>

definition same_pools :: "pool_id set \<Rightarrow> env \<Rightarrow> env \<Rightarrow> bool" where
  "same_pools I e e' \<longleftrightarrow> (\<forall>i. i \<notin> I \<longrightarrow> pool e' i = pool e i)"

lemma same_except_pools: "same_except I e e' \<Longrightarrow> same_pools I e e'"
  by (simp add: same_except_def same_pools_def)

lemma same_pools_trans: "same_pools I e1 e2 \<Longrightarrow> same_pools J e2 e3 \<Longrightarrow> same_pools (I \<union> J) e1 e3"
  by (simp add: same_pools_def)

text \<open>What entering a new message takes.\<close>

definition pending_room :: "conn_state \<Rightarrow> nat \<Rightarrow> bool" where
  "pending_room s k \<longleftrightarrow> hm_size (pending_messages s) + 1 < hm_capacity (pending_messages s) \<and>
     0 < pool_avail (s_env s) Pending_messages_pool \<and> 0 < pool_avail (s_env s) Pending_message_key_pool \<and>
     0 < pool_avail (s_env s) Hashmap_item_pool \<and> heap_room k (c_heap (s_env s))"

lemma create_new_pending_message_ok:
  assumes "hm_ok (cf_seed c) (pending_messages s) (s_env s)" and "key_memory_allocator (pending_messages s) = Some Pending_message_key_pool"
    and "pending_room s (max 1 (unat (packet_length info)) + max 1 (unat ((chunk_amount info + 7) div 8)))"
  obtains pm e hm da ca where "create_new_pending_message c info i port s = Inr (pm, s\<lparr>s_env := e, pending_messages := hm,
       pending_at := (pending_at s)(pm \<mapsto> \<lparr>pm_info = info, pm_chunks_at = Some ca, pm_chunks = replicate (unat ((chunk_amount info + 7) div 8)) 0,
         pm_data_at = Some da, pm_data = replicate (unat (packet_length info)) 0,
         chunks_received_length = (chunk_amount info + 7) div 8, chunks_received_number = 0, last_index_checked = 0,
         last_chunks_received_number = 0, pm_source_port = port, pm_packet_id = i, sending_lost_packets = False\<rparr>)\<rparr>)"
    and "hm_ok (cf_seed c) hm e" and "hm_abs hm = (hm_abs (pending_messages s))(conn_key port i := hm_abs (pending_messages s) (conn_key port i) @ [pm])"
    and "key_memory_allocator hm = Some Pending_message_key_pool" and "env_grows (s_env s) e"
    and "same_pools {Pending_messages_pool, Pending_message_key_pool, Hashmap_item_pool} (s_env s) e"
    and "pool_avail (s_env s) Hashmap_item_pool \<le> Suc (pool_avail e Hashmap_item_pool)"
    and "da \<in> dom (blocks (c_heap e))" and "ca \<in> dom (blocks (c_heap e))" and "da \<noteq> ca"
    and "pm \<in> pool_live e Pending_messages_pool"
proof -
  let ?n = "unat ((chunk_amount info + 7) div 8)" let ?l = "unat (packet_length info)" let ?hm = "pending_messages s"
  have room: "hm_size ?hm + 1 < hm_capacity ?hm" "0 < pool_avail (s_env s) Pending_messages_pool"
    "0 < pool_avail (s_env s) Pending_message_key_pool" "0 < pool_avail (s_env s) Hashmap_item_pool"
    "heap_room (max 1 ?l + max 1 ?n) (c_heap (s_env s))" using assms(3) by (simp_all add: pending_room_def)
  have env: "env_ok (s_env s)" using assms(1) by (simp add: hm_ok_def)
  from take_item [OF env room(2)] obtain pm e1 where
    1: "pool_allocate Pending_messages_pool (s_env s) = Inr (pm, e1)" "env_grows (s_env s) e1" "pm \<in> pool_live e1 Pending_messages_pool"
      "same_except {Pending_messages_pool} (s_env s) e1" by blast
  have h1: "env_ok e1" "heap_room (max 1 ?l + max 1 ?n) (c_heap e1)" using 1(2,4) room(5) by (simp_all add: env_grows_def same_except_def)
  obtain da e2 where 2: "env_malloc ?l e1 = (Some da, e2)" "env_grows e1 e2" "pool e2 = pool e1"
    "heap_room (max 1 ?l + max 1 ?n - max 1 ?l) (c_heap e2)" "da \<notin> dom (blocks (c_heap e1))" "da \<in> dom (blocks (c_heap e2))"
    by (rule take_block [OF h1 le_add1])
  have h2: "env_ok e2" "heap_room (max 1 ?n) (c_heap e2)" using 2(2,4) by (simp_all add: env_grows_def)
  obtain ca e3 where 3: "env_malloc ?n e2 = (Some ca, e3)" "env_grows e2 e3" "pool e3 = pool e2"
    "heap_room (max 1 ?n - max 1 ?n) (c_heap e3)" "ca \<notin> dom (blocks (c_heap e2))" "ca \<in> dom (blocks (c_heap e3))"
    by (rule take_block [OF h2 order.refl])
  have g3: "env_grows (s_env s) e3" using 1(2) 2(2) 3(2) by (blast intro: env_grows_trans)
  have p3: "pool e3 = pool e1" using 2(3) 3(3) by simp
  have a: "0 < pool_avail e3 Pending_message_key_pool" "0 < pool_avail e3 Hashmap_item_pool" "pool_avail e3 Hashmap_item_pool = pool_avail (s_env s) Hashmap_item_pool"
    using room(3,4) 1(4) by (simp_all add: p3 same_except_def)
  have "length (conn_key port i) = unat (4 :: u32)" by (simp add: conn_key_def)
  then obtain key e4 hm e5 where 4: "pool_allocate Pending_message_key_pool e3 = Inr (key, e4)"
    "hashmap_insert (cf_seed c) key (conn_key port i) 4 (Some pm) ?hm e4 = Inr (hm, e5)" "hm_ok (cf_seed c) hm e5"
    "hm_abs hm = (hm_abs ?hm)(conn_key port i := hm_abs ?hm (conn_key port i) @ [pm])" "env_grows e3 e5"
    "same_except {Pending_message_key_pool, Hashmap_item_pool} e3 e5" "key_memory_allocator hm = Some Pending_message_key_pool"
    "pool_avail e3 Hashmap_item_pool \<le> Suc (pool_avail e5 Hashmap_item_pool)" "hm_capacity hm = hm_capacity ?hm" "hm_size hm = hm_size ?hm + 1"
    by (rule enter_key [OF hm_ok_grows [OF assms(1) g3] assms(2) _ room(1) a(1,2)])
  have "env_grows (s_env s) e5" by (rule env_grows_trans [OF g3 4(5)])
  moreover have "same_pools {Pending_messages_pool, Pending_message_key_pool, Hashmap_item_pool} (s_env s) e5"
    using 1(4) 4(6) p3 by (auto simp: same_pools_def same_except_def)
  moreover have "da \<in> dom (blocks (c_heap e5))" "ca \<in> dom (blocks (c_heap e5))" "da \<noteq> ca"
    using 2(6) 3(2,5,6) 4(5) unfolding env_grows_def by blast+
  moreover have "pm \<in> pool_live e5 Pending_messages_pool" using 1(3) p3 4(5) by (auto simp: env_grows_def)
  ultimately show ?thesis
    using that [where pm = pm and e = e5 and hm = hm and da = da and ca = ca] 4 a(3) 1(1) 2(1) 3(1) by (simp add: create_new_pending_message_def Let_def)
qed

lemma progress_first:
  assumes "splits cs msg" and "length (pm_data x) = length msg" and "pm_data x = put 0 (chunk_data cs msg 0) ys"
    and "length ys = length msg" and "pm_chunks x = bits_set (replicate ((chunk_count cs (length msg) + 7) div 8) 0) 0"
    and "chunks_received_number x = 1" and "chunk_amount (pm_info x) = of_nat (chunk_count cs (length msg))"
  shows "progress cs msg {0} x"
proof -
  let ?N = "chunk_count cs (length msg)"
  define y where "y = x\<lparr>pm_data := ys, pm_chunks := replicate ((?N + 7) div 8) 0, chunks_received_number := 0\<rparr>"
  have cs: "0 < cs" "0 < ?N" using assms(1) chunk_count_index [of cs 0 "length msg"] by (auto simp: splits_def)
  have "progress cs msg {} y" using assms(4,7) by (simp add: progress_def y_def)
  from progress_store [OF this cs, of x] assms(3,5,6) show ?thesis by (simp add: y_def)
qed

lemma hm_ok_took_frame:
  assumes "conn_ok c B s" and "took_frame b node (s_env s) e"
  shows "hm_ok (cf_seed c) (pending_messages s) e" and "hm_ok (cf_seed c) (packets_completed s) e"
proof -
  note g = took_frame_tables [OF assms(2)]
  have "hm_ok (cf_seed c) (pending_messages s) (s_env s)" "key_memory_allocator (pending_messages s) = Some Pending_message_key_pool"
    using assms(1) by (simp_all add: conn_ok_def)
  from hm_ok_tables_grow [OF this(1) g this(2)] show "hm_ok (cf_seed c) (pending_messages s) e" by simp
  have "hm_ok (cf_seed c) (packets_completed s) (s_env s)" "key_memory_allocator (packets_completed s) = Some Packet_completed_key_pool"
    using assms(1) by (simp_all add: conn_ok_def)
  from hm_ok_tables_grow [OF this(1) g this(2)] show "hm_ok (cf_seed c) (packets_completed s) e" by simp
qed

text \<open>The first chunk of a message to arrive, in a message made for it: its data goes to offset 0.\<close>

definition opened :: "u16 \<Rightarrow> packet_info \<Rightarrow> nat \<Rightarrow> u8 list \<Rightarrow> pending_message \<Rightarrow> bool" where
  "opened i info k t x \<longleftrightarrow> pm_info x = info \<and> pm_chunks x = bits_set (replicate k 0) (unat (chunk_index info)) \<and>
     pm_data x = put 0 t (replicate (unat (packet_length info)) 0) \<and> chunks_received_number x = 1 \<and> belongs i (source_port (ports info)) x"

lemma first_chunk_ok:
  assumes "hm_ok (cf_seed c) (pending_messages s) (s_env s)" and "key_memory_allocator (pending_messages s) = Some Pending_message_key_pool"
    and "unat cds < unat (packet_length info)" and "k = unat ((chunk_amount info + 7) div 8)" and "unat (chunk_index info) div 8 < k"
    and "pending_room s (unat (packet_length info) + k)" and "cf_prepend c + PACKET_HEADER_SIZE + unat cds \<le> length buf"
  obtains pm e hm x where "first_chunk c cds ip info buf s =
      Inr (s\<lparr>s_env := e, pending_messages := hm, pending_at := (pending_at s)(pm \<mapsto> x)\<rparr>)"
    and "opened (ip_id ip) info k (seg (cf_prepend c + PACKET_HEADER_SIZE) (unat cds) buf) x" and "hm_ok (cf_seed c) hm e"
    and "hm_abs hm = (hm_abs (pending_messages s))(conn_key (source_port (ports info)) (ip_id ip) :=
       hm_abs (pending_messages s) (conn_key (source_port (ports info)) (ip_id ip)) @ [pm])"
    and "key_memory_allocator hm = Some Pending_message_key_pool" and "env_grows (s_env s) e"
    and "same_pools {Pending_messages_pool, Pending_message_key_pool, Hashmap_item_pool} (s_env s) e"
    and "pool_avail (s_env s) Hashmap_item_pool \<le> Suc (pool_avail e Hashmap_item_pool)"
proof -
  let ?port = "source_port (ports info)" let ?L = "unat (packet_length info)" let ?t = "seg (cf_prepend c + PACKET_HEADER_SIZE) (unat cds) buf"
  have "pending_room s (max 1 ?L + max 1 (unat ((chunk_amount info + 7) div 8)))" using assms(3-6) by (simp add: max_def)
  then obtain pm e hm da ca where 1: "create_new_pending_message c info (ip_id ip) ?port s = Inr (pm, s\<lparr>s_env := e, pending_messages := hm,
       pending_at := (pending_at s)(pm \<mapsto> \<lparr>pm_info = info, pm_chunks_at = Some ca, pm_chunks = replicate (unat ((chunk_amount info + 7) div 8)) 0,
         pm_data_at = Some da, pm_data = replicate ?L 0,
         chunks_received_length = (chunk_amount info + 7) div 8, chunks_received_number = 0, last_index_checked = 0,
         last_chunks_received_number = 0, pm_source_port = ?port, pm_packet_id = ip_id ip, sending_lost_packets = False\<rparr>)\<rparr>)"
    "hm_ok (cf_seed c) hm e" "hm_abs hm = (hm_abs (pending_messages s))(conn_key ?port (ip_id ip) := hm_abs (pending_messages s) (conn_key ?port (ip_id ip)) @ [pm])"
    "key_memory_allocator hm = Some Pending_message_key_pool" "env_grows (s_env s) e"
    "same_pools {Pending_messages_pool, Pending_message_key_pool, Hashmap_item_pool} (s_env s) e"
    "pool_avail (s_env s) Hashmap_item_pool \<le> Suc (pool_avail e Hashmap_item_pool)"
    "da \<in> dom (blocks (c_heap e))" "ca \<in> dom (blocks (c_heap e))" "da \<noteq> ca" "pm \<in> pool_live e Pending_messages_pool"
    by (rule create_new_pending_message_ok [OF assms(1,2)])
  have cr: "chunk_received (replicate k 0) (chunk_index info) = Inr (bits_set (replicate k 0) (unat (chunk_index info)))"
    using assms(5) by (simp add: chunk_received_def)
  have rd: "read_at (cf_prepend c + PACKET_HEADER_SIZE) (unat cds) buf = Inr ?t" using assms(7) by (simp add: read_at_def)
  have cp: "memcpy_at 0 ?t (replicate ?L 0) = Inr (put 0 ?t (replicate ?L 0))" using assms(3,7) by (simp add: memcpy_at_def)
  let ?x = "\<lparr>pm_info = info, pm_chunks_at = Some ca, pm_chunks = bits_set (replicate k 0) (unat (chunk_index info)),
         pm_data_at = Some da, pm_data = put 0 ?t (replicate ?L 0),
         chunks_received_length = (chunk_amount info + 7) div 8, chunks_received_number = 1, last_index_checked = 0,
         last_chunks_received_number = 0, pm_source_port = ?port, pm_packet_id = ip_id ip, sending_lost_packets = False\<rparr>"
  have "first_chunk c cds ip info buf s = Inr (s\<lparr>s_env := e, pending_messages := hm, pending_at := (pending_at s)(pm \<mapsto> ?x)\<rparr>)"
    using 1(1) cr rd cp assms(4) by (simp add: first_chunk_def)
  moreover have "opened (ip_id ip) info k ?t ?x" by (simp add: opened_def belongs_def)
  ultimately show ?thesis using 1(2-7) by (rule that)
qed

text \<open>What the first frame of a message changes.\<close>

definition begun :: "conn_cfg \<Rightarrow> nat \<Rightarrow> u16 \<Rightarrow> u16 \<Rightarrow> ptr \<Rightarrow> pending_message \<Rightarrow> conn_state \<Rightarrow> conn_state \<Rightarrow> bool" where
  "begun c B i port pm x s s' \<longleftrightarrow> conn_ok c B s' \<and> hm_abs (pending_messages s') (conn_key port i) = [pm] \<and> pending_at s' pm = Some x \<and>
     packets_completed s' = packets_completed s \<and> callback_queue s' = callback_queue s \<and> callback_nodes s' = callback_nodes s \<and>
     same_pools {Packet_buffer_pool, Packet_queue_node_pool, Pending_messages_pool, Pending_message_key_pool, Hashmap_item_pool} (s_env s) (s_env s') \<and>
     pool_avail (s_env s) Hashmap_item_pool \<le> Suc (pool_avail (s_env s') Hashmap_item_pool)"

lemma receive_first:
  assumes "conn_ok c B s" and "data_frame c B link ip info d" and "ip_id ip = i" and "source_port (ports info) = port"
    and "hm_abs (pending_messages s) (conn_key port i) = []" and "hm_abs (packets_completed s) (conn_key port i) = []"
    and "unat (ucast (chunk_size (min_mtu (pi_mtu info) (cf_globals c))) :: u32) = cs" and "cs < unat (packet_length info)"
    and "k = unat ((chunk_amount info + 7) div 8)" and "unat (chunk_index info) div 8 < k"
    and "pending_room s (unat (packet_length info) + k)" and "cf_prepend c + PACKET_HEADER_SIZE + cs \<le> B"
  obtains s' pm x t where "receive_frame c r (frame link ip info d) s = Inr s'" and "begun c B i port pm x s s'"
    and "opened i info k t x" and "length t = cs" and "take (length d) t = take cs d"
proof -
  let ?cds = "ucast (chunk_size (min_mtu (pi_mtu info) (cf_globals c))) :: u32"
  obtain b node e nodes buf where 1: "took_frame b node (s_env s) e" "length buf = B"
    "seg (cf_prepend c + PACKET_HEADER_SIZE) (length d) buf = d"
    "receive_frame c r (frame link ip info d) s =
      rbind (process_data c ip info b buf (s\<lparr>s_env := e, frame_queue := empty_queue, frame_nodes := nodes, buffer_at := (buffer_at s)(b := buf)\<rparr>))
        (free_node node)" by (rule receive_data_frame [OF assms(1,2)])
  define s1 where "s1 = s\<lparr>s_env := e, frame_queue := empty_queue, frame_nodes := nodes, buffer_at := (buffer_at s)(b := buf)\<rparr>"
  let ?t = "seg (cf_prepend c + PACKET_HEADER_SIZE) (unat ?cds) buf"
  have t: "length ?t = cs" "take (length d) ?t = take cs d"
    using assms(7,12) 1(2,3) by (simp_all add: seg_def) (metis min.commute take_take)
  have eq: "pool e x = pool (s_env s) x" if "x \<noteq> Packet_buffer_pool" "x \<noteq> Packet_queue_node_pool" for x
    using 1(1) that by (auto simp: took_frame_def same_except_def)
  have h1: "pending_room s1 (unat (packet_length info) + k)"
    using assms(11) 1(1) by (simp add: pending_room_def s1_def eq took_frame_def same_except_def)
  have h2: "hm_ok (cf_seed c) (pending_messages s1) (s_env s1)" using hm_ok_took_frame(1) [OF assms(1) 1(1)] by (simp add: s1_def)
  have h3: "key_memory_allocator (pending_messages s1) = Some Pending_message_key_pool" using assms(1) by (simp add: conn_ok_def s1_def)
  have h4: "unat ?cds < unat (packet_length info)" "cf_prepend c + PACKET_HEADER_SIZE + unat ?cds \<le> length buf" using assms(7,8,12) 1(2) by simp_all
  obtain pm e2 hm x where 2: "first_chunk c ?cds ip info buf s1 =
      Inr (s1\<lparr>s_env := e2, pending_messages := hm, pending_at := (pending_at s1)(pm \<mapsto> x)\<rparr>)"
    "opened (ip_id ip) info k ?t x" "hm_ok (cf_seed c) hm e2" "hm_abs hm = (hm_abs (pending_messages s1))(conn_key (source_port (ports info)) (ip_id ip) :=
       hm_abs (pending_messages s1) (conn_key (source_port (ports info)) (ip_id ip)) @ [pm])"
    "key_memory_allocator hm = Some Pending_message_key_pool" "env_grows (s_env s1) e2"
    "same_pools {Pending_messages_pool, Pending_message_key_pool, Hashmap_item_pool} (s_env s1) e2"
    "pool_avail (s_env s1) Hashmap_item_pool \<le> Suc (pool_avail e2 Hashmap_item_pool)"
    by (rule first_chunk_ok [OF h2 h3 h4(1) assms(9,10) h1 h4(2)])
  define s2 where "s2 = s1\<lparr>s_env := e2, pending_messages := hm, pending_at := (pending_at s1)(pm \<mapsto> x)\<rparr>"
  have "?cds < packet_length info" using h4(1) by (simp add: word_less_nat_alt)
  then have run: "process_data c ip info b buf s1 = drop_buffer b s2"
    using 2(1) conn_ok_lookup [OF assms(1), of s1 i port] assms(3-6)
    by (simp add: process_data_def first_of_def s2_def s1_def)
  have ok2: "env_ok e2" using 2(6) by (simp add: env_grows_def)
  have p2: "pool e2 Packet_buffer_pool = pool e Packet_buffer_pool" "pool e2 Packet_queue_node_pool = pool e Packet_queue_node_pool"
    using 2(7) by (simp_all add: same_pools_def s1_def)
  have e2: "s_env s2 = e2" by (simp add: s2_def)
  obtain e3 where 3: "rbind (drop_buffer b s2) (free_node node) = Inr (s2\<lparr>s_env := e3\<rparr>)" "tables_grow e2 e3" "env_ok e3"
    "same_except {Packet_buffer_pool, Packet_queue_node_pool} e2 e3"
    "pool_avail e3 Packet_buffer_pool = pool_avail (s_env s) Packet_buffer_pool"
    "pool_avail e3 Packet_queue_node_pool = pool_avail (s_env s) Packet_queue_node_pool"
    by (rule release_frame [OF 1(1) ok2 p2 e2])
  let ?s = "s2\<lparr>s_env := e3\<rparr>"
  have "hm_ok (cf_seed c) hm e3" using hm_ok_tables_grow [OF 2(3) 3(2) 2(5)] by simp
  moreover have kc: "key_memory_allocator (packets_completed s) = Some Packet_completed_key_pool" using assms(1) by (simp add: conn_ok_def)
  moreover have "hm_ok (cf_seed c) (packets_completed s) e2"
    using hm_ok_grows [OF hm_ok_took_frame(2) [OF assms(1) 1(1)]] 2(6) by (simp add: s1_def)
  from hm_ok_tables_grow [OF this 3(2) kc] have "hm_ok (cf_seed c) (packets_completed s) e3" by simp
  ultimately have ok: "conn_ok c B ?s" using 2(5) 3(5,6) assms(1) 1(2) by (simp add: conn_ok_def s2_def s1_def)
  have "same_pools {Packet_buffer_pool, Packet_queue_node_pool, Pending_messages_pool, Pending_message_key_pool, Hashmap_item_pool} (s_env s) (s_env ?s)"
    using 2(7) 3(4) eq by (simp add: same_pools_def same_except_def s1_def)
  moreover have "pool_avail (s_env s) Hashmap_item_pool \<le> Suc (pool_avail (s_env ?s) Hashmap_item_pool)"
    using 2(8) 3(4) eq [of Hashmap_item_pool] by (simp add: same_except_def s1_def)
  ultimately have "begun c B i port pm x s ?s" using ok 2(4) assms(3-5) by (simp add: begun_def s2_def s1_def)
  moreover have "receive_frame c r (frame link ip info d) s = Inr ?s" using 1(4) run 3(1) by (simp add: s1_def)
  ultimately show ?thesis using that 2(2) assms(3) t by blast
qed

lemma collect_first:
  assumes "conn_ok c B s" and "splits cs msg" and "chunk_for c B cs msg i port 0 link ip info"
    and "hm_abs (pending_messages s) (conn_key port i) = []" and "hm_abs (packets_completed s) (conn_key port i) = []"
    and "pending_room s (length msg + (chunk_count cs (length msg) + 7) div 8)"
  obtains s' pm x where "receive_frame c r (frame link ip info (chunk_data cs msg 0)) s = Inr s'"
    and "collecting c B cs msg i port pm {0} s'" and "begun c B i port pm x s s'"
proof -
  let ?d = "chunk_data cs msg 0" let ?N = "chunk_count cs (length msg)" let ?k = "(?N + 7) div 8"
  have cf: "data_frame c B link ip info ?d" "info_for cs msg 0 info" "0 < ?N" "ip_id ip = i" "source_port (ports info) = port"
    using assms(3) by (simp_all add: chunk_for_def)
  have cs: "0 < cs" "cs < length msg" using assms(2) by (auto simp: splits_def)
  note cds = chunk_for_cds [OF assms(3,2)] and u = info_for_unat [OF assms(2) cf(2,3)]
  have ld: "length ?d = cs" using cs by (simp add: length_chunk_data)
  have n: "?k = unat ((chunk_amount info + 7) div 8)" using u(2) chunk_count_bound [OF assms(2)] by (simp add: unat_div unat_word_ariths)
  have h: "cs < unat (packet_length info)" "unat (chunk_index info) div 8 < ?k" "pending_room s (unat (packet_length info) + ?k)"
    "cf_prepend c + PACKET_HEADER_SIZE + cs \<le> B" using cs u cf(1,3) ld assms(6) by (simp_all add: data_frame_def addressed_def)
  obtain s' pm x t where 1: "receive_frame c r (frame link ip info ?d) s = Inr s'" "begun c B i port pm x s s'" "opened i info ?k t x"
    "length t = cs" "take (length ?d) t = take cs ?d" by (rule receive_first [OF assms(1) cf(1,4,5) assms(4,5) cds h(1) n h(2-4)])
  have "t = ?d" using 1(4,5) ld by simp
  then have "progress cs msg {0} x" using 1(3) u ld cs
    by (intro progress_first [OF assms(2), where ys = "replicate (length msg) 0"]) (simp_all add: opened_def cf(2) [unfolded info_for_def])
  then have col: "collecting c B cs msg i port pm {0} s'" using 1(2,3) assms(5) cf(5) by (simp add: collecting_def begun_def opened_def)
  show ?thesis by (rule that [OF 1(1) col 1(2)])
qed

section \<open>The last chunk\<close>

text \<open>The bytes behind a delivered packet, as the application reads them.\<close>

definition packet_bytes :: "conn_cfg \<Rightarrow> conn_state \<Rightarrow> ptr \<Rightarrow> u8 list option" where
  "packet_bytes c s pd =
     (case packet_data_at s pd of
        None \<Rightarrow> None
      | Some d \<Rightarrow>
          (case internal_pending_message d of
             Some pm \<Rightarrow> map_option (\<lambda>x. take (unat (md_data_length d)) (pm_data x)) (pending_at s pm)
           | None \<Rightarrow> Some (seg (cf_prepend c + PACKET_HEADER_SIZE) (unat (md_data_length d))
                      (buffer_at s (pd_data d - PACKET_HEADER_SIZE - cf_prepend c)))))"

definition callback_message :: "conn_cfg \<Rightarrow> conn_state \<Rightarrow> ptr \<Rightarrow> u8 list option" where
  "callback_message c s node =
     (case callback_nodes s node of None \<Rightarrow> None | Some n \<Rightarrow> Option.bind (cb_packet_data (q_item n)) (packet_bytes c s))"

text \<open>What completing and delivering a message takes.\<close>

definition complete_room :: "conn_state \<Rightarrow> bool" where
  "complete_room s \<longleftrightarrow> hm_size (packets_completed s) + 1 < hm_capacity (packets_completed s) \<and>
     0 < pool_avail (s_env s) Packets_completed_pool \<and> 0 < pool_avail (s_env s) Uint16_pool \<and>
     0 < pool_avail (s_env s) Packet_completed_key_pool \<and> 0 < pool_avail (s_env s) Hashmap_item_pool"

definition handover_room :: "conn_cfg \<Rightarrow> ptr list \<Rightarrow> conn_state \<Rightarrow> bool" where
  "handover_room c ps s \<longleftrightarrow> 0 < pool_avail (s_env s) (packet_data_pool (cf_type c)) \<and>
     0 < pool_avail (s_env s) Packet_callback_queue_node_pool \<and>
     q_rep (callback_queue s) (callback_nodes s) ps \<and> set ps \<subseteq> pool_live (s_env s) Packet_callback_queue_node_pool"

lemma packet_data_pool_cases: "packet_data_pool ty = Server_packet_data_pool \<or> packet_data_pool ty = Client_packet_data_pool"
  by (cases ty) (simp_all add: packet_data_pool_def)

lemma packet_completed_ok:
  assumes "hm_ok (cf_seed c) (packets_completed s) (s_env s)" and "key_memory_allocator (packets_completed s) = Some Packet_completed_key_pool"
    and "complete_room s"
  obtains e hm item where "packet_completed c i port s = Inr (s\<lparr>s_env := e, packets_completed := hm,
       completed_at := (completed_at s)(item \<mapsto> \<lparr>completed_packet_id = i, marked_cleanup = False\<rparr>)\<rparr>)"
    and "hm_ok (cf_seed c) hm e" and "hm_abs hm = (hm_abs (packets_completed s))(conn_key port i := hm_abs (packets_completed s) (conn_key port i) @ [item])"
    and "key_memory_allocator hm = Some Packet_completed_key_pool" and "env_grows (s_env s) e"
    and "same_except {Packets_completed_pool, Uint16_pool, Packet_completed_key_pool, Hashmap_item_pool} (s_env s) e"
proof -
  let ?hm = "packets_completed s"
  have r: "hm_size ?hm + 1 < hm_capacity ?hm" "0 < pool_avail (s_env s) Packets_completed_pool" "0 < pool_avail (s_env s) Uint16_pool"
    "0 < pool_avail (s_env s) Packet_completed_key_pool" "0 < pool_avail (s_env s) Hashmap_item_pool"
    using assms(3) by (simp_all add: complete_room_def)
  have env: "env_ok (s_env s)" using assms(1) by (simp add: hm_ok_def)
  from take_item [OF env r(2)] obtain item e1 where
    1: "pool_allocate Packets_completed_pool (s_env s) = Inr (item, e1)" "env_grows (s_env s) e1"
      "same_except {Packets_completed_pool} (s_env s) e1" by blast
  have "env_ok e1" "0 < pool_avail e1 Uint16_pool" using 1(2,3) r(3) by (simp_all add: env_grows_def same_except_def)
  from take_item [OF this] obtain u e2 where
    2: "pool_allocate Uint16_pool e1 = Inr (u, e2)" "env_grows e1 e2" "same_except {Uint16_pool} e1 e2" by blast
  have g: "env_grows (s_env s) e2" by (rule env_grows_trans [OF 1(2) 2(2)])
  have a: "0 < pool_avail e2 Packet_completed_key_pool" "0 < pool_avail e2 Hashmap_item_pool"
    using r(4,5) 1(3) 2(3) by (simp_all add: same_except_def)
  have "length (conn_key port i) = unat (4 :: u32)" by (simp add: conn_key_def)
  then obtain key e3 hm e4 where 3: "pool_allocate Packet_completed_key_pool e2 = Inr (key, e3)"
    "hashmap_insert (cf_seed c) key (conn_key port i) 4 (Some item) ?hm e3 = Inr (hm, e4)" "hm_ok (cf_seed c) hm e4"
    "hm_abs hm = (hm_abs ?hm)(conn_key port i := hm_abs ?hm (conn_key port i) @ [item])" "env_grows e2 e4"
    "same_except {Packet_completed_key_pool, Hashmap_item_pool} e2 e4" "key_memory_allocator hm = Some Packet_completed_key_pool"
    "pool_avail e2 Hashmap_item_pool \<le> Suc (pool_avail e4 Hashmap_item_pool)" "hm_capacity hm = hm_capacity ?hm" "hm_size hm = hm_size ?hm + 1"
    by (rule enter_key [OF hm_ok_grows [OF assms(1) g] assms(2) _ r(1) a])
  have "packet_completed c i port s = Inr (s\<lparr>s_env := e4, packets_completed := hm,
       completed_at := (completed_at s)(item \<mapsto> \<lparr>completed_packet_id = i, marked_cleanup = False\<rparr>)\<rparr>)"
    using 1(1) 2(1) 3(1,2) by (simp add: packet_completed_def)
  moreover note 3(3,4,7) env_grows_trans [OF g 3(5)]
  moreover have "same_except {Packets_completed_pool, Uint16_pool, Packet_completed_key_pool, Hashmap_item_pool} (s_env s) e4"
    using 1(3) 2(3) 3(6) by (simp add: same_except_def)
  ultimately show ?thesis by (rule that)
qed

lemma deliver_ok:
  assumes "env_ok (s_env s)" and "handover_room c ps s" and "packet_type info \<noteq> RESPONSE"
  obtains pd node e q nodes where "deliver c info i sender at pending s = Inr (s\<lparr>s_env := e,
       packet_data_at := (packet_data_at s)(pd \<mapsto>
                 \<lparr>internal_pending_message = pending, pd_data = at, current_pointer = at,
                  md_sender = (if cf_type c = CONNECTION_TYPE_SERVER then Some sender else None),
                  md_data_length = packet_length info, md_ports = ports info, md_packet_id = i,
                  expecting_response = (packet_type info = REQUEST)\<rparr>),
       callback_queue := q, callback_nodes := nodes\<rparr>)"
    and "q_rep q nodes (ps @ [node])"
    and "map_option q_item (nodes node) = Some \<lparr>cb_pending_message = pending, cb_packet_data = Some pd, cb_packet_id = i\<rparr>"
    and "\<forall>n \<in> set ps. map_option q_item (nodes n) = map_option q_item (callback_nodes s n)"
    and "env_grows (s_env s) e"
    and "same_except {packet_data_pool (cf_type c), Packet_callback_queue_node_pool} (s_env s) e"
    and "set (ps @ [node]) \<subseteq> pool_live e Packet_callback_queue_node_pool"
proof -
  let ?dp = "packet_data_pool (cf_type c)"
  have r: "0 < pool_avail (s_env s) ?dp" "0 < pool_avail (s_env s) Packet_callback_queue_node_pool"
    "q_rep (callback_queue s) (callback_nodes s) ps" "set ps \<subseteq> pool_live (s_env s) Packet_callback_queue_node_pool"
    using assms(2) by (simp_all add: handover_room_def)
  have dp: "?dp \<noteq> Packet_callback_queue_node_pool" using packet_data_pool_cases [of "cf_type c"] by auto
  from take_item [OF assms(1) r(1)] obtain pd e1 where
    1: "pool_allocate ?dp (s_env s) = Inr (pd, e1)" "env_grows (s_env s) e1" "same_except {?dp} (s_env s) e1" by blast
  have "env_ok e1" "0 < pool_avail e1 Packet_callback_queue_node_pool" using 1(2,3) r(2) dp by (simp_all add: env_grows_def same_except_def)
  from take_item [OF this] obtain node e2 where
    2: "pool_allocate Packet_callback_queue_node_pool e1 = Inr (node, e2)" "env_grows e1 e2" "node \<notin> pool_live e1 Packet_callback_queue_node_pool"
      "node \<in> pool_live e2 Packet_callback_queue_node_pool" "same_except {Packet_callback_queue_node_pool} e1 e2" by blast
  have fresh: "node \<notin> set ps" using 2(3) r(4) 1(3) dp by (auto simp: same_except_def)
  let ?n = "\<lparr>q_next = None, q_item = \<lparr>cb_pending_message = pending, cb_packet_data = Some pd, cb_packet_id = i\<rparr>\<rparr>"
  let ?st = "(callback_nodes s)(node \<mapsto> ?n)"
  have "q_rep (callback_queue s) ?st ps" using r(3) fresh by (simp add: q_rep_def)
  from insert_queue_node_rep [OF this fresh, of ?n] obtain q nodes where
    3: "insert_queue_node (Some node) (callback_queue s) ?st = Inr (q, nodes)" "q_rep q nodes (ps @ [node])"
      "\<forall>x. map_option q_item (nodes x) = map_option q_item (?st x)" by auto
  have nd: "map_option q_item (nodes node) = Some (q_item ?n)" using 3(3) by simp
  have old: "\<forall>n \<in> set ps. map_option q_item (nodes n) = map_option q_item (callback_nodes s n)" using 3(3) fresh by auto
  have g: "env_grows (s_env s) e2" by (rule env_grows_trans [OF 1(2) 2(2)])
  have se: "same_except {?dp, Packet_callback_queue_node_pool} (s_env s) e2" using 1(3) 2(5) by (simp add: same_except_def)
  have live: "set (ps @ [node]) \<subseteq> pool_live e2 Packet_callback_queue_node_pool" 
  proof -
    have "set ps \<subseteq> pool_live e2 Packet_callback_queue_node_pool" using order.trans [OF r(4)] g by (simp add: env_grows_def)
    with 2(4) show ?thesis by simp
  qed
  show ?thesis
    using that [OF _ 3(2) _ old g se live, of pd] nd 1(1) 2(1) 3(1) assms(3)
    by (simp add: deliver_def pass_callback_execution_def callback_queue_same Let_def)
qed

text \<open>The message has been handed to the callback queue as its last node.\<close>

definition handed_over :: "u8 list \<Rightarrow> u16 \<Rightarrow> u16 \<Rightarrow> ptr list \<Rightarrow> ptr \<Rightarrow> ptr \<Rightarrow> conn_state \<Rightarrow> bool" where
  "handed_over msg i port ps node pm s \<longleftrightarrow> q_rep (callback_queue s) (callback_nodes s) (ps @ [node]) \<and>
     set (ps @ [node]) \<subseteq> pool_live (s_env s) Packet_callback_queue_node_pool \<and>
     (\<exists>pd d x. map_option q_item (callback_nodes s node) = Some \<lparr>cb_pending_message = Some pm, cb_packet_data = Some pd, cb_packet_id = i\<rparr> \<and>
        packet_data_at s pd = Some d \<and> internal_pending_message d = Some pm \<and> md_data_length d = of_nat (length msg) \<and> md_packet_id d = i \<and>
        pending_at s pm = Some x \<and> pm_data x = msg \<and> belongs i port x)"

lemma handed_over_message:
  assumes "handed_over msg i port ps node pm s" and "length msg < 2 ^ 32"
  shows "callback_message c s node = Some msg"
proof -
  obtain pd d x n where h: "callback_nodes s node = Some n" "q_item n = \<lparr>cb_pending_message = Some pm, cb_packet_data = Some pd, cb_packet_id = i\<rparr>"
    "packet_data_at s pd = Some d" "internal_pending_message d = Some pm" "md_data_length d = of_nat (length msg)"
    "pending_at s pm = Some x" "pm_data x = msg" using assms(1) by (auto simp: handed_over_def)
  have "unat (md_data_length d) = length msg" using h(5) assms(2) by (simp add: unat_of_nat)
  with h show ?thesis by (simp add: callback_message_def packet_bytes_def)
qed

lemma handed_over_calm:
  "handed_over msg i port ps node pm s \<Longrightarrow> calm s s' \<Longrightarrow> pending_at s' = pending_at s \<Longrightarrow> handed_over msg i port ps node pm s'"
  by (simp add: handed_over_def calm_def same_except_def)

lemma last_chunk_ok:
  assumes "progress cs msg R x" and "splits cs msg" and "info_for cs msg j info" and "j < chunk_count cs (length msg)" and "j \<notin> R"
    and "insert j R = {0..<chunk_count cs (length msg)}" and "unat cds = cs" and "belongs (ip_id ip) (source_port (ports info)) x"
    and "unat n = length (chunk_data cs msg j)"
    and "seg (cf_prepend c + PACKET_HEADER_SIZE) (length (chunk_data cs msg j)) buf = chunk_data cs msg j"
    and "cf_prepend c + PACKET_HEADER_SIZE + length (chunk_data cs msg j) \<le> length buf"
    and "hm_ok (cf_seed c) (packets_completed s) (s_env s)" and "key_memory_allocator (packets_completed s) = Some Packet_completed_key_pool"
    and "complete_room s" and "handover_room c ps s" and "packet_type info \<noteq> RESPONSE"
  obtains s' node where "last_chunk c cds ip info n sender buf pm x s = Inr s'" and "handed_over msg (ip_id ip) (source_port (ports info)) ps node pm s'"
    and "hm_ok (cf_seed c) (packets_completed s') (s_env s')"
    and "hm_abs (packets_completed s') (conn_key (source_port (ports info)) (ip_id ip)) \<noteq> []"
    and "key_memory_allocator (packets_completed s') = Some Packet_completed_key_pool" and "env_grows (s_env s) (s_env s')"
    and "same_except {Packets_completed_pool, Uint16_pool, Packet_completed_key_pool, Hashmap_item_pool, packet_data_pool (cf_type c),
      Packet_callback_queue_node_pool} (s_env s) (s_env s')"
    and "pending_messages s' = pending_messages s" and "frame_queue s' = frame_queue s" and "buffer_at s' = buffer_at s"
proof -
  let ?N = "chunk_count cs (length msg)" let ?port = "source_port (ports info)"
  have cs: "0 < cs" "cs < 2 ^ 16" using assms(2) by (simp_all add: splits_def)
  note u = info_for_unat [OF assms(2-4)]
  from store_chunk_ok [OF assms(1-5,7,9-11)] obtain x1 where
    1: "store_chunk c cds info n buf x = Inr x1" "progress cs msg (insert j R) x1"
      "x1 = x\<lparr>pm_data := pm_data x1, pm_chunks := pm_chunks x1, chunks_received_number := chunks_received_number x + 1\<rparr>" by blast
  have data: "pm_data x1 = msg" by (rule progress_complete [OF 1(2) assms(6) cs(1)])
  have "same_message x x1" unfolding same_message_def by (intro conjI; subst 1(3)) simp_all
  then have own: "belongs (ip_id ip) ?port x1" using assms(8) belongs_same by blast
  then obtain q where q: "pm_data_at x1 = Some q" by (auto simp: belongs_def)
  have lost: "\<exists>l. return_lost_chunk_indexes (pm_chunks x1) (chunk_amount info) cds = Inr l"
    using return_lost_spec [of "chunk_amount info" cds "pm_chunks x1"] u(2) chunk_count_bound [OF assms(2)] assms(7) cs(2) 1(2)
    by (simp add: progress_def)
  define s1 where "s1 = s\<lparr>pending_at := (pending_at s)(pm \<mapsto> x1)\<rparr>"
  have r1: "hm_ok (cf_seed c) (packets_completed s1) (s_env s1)" "key_memory_allocator (packets_completed s1) = Some Packet_completed_key_pool" "complete_room s1"
    using assms(12-14) by (simp_all add: s1_def complete_room_def)
  obtain e hm item where 2: "packet_completed c (ip_id ip) ?port s1 = Inr (s1\<lparr>s_env := e, packets_completed := hm,
       completed_at := (completed_at s1)(item \<mapsto> \<lparr>completed_packet_id = ip_id ip, marked_cleanup = False\<rparr>)\<rparr>)"
    "hm_ok (cf_seed c) hm e" "hm_abs hm = (hm_abs (packets_completed s1))(conn_key ?port (ip_id ip) := hm_abs (packets_completed s1) (conn_key ?port (ip_id ip)) @ [item])"
    "key_memory_allocator hm = Some Packet_completed_key_pool" "env_grows (s_env s1) e"
    "same_except {Packets_completed_pool, Uint16_pool, Packet_completed_key_pool, Hashmap_item_pool} (s_env s1) e"
    by (rule packet_completed_ok [OF r1])
  define s2 where "s2 = s1\<lparr>s_env := e, packets_completed := hm,
       completed_at := (completed_at s1)(item \<mapsto> \<lparr>completed_packet_id = ip_id ip, marked_cleanup = False\<rparr>)\<rparr>"
  have ok2: "env_ok (s_env s2)" using 2(5) by (simp add: s2_def env_grows_def)
  have "pool e (packet_data_pool (cf_type c)) = pool (s_env s) (packet_data_pool (cf_type c))"
    "pool e Packet_callback_queue_node_pool = pool (s_env s) Packet_callback_queue_node_pool"
    using 2(6) packet_data_pool_cases [of "cf_type c"] by (auto simp: same_except_def s1_def)
  then have h2: "handover_room c ps s2" using assms(15) by (simp add: handover_room_def s2_def s1_def)
  obtain pd node e3 cq nodes where 3: "deliver c info (ip_id ip) sender q (Some pm) s2 = Inr (s2\<lparr>s_env := e3,
       packet_data_at := (packet_data_at s2)(pd \<mapsto>
                 \<lparr>internal_pending_message = Some pm, pd_data = q, current_pointer = q,
                  md_sender = (if cf_type c = CONNECTION_TYPE_SERVER then Some sender else None),
                  md_data_length = packet_length info, md_ports = ports info, md_packet_id = ip_id ip,
                  expecting_response = (packet_type info = REQUEST)\<rparr>),
       callback_queue := cq, callback_nodes := nodes\<rparr>)"
    "q_rep cq nodes (ps @ [node])"
    "map_option q_item (nodes node) = Some \<lparr>cb_pending_message = Some pm, cb_packet_data = Some pd, cb_packet_id = ip_id ip\<rparr>"
    "\<forall>n \<in> set ps. map_option q_item (nodes n) = map_option q_item (callback_nodes s2 n)"
    "env_grows (s_env s2) e3" "same_except {packet_data_pool (cf_type c), Packet_callback_queue_node_pool} (s_env s2) e3"
    "set (ps @ [node]) \<subseteq> pool_live e3 Packet_callback_queue_node_pool"
    by (rule deliver_ok [OF ok2 h2 assms(16)])
  define s3 where "s3 = s2\<lparr>s_env := e3,
       packet_data_at := (packet_data_at s2)(pd \<mapsto>
                 \<lparr>internal_pending_message = Some pm, pd_data = q, current_pointer = q,
                  md_sender = (if cf_type c = CONNECTION_TYPE_SERVER then Some sender else None),
                  md_data_length = packet_length info, md_ports = ports info, md_packet_id = ip_id ip,
                  expecting_response = (packet_type info = REQUEST)\<rparr>),
       callback_queue := cq, callback_nodes := nodes\<rparr>"
  have "last_chunk c cds ip info n sender buf pm x s = Inr s3"
    using 1(1) lost 2(1) q 3(1) by (auto simp: last_chunk_def s3_def s2_def s1_def)
  moreover have "handed_over msg (ip_id ip) ?port ps node pm s3"
  proof -
    have "q_rep (callback_queue s3) (callback_nodes s3) (ps @ [node])"
      "map_option q_item (callback_nodes s3 node) = Some \<lparr>cb_pending_message = Some pm, cb_packet_data = Some pd, cb_packet_id = ip_id ip\<rparr>"
      "pending_at s3 pm = Some x1" "set (ps @ [node]) \<subseteq> pool_live (s_env s3) Packet_callback_queue_node_pool" using 3(2,3,7) by (simp_all add: s3_def s2_def s1_def)
    moreover have "\<exists>d. packet_data_at s3 pd = Some d \<and> internal_pending_message d = Some pm \<and>
        md_data_length d = of_nat (length msg) \<and> md_packet_id d = ip_id ip" using assms(3) by (simp add: s3_def info_for_def)
    ultimately show ?thesis unfolding handed_over_def using data own by blast
  qed
  moreover have "hm_ok (cf_seed c) (packets_completed s3) (s_env s3)" using hm_ok_grows [OF 2(2)] 3(5) by (simp add: s3_def s2_def)
  moreover have "hm_abs (packets_completed s3) (conn_key ?port (ip_id ip)) \<noteq> []" using 2(3) by (simp add: s3_def s2_def)
  moreover have "key_memory_allocator (packets_completed s3) = Some Packet_completed_key_pool" using 2(4) by (simp add: s3_def s2_def)
  moreover have "env_grows (s_env s) (s_env s3)" using env_grows_trans [of "s_env s" e e3] 2(5) 3(5) by (simp add: s3_def s2_def s1_def)
  moreover have "same_except {Packets_completed_pool, Uint16_pool, Packet_completed_key_pool, Hashmap_item_pool, packet_data_pool (cf_type c),
      Packet_callback_queue_node_pool} (s_env s) (s_env s3)" using 2(6) 3(6) by (simp add: same_except_def s3_def s2_def s1_def)
  moreover have "pending_messages s3 = pending_messages s" "frame_queue s3 = frame_queue s" "buffer_at s3 = buffer_at s"
    by (simp_all add: s3_def s2_def s1_def)
  ultimately show ?thesis by (rule that)
qed

text \<open>A message delivered: completed once and for all, and the last of the callback queue.\<close>

definition finished :: "conn_cfg \<Rightarrow> nat \<Rightarrow> u8 list \<Rightarrow> u16 \<Rightarrow> u16 \<Rightarrow> ptr list \<Rightarrow> ptr \<Rightarrow> conn_state \<Rightarrow> bool" where
  "finished c B msg i port ps node s \<longleftrightarrow> conn_ok c B s \<and> hm_abs (packets_completed s) (conn_key port i) \<noteq> [] \<and>
     (\<exists>pm. hm_abs (pending_messages s) (conn_key port i) = [pm] \<and> handed_over msg i port ps node pm s)"

lemma collect_last:
  assumes "collecting c B cs msg i port pm R s" and "splits cs msg" and "chunk_for c B cs msg i port j link ip info"
    and "j \<notin> R" and "insert j R = {0..<chunk_count cs (length msg)}" and "complete_room s" and "handover_room c ps s"
  shows "\<exists>s' node. receive_frame c r (frame link ip info (chunk_data cs msg j)) s = Inr s' \<and> finished c B msg i port ps node s'"
proof -
  let ?d = "chunk_data cs msg j" let ?cds = "ucast (chunk_size (min_mtu (pi_mtu info) (cf_globals c))) :: u32"
  have ok: "conn_ok c B s" "hm_abs (pending_messages s) (conn_key port i) = [pm]" "hm_abs (packets_completed s) (conn_key port i) = []"
    using assms(1) by (simp_all add: collecting_def)
  obtain x where x: "pending_at s pm = Some x" "progress cs msg R x" "belongs i port x" using assms(1) by (auto simp: collecting_def)
  have cf: "data_frame c B link ip info ?d" "info_for cs msg j info" "j < chunk_count cs (length msg)" "ip_id ip = i" "source_port (ports info) = port"
    "packet_type info \<noteq> RESPONSE" using assms(3) by (simp_all add: chunk_for_def)
  note cds = chunk_for_cds [OF assms(3,2)]
  obtain n where n: "chunk_bytes ?cds info = Inr n" "unat n = length ?d" using chunk_bytes_ok [OF assms(2) cf(2,3) cds] by blast
  obtain b node e nodes buf where 1: "took_frame b node (s_env s) e" "length buf = B"
    "seg (cf_prepend c + PACKET_HEADER_SIZE) (length ?d) buf = ?d"
    "receive_frame c r (frame link ip info ?d) s =
      rbind (process_data c ip info b buf (s\<lparr>s_env := e, frame_queue := empty_queue, frame_nodes := nodes, buffer_at := (buffer_at s)(b := buf)\<rparr>))
        (free_node node)" by (rule receive_data_frame [OF ok(1) cf(1)])
  define s1 where "s1 = s\<lparr>s_env := e, frame_queue := empty_queue, frame_nodes := nodes, buffer_at := (buffer_at s)(b := buf)\<rparr>"
  have eq: "pool e y = pool (s_env s) y" if "y \<noteq> Packet_buffer_pool" "y \<noteq> Packet_queue_node_pool" for y
    using 1(1) that by (auto simp: took_frame_def same_except_def)
  have fit: "cf_prepend c + PACKET_HEADER_SIZE + length ?d \<le> length buf" using cf(1) 1(2) by (simp add: data_frame_def addressed_def)
  have c1: "hm_ok (cf_seed c) (packets_completed s1) (s_env s1)" "key_memory_allocator (packets_completed s1) = Some Packet_completed_key_pool"
    using hm_ok_took_frame(2) [OF ok(1) 1(1)] ok(1) by (simp_all add: s1_def conn_ok_def)
  have r1: "complete_room s1" "handover_room c ps s1"
    using assms(6,7) eq packet_data_pool_cases [of "cf_type c"] by (auto simp: complete_room_def handover_room_def s1_def)
  obtain s2 cb where 2: "last_chunk c ?cds ip info n (sender_of c info) buf pm x s1 = Inr s2" "handed_over msg (ip_id ip) (source_port (ports info)) ps cb pm s2"
    "hm_ok (cf_seed c) (packets_completed s2) (s_env s2)" "hm_abs (packets_completed s2) (conn_key (source_port (ports info)) (ip_id ip)) \<noteq> []"
    "key_memory_allocator (packets_completed s2) = Some Packet_completed_key_pool" "env_grows (s_env s1) (s_env s2)"
    "same_except {Packets_completed_pool, Uint16_pool, Packet_completed_key_pool, Hashmap_item_pool, packet_data_pool (cf_type c),
      Packet_callback_queue_node_pool} (s_env s1) (s_env s2)"
    "pending_messages s2 = pending_messages s1" "frame_queue s2 = frame_queue s1" "buffer_at s2 = buffer_at s1"
    by (rule last_chunk_ok [OF x(2) assms(2) cf(2,3) assms(4,5) cds x(3) [folded cf(4,5)] n(2) 1(3) fit c1 r1 cf(6)])
  have num: "chunks_received_number x + 1 = chunk_amount info" using progress_number [OF x(2) assms(2) cf(2,3) assms(4)] assms(5) by simp
  have "next_chunk c ?cds ip info (sender_of c info) buf pm s1 = Inr s2"
    using progress_seen [OF x(2) assms(2) cf(2,3)] assms(4) x(1) n(1) num 2(1) by (simp add: next_chunk_def s1_def)
  then have run: "process_data c ip info b buf s1 = drop_buffer b s2"
    using conn_ok_lookup [OF ok(1), of s1 i port] ok(2,3) cf(4,5) by (simp add: process_data_def first_of_def s1_def)
  have ok2: "env_ok (s_env s2)" using 2(6) by (simp add: env_grows_def)
  have p2: "pool (s_env s2) Packet_buffer_pool = pool e Packet_buffer_pool" "pool (s_env s2) Packet_queue_node_pool = pool e Packet_queue_node_pool"
    using 2(7) packet_data_pool_cases [of "cf_type c"] by (auto simp: same_except_def s1_def)
  obtain e3 where 3: "rbind (drop_buffer b s2) (free_node node) = Inr (s2\<lparr>s_env := e3\<rparr>)" "tables_grow (s_env s2) e3" "env_ok e3"
    "same_except {Packet_buffer_pool, Packet_queue_node_pool} (s_env s2) e3"
    "pool_avail e3 Packet_buffer_pool = pool_avail (s_env s) Packet_buffer_pool"
    "pool_avail e3 Packet_queue_node_pool = pool_avail (s_env s) Packet_queue_node_pool"
    by (rule release_frame [OF 1(1) ok2 p2 refl])
  let ?s = "s2\<lparr>s_env := e3\<rparr>"
  have kp: "key_memory_allocator (pending_messages s) = Some Pending_message_key_pool" using ok(1) by (simp add: conn_ok_def)
  have "hm_ok (cf_seed c) (pending_messages s) (s_env s2)"
    using hm_ok_grows [OF hm_ok_took_frame(1) [OF ok(1) 1(1)]] 2(6) by (simp add: s1_def)
  from hm_ok_tables_grow [OF this 3(2) kp] have "hm_ok (cf_seed c) (pending_messages ?s) (s_env ?s)" using 2(8) by (simp add: s1_def)
  moreover have "hm_ok (cf_seed c) (packets_completed ?s) (s_env ?s)" using hm_ok_tables_grow [OF 2(3) 3(2) 2(5)] by simp
  ultimately have "conn_ok c B ?s" using kp 2(5,8-10) 3(5,6) ok(1) 1(2) by (simp add: conn_ok_def s1_def)
  moreover have "handed_over msg i port ps cb pm ?s" using 2(2) cf(4,5) 3(4) by (simp add: handed_over_def same_except_def)
  moreover have "hm_abs (pending_messages ?s) (conn_key port i) = [pm]" using ok(2) 2(8) by (simp add: s1_def)
  ultimately have "finished c B msg i port ps cb ?s" using 2(4) cf(4,5) by (simp add: finished_def)
  moreover have "receive_frame c r (frame link ip info ?d) s = Inr ?s" using 1(4) run 3(1) by (simp add: s1_def)
  ultimately show ?thesis by blast
qed

text \<open>Frames of a message that has been delivered are dropped.\<close>

lemma receive_after:
  assumes "finished c B msg i port ps node s" and "data_frame c B link ip info d" and "ip_id ip = i" and "source_port (ports info) = port"
  shows "\<exists>s'. receive_frame c r (frame link ip info d) s = Inr s' \<and> finished c B msg i port ps node s'"
proof -
  have ok: "conn_ok c B s" "hm_abs (packets_completed s) (conn_key port i) \<noteq> []" using assms(1) by (simp_all add: finished_def)
  have "\<exists>s'. receive_frame c r (frame link ip info d) s = Inr s' \<and> conn_ok c B s' \<and> calm s s' \<and> pending_at s' = pending_at s"
  proof (rule receive_dropped [OF ok(1) assms(2)])
    fix b e nodes buf
    let ?s = "s\<lparr>s_env := e, frame_queue := empty_queue, frame_nodes := nodes, buffer_at := (buffer_at s)(b := buf)\<rparr>"
    have "process_data c ip info b buf ?s = drop_buffer b ?s"
      using conn_ok_lookup(2) [OF ok(1), of ?s i port] ok(2) assms(3,4) by (simp add: process_data_def)
    then show "\<exists>pa w. process_data c ip info b buf ?s = drop_buffer b (?s\<lparr>pending_at := pa, wire := w\<rparr>) \<and> pa = pending_at s"
      by (intro exI [of _ "pending_at s"] exI [of _ "wire s"]) simp
  qed
  then obtain s' where s': "receive_frame c r (frame link ip info d) s = Inr s'" "conn_ok c B s'" "calm s s'" "pending_at s' = pending_at s" by blast
  from assms(1) obtain pm where pm: "hm_abs (pending_messages s) (conn_key port i) = [pm]" "handed_over msg i port ps node pm s"
    by (auto simp: finished_def)
  have "finished c B msg i port ps node s'"
    using s'(2,3) ok(2) pm(1) handed_over_calm [OF pm(2) s'(3,4)] by (simp add: finished_def calm_def)
  with s'(1) show ?thesis by blast
qed

primrec receive_frames :: "conn_cfg \<Rightarrow> u16 \<Rightarrow> u8 list list \<Rightarrow> conn_state \<Rightarrow> conn_state res" where
  "receive_frames c r [] s = Inr s"
| "receive_frames c r (fr # frs) s = rbind (receive_frame c r fr s) (receive_frames c r frs)"

text \<open>A frame that carries a chunk, by the chunk's index and the frame's headers.\<close>

type_synonym carrier = "nat \<times> u8 list \<times> ip_header \<times> packet_info"

definition carried :: "nat \<Rightarrow> u8 list \<Rightarrow> carrier \<Rightarrow> u8 list" where
  "carried cs msg f = (case f of (j, link, ip, info) \<Rightarrow> frame link ip info (chunk_data cs msg j))"

definition carries :: "conn_cfg \<Rightarrow> nat \<Rightarrow> nat \<Rightarrow> u8 list \<Rightarrow> u16 \<Rightarrow> u16 \<Rightarrow> carrier \<Rightarrow> bool" where
  "carries c B cs msg i port f = (case f of (j, link, ip, info) \<Rightarrow> chunk_for c B cs msg i port j link ip info)"

lemma receive_all_after:
  assumes "finished c B msg i port ps node s" and "\<forall>f \<in> set fs. carries c B cs msg i port f"
  shows "\<exists>s'. receive_frames c r (map (carried cs msg) fs) s = Inr s' \<and> finished c B msg i port ps node s'"
  using assms
proof (induction fs arbitrary: s)
  case (Cons f fs)
  obtain j link ip info where f: "f = (j, link, ip, info)" by (cases f)
  have "data_frame c B link ip info (chunk_data cs msg j)" "ip_id ip = i" "source_port (ports info) = port"
    using Cons.prems(2) f by (simp_all add: carries_def chunk_for_def)
  from receive_after [OF Cons.prems(1) this, of r] obtain s1 where
    "receive_frame c r (carried cs msg f) s = Inr s1" "finished c B msg i port ps node s1" by (auto simp: f carried_def)
  with Cons.IH [of s1] Cons.prems show ?case by simp
qed simp

lemma calm_rooms:
  assumes "calm s s'"
  shows "complete_room s \<Longrightarrow> complete_room s'" and "handover_room c ps s \<Longrightarrow> handover_room c ps s'"
  using assms packet_data_pool_cases [of "cf_type c"]
  by (auto simp: calm_def complete_room_def handover_room_def same_except_def)

text \<open>More chunks, as long as some are missing, and then the rest.\<close>

lemma collect_some:
  assumes "splits cs msg" and "link_ok (cf_net c) (cf_eth c)"
  shows "collecting c B cs msg i port pm R s \<Longrightarrow> R \<union> fst ` set fs \<noteq> {0..<chunk_count cs (length msg)} \<Longrightarrow>
    \<forall>f \<in> set fs. carries c B cs msg i port f \<Longrightarrow>
    \<exists>s'. receive_frames c r (map (carried cs msg) fs) s = Inr s' \<and> collecting c B cs msg i port pm (R \<union> fst ` set fs) s' \<and> calm s s'"
proof (induction fs arbitrary: R s)
  case Nil
  then show ?case by (simp add: calm_refl)
next
  case (Cons f fs)
  obtain j link ip info where f: "f = (j, link, ip, info)" by (cases f)
  have cf: "chunk_for c B cs msg i port j link ip info" using Cons.prems(3) f by (simp add: carries_def)
  have sub: "fst ` set fs \<subseteq> {0..<chunk_count cs (length msg)}" using Cons.prems(3) by (fastforce simp: carries_def chunk_for_def)
  have "insert j R \<noteq> {0..<chunk_count cs (length msg)}"
  proof
    assume "insert j R = {0..<chunk_count cs (length msg)}"
    with sub Cons.prems(2) f show False by auto
  qed
  then have "j \<in> R \<or> insert j R \<noteq> {0..<chunk_count cs (length msg)}" by simp
  from collect_middle [OF Cons.prems(1) assms(1) cf assms(2) this, of r] obtain s1 where
    1: "receive_frame c r (carried cs msg f) s = Inr s1" "collecting c B cs msg i port pm (insert j R) s1" "calm s s1"
    by (auto simp: f carried_def)
  have un: "insert j R \<union> fst ` set fs = R \<union> fst ` set (f # fs)" using f by auto
  have "\<forall>f \<in> set fs. carries c B cs msg i port f" using Cons.prems(3) by simp
  from Cons.IH [OF 1(2) Cons.prems(2) [folded un] this] obtain s2 where
    2: "receive_frames c r (map (carried cs msg) fs) s1 = Inr s2" "collecting c B cs msg i port pm (R \<union> fst ` set (f # fs)) s2" "calm s1 s2"
    unfolding un by blast
  show ?case using 1(1) 2(1,2) calm_trans [OF 1(3) 2(3)] by (intro exI [of _ s2]) simp
qed

lemma collect_all:
  assumes "splits cs msg" and "link_ok (cf_net c) (cf_eth c)"
  shows "collecting c B cs msg i port pm R s \<Longrightarrow> complete_room s \<Longrightarrow> handover_room c ps s \<Longrightarrow>
    R \<union> fst ` set fs = {0..<chunk_count cs (length msg)} \<Longrightarrow> R \<noteq> {0..<chunk_count cs (length msg)} \<Longrightarrow>
    \<forall>f \<in> set fs. carries c B cs msg i port f \<Longrightarrow>
    \<exists>s' node. receive_frames c r (map (carried cs msg) fs) s = Inr s' \<and> finished c B msg i port ps node s'"
proof (induction fs arbitrary: R s)
  case (Cons f fs)
  obtain j link ip info where f: "f = (j, link, ip, info)" by (cases f)
  have cf: "chunk_for c B cs msg i port j link ip info" using Cons.prems(6) f by (simp add: carries_def)
  show ?case
  proof (cases "j \<in> R \<or> insert j R \<noteq> {0..<chunk_count cs (length msg)}")
    case True
    from collect_middle [OF Cons.prems(1) assms(1) cf assms(2) True, of r] obtain s1 where
      1: "receive_frame c r (carried cs msg f) s = Inr s1" "collecting c B cs msg i port pm (insert j R) s1" "calm s s1"
      by (auto simp: f carried_def)
    have "insert j R \<noteq> {0..<chunk_count cs (length msg)}" using True Cons.prems(5) by (cases "j \<in> R") (auto simp: insert_absorb)
    moreover have "insert j R \<union> fst ` set fs = {0..<chunk_count cs (length msg)}" using Cons.prems(4) f by auto
    ultimately show ?thesis
      using Cons.IH [OF 1(2) calm_rooms(1) [OF 1(3) Cons.prems(2)] calm_rooms(2) [OF 1(3) Cons.prems(3)]] Cons.prems(6) 1(1) by simp
  next
    case False
    then have n: "j \<notin> R" "insert j R = {0..<chunk_count cs (length msg)}" by simp_all
    from collect_last [OF Cons.prems(1) assms(1) cf n Cons.prems(2,3), of r] obtain s1 node where
      1: "receive_frame c r (carried cs msg f) s = Inr s1" "finished c B msg i port ps node s1" by (auto simp: f carried_def)
    have "\<forall>f \<in> set fs. carries c B cs msg i port f" using Cons.prems(6) by simp
    from receive_all_after [OF 1(2) this, of r] obtain s2 where
      "receive_frames c r (map (carried cs msg) fs) s1 = Inr s2" "finished c B msg i port ps node s2" by blast
    with 1(1) show ?thesis by (intro exI [of _ s2] exI [of _ node]) simp
  qed
qed simp

text \<open>What a receiver has free when the first chunk of a message comes in.\<close>

definition recv_ready :: "conn_cfg \<Rightarrow> nat \<Rightarrow> u16 \<Rightarrow> u16 \<Rightarrow> nat \<Rightarrow> conn_state \<Rightarrow> bool" where
  "recv_ready c B i port k s \<longleftrightarrow> conn_ok c B s \<and> hm_abs (pending_messages s) (conn_key port i) = [] \<and>
     hm_abs (packets_completed s) (conn_key port i) = [] \<and> pending_room s k \<and> complete_room s \<and>
     1 < pool_avail (s_env s) Hashmap_item_pool"

text \<open>The first chunk received: rooms for the rest are as they were.\<close>

lemma receive_opening:
  assumes "splits cs msg" and "recv_ready c B i port (length msg + (chunk_count cs (length msg) + 7) div 8) s"
    and "handover_room c ps s" and "carries c B cs msg i port f" and "fst f = 0"
  obtains s' pm where "receive_frame c r (carried cs msg f) s = Inr s'" and "collecting c B cs msg i port pm {0} s'"
    and "complete_room s'" and "handover_room c ps s'"
proof -
  let ?N = "chunk_count cs (length msg)"
  obtain link ip info where f: "f = (0, link, ip, info)" using assms(5) by (cases f) auto
  have cf: "chunk_for c B cs msg i port 0 link ip info" using assms(4) f by (simp add: carries_def)
  have rd: "conn_ok c B s" "hm_abs (pending_messages s) (conn_key port i) = []" "hm_abs (packets_completed s) (conn_key port i) = []"
    "pending_room s (length msg + (?N + 7) div 8)" "complete_room s" "1 < pool_avail (s_env s) Hashmap_item_pool"
    using assms(2) by (simp_all add: recv_ready_def)
  obtain s1 pm x where 1: "receive_frame c r (frame link ip info (chunk_data cs msg 0)) s = Inr s1"
    "collecting c B cs msg i port pm {0} s1" "begun c B i port pm x s s1"
    by (rule collect_first [OF rd(1) assms(1) cf rd(2-4)])
  note bg = 1(3) [unfolded begun_def]
  have "0 < pool_avail (s_env s1) Hashmap_item_pool" using bg rd(6) by linarith
  then have cr: "complete_room s1" using rd(5) bg by (simp add: complete_room_def same_pools_def)
  have hr: "handover_room c ps s1"
    using assms(3) bg packet_data_pool_cases [of "cf_type c"] by (auto simp: handover_room_def same_pools_def)
  have run: "receive_frame c r (carried cs msg f) s = Inr s1" using 1(1) by (simp add: f carried_def)
  show ?thesis by (rule that [OF run 1(2) cr hr])
qed

lemma one_of_many: "splits cs msg \<Longrightarrow> {0} \<noteq> {0..<chunk_count cs (length msg)}"
proof -
  assume "splits cs msg"
  then have "1 < chunk_count cs (length msg)" using chunk_count_index [of cs 1 "length msg"] by (simp add: splits_def)
  then show ?thesis by (metis atLeastLessThan_iff less_one not_less_iff_gr_or_eq singletonD zero_le)
qed

lemma receive_chunks:
  assumes "splits cs msg" and "link_ok (cf_net c) (cf_eth c)" and "recv_ready c B i port (length msg + (chunk_count cs (length msg) + 7) div 8) s"
    and "handover_room c ps s" and "fs \<noteq> []" and "fst (hd fs) = 0" and "fst ` set fs = {0..<chunk_count cs (length msg)}"
    and "\<forall>f \<in> set fs. carries c B cs msg i port f"
  shows "\<exists>s' node. receive_frames c r (map (carried cs msg) fs) s = Inr s' \<and> finished c B msg i port ps node s'"
proof -
  obtain f fs' where fs: "fs = f # fs'" using assms(5) by (cases fs) auto
  have f: "carries c B cs msg i port f" "fst f = 0" and all: "\<forall>f \<in> set fs'. carries c B cs msg i port f" using assms(6,8) fs by simp_all
  obtain s1 pm where 1: "receive_frame c r (carried cs msg f) s = Inr s1" "collecting c B cs msg i port pm {0} s1"
    "complete_room s1" "handover_room c ps s1" by (rule receive_opening [OF assms(1,3,4) f])
  have un: "{0} \<union> fst ` set fs' = {0..<chunk_count cs (length msg)}" using assms(7) fs f(2) by auto
  from collect_all [OF assms(1,2) 1(2-4) un one_of_many [OF assms(1)] all, of r] obtain s' node where
    "receive_frames c r (map (carried cs msg) fs') s1 = Inr s'" "finished c B msg i port ps node s'" by blast
  with fs 1(1) show ?thesis by (intro exI [of _ s'] exI [of _ node]) simp
qed

end
