(* ===== verification/Swift_Delivery.thy ===== *)
theory Swift_Delivery
  imports Swift_Reassembly
begin

text \<open>
  Delivery between two connections: the frames a sender makes for a message
  (\<open>src/send_packet.c\<close>) run through the receiver's queue and processing step
  (\<open>src/handle_packets.c\<close>, \<open>src/process_packets.c\<close>), for long messages in any order that
  starts with the first chunk, for short ones, and for the lengths and orders on which the
  two sides do not agree.
\<close>

section \<open>From a sender to a receiver\<close>

text \<open>
  The route \<open>r\<close> leads to the connection \<open>c\<close> with buffers of \<open>B\<close> bytes: same link type, the
  receiver's port, and both sides agree on the MTU.
\<close>

definition leads_to :: "route \<Rightarrow> conn_cfg \<Rightarrow> nat \<Rightarrow> bool" where
  "leads_to r c B \<longleftrightarrow> link_ok (rt_net r) (rt_eth r) \<and> link_ok (cf_net c) (cf_eth c) \<and>
     link_accepts (cf_net c) (link_bytes (rt_net r) (rt_eth r)) \<and> destination_port (rt_ports r) = cf_port c \<and>
     44 < unat (rt_mtu r) \<and> min_mtu (maximum_transmission_unit (rt_globals r)) (cf_globals c) = rt_mtu r \<and>
     cf_prepend c + unat (rt_mtu r) \<le> B"

text \<open>The headers of the frame of chunk \<open>j\<close>.\<close>

definition chunk_ip :: "route \<Rightarrow> u16 \<Rightarrow> u8 list \<Rightarrow> nat \<Rightarrow> ip_header" where
  "chunk_ip r packet_id msg j =
     (let cs = unat (rt_mtu r) - 44; ip = message_ip r packet_id
      in if length msg \<le> j * cs + cs then ip\<lparr>ip_len := htons (of_nat (PACKET_HEADER_SIZE + length (chunk_data cs msg j)))\<rparr> else ip)"

definition chunk_info :: "route \<Rightarrow> u8 \<Rightarrow> u8 list \<Rightarrow> nat \<Rightarrow> packet_info" where
  "chunk_info r ty msg j =
     sealed ((message_info r (of_nat (length msg)) ty)\<lparr>chunk_index := of_nat j, checksum := 0\<rparr>) (chunk_data (unat (rt_mtu r) - 44) msg j)"

lemma message_frames_nth:
  assumes "j < chunk_count (unat (rt_mtu r) - 44) (length msg)"
  shows "message_frames r packet_id ty msg ! j =
    frame (link_bytes (rt_net r) (rt_eth r)) (chunk_ip r packet_id msg j) (chunk_info r ty msg j) (chunk_data (unat (rt_mtu r) - 44) msg j)"
  using assms by (simp add: message_frames_def chunk_frame_def chunk_ip_def chunk_info_def Let_def)

lemma htons_0 [simp]: "htons 0 = 0"
  by code_simp

lemma message_chunk_for:
  assumes "leads_to r c B" and "splits (unat (rt_mtu r) - 44) msg" and "j < chunk_count (unat (rt_mtu r) - 44) (length msg)"
    and "ty = MESSAGE \<or> ty = REQUEST"
  shows "chunk_for c B (unat (rt_mtu r) - 44) msg (htons packet_id) (source_port (rt_ports r)) j (link_bytes (rt_net r) (rt_eth r))
    (chunk_ip r packet_id msg j) (chunk_info r ty msg j)"
proof -
  let ?cs = "unat (rt_mtu r) - 44"
  note l = assms(1) [unfolded leads_to_def]
  have "length (chunk_data ?cs msg j) \<le> ?cs" by (simp add: length_chunk_data)
  then have fit: "cf_prepend c + PACKET_HEADER_SIZE + length (chunk_data ?cs msg j) \<le> B" using l by linarith
  have "unat (of_nat (length msg) :: u32) = length msg" using assms(2) by (simp add: splits_def unat_of_nat)
  then have "info_for ?cs msg j (chunk_info r ty msg j)"
    by (simp add: info_for_def chunk_info_def sealed_def message_info_def construct_packet_info_def)
  moreover have "data_frame c B (link_bytes (rt_net r) (rt_eth r)) (chunk_ip r packet_id msg j) (chunk_info r ty msg j) (chunk_data ?cs msg j)"
    using l fit assms(4)
    by (auto simp: data_frame_def addressed_def chunk_ip_def chunk_info_def Let_def message_ip_def construct_ip_header_def sealed_def message_info_def construct_packet_info_def)
  moreover have "ip_id (chunk_ip r packet_id msg j) = htons packet_id" by (simp add: chunk_ip_def Let_def message_ip_def construct_ip_header_def)
  moreover have "source_port (ports (chunk_info r ty msg j)) = source_port (rt_ports r)"
    "packet_type (chunk_info r ty msg j) = ty" "pi_mtu (chunk_info r ty msg j) = maximum_transmission_unit (rt_globals r)"
    by (simp_all add: chunk_info_def sealed_def message_info_def construct_packet_info_def)
  moreover have "unat (chunk_size (rt_mtu r)) = ?cs" using l by (intro chunk_size_unat) simp
  ultimately show ?thesis using l assms(3,4) by (auto simp: chunk_for_def)
qed

text \<open>The memory a message of this length takes at the receiver.\<close>

definition message_room :: "route \<Rightarrow> nat \<Rightarrow> nat" where
  "message_room r n = n + (chunk_count (unat (rt_mtu r) - 44) n + 7) div 8"

lemma receive_message:
  assumes "leads_to r c B" and "splits (unat (rt_mtu r) - 44) msg" and "ty = MESSAGE \<or> ty = REQUEST"
    and "recv_ready c B (htons packet_id) (source_port (rt_ports r)) (message_room r (length msg)) s" and "handover_room c ps s"
    and "js \<noteq> []" and "hd js = 0" and "set js = {0..<chunk_count (unat (rt_mtu r) - 44) (length msg)}"
  shows "\<exists>s' node. receive_frames c rnd (map (\<lambda>j. message_frames r packet_id ty msg ! j) js) s = Inr s' \<and>
     finished c B msg (htons packet_id) (source_port (rt_ports r)) ps node s'"
proof -
  let ?cs = "unat (rt_mtu r) - 44"
  let ?f = "\<lambda>j. (j, link_bytes (rt_net r) (rt_eth r), chunk_ip r packet_id msg j, chunk_info r ty msg j)"
  have cf: "\<forall>f \<in> set (map ?f js). carries c B ?cs msg (htons packet_id) (source_port (rt_ports r)) f"
    using message_chunk_for [OF assms(1,2) _ assms(3)] assms(8) by (simp add: carries_def)
  have lk: "link_ok (cf_net c) (cf_eth c)" using assms(1) by (simp add: leads_to_def)
  have fr: "map (\<lambda>j. message_frames r packet_id ty msg ! j) js = map (carried ?cs msg) (map ?f js)"
    using message_frames_nth assms(8) by (simp add: carried_def)
  have h: "map ?f js \<noteq> []" "fst (hd (map ?f js)) = 0" "fst ` set (map ?f js) = {0..<chunk_count ?cs (length msg)}"
    using assms(6-8) by (simp_all add: hd_map image_image)
  show ?thesis unfolding fr by (rule receive_chunks [OF assms(2) lk assms(4) [unfolded message_room_def] assms(5) h cf])
qed

lemma finished_facts:
  assumes "finished c B msg i port ps node s" and "length msg < 2 ^ 32"
  shows "q_rep (callback_queue s) (callback_nodes s) (ps @ [node])" and "callback_message c s node = Some msg"
    and "check_packet_already_completed c i port s = Inr True"
proof -
  obtain pm where pm: "conn_ok c B s" "hm_abs (packets_completed s) (conn_key port i) \<noteq> []" "handed_over msg i port ps node pm s"
    using assms(1) by (auto simp: finished_def)
  show "q_rep (callback_queue s) (callback_nodes s) (ps @ [node])" using pm(3) by (simp add: handed_over_def)
  show "callback_message c s node = Some msg" by (rule handed_over_message [OF pm(3) assms(2)])
  show "check_packet_already_completed c i port s = Inr True" using conn_ok_lookup(2) [OF pm(1) refl refl] pm(2) by simp
qed

definition sample_cfg :: conn_cfg where
  "sample_cfg = \<lparr>cf_globals = \<lparr>maximum_transmission_unit = 64, private_ip_address = 0x0100007F\<rparr>, cf_seed = 7, cf_port = 8080,
     cf_net = loopback, cf_eth = \<lparr>ether_dhost = [], ether_shost = [], ether_type = 0\<rparr>, cf_type = CONNECTION_TYPE_SERVER\<rparr>"

lemma sample_leads: "leads_to (sample_route loopback) sample_cfg 100"
  using sample_link length_link [OF sample_link]
  by (simp add: leads_to_def sample_cfg_def sample_route_def link_accepts_def min_mtu_def initialize_networking_def packet_prepend_size_def)

lemma env_malloc_grows:
  assumes "env_ok e" and "env_malloc n e = (r, e')"
  shows "env_grows e e'"
proof -
  have h: "heap_ok (c_heap e)" using assms(1) by (simp add: env_ok_def)
  obtain h' where m: "malloc n (c_heap e) = (r, h')" "c_heap e' = h'" using assms(2) by (auto simp: env_malloc_def split: prod.splits)
  have "blocks (c_heap e) \<subseteq>\<^sub>m blocks h'" using malloc_grows [OF h m(1)] by (simp add: heap_grows_def)
  then have "dom (blocks (c_heap e)) \<subseteq> dom (blocks (c_heap e'))" using m(2) map_le_implies_dom_le by simp
  with env_ok_malloc [OF assms] show ?thesis by (simp add: env_grows_def)
qed

lemma hashmap_create_grows:
  assumes "env_ok e" and "hashmap_create kma e = (hm, e')"
  shows "env_grows e e'"
proof -
  obtain hm1 e1 p q where 1: "env_malloc (32 * unat initial_capacity) e = (p, e1)"
    "env_malloc (4 * unat (occupation_words initial_capacity)) e1 = (q, e')"
    using assms(2) by (auto simp: hashmap_create_def hashmap_calloc_def occupation_calloc_def split: prod.splits)
  have "env_grows e e1" by (rule env_malloc_grows [OF assms(1) 1(1)])
  moreover have "env_grows e1 e'" using env_malloc_grows [OF _ 1(2)] calculation by (simp add: env_grows_def)
  ultimately show ?thesis by (rule env_grows_trans)
qed

text \<open>A connection over fresh pools and empty tables, with buffers of \<open>B\<close> bytes.\<close>

lemma sample_conn:
  "\<exists>s. (\<forall>i port. recv_ready c B i port 900000 s) \<and> handover_room c [] s \<and> wire s = [] \<and>
     hm_abs (packets_sending s) = (\<lambda>k. []) \<and> send_ready (cf_seed c) s \<and> (\<forall>i. pool_avail (s_env s) i = 200)"
proof -
  obtain e0 where e0: "env_ok e0" "\<forall>i. pool_live e0 i = {} \<and> pool_avail e0 i = 200" "heap_room 1000000 (c_heap e0)"
    using sample_env by blast
  have r0: "heap_room 10280 (c_heap e0)" using e0(3) by (simp add: heap_room_def)
  obtain h1 e1 where 1: "hashmap_create (Some Pending_message_key_pool) e0 = (h1, e1)" "hm_ok (cf_seed c) (h1 :: ptr hashmap) e1" "hm_abs h1 = (\<lambda>k. [])"
    "hm_size h1 = 0" "hm_capacity h1 = 320" "key_memory_allocator h1 = Some Pending_message_key_pool" "pool e1 = pool e0"
    "\<forall>k. heap_room (k + 10280) (c_heap e0) \<longrightarrow> heap_room k (c_heap e1)"
    using hashmap_create_ok [OF e0(1) r0, of "Some Pending_message_key_pool" "cf_seed c"] by auto
  have ok1: "env_ok e1" and rm1: "heap_room 980000 (c_heap e1)"
    using 1(2,8) e0(3) by (auto simp: hm_ok_def heap_room_def dest: spec [of _ 980000])
  have r1: "heap_room 10280 (c_heap e1)" using rm1 by (simp add: heap_room_def)
  obtain h2 e2 where 2: "hashmap_create (Some Packet_completed_key_pool) e1 = (h2, e2)" "hm_ok (cf_seed c) (h2 :: ptr hashmap) e2" "hm_abs h2 = (\<lambda>k. [])"
    "hm_size h2 = 0" "hm_capacity h2 = 320" "key_memory_allocator h2 = Some Packet_completed_key_pool" "pool e2 = pool e1"
    "\<forall>k. heap_room (k + 10280) (c_heap e1) \<longrightarrow> heap_room k (c_heap e2)"
    using hashmap_create_ok [OF ok1 r1, of "Some Packet_completed_key_pool" "cf_seed c"] by auto
  have ok2: "env_ok e2" and rm2: "heap_room 960000 (c_heap e2)"
    using 2(2,8) rm1 by (auto simp: hm_ok_def heap_room_def dest: spec [of _ 960000])
  have r2: "heap_room 10280 (c_heap e2)" using rm2 by (simp add: heap_room_def)
  obtain h3 e3 where 3: "hashmap_create (Some Uint16_pool) e2 = (h3, e3)" "hm_ok (cf_seed c) (h3 :: ptr hashmap) e3" "hm_abs h3 = (\<lambda>k. [])"
    "hm_size h3 = 0" "hm_capacity h3 = 320" "key_memory_allocator h3 = Some Uint16_pool" "pool e3 = pool e2"
    "\<forall>k. heap_room (k + 10280) (c_heap e2) \<longrightarrow> heap_room k (c_heap e3)"
    using hashmap_create_ok [OF ok2 r2, of "Some Uint16_pool" "cf_seed c"] by auto
  have rm3: "heap_room 900000 (c_heap e3)" using 3(8) rm2 by (auto simp: heap_room_def dest: spec [of _ 900000])
  have g2: "env_grows e1 e2" and g3: "env_grows e2 e3" using hashmap_create_grows ok1 ok2 2(1) 3(1) by blast+
  have hm: "hm_ok (cf_seed c) h1 e3" "hm_ok (cf_seed c) h2 e3"
    using hm_ok_grows [OF hm_ok_grows [OF 1(2) g2] g3] hm_ok_grows [OF 2(2) g3] by simp_all
  let ?s = "\<lparr>s_env = e3, packets_sending = h3, sending_at = Map.empty, requests_sent = h3, request_at = Map.empty, wire = [],
     pending_messages = h1, pending_at = Map.empty, packets_completed = h2, completed_at = Map.empty, frame_queue = empty_queue,
     frame_nodes = Map.empty, callback_queue = empty_queue, callback_nodes = Map.empty, buffer_at = (\<lambda>b. replicate B 0), packet_data_at = Map.empty\<rparr>"
  have p: "pool e3 = pool e0" using 1(7) 2(7) 3(7) by simp
  have "conn_ok c B ?s" using hm 1(6) 2(6) e0(2) by (simp add: conn_ok_def p)
  then have "recv_ready c B i port 900000 ?s" for i port
    using 1(3-5) 2(3-5) rm3 e0(2) by (simp add: recv_ready_def pending_room_def complete_room_def p)
  moreover have "handover_room c [] ?s" using e0(2) by (simp add: handover_room_def p)
  moreover have "send_ready (cf_seed c) ?s" using 3(2,4-6) e0(2) by (simp add: send_ready_def p)
  ultimately show ?thesis using 3(3) e0(2) by (intro exI [of _ ?s]) (simp add: p)
qed


lemma sample_conn_ready:
  "\<exists>s. (\<forall>i port n. n \<le> 900000 \<longrightarrow> recv_ready c B i port n s) \<and> handover_room c [] s \<and> wire s = [] \<and>
     hm_abs (packets_sending s) = (\<lambda>k. []) \<and> send_ready (cf_seed c) s \<and> (\<forall>i. pool_avail (s_env s) i = 200)"
proof -
  have "recv_ready c B i port n s" if "recv_ready c B i port 900000 s" "n \<le> 900000" for i port n and s :: conn_state
    using that by (simp add: recv_ready_def pending_room_def heap_room_def)
  with sample_conn [of c B] show ?thesis by blast
qed



section \<open>Messages in one frame\<close>

lemma receive_whole:
  assumes "conn_ok c B s" and "data_frame c B link ip info d" and "ip_id ip = i" and "source_port (ports info) = port"
    and "hm_abs (pending_messages s) (conn_key port i) = []" and "hm_abs (packets_completed s) (conn_key port i) = []"
    and "packet_length info \<le> ucast (chunk_size (min_mtu (pi_mtu info) (cf_globals c)))" and "packet_type info \<noteq> RESPONSE"
    and "packet_length info = of_nat (length d)" and "length d < 2 ^ 32" and "complete_room s" and "handover_room c ps s"
  shows "\<exists>s' node. receive_frame c r (frame link ip info d) s = Inr s' \<and> q_rep (callback_queue s') (callback_nodes s') (ps @ [node]) \<and>
     callback_message c s' node = Some d \<and> check_packet_already_completed c i port s' = Inr True"
proof -
  let ?at = "\<lambda>b. b + cf_prepend c + PACKET_HEADER_SIZE"
  obtain b node e nodes buf where 1: "took_frame b node (s_env s) e" "length buf = B"
    "seg (cf_prepend c + PACKET_HEADER_SIZE) (length d) buf = d"
    "receive_frame c r (frame link ip info d) s =
      rbind (process_data c ip info b buf (s\<lparr>s_env := e, frame_queue := empty_queue, frame_nodes := nodes, buffer_at := (buffer_at s)(b := buf)\<rparr>))
        (free_node node)" by (rule receive_data_frame [OF assms(1,2)])
  define s1 where "s1 = s\<lparr>s_env := e, frame_queue := empty_queue, frame_nodes := nodes, buffer_at := (buffer_at s)(b := buf)\<rparr>"
  have eq: "pool e y = pool (s_env s) y" if "y \<noteq> Packet_buffer_pool" "y \<noteq> Packet_queue_node_pool" for y
    using 1(1) that by (auto simp: took_frame_def same_except_def)
  have c1: "hm_ok (cf_seed c) (packets_completed s1) (s_env s1)" "key_memory_allocator (packets_completed s1) = Some Packet_completed_key_pool"
    using hm_ok_took_frame(2) [OF assms(1) 1(1)] assms(1) by (simp_all add: s1_def conn_ok_def)
  have r1: "complete_room s1" "handover_room c ps s1"
    using assms(11,12) eq packet_data_pool_cases [of "cf_type c"] by (auto simp: complete_room_def handover_room_def s1_def)
  obtain e2 hm item where 2: "packet_completed c i port s1 = Inr (s1\<lparr>s_env := e2, packets_completed := hm,
       completed_at := (completed_at s1)(item \<mapsto> \<lparr>completed_packet_id = i, marked_cleanup = False\<rparr>)\<rparr>)" "hm_ok (cf_seed c) hm e2"
    "hm_abs hm = (hm_abs (packets_completed s1))(conn_key port i := hm_abs (packets_completed s1) (conn_key port i) @ [item])"
    "key_memory_allocator hm = Some Packet_completed_key_pool" "env_grows (s_env s1) e2"
    "same_except {Packets_completed_pool, Uint16_pool, Packet_completed_key_pool, Hashmap_item_pool} (s_env s1) e2"
    by (rule packet_completed_ok [OF c1 r1(1)])
  define s2 where "s2 = s1\<lparr>s_env := e2, packets_completed := hm, completed_at := (completed_at s1)(item \<mapsto> \<lparr>completed_packet_id = i, marked_cleanup = False\<rparr>)\<rparr>"
  have ok2: "env_ok (s_env s2)" using 2(5) by (simp add: s2_def env_grows_def)
  have r2: "handover_room c ps s2"
    using r1(2) 2(6) packet_data_pool_cases [of "cf_type c"] by (auto simp: handover_room_def s2_def same_except_def)
  obtain pd cb e3 q cbs where 3: "deliver c info i (sender_of c info) (?at b) None s2 = Inr (s2\<lparr>s_env := e3,
       packet_data_at := (packet_data_at s2)(pd \<mapsto>
                 \<lparr>internal_pending_message = None, pd_data = ?at b, current_pointer = ?at b,
                  md_sender = (if cf_type c = CONNECTION_TYPE_SERVER then Some (sender_of c info) else None),
                  md_data_length = packet_length info, md_ports = ports info, md_packet_id = i,
                  expecting_response = (packet_type info = REQUEST)\<rparr>), callback_queue := q, callback_nodes := cbs\<rparr>)"
    "q_rep q cbs (ps @ [cb])" "map_option q_item (cbs cb) = Some \<lparr>cb_pending_message = None, cb_packet_data = Some pd, cb_packet_id = i\<rparr>"
    "\<forall>n \<in> set ps. map_option q_item (cbs n) = map_option q_item (callback_nodes s2 n)" "env_grows (s_env s2) e3"
    "same_except {packet_data_pool (cf_type c), Packet_callback_queue_node_pool} (s_env s2) e3"
    "set (ps @ [cb]) \<subseteq> pool_live e3 Packet_callback_queue_node_pool"
    by (rule deliver_ok [OF ok2 r2 assms(8)])
  define s3 where "s3 = s2\<lparr>s_env := e3,
       packet_data_at := (packet_data_at s2)(pd \<mapsto>
                 \<lparr>internal_pending_message = None, pd_data = ?at b, current_pointer = ?at b,
                  md_sender = (if cf_type c = CONNECTION_TYPE_SERVER then Some (sender_of c info) else None),
                  md_data_length = packet_length info, md_ports = ports info, md_packet_id = i,
                  expecting_response = (packet_type info = REQUEST)\<rparr>), callback_queue := q, callback_nodes := cbs\<rparr>"
  have "\<not> ucast (chunk_size (min_mtu (pi_mtu info) (cf_globals c))) < packet_length info" using assms(7) by simp
  then have run: "process_data c ip info b buf s1 = Inr s3"
    using 2(1) 3(1) conn_ok_lookup [OF assms(1), of s1 i port] assms(3-6)
    by (simp add: process_data_def first_of_def s3_def s2_def s1_def)
  have "node \<in> pool_live (s_env s3) Packet_queue_node_pool"
  proof -
    have "node \<in> pool_live (s_env s1) Packet_queue_node_pool" using 1(1) by (simp add: s1_def took_frame_def)
    moreover have "pool_live (s_env s1) Packet_queue_node_pool \<subseteq> pool_live e3 Packet_queue_node_pool"
      using env_grows_trans [OF 2(5), of e3] 3(5) by (simp add: env_grows_def s2_def)
    ultimately show ?thesis by (auto simp: s3_def)
  qed
  moreover have "env_ok (s_env s3)" using 3(5) by (simp add: s3_def env_grows_def)
  ultimately obtain e4 where 4: "pool_free Packet_queue_node_pool node (s_env s3) = Inr e4" using pool_free_ok by blast
  let ?s = "s3\<lparr>s_env := e4\<rparr>"
  have "receive_frame c r (frame link ip info d) s = Inr ?s" using 1(4) run 4 by (simp add: s1_def free_node_def)
  moreover have "q_rep (callback_queue ?s) (callback_nodes ?s) (ps @ [cb])" using 3(2) by (simp add: s3_def)
  moreover have "callback_message c ?s cb = Some d"
    using 3(3) 1(3) assms(9,10) by (auto simp: callback_message_def packet_bytes_def s3_def s2_def s1_def unat_of_nat)
  moreover have "check_packet_already_completed c i port ?s = Inr True"
  proof -
    have "length (conn_key port i) = unat (4 :: u32)" by (simp add: conn_key_def)
    moreover have "hm_wf (cf_seed c) hm" using 2(2) by (simp add: hm_ok_def)
    ultimately show ?thesis using 2(3)
      by (simp add: check_packet_already_completed_def hashmap_get_abs s3_def s2_def s1_def first_of_def split: list.splits)
  qed
  ultimately show ?thesis by blast
qed


text \<open>The frame of a message sent whole.\<close>

definition whole_frame :: "route \<Rightarrow> u16 \<Rightarrow> u8 \<Rightarrow> u8 list \<Rightarrow> u8 list" where
  "whole_frame r packet_id ty msg =
     frame (link_bytes (rt_net r) (rt_eth r))
       (construct_ip_header (rt_globals r) (rt_dest r) (of_nat (PACKET_HEADER_SIZE + length msg)) packet_id)
       (sealed (construct_packet_info (rt_globals r) (of_nat (length msg)) ty 1 0 (rt_ports r)) msg) msg"

lemma whole_data_frame:
  fixes packet_id :: u16
  assumes "leads_to r c B" and "ty = MESSAGE \<or> ty = REQUEST" and "cf_prepend c + PACKET_HEADER_SIZE + length msg \<le> B"
  defines "ip \<equiv> construct_ip_header (rt_globals r) (rt_dest r) (of_nat (PACKET_HEADER_SIZE + length msg)) packet_id"
    and "pi \<equiv> sealed (construct_packet_info (rt_globals r) (of_nat (length msg)) ty 1 0 (rt_ports r)) msg"
  shows "data_frame c B (link_bytes (rt_net r) (rt_eth r)) ip pi msg" and "ip_id ip = htons packet_id"
    and "source_port (ports pi) = source_port (rt_ports r)" and "packet_type pi = ty"
    and "packet_length pi = of_nat (length msg)" and "chunk_amount pi = 1" and "chunk_index pi = 0"
    and "min_mtu (pi_mtu pi) (cf_globals c) = rt_mtu r"
  using assms by (auto simp: data_frame_def addressed_def leads_to_def construct_ip_header_def sealed_def construct_packet_info_def)

lemma chunk_size_u32: "44 < unat mtu \<Longrightarrow> unat (ucast (chunk_size mtu) :: u32) = unat mtu - 44"
  using chunk_size_unat [of mtu] unsigned_less [of mtu, where ?'a = nat] by (simp add: unsigned_ucast_eq take_bit_nat_eq_self)

text \<open>
  C3. A message that fits one frame is delivered by that frame: one entry at the end of the
  callback queue, carrying the message byte for byte, and the message counts as delivered.
\<close>

theorem short_message_delivered:
  assumes "leads_to r c B" and "length msg \<le> unat (rt_mtu r) - 44" and "ty = MESSAGE \<or> ty = REQUEST"
    and "recv_ready c B (htons packet_id) (source_port (rt_ports r)) 0 s" and "handover_room c ps s"
  shows "\<exists>s' node. receive_frame c rnd (whole_frame r packet_id ty msg) s = Inr s' \<and>
     q_rep (callback_queue s') (callback_nodes s') (ps @ [node]) \<and> callback_message c s' node = Some msg \<and>
     check_packet_already_completed c (htons packet_id) (source_port (rt_ports r)) s' = Inr True"
proof -
  have m: "44 < unat (rt_mtu r)" "cf_prepend c + unat (rt_mtu r) \<le> B" using assms(1) by (simp_all add: leads_to_def)
  have len: "length msg < 2 ^ 32" using assms(2) unsigned_less [of "rt_mtu r", where ?'a = nat] by simp
  have fit: "cf_prepend c + PACKET_HEADER_SIZE + length msg \<le> B" using m assms(2) by linarith
  note w = whole_data_frame [OF assms(1,3) fit]
  have u: "unat (of_nat (length msg) :: u32) = length msg" using len by (simp add: unat_of_nat)
  have rd: "conn_ok c B s" "hm_abs (pending_messages s) (conn_key (source_port (rt_ports r)) (htons packet_id)) = []"
    "hm_abs (packets_completed s) (conn_key (source_port (rt_ports r)) (htons packet_id)) = []" "complete_room s"
    using assms(4) by (simp_all add: recv_ready_def)
  have le: "(of_nat (length msg) :: u32) \<le> ucast (chunk_size (rt_mtu r))"
    using chunk_size_u32 [OF m(1)] u assms(2) by (simp add: word_le_nat_alt)
  show ?thesis unfolding whole_frame_def
    by (rule receive_whole [OF rd(1) w(1-3) rd(2,3) _ _ w(5) len rd(4) assms(5)]) (use le w(4,5,8) assms(3) in auto)
qed

theorem short_message_delivered_witness:
  "\<exists>s s' node. receive_frame sample_cfg 0 (whole_frame (sample_route loopback) 9 MESSAGE [1, 2, 3]) s = Inr s' \<and>
     callback_message sample_cfg s' node = Some [1, 2, 3]"
proof -
  obtain s where s: "\<forall>i port n. n \<le> 900000 \<longrightarrow> recv_ready sample_cfg 100 i port n s" "handover_room sample_cfg [] s"
    using sample_conn_ready [of sample_cfg 100] by blast
  have "length [1, 2, 3 :: u8] \<le> unat (rt_mtu (sample_route loopback)) - 44" by (simp add: sample_route_def)
  from short_message_delivered [OF sample_leads this, of MESSAGE 9 s "[]" 0] s show ?thesis by fastforce
qed

section \<open>Where the two sides disagree\<close>

text \<open>Frames of a message whose only chunk has come, but is not the whole message, change nothing.\<close>

lemma stuck_frame:
  assumes "conn_ok c B s" and "data_frame c B link ip info d" and "ip_id ip = i" and "source_port (ports info) = port"
    and "hm_abs (pending_messages s) (conn_key port i) = [pm]" and "hm_abs (packets_completed s) (conn_key port i) = []"
    and "pending_at s pm = Some x" and "chunk_already_received (pm_chunks x) (chunk_index info) = Inr True"
  shows "\<exists>s'. receive_frame c r (frame link ip info d) s = Inr s' \<and> conn_ok c B s' \<and> calm s s' \<and> pending_at s' = pending_at s"
proof (rule receive_dropped [OF assms(1,2)])
  fix b e nodes buf
  let ?s = "s\<lparr>s_env := e, frame_queue := empty_queue, frame_nodes := nodes, buffer_at := (buffer_at s)(b := buf)\<rparr>"
  have "process_data c ip info b buf ?s = drop_buffer b ?s"
    using conn_ok_lookup [OF assms(1), of ?s i port] assms(3-8) by (simp add: process_data_def next_chunk_def first_of_def)
  then show "\<exists>pa w. process_data c ip info b buf ?s = drop_buffer b (?s\<lparr>pending_at := pa, wire := w\<rparr>) \<and> pa = pending_at s"
    by (intro exI [of _ "pending_at s"] exI [of _ "wire s"]) simp
qed

lemma stuck_frames:
  assumes "data_frame c B link ip info d" and "ip_id ip = i" and "source_port (ports info) = port"
    and "chunk_already_received (pm_chunks x) (chunk_index info) = Inr True"
  shows "conn_ok c B s \<Longrightarrow> hm_abs (pending_messages s) (conn_key port i) = [pm] \<Longrightarrow> hm_abs (packets_completed s) (conn_key port i) = [] \<Longrightarrow>
    pending_at s pm = Some x \<Longrightarrow> \<exists>s'. receive_frames c r (replicate n (frame link ip info d)) s = Inr s' \<and> calm s s'"
proof (induction n arbitrary: s)
  case 0
  then show ?case by (simp add: calm_refl)
next
  case (Suc n)
  from stuck_frame [OF Suc.prems(1) assms(1-3) Suc.prems(2-4) assms(4), of r] obtain s1 where
    1: "receive_frame c r (frame link ip info d) s = Inr s1" "conn_ok c B s1" "calm s s1" "pending_at s1 = pending_at s" by blast
  then obtain s2 where "receive_frames c r (replicate n (frame link ip info d)) s1 = Inr s2" "calm s1 s2"
    using Suc.IH [of s1] Suc.prems by (auto simp: calm_def)
  with 1(1,3) show ?case using calm_trans by auto
qed



text \<open>
  When a chunk other than the first comes first, its data is written to the start of the
  message instead of to its own place, and the chunk is marked as received, so that it is
  never written again.
\<close>

theorem first_chunk_misplaced:
  assumes "leads_to r c B" and "splits (unat (rt_mtu r) - 44) msg" and "ty = MESSAGE \<or> ty = REQUEST"
    and "Suc j * (unat (rt_mtu r) - 44) \<le> length msg" and "0 < j"
    and "recv_ready c B (htons packet_id) (source_port (rt_ports r)) (message_room r (length msg)) s"
  defines "d \<equiv> chunk_data (unat (rt_mtu r) - 44) msg j"
  shows "\<exists>s' pm x. receive_frame c rnd (message_frames r packet_id ty msg ! j) s = Inr s' \<and>
     get_pending_message c (htons packet_id) (source_port (rt_ports r)) s' = Inr (Some pm) \<and> pending_at s' pm = Some x \<and>
     pm_data x = d @ replicate (length msg - length d) 0 \<and> chunk_already_received (pm_chunks x) (of_nat j) = Inr True"
proof -
  let ?cs = "unat (rt_mtu r) - 44" let ?port = "source_port (rt_ports r)" let ?i = "htons packet_id"
  let ?N = "chunk_count ?cs (length msg)" let ?k = "(?N + 7) div 8"
  have cs: "0 < ?cs" "?cs < length msg" using assms(2) by (auto simp: splits_def)
  have j: "j < ?N" using assms(4) cs chunk_count_index [OF cs(1)] by simp
  have ld: "length d = ?cs" using assms(4) cs by (simp add: d_def length_chunk_data)
  note cf = message_chunk_for [OF assms(1,2) j assms(3), of packet_id]
  have cf': "data_frame c B (link_bytes (rt_net r) (rt_eth r)) (chunk_ip r packet_id msg j) (chunk_info r ty msg j) d"
    "info_for ?cs msg j (chunk_info r ty msg j)" "ip_id (chunk_ip r packet_id msg j) = ?i" "source_port (ports (chunk_info r ty msg j)) = ?port"
    using cf by (simp_all add: chunk_for_def d_def)
  note cds = chunk_for_cds [OF cf assms(2)] and u = info_for_unat [OF assms(2) cf'(2) j]
  have rd: "conn_ok c B s" "hm_abs (pending_messages s) (conn_key ?port ?i) = []" "hm_abs (packets_completed s) (conn_key ?port ?i) = []"
    "pending_room s (length msg + ?k)" using assms(6) by (simp_all add: recv_ready_def message_room_def)
  have n: "?k = unat ((chunk_amount (chunk_info r ty msg j) + 7) div 8)"
    using u(2) chunk_count_bound [OF assms(2)] by (simp add: unat_div unat_word_ariths)
  have h: "?cs < unat (packet_length (chunk_info r ty msg j))" "unat (chunk_index (chunk_info r ty msg j)) div 8 < ?k"
    "pending_room s (unat (packet_length (chunk_info r ty msg j)) + ?k)" "cf_prepend c + PACKET_HEADER_SIZE + ?cs \<le> B"
    using cs u j cf'(1) ld rd(4) by (simp_all add: data_frame_def addressed_def)
  obtain s' pm x t where 1: "receive_frame c rnd (frame (link_bytes (rt_net r) (rt_eth r)) (chunk_ip r packet_id msg j) (chunk_info r ty msg j) d) s = Inr s'"
    "begun c B ?i ?port pm x s s'" "opened (htons packet_id) (chunk_info r ty msg j) ?k t x" "length t = ?cs" "take (length d) t = take ?cs d"
    by (rule receive_first [OF rd(1) cf'(1,3,4) rd(2,3) cds h(1) n h(2-4)])
  have td: "t = d" using 1(4,5) ld by simp
  have "get_pending_message c ?i ?port s' = Inr (Some pm)"
    using conn_ok_lookup(1) [of c B s' s' ?i ?port] 1(2) by (simp add: begun_def first_of_def)
  moreover have "pm_data x = d @ replicate (length msg - length d) 0" using 1(3) u(1) td by (simp add: opened_def put_def)
  moreover have "chunk_already_received (pm_chunks x) (of_nat j) = Inr True"
    using 1(3) u(3) cf'(2) h(2) by (simp add: opened_def chunk_already_received_def bits_get_set info_for_def)
  moreover have "pending_at s' pm = Some x" using 1(2) by (simp add: begun_def)
  ultimately show ?thesis using 1(1) unfolding message_frames_nth [OF j] d_def by blast
qed

theorem first_chunk_misplaced_witness:
  "\<exists>s s' pm x. receive_frame sample_cfg 0 (message_frames (sample_route loopback) 9 MESSAGE (replicate 20 1 @ replicate 30 2) ! 1) s = Inr s' \<and>
     pending_at s' pm = Some x \<and> pm_data x = replicate 20 2 @ replicate 30 0"
proof -
  let ?r = "sample_route loopback" let ?msg = "replicate 20 1 @ replicate 30 2 :: u8 list"
  obtain s where s: "\<forall>i port n. n \<le> 900000 \<longrightarrow> recv_ready sample_cfg 100 i port n s" using sample_conn_ready [of sample_cfg 100] by blast
  have cs: "unat (rt_mtu ?r) - 44 = 20" by (simp add: sample_route_def)
  have "splits 20 ?msg" by (simp add: splits_def)
  moreover have "message_room ?r (length ?msg) \<le> 900000" by (simp add: message_room_def cs chunk_count_def)
  moreover have "chunk_data 20 ?msg 1 = replicate 20 2" by (simp add: chunk_data_def)
  ultimately show ?thesis
    using first_chunk_misplaced [OF sample_leads, of ?msg MESSAGE 1 9 s 0] s unfolding cs by fastforce
qed

end
