(* ===== verification/Swift_Callback.thy ===== *)
theory Swift_Callback
  imports Swift_Delivery
begin

text \<open>
  The application's side of a received message: the thread that runs the callbacks
  (\<open>src/execute_packet_callback.c\<close>), reading and destroying packet data
  (\<open>src/generic_functions.c\<close>) and the debug flags (\<open>src/manipulate_debug_flags.c\<close>). The
  application's handler is a parameter: a function on the packet data and the state.
\<close>

section \<open>Operations\<close>

type_synonym handler = "ptr \<Rightarrow> conn_state \<Rightarrow> conn_state res"

definition set_message_handler :: "'h option \<Rightarrow> 'a \<Rightarrow> ('h option \<times> 'a) res" where
  "set_message_handler new_handler user_arg =
     (if new_handler = None then Inl Exit_Failure else Inr (new_handler, user_arg))"

text \<open>The pointer read from, or \<open>NULL\<close>; the test is made in 32 bits.\<close>

definition read_packet :: "u32 \<Rightarrow> packet_data \<Rightarrow> ptr option \<times> packet_data" where
  "read_packet data_size d =
     (let data_already_read = of_nat (current_pointer d - pd_data d) + data_size
      in if md_data_length d < data_already_read then (None, d)
         else (Some (current_pointer d), d\<lparr>current_pointer := current_pointer d + unat data_size\<rparr>))"

definition destroy_packet_data :: "conn_cfg \<Rightarrow> ptr \<Rightarrow> conn_state \<Rightarrow> conn_state res" where
  "destroy_packet_data c pd s =
     (case packet_data_at s pd of
        None \<Rightarrow> Inl Null_Deref
      | Some d \<Rightarrow>
          (case internal_pending_message d of
             Some pm \<Rightarrow>
               (case pending_at s pm of
                  None \<Rightarrow> Inl Null_Deref
                | Some x \<Rightarrow>
                    rbind (env_free (pm_chunks_at x) (s_env s))
                      (\<lambda>e1. rbind (pool_free Pending_messages_pool pm e1)
                         (\<lambda>e2. rbind (env_free (Some (pd_data d)) e2) (\<lambda>e3. Inr (s\<lparr>s_env := e3\<rparr>)))))
           | None \<Rightarrow>
               rbind (pool_free Packet_buffer_pool (pd_data d - PACKET_HEADER_SIZE - cf_prepend c) (s_env s))
                 (\<lambda>e1. rbind (pool_free (packet_data_pool (cf_type c)) pd e1) (\<lambda>e2. Inr (s\<lparr>s_env := e2\<rparr>)))))"

definition remove_pending_message_from_hashmap :: "conn_cfg \<Rightarrow> pending_message \<Rightarrow> conn_state \<Rightarrow> conn_state res" where
  "remove_pending_message_from_hashmap c x s =
     rbind (hashmap_remove (cf_seed c) (conn_key (pm_source_port x) (pm_packet_id x)) 4 (pending_messages s) (s_env s))
       (\<lambda>(hm, e). Inr (s\<lparr>pending_messages := hm, s_env := e\<rparr>))"

text \<open>A node taken from the callback queue, and one turn of the loop.\<close>

definition run_callback :: "conn_cfg \<Rightarrow> handler option \<Rightarrow> callback_item \<Rightarrow> conn_state \<Rightarrow> conn_state res" where
  "run_callback c packet_handler it s =
     (case cb_packet_data it of
        None \<Rightarrow> Inr s
      | Some pd \<Rightarrow>
          rbind (case cb_pending_message it of
                   None \<Rightarrow> Inr s
                 | Some pm \<Rightarrow>
                     (case pending_at s pm of
                        None \<Rightarrow> Inl Null_Deref
                      | Some x \<Rightarrow> remove_pending_message_from_hashmap c x s))
            (\<lambda>s1. case packet_handler of None \<Rightarrow> destroy_packet_data c pd s1 | Some f \<Rightarrow> f pd s1))"

definition free_callback_node :: "ptr \<Rightarrow> conn_state \<Rightarrow> conn_state res" where
  "free_callback_node node s =
     rbind (pool_free Packet_callback_queue_node_pool node (s_env s)) (\<lambda>e. Inr (s\<lparr>s_env := e\<rparr>))"

definition callback_turn :: "conn_cfg \<Rightarrow> handler option \<Rightarrow> conn_state \<Rightarrow> conn_state res" where
  "callback_turn c packet_handler s =
     rbind (wait_for_next_packet_callback (callback_queue s) (callback_nodes s))
       (\<lambda>(r, q). case r of
          None \<Rightarrow> Inr (s\<lparr>callback_queue := q\<rparr>)
        | Some node \<Rightarrow>
            (case callback_nodes s node of
               None \<Rightarrow> Inl Null_Deref
             | Some n \<Rightarrow> rbind (run_callback c packet_handler (q_item n) (s\<lparr>callback_queue := q\<rparr>)) (free_callback_node node)))"

text \<open>The loop, until it sees \<open>closing\<close>: one entry per turn, with the handler loaded in it.\<close>

primrec execute_packet_callback :: "conn_cfg \<Rightarrow> handler option list \<Rightarrow> conn_state \<Rightarrow> conn_state res" where
  "execute_packet_callback c [] s = Inr s"
| "execute_packet_callback c (h # hs) s = rbind (callback_turn c h s) (execute_packet_callback c hs)"

text \<open>
  What a thread does when it finds its queue empty, by the number of turns it has been
  idle; both the processing and the callback thread count them in 8 bits.
\<close>

datatype idle_action = Poll_Again | Sleep_Us nat | Wait_Signal

definition idle_step :: "u8 \<Rightarrow> idle_action \<times> u8" where
  "idle_step idle_stage =
     (if idle_stage = 255 then (Wait_Signal, 0)
      else (if idle_stage = 64 then Sleep_Us 1000 else if idle_stage = 128 then Sleep_Us 2000
            else if idle_stage = 194 then Sleep_Us 5000 else Poll_Again, idle_stage + 1))"

text \<open>The flags of the debugger are an \<open>int\<close>, the flags given to these functions a byte.\<close>

definition add_debug_flags :: "u8 \<Rightarrow> u32 \<Rightarrow> u32" where
  "add_debug_flags flags debugger_flags = debugger_flags OR ucast flags"

definition remove_debug_flags :: "u8 \<Rightarrow> u32 \<Rightarrow> u32" where
  "remove_debug_flags flags debugger_flags = debugger_flags AND NOT (ucast flags)"

definition check_debug_flag :: "u8 \<Rightarrow> u32 \<Rightarrow> bool" where
  "check_debug_flag flag debugger_flags \<longleftrightarrow> debugger_flags AND ucast flag \<noteq> 0"

section \<open>The callback of a message\<close>

lemma callback_turn_single:
  assumes "q_rep (callback_queue s) (callback_nodes s) [node]" and "callback_nodes s node = Some n"
  shows "callback_turn c h s = rbind (run_callback c h (q_item n) (s\<lparr>callback_queue := empty_queue\<rparr>)) (free_callback_node node)"
proof -
  obtain q where "wait_for_next_packet (callback_queue s) (callback_nodes s) = Inr (Some node, q)" "q = empty_queue"
    using wait_for_next_packet_rep [OF assms(1)] by auto
  with assms(2) show ?thesis by (simp add: callback_turn_def callback_queue_same)
qed

lemma remove_pending_ok:
  assumes "conn_ok c B s" and "hm_abs (pending_messages s) (conn_key port i) = [pm]"
  obtains hm e where "hashmap_remove (cf_seed c) (conn_key port i) 4 (pending_messages s) (s_env s) = Inr (hm, e)"
    and "hm_ok (cf_seed c) hm e" and "hm_abs hm (conn_key port i) = []"
    and "\<And>y. y \<noteq> Hashmap_item_pool \<Longrightarrow> y \<noteq> Pending_message_key_pool \<Longrightarrow> pool e y = pool (s_env s) y"
proof -
  have hm: "hm_ok (cf_seed c) (pending_messages s) (s_env s)" "key_memory_allocator (pending_messages s) = Some Pending_message_key_pool"
    using assms(1) by (simp_all add: conn_ok_def)
  have "length (conn_key port i) = unat (4 :: u32)" by (simp add: conn_key_def)
  from hashmap_remove_ok [OF hm(1) this] obtain hm' e' where
    1: "hashmap_remove (cf_seed c) (conn_key port i) 4 (pending_messages s) (s_env s) = Inr (hm', e')" "hm_ok (cf_seed c) hm' e'"
      "hm_abs hm' = (hm_abs (pending_messages s))(conn_key port i := tl (hm_abs (pending_messages s) (conn_key port i)))" by blast
  have fr: "pool e' y = pool (s_env s) y" if "y \<noteq> Hashmap_item_pool" "y \<noteq> Pending_message_key_pool" for y
    by (rule hashmap_remove_frame [OF 1(1)]) (use that hm(2) in auto)
  then show ?thesis using that [where hm = hm' and e = e'] 1 assms(2) by simp
qed

text \<open>A connection to which the sample sender has sent a message.\<close>

lemma sample_finished: "\<exists>s node. finished sample_cfg 100 (replicate 50 7) (htons 9) 5000 [] node s"
proof -
  let ?r = "sample_route loopback" let ?msg = "replicate 50 7 :: u8 list"
  obtain s where s: "\<forall>i port n. n \<le> 900000 \<longrightarrow> recv_ready sample_cfg 100 i port n s" "handover_room sample_cfg [] s"
    using sample_conn_ready [of sample_cfg 100] by blast
  have r: "unat (rt_mtu ?r) - 44 = 20" "source_port (rt_ports ?r) = 5000" by (simp_all add: sample_route_def)
  have n: "chunk_count 20 (length ?msg) = 3" by (simp add: chunk_count_def)
  have sp: "splits (unat (rt_mtu ?r) - 44) ?msg" unfolding r by (simp add: splits_def)
  have rd: "recv_ready sample_cfg 100 (htons 9) (source_port (rt_ports ?r)) (message_room ?r (length ?msg)) s"
    using s(1) by (simp add: message_room_def sample_route_def chunk_count_def)
  have js: "set [0..<3] = {0..<chunk_count (unat (rt_mtu ?r) - 44) (length ?msg)}" "[0..<3 :: nat] \<noteq> []" "hd [0..<3] = (0 :: nat)"
    unfolding r n by simp_all
  show ?thesis using receive_message [OF sample_leads sp disjI1 [OF refl] rd s(2) js(2,3,1), of 0] unfolding r by blast
qed

lemma callback_step:
  assumes "finished c B msg i port [] node s" and "length msg < 2 ^ 32"
  shows "\<exists>pd s1. callback_turn c (Some f) s = rbind (f pd s1) (free_callback_node node) \<and> packet_bytes c s1 pd = Some msg \<and>
     get_pending_message c i port s1 = Inr None \<and> check_packet_already_completed c i port s1 = Inr True \<and>
     callback_queue s1 = empty_queue \<and> between_frames c B s1 \<and> node \<in> pool_live (s_env s1) Packet_callback_queue_node_pool \<and> wire s1 = wire s"
proof -
  obtain pm where f: "conn_ok c B s" "hm_abs (packets_completed s) (conn_key port i) \<noteq> []"
    "hm_abs (pending_messages s) (conn_key port i) = [pm]" "handed_over msg i port [] node pm s"
    using assms(1) by (auto simp: finished_def)
  obtain pd d x n where h: "q_rep (callback_queue s) (callback_nodes s) [node]" "callback_nodes s node = Some n"
    "q_item n = \<lparr>cb_pending_message = Some pm, cb_packet_data = Some pd, cb_packet_id = i\<rparr>"
    "packet_data_at s pd = Some d" "internal_pending_message d = Some pm" "md_data_length d = of_nat (length msg)"
    "pending_at s pm = Some x" "pm_data x = msg" "belongs i port x" using f(4) by (auto simp: handed_over_def)
  obtain hm e where 1: "hashmap_remove (cf_seed c) (conn_key port i) 4 (pending_messages s) (s_env s) = Inr (hm, e)" "hm_ok (cf_seed c) hm e"
    "hm_abs hm (conn_key port i) = []" "\<And>y. y \<noteq> Hashmap_item_pool \<Longrightarrow> y \<noteq> Pending_message_key_pool \<Longrightarrow> pool e y = pool (s_env s) y"
    using remove_pending_ok [OF f(1,3)] by blast
  let ?s1 = "s\<lparr>callback_queue := empty_queue, pending_messages := hm, s_env := e\<rparr>"
  have rm: "remove_pending_message_from_hashmap c x (s\<lparr>callback_queue := empty_queue\<rparr>) = Inr ?s1"
    using 1(1) h(9) by (simp add: remove_pending_message_from_hashmap_def belongs_def)
  have "callback_turn c (Some f) s = rbind (f pd ?s1) (free_callback_node node)"
    unfolding callback_turn_single [OF h(1,2)] using h(3,7) rm by (simp add: run_callback_def)
  moreover have "packet_bytes c ?s1 pd = Some msg" using h(4-8) assms(2) by (simp add: packet_bytes_def unat_of_nat)
  moreover have bf: "between_frames c B ?s1"
    using f(1) 1(2,4) by (simp add: between_frames_def conn_ok_def hm_ok_def)
  moreover have "get_pending_message c i port ?s1 = Inr None" "check_packet_already_completed c i port ?s1 = Inr True"
    using between_lookup [OF bf refl refl, of i port] 1(3) f(2) by (simp_all add: first_of_def)
  moreover have "node \<in> pool_live (s_env ?s1) Packet_callback_queue_node_pool" using f(4) 1(4) by (simp add: handed_over_def)
  ultimately show ?thesis by (intro exI [of _ pd] exI [of _ ?s1]) simp
qed

text \<open>
  The callback of a delivered message: the next turn of the callback thread calls the
  handler with packet data whose bytes are the message, after the message has left the
  table of pending messages, so that a further request for lost chunks is answered with
  the confirmation; afterwards the queue node goes back to its pool.
\<close>

theorem callback_gets_message:
  assumes "finished c B msg i port [] node s" and "length msg < 2 ^ 32"
  shows "\<exists>pd s1. callback_turn c (Some f) s = rbind (f pd s1) (free_callback_node node) \<and> packet_bytes c s1 pd = Some msg \<and>
     get_pending_message c i port s1 = Inr None \<and> check_packet_already_completed c i port s1 = Inr True \<and>
     callback_queue s1 = empty_queue \<and> between_frames c B s1"
  using callback_step [OF assms, of f] by blast

theorem callback_gets_message_witness:
  "\<exists>s node pd s1. callback_turn sample_cfg (Some (\<lambda>pd s. Inr s)) s = rbind (Inr s1) (free_callback_node node) \<and>
     packet_bytes sample_cfg s1 pd = Some (replicate 50 7)"
proof -
  obtain s node where s: "finished sample_cfg 100 (replicate 50 7) (htons 9) 5000 [] node s" using sample_finished by blast
  have "length (replicate 50 7 :: u8 list) < 2 ^ 32" by simp
  from callback_gets_message [OF s this, of "\<lambda>pd s. Inr s"] show ?thesis by blast
qed

section \<open>Packet data\<close>

text \<open>
  C15. Reading a packet: as long as the position and the size asked for stay below \<open>2^32\<close>, a
  read succeeds exactly when the bytes are there; it then returns the current position and
  advances by the size, and otherwise leaves the packet as it is.
\<close>

theorem read_packet_bounds:
  assumes "current_pointer d = pd_data d + k" and "k + unat data_size < 2 ^ 32"
  shows "read_packet data_size d =
    (if k + unat data_size \<le> unat (md_data_length d) then (Some (pd_data d + k), d\<lparr>current_pointer := pd_data d + k + unat data_size\<rparr>)
     else (None, d))"
proof -
  have "unat (of_nat k + data_size) = k + unat data_size" using assms(2) by (simp add: unat_word_ariths unat_of_nat)
  then show ?thesis using assms(1) by (simp add: read_packet_def Let_def word_less_nat_alt)
qed

theorem read_packet_bounds_witness:
  "\<exists>d :: packet_data. md_data_length d = 10 \<and> read_packet 4 d = (Some 106, d\<lparr>current_pointer := 110\<rparr>) \<and> read_packet 5 d = (None, d)"
proof -
  let ?d = "\<lparr>internal_pending_message = None, pd_data = 100, current_pointer = 106, md_sender = None, md_data_length = 10,
    md_ports = \<lparr>destination_port = 0, source_port = 0\<rparr>, md_packet_id = 0, expecting_response = False\<rparr>"
  have "read_packet 4 ?d = (Some 106, ?d\<lparr>current_pointer := 110\<rparr>)" "read_packet 5 ?d = (None, ?d)"
    using read_packet_bounds [of ?d 6 4] read_packet_bounds [of ?d 6 5] by simp_all
  then show ?thesis by (intro exI [of _ ?d]) simp
qed

text \<open>
  The bound is not safe against large sizes: when position and size add up to \<open>2^32\<close> or
  a little more, the sum wraps around, the read is granted, and the position ends behind
  the data.
\<close>

theorem read_packet_overflow:
  assumes "current_pointer d = pd_data d + k" and "2 ^ 32 \<le> k + unat data_size"
    and "k + unat data_size \<le> 2 ^ 32 + unat (md_data_length d)" and "k \<le> unat (md_data_length d)"
  shows "\<exists>d'. read_packet data_size d = (Some (pd_data d + k), d') \<and> pd_data d + unat (md_data_length d) < current_pointer d'"
proof -
  have L: "unat (md_data_length d) < 2 ^ 32" "unat data_size < 2 ^ 32"
    using unsigned_less [of "md_data_length d", where ?'a = nat] unsigned_less [of data_size, where ?'a = nat] by simp_all
  have "k < 2 ^ 32" using assms(4) L by linarith
  then have "unat (of_nat k + data_size) = (k + unat data_size) mod 2 ^ 32" by (simp add: unat_word_ariths unat_of_nat mod_add_left_eq)
  also have "\<dots> = k + unat data_size - 2 ^ 32" using assms(2,4) L by (simp add: mod_if)
  finally have "unat (of_nat k + data_size) \<le> unat (md_data_length d)" using assms(3) by simp
  then have "read_packet data_size d = (Some (pd_data d + k), d\<lparr>current_pointer := pd_data d + k + unat data_size\<rparr>)"
    using assms(1) by (simp add: read_packet_def Let_def word_less_nat_alt)
  moreover have "pd_data d + unat (md_data_length d) < pd_data d + k + unat data_size" using assms(2) L by linarith
  ultimately show ?thesis by simp
qed

theorem read_packet_overflow_witness:
  "\<exists>d d' :: packet_data. md_data_length d = 10 \<and> read_packet 0xFFFFFFFF d = (Some 106, d') \<and> 110 < current_pointer d'"
proof -
  let ?d = "\<lparr>internal_pending_message = None, pd_data = 100, current_pointer = 106, md_sender = None, md_data_length = 10,
    md_ports = \<lparr>destination_port = 0, source_port = 0\<rparr>, md_packet_id = 0, expecting_response = False\<rparr>"
  have h: "current_pointer ?d = pd_data ?d + 6" "2 ^ 32 \<le> 6 + unat (0xFFFFFFFF :: u32)"
    "6 + unat (0xFFFFFFFF :: u32) \<le> 2 ^ 32 + unat (md_data_length ?d)" "6 \<le> unat (md_data_length ?d)" by simp_all
  have "pd_data ?d + 6 = 106" "pd_data ?d + unat (md_data_length ?d) = 110" "md_data_length ?d = 10" by simp_all
  with read_packet_overflow [OF h] show ?thesis by metis
qed

text \<open>
  Destroying the packet data of a message of one frame gives the frame's buffer and the
  packet data back to their pools, each exactly once, and changes nothing else there.
\<close>

theorem destroy_releases_frame:
  assumes "env_ok (s_env s)" and "packet_data_at s pd = Some d" and "internal_pending_message d = None"
    and "pd \<in> pool_live (s_env s) (packet_data_pool (cf_type c))"
    and "pd_data d = b + cf_prepend c + PACKET_HEADER_SIZE" and "b \<in> pool_live (s_env s) Packet_buffer_pool"
  shows "\<exists>e. destroy_packet_data c pd s = Inr (s\<lparr>s_env := e\<rparr>) \<and> env_ok e \<and>
    pool_live e Packet_buffer_pool = pool_live (s_env s) Packet_buffer_pool - {b} \<and>
    pool_live e (packet_data_pool (cf_type c)) = pool_live (s_env s) (packet_data_pool (cf_type c)) - {pd} \<and>
    same_except {Packet_buffer_pool, packet_data_pool (cf_type c)} (s_env s) e"
proof -
  let ?dp = "packet_data_pool (cf_type c)"
  have ne: "?dp \<noteq> Packet_buffer_pool" using packet_data_pool_cases [of "cf_type c"] by auto
  from pool_free_ok [OF assms(1,6)] obtain e1 where
    1: "pool_free Packet_buffer_pool b (s_env s) = Inr e1" "env_ok e1" "pool_live e1 Packet_buffer_pool = pool_live (s_env s) Packet_buffer_pool - {b}"
      "same_except {Packet_buffer_pool} (s_env s) e1" by blast
  have "pd \<in> pool_live e1 ?dp" using assms(4) 1(4) ne by (simp add: same_except_def)
  from pool_free_ok [OF 1(2) this] obtain e2 where
    2: "pool_free ?dp pd e1 = Inr e2" "env_ok e2" "pool_live e2 ?dp = pool_live e1 ?dp - {pd}" "same_except {?dp} e1 e2" by blast
  have "destroy_packet_data c pd s = Inr (s\<lparr>s_env := e2\<rparr>)" using assms(2,3,5) 1(1) 2(1) by (simp add: destroy_packet_data_def)
  with 1 2 ne show ?thesis by (intro exI [of _ e2]) (simp add: same_except_def)
qed

theorem destroy_releases_frame_witness:
  "\<exists>s s' pd b. b \<in> pool_live (s_env s) Packet_buffer_pool \<and> destroy_packet_data sample_cfg pd s = Inr s' \<and>
     b \<notin> pool_live (s_env s') Packet_buffer_pool"
proof -
  let ?dp = "packet_data_pool (cf_type sample_cfg)"
  obtain e where e: "env_ok e" "\<forall>i. pool_live e i = {} \<and> pool_avail e i = 200" using sample_env by blast
  have "0 < pool_avail e Packet_buffer_pool" using e(2) by simp
  from take_item [OF e(1) this] obtain b e1 where 1: "env_grows e e1" "b \<in> pool_live e1 Packet_buffer_pool" "same_except {Packet_buffer_pool} e e1"
    by blast
  have "env_ok e1" "0 < pool_avail e1 ?dp" using 1(1,3) e(2) by (simp_all add: env_grows_def same_except_def sample_cfg_def packet_data_pool_def)
  from take_item [OF this] obtain pd e2 where 2: "env_grows e1 e2" "pd \<in> pool_live e2 ?dp" by blast
  let ?d = "\<lparr>internal_pending_message = None, pd_data = b + cf_prepend sample_cfg + PACKET_HEADER_SIZE, current_pointer = 0, md_sender = None,
    md_data_length = 0, md_ports = \<lparr>destination_port = 0, source_port = 0\<rparr>, md_packet_id = 0, expecting_response = False\<rparr>"
  let ?s = "undefined\<lparr>s_env := e2, packet_data_at := [pd \<mapsto> ?d]\<rparr> :: conn_state"
  have b: "b \<in> pool_live (s_env ?s) Packet_buffer_pool" using 1(2) 2(1) by (auto simp: env_grows_def)
  have h: "env_ok (s_env ?s)" "packet_data_at ?s pd = Some ?d" "internal_pending_message ?d = None" "pd \<in> pool_live (s_env ?s) ?dp"
    "pd_data ?d = b + cf_prepend sample_cfg + PACKET_HEADER_SIZE" using 2 by (simp_all add: env_grows_def)
  obtain e3 where "destroy_packet_data sample_cfg pd ?s = Inr (?s\<lparr>s_env := e3\<rparr>)"
    "pool_live e3 Packet_buffer_pool = pool_live (s_env ?s) Packet_buffer_pool - {b}" using destroy_releases_frame [OF h b] by blast
  with b show ?thesis by (intro exI [of _ ?s] exI [of _ "?s\<lparr>s_env := e3\<rparr>"] exI [of _ pd] exI [of _ b]) simp
qed

text \<open>
  Destroying the packet data of a message of several chunks releases the bit array, the
  message's memory and the pending message, but not the packet data itself, which no
  other operation of the library gives back.
\<close>

theorem destroy_leaks_packet_data:
  assumes "env_ok (s_env s)" and "packet_data_at s pd = Some d" and "internal_pending_message d = Some pm"
    and "pending_at s pm = Some x" and "pm_chunks_at x = Some q" and "pd_data d \<noteq> q"
    and "pm \<in> pool_live (s_env s) Pending_messages_pool" and "{q, pd_data d} \<subseteq> dom (blocks (c_heap (s_env s)))"
  shows "\<exists>e. destroy_packet_data c pd s = Inr (s\<lparr>s_env := e\<rparr>) \<and> env_ok e \<and>
    pool_live e Pending_messages_pool = pool_live (s_env s) Pending_messages_pool - {pm} \<and>
    dom (blocks (c_heap e)) = dom (blocks (c_heap (s_env s))) - {q, pd_data d} \<and>
    pool_live e (packet_data_pool (cf_type c)) = pool_live (s_env s) (packet_data_pool (cf_type c))"
proof -
  have q: "q \<in> dom (blocks (c_heap (s_env s)))" "pd_data d \<in> dom (blocks (c_heap (s_env s)))" using assms(8) by simp_all
  from env_free_block [OF assms(1) q(1)] obtain e1 where
    1: "env_free (Some q) (s_env s) = Inr e1" "env_ok e1" "pool e1 = pool (s_env s)"
      "dom (blocks (c_heap e1)) = dom (blocks (c_heap (s_env s))) - {q}" by blast
  have "pm \<in> pool_live e1 Pending_messages_pool" using assms(7) 1(3) by simp
  from pool_free_ok [OF 1(2) this] obtain e2 where
    2: "pool_free Pending_messages_pool pm e1 = Inr e2" "env_ok e2" "pool_live e2 Pending_messages_pool = pool_live e1 Pending_messages_pool - {pm}"
      "same_except {Pending_messages_pool} e1 e2" by blast
  have "pd_data d \<in> dom (blocks (c_heap e2))" using q(2) assms(6) 1(4) 2(4) by (auto simp: same_except_def)
  from env_free_block [OF 2(2) this] obtain e3 where
    3: "env_free (Some (pd_data d)) e2 = Inr e3" "env_ok e3" "pool e3 = pool e2" "dom (blocks (c_heap e3)) = dom (blocks (c_heap e2)) - {pd_data d}" by blast
  have "destroy_packet_data c pd s = Inr (s\<lparr>s_env := e3\<rparr>)" using assms(2-5) 1(1) 2(1) 3(1) by (simp add: destroy_packet_data_def)
  moreover have "pool_live e3 (packet_data_pool (cf_type c)) = pool_live (s_env s) (packet_data_pool (cf_type c))"
    using 1(3) 2(4) 3(3) packet_data_pool_cases [of "cf_type c"] by (auto simp: same_except_def)
  moreover have "dom (blocks (c_heap e3)) = dom (blocks (c_heap (s_env s))) - {q, pd_data d}"
    using 1(4) 2(4) 3(4) by (auto simp: same_except_def)
  ultimately show ?thesis using 1(3) 2(3) 3(2,3) by (intro exI [of _ e3]) simp
qed

theorem destroy_leaks_packet_data_witness:
  "\<exists>s s' pd. pd \<in> pool_live (s_env s) Server_packet_data_pool \<and> destroy_packet_data sample_cfg pd s = Inr s' \<and>
     pd \<in> pool_live (s_env s') Server_packet_data_pool"
proof -
  obtain e where e: "env_ok e" "\<forall>i. pool_live e i = {} \<and> pool_avail e i = 200" "heap_room 1000000 (c_heap e)" using sample_env by blast
  have dp: "packet_data_pool (cf_type sample_cfg) = Server_packet_data_pool" by (simp add: sample_cfg_def packet_data_pool_def)
  have "0 < pool_avail e Pending_messages_pool" using e(2) by simp
  from take_item [OF e(1) this] obtain pm e1 where 1: "env_grows e e1" "pm \<in> pool_live e1 Pending_messages_pool" "same_except {Pending_messages_pool} e e1"
    by blast
  have "env_ok e1" "0 < pool_avail e1 Server_packet_data_pool" using 1(1,3) e(2) by (simp_all add: env_grows_def same_except_def)
  from take_item [OF this] obtain pd e2 where 2: "env_grows e1 e2" "pd \<in> pool_live e2 Server_packet_data_pool" "same_except {Server_packet_data_pool} e1 e2" by blast
  have h2: "env_ok e2" "heap_room 1000000 (c_heap e2)" using 1(3) 2(1,3) e(3) by (simp_all add: env_grows_def same_except_def)
  obtain q e3 where 3: "env_malloc 10 e2 = (Some q, e3)" "env_grows e2 e3" "pool e3 = pool e2" "heap_room (1000000 - max 1 10) (c_heap e3)"
    "q \<notin> dom (blocks (c_heap e2))" "q \<in> dom (blocks (c_heap e3))" by (rule take_block [OF h2, of 10]) simp_all
  have h3: "env_ok e3" using 3(2) by (simp add: env_grows_def)
  obtain m e4 where 4: "env_malloc 10 e3 = (Some m, e4)" "env_grows e3 e4" "pool e4 = pool e3" "heap_room (1000000 - max 1 10 - max 1 10) (c_heap e4)"
    "m \<notin> dom (blocks (c_heap e3))" "m \<in> dom (blocks (c_heap e4))" by (rule take_block [OF h3 3(4), of 10]) simp_all
  let ?d = "\<lparr>internal_pending_message = Some pm, pd_data = m, current_pointer = m, md_sender = None,
    md_data_length = 0, md_ports = \<lparr>destination_port = 0, source_port = 0\<rparr>, md_packet_id = 0, expecting_response = False\<rparr>"
  let ?x = "undefined\<lparr>pm_chunks_at := Some q\<rparr> :: pending_message"
  let ?s = "undefined\<lparr>s_env := e4, packet_data_at := [pd \<mapsto> ?d], pending_at := [pm \<mapsto> ?x]\<rparr> :: conn_state"
  have q: "q \<in> dom (blocks (c_heap e4))" using 3(6) 4(2) by (auto simp: env_grows_def)
  have ne: "pd_data ?d \<noteq> q" using 3(6) 4(5) by auto
  have ok: "env_ok (s_env ?s)" using 4(2) by (simp add: env_grows_def)
  have pm: "pm \<in> pool_live (s_env ?s) Pending_messages_pool" using 1(2) 2(3) 3(3) 4(3) by (simp add: same_except_def)
  have pd: "pd \<in> pool_live (s_env ?s) Server_packet_data_pool" using 2(2) 3(3) 4(3) by simp
  have h: "packet_data_at ?s pd = Some ?d" "internal_pending_message ?d = Some pm" "pending_at ?s pm = Some ?x" "pm_chunks_at ?x = Some q"
    "{q, pd_data ?d} \<subseteq> dom (blocks (c_heap (s_env ?s)))" using q 4(6) by simp_all
  obtain e5 where 5: "destroy_packet_data sample_cfg pd ?s = Inr (?s\<lparr>s_env := e5\<rparr>)"
    "pool_live e5 Server_packet_data_pool = pool_live (s_env ?s) Server_packet_data_pool"
    using destroy_leaks_packet_data [OF ok h(1-4) ne pm h(5), of sample_cfg] unfolding dp by blast
  have "pd \<in> pool_live (s_env (?s\<lparr>s_env := e5\<rparr>)) Server_packet_data_pool" using 5(2) pd by simp
  with 5(1) pd show ?thesis by blast
qed

end
