(* ===== verification/Swift_Threads.thy ===== *)
theory Swift_Threads
  imports Swift_Callback
begin

text \<open>
  Threads. The library guards its queues and tables with a spin lock
  (\<open>LOCK_ATOMIC_DATA_TYPE\<close> in \<open>src/internal/internal.h\<close>) and puts an idle processing thread
  to sleep on a condition variable (\<open>swiftnet_process_packets\<close>), from which the capturing
  thread wakes it (\<open>swiftnet_handle_packets\<close>). Both are step relations of interleaved
  threads: for the lock, any number of threads that use one packet queue, one memory access
  at a time; for the sleeping, the processing and the capturing thread of a connection.
\<close>

section \<open>A queue behind its spin lock\<close>

text \<open>The accesses of \<open>insert_queue_node\<close> and \<open>wait_for_next_packet\<close> between lock and unlock.\<close>

datatype queue_op = Insert_Node ptr | Take_Node

datatype queue_access = Link_Last ptr | Set_Last ptr | Set_First ptr | Read_First | Unlink_First

primrec queue_accesses :: "queue_op \<Rightarrow> queue_access list" where
  "queue_accesses (Insert_Node p) = [Link_Last p, Set_Last p, Set_First p]"
| "queue_accesses Take_Node = [Read_First, Unlink_First]"

text \<open>An access by a thread with the local variable \<open>node_to_process\<close>.\<close>

type_synonym 'a queue_view = "packet_queue \<times> 'a node_store \<times> ptr option"

fun queue_access_step :: "queue_access \<Rightarrow> 'a queue_view \<Rightarrow> 'a queue_view res" where
  "queue_access_step (Link_Last p) (q, st, r) =
     rbind (case last_node q of None \<Rightarrow> Inr st | Some l \<Rightarrow> link_last l p st) (\<lambda>st1. Inr (q, st1, r))"
| "queue_access_step (Set_Last p) (q, st, r) = Inr (q\<lparr>last_node := Some p\<rparr>, st, r)"
| "queue_access_step (Set_First p) (q, st, r) = Inr (if first_node q = None then q\<lparr>first_node := Some p\<rparr> else q, st, r)"
| "queue_access_step Read_First (q, st, r) = Inr (q, st, first_node q)"
| "queue_access_step Unlink_First (q, st, r) =
     (case r of
        None \<Rightarrow> Inr (q, st, r)
      | Some p \<Rightarrow>
          (case st p of
             None \<Rightarrow> Inl Null_Deref
           | Some n \<Rightarrow> Inr (if q_next n = None then q\<lparr>first_node := None, last_node := None\<rparr> else q\<lparr>first_node := q_next n\<rparr>, st, r)))"

primrec run_accesses :: "queue_access list \<Rightarrow> 'a queue_view \<Rightarrow> 'a queue_view res" where
  "run_accesses [] v = Inr v"
| "run_accesses (a # as) v = rbind (queue_access_step a v) (run_accesses as)"

text \<open>The operations as single steps, and a sequence of them with what each returns.\<close>

primrec queue_op_step :: "queue_op \<Rightarrow> packet_queue \<times> 'a node_store \<Rightarrow> (ptr option \<times> packet_queue \<times> 'a node_store) res" where
  "queue_op_step (Insert_Node p) s = rbind (insert_queue_node (Some p) (fst s) (snd s)) (\<lambda>s'. Inr (None, s'))"
| "queue_op_step Take_Node s = rbind (wait_for_next_packet (fst s) (snd s)) (\<lambda>(r, q). Inr (r, q, snd s))"

primrec run_ops :: "queue_op list \<Rightarrow> packet_queue \<times> 'a node_store \<Rightarrow> (ptr option list \<times> packet_queue \<times> 'a node_store) res" where
  "run_ops [] s = Inr ([], s)"
| "run_ops (x # xs) s = rbind (queue_op_step x s) (\<lambda>(r, s1). rbind (run_ops xs s1) (\<lambda>(rs, s2). Inr (r # rs, s2)))"

text \<open>
  Threads by their number: outside, spinning on the lock for an operation, or inside with
  the accesses still to make and the local variable. \<open>completed\<close> lists the operations that
  have released the lock, with what they returned.
\<close>

datatype lock_phase = Outside | Spinning queue_op | Inside queue_op "queue_access list" "ptr option"

record 'a lock_sys =
  locked :: bool
  shared_queue :: packet_queue
  shared_nodes :: "'a node_store"
  phase :: "nat \<Rightarrow> lock_phase"
  completed :: "(queue_op \<times> ptr option) list"

definition lock_start :: "packet_queue \<Rightarrow> 'a node_store \<Rightarrow> 'a lock_sys" where
  "lock_start q st = \<lparr>locked = False, shared_queue = q, shared_nodes = st, phase = (\<lambda>_. Outside), completed = []\<rparr>"

inductive lock_step :: "'a lock_sys \<Rightarrow> 'a lock_sys \<Rightarrow> bool" where
  call: "phase s i = Outside \<Longrightarrow> lock_step s (s\<lparr>phase := (phase s)(i := Spinning x)\<rparr>)"
| spin: "phase s i = Spinning x \<Longrightarrow> locked s \<Longrightarrow> lock_step s s"
| acquire: "phase s i = Spinning x \<Longrightarrow> \<not> locked s \<Longrightarrow>
    lock_step s (s\<lparr>locked := True, phase := (phase s)(i := Inside x (queue_accesses x) None)\<rparr>)"
| access: "phase s i = Inside x (a # as) r \<Longrightarrow>
    queue_access_step a (shared_queue s, shared_nodes s, r) = Inr (q, st, r') \<Longrightarrow>
    lock_step s (s\<lparr>shared_queue := q, shared_nodes := st, phase := (phase s)(i := Inside x as r')\<rparr>)"
| release: "phase s i = Inside x [] r \<Longrightarrow>
    lock_step s (s\<lparr>locked := False, phase := (phase s)(i := Outside), completed := completed s @ [(x, r)]\<rparr>)"

inductive lock_reach :: "'a lock_sys \<Rightarrow> 'a lock_sys \<Rightarrow> bool" for s0 where
  start: "lock_reach s0 s0"
| step: "lock_reach s0 s \<Longrightarrow> lock_step s s' \<Longrightarrow> lock_reach s0 s'"

lemma run_accesses_append: "run_accesses (as @ bs) v = rbind (run_accesses as v) (run_accesses bs)"
  by (induction as arbitrary: v) (simp_all add: rbind_def split: sum.splits)

lemma run_accesses_op:
  "run_accesses (queue_accesses x) (q, st, None) = Inr (q', st', r) \<Longrightarrow> queue_op_step x (q, st) = Inr (r, q', st')"
  by (cases x) (auto simp: insert_queue_node_def wait_for_next_packet_def Let_def rbind_eq_Inr split: option.splits if_splits)

lemma run_ops_snoc:
  "run_ops xs s = Inr (rs, s1) \<Longrightarrow> queue_op_step x s1 = Inr (r, s2) \<Longrightarrow> run_ops (xs @ [x]) s = Inr (rs @ [r], s2)"
proof (induction xs arbitrary: s rs)
  case (Cons y ys)
  from Cons.prems(1) obtain r1 s' rs' where "queue_op_step y s = Inr (r1, s')" "run_ops ys s' = Inr (rs', s1)" "rs = r1 # rs'"
    by (auto simp: rbind_eq_Inr)
  with Cons.IH [OF _ Cons.prems(2)] show ?case by simp
qed simp

text \<open>
  The invariant: a thread is inside exactly when the lock is taken, and then only one; the
  queue is what the completed operations make of the first one, followed by the accesses
  the thread inside has made.
\<close>

definition sequential :: "packet_queue \<times> 'a node_store \<Rightarrow> 'a lock_sys \<Rightarrow> packet_queue \<times> 'a node_store \<Rightarrow> bool" where
  "sequential s0 s s1 \<longleftrightarrow> run_ops (map fst (completed s)) s0 = Inr (map snd (completed s), s1)"

definition lock_inv :: "packet_queue \<times> 'a node_store \<Rightarrow> 'a lock_sys \<Rightarrow> bool" where
  "lock_inv s0 s \<longleftrightarrow>
     (if locked s
      then \<exists>i x as bs r s1. phase s i = Inside x bs r \<and> (\<forall>j y cs r'. phase s j = Inside y cs r' \<longrightarrow> j = i) \<and> queue_accesses x = as @ bs \<and>
         sequential s0 s s1 \<and> run_accesses as (fst s1, snd s1, None) = Inr (shared_queue s, shared_nodes s, r)
      else (\<forall>i y cs r. phase s i \<noteq> Inside y cs r) \<and> sequential s0 s (shared_queue s, shared_nodes s))"

lemma lock_inv_inside:
  assumes "lock_inv s0 s" and "phase s i = Inside x bs r"
  obtains as s1 where "locked s" and "\<forall>j y cs r'. phase s j = Inside y cs r' \<longrightarrow> j = i" and "queue_accesses x = as @ bs"
    and "sequential s0 s s1" and "run_accesses as (fst s1, snd s1, None) = Inr (shared_queue s, shared_nodes s, r)"
proof -
  have l: "locked s" using assms by (auto simp: lock_inv_def split: if_splits)
  with assms(1) obtain k y as cs r' s1 where 1: "phase s k = Inside y cs r'" "\<forall>j y cs r'. phase s j = Inside y cs r' \<longrightarrow> j = k"
    "queue_accesses y = as @ cs" "sequential s0 s s1" "run_accesses as (fst s1, snd s1, None) = Inr (shared_queue s, shared_nodes s, r')"
    by (auto simp: lock_inv_def)
  from 1(2) assms(2) have "i = k" by blast
  with 1(1) assms(2) have "x = y" "bs = cs" "r = r'" by simp_all
  with that [OF l _ _ 1(4)] 1 \<open>i = k\<close> show ?thesis by blast
qed

lemma lock_step_inv: "lock_step s s' \<Longrightarrow> lock_inv s0 s \<Longrightarrow> lock_inv s0 s'"
proof (induction rule: lock_step.induct)
  case (call s i x)
  show ?case
  proof (cases "locked s")
    case True
    with call obtain k y as bs r s1 where 1: "phase s k = Inside y bs r" "\<forall>j y cs r'. phase s j = Inside y cs r' \<longrightarrow> j = k"
      "queue_accesses y = as @ bs" "sequential s0 s s1" "run_accesses as (fst s1, snd s1, None) = Inr (shared_queue s, shared_nodes s, r)"
      by (auto simp: lock_inv_def)
    with call(1) have "k \<noteq> i" by auto
    with 1 True show ?thesis unfolding lock_inv_def sequential_def
      by simp (intro exI [of _ k] exI [of _ y] exI [of _ as] exI [of _ bs], auto)
  next
    case False
    with call show ?thesis by (simp add: lock_inv_def sequential_def)
  qed
next
  case (spin s i x)
  then show ?case by simp
next
  case (acquire s i x)
  then have "\<forall>j y cs r. phase s j \<noteq> Inside y cs r" "sequential s0 s (shared_queue s, shared_nodes s)" by (simp_all add: lock_inv_def)
  then show ?case unfolding lock_inv_def sequential_def
    by simp
next
  case (access s i x a as r q st r')
  obtain xs s1 where 1: "locked s" "\<forall>j y cs r'. phase s j = Inside y cs r' \<longrightarrow> j = i" "queue_accesses x = xs @ a # as"
    "sequential s0 s s1" "run_accesses xs (fst s1, snd s1, None) = Inr (shared_queue s, shared_nodes s, r)"
    by (rule lock_inv_inside [OF access(3,1)])
  have "run_accesses (xs @ [a]) (fst s1, snd s1, None) = Inr (q, st, r')" using 1(5) access(2) by (simp add: run_accesses_append)
  moreover have "queue_accesses x = (xs @ [a]) @ as" using 1(3) by simp
  ultimately show ?case unfolding lock_inv_def using 1(1,2,4)
    by (simp add: sequential_def) (intro exI [of _ i] exI [of _ "xs @ [a]"] exI [of _ as], auto)
next
  case (release s i x r)
  obtain xs s1 where 1: "locked s" "\<forall>j y cs r'. phase s j = Inside y cs r' \<longrightarrow> j = i" "queue_accesses x = xs @ []"
    "sequential s0 s s1" "run_accesses xs (fst s1, snd s1, None) = Inr (shared_queue s, shared_nodes s, r)"
    by (rule lock_inv_inside [OF release(2,1)])
  from run_accesses_op [of x "fst s1" "snd s1"] 1(3,5) have "queue_op_step x s1 = Inr (r, shared_queue s, shared_nodes s)" by simp
  with 1(2,4) show ?case by (auto simp: lock_inv_def sequential_def intro: run_ops_snoc)
qed

lemma lock_reach_inv: "lock_reach (lock_start q st) s \<Longrightarrow> lock_inv (q, st) s"
proof (induction rule: lock_reach.induct)
  case start
  then show ?case by (simp add: lock_inv_def lock_start_def sequential_def)
next
  case (step s s')
  then show ?case by (blast intro: lock_step_inv)
qed

text \<open>
  C26. The spin lock makes the queue operations atomic: whatever threads use a queue and
  however their accesses interleave, no two of them are inside at once, and whenever the
  lock is free the queue and everything the operations have returned are as if the
  completed operations had run one after the other.
\<close>

theorem queue_lock_linearizable:
  assumes "lock_reach (lock_start q st) s"
  shows "(locked s \<longleftrightarrow> (\<exists>i x as r. phase s i = Inside x as r)) \<and>
    (\<forall>i j x y as bs r r'. phase s i = Inside x as r \<and> phase s j = Inside y bs r' \<longrightarrow> i = j) \<and>
    (\<not> locked s \<longrightarrow> run_ops (map fst (completed s)) (q, st) = Inr (map snd (completed s), shared_queue s, shared_nodes s))"
proof (cases "locked s")
  case True
  with lock_reach_inv [OF assms] obtain i where "\<exists>x as r. phase s i = Inside x as r" "\<forall>j y cs r'. phase s j = Inside y cs r' \<longrightarrow> j = i"
    by (auto simp: lock_inv_def)
  with True show ?thesis by blast
next
  case False
  with lock_reach_inv [OF assms] show ?thesis by (simp add: lock_inv_def sequential_def)
qed

text \<open>Two threads: one inserts a node and the other takes it.\<close>

theorem queue_lock_linearizable_witness:
  "\<exists>s :: bool lock_sys. \<not> locked s \<and> completed s = [(Insert_Node 8, None)] \<and> phase s 1 = Spinning Take_Node \<and>
     run_ops [Insert_Node 8] (empty_queue, \<lambda>p. Some \<lparr>q_next = None, q_item = True\<rparr>) =
       Inr ([None], shared_queue s, shared_nodes s)"
proof -
  let ?st = "\<lambda>p :: ptr. Some \<lparr>q_next = None, q_item = True\<rparr>"
  let ?s0 = "lock_start empty_queue ?st"
  define s1 where "s1 = ?s0\<lparr>phase := (phase ?s0)(0 := Spinning (Insert_Node 8))\<rparr>"
  define s2 where "s2 = s1\<lparr>phase := (phase s1)(1 := Spinning Take_Node)\<rparr>"
  define s3 where "s3 = s2\<lparr>locked := True, phase := (phase s2)(0 := Inside (Insert_Node 8) (queue_accesses (Insert_Node 8)) None)\<rparr>"
  define s4 where "s4 = s3\<lparr>shared_queue := empty_queue, shared_nodes := ?st, phase := (phase s3)(0 := Inside (Insert_Node 8) [Set_Last 8, Set_First 8] None)\<rparr>"
  define s5 where "s5 = s4\<lparr>shared_queue := empty_queue\<lparr>last_node := Some 8\<rparr>, shared_nodes := ?st, phase := (phase s4)(0 := Inside (Insert_Node 8) [Set_First 8] None)\<rparr>"
  define s6 where "s6 = s5\<lparr>shared_queue := \<lparr>first_node = Some 8, last_node = Some 8\<rparr>, shared_nodes := ?st, phase := (phase s5)(0 := Inside (Insert_Node 8) [] None)\<rparr>"
  define s7 where "s7 = s6\<lparr>locked := False, phase := (phase s6)(0 := Outside), completed := completed s6 @ [(Insert_Node 8, None)]\<rparr>"
  note defs = s1_def s2_def s3_def s4_def s5_def s6_def s7_def lock_start_def
  have "lock_step ?s0 s1" unfolding s1_def by (rule lock_step.call) (simp add: lock_start_def)
  moreover have "lock_step s1 s2" unfolding s2_def by (rule lock_step.call) (simp add: s1_def lock_start_def)
  moreover have "lock_step s2 s3" unfolding s3_def by (rule lock_step.acquire) (simp_all add: defs)
  moreover have "lock_step s3 s4" unfolding s4_def by (rule lock_step.access, simp add: defs) (simp add: defs empty_queue_def)
  moreover have "lock_step s4 s5" unfolding s5_def by (rule lock_step.access, simp add: defs) (simp add: defs empty_queue_def)
  moreover have "lock_step s5 s6" unfolding s6_def by (rule lock_step.access, simp add: defs) (simp add: defs empty_queue_def)
  moreover have "lock_step s6 s7" unfolding s7_def by (rule lock_step.release) (simp add: defs)
  ultimately have r: "lock_reach ?s0 s7" by (meson lock_reach.intros)
  have f: "\<not> locked s7" "completed s7 = [(Insert_Node 8, None)]" "phase s7 1 = Spinning Take_Node" by (simp_all add: defs)
  from queue_lock_linearizable [OF r] f show ?thesis by (intro exI [of _ s7]) simp
qed


section \<open>Sleeping and waking\<close>

text \<open>
  The processing thread of a connection, from the poll that finds the queue empty to the
  wait and back, and the capturing thread, from a captured frame to the signal. \<open>frames\<close> is
  the length of the queue. \<open>pthread_cond_wait\<close> gives the mutex back and sleeps in one step,
  a signal wakes the thread that sleeps and is lost when none does.
\<close>

datatype proc_pc = Polling u8 | Storing_False | Locking | Holding | Sleeping | Woken | Unlocking | Storing_True

datatype capt_pc = Capturing | Testing | Capt_Locking | Signalling | Capt_Unlocking

record wake_sys =
  frames :: nat
  processing_packets :: bool
  mtx :: bool
  proc :: proc_pc
  capt :: capt_pc

definition wake_start :: wake_sys where
  "wake_start = \<lparr>frames = 0, processing_packets = True, mtx = False, proc = Polling 0, capt = Capturing\<rparr>"

inductive wake_step :: "wake_sys \<Rightarrow> wake_sys \<Rightarrow> bool" where
  take: "proc s = Polling n \<Longrightarrow> frames s = Suc k \<Longrightarrow> wake_step s (s\<lparr>frames := k, proc := Polling 0\<rparr>)"
| idle: "proc s = Polling n \<Longrightarrow> frames s = 0 \<Longrightarrow> idle_step n = (act, n') \<Longrightarrow> act \<noteq> Wait_Signal \<Longrightarrow> wake_step s (s\<lparr>proc := Polling n'\<rparr>)"
| tired: "proc s = Polling n \<Longrightarrow> frames s = 0 \<Longrightarrow> idle_step n = (Wait_Signal, n') \<Longrightarrow> wake_step s (s\<lparr>proc := Storing_False\<rparr>)"
| store_false: "proc s = Storing_False \<Longrightarrow> wake_step s (s\<lparr>processing_packets := False, proc := Locking\<rparr>)"
| lock: "proc s = Locking \<Longrightarrow> \<not> mtx s \<Longrightarrow> wake_step s (s\<lparr>mtx := True, proc := Holding\<rparr>)"
| wait: "proc s = Holding \<Longrightarrow> wake_step s (s\<lparr>mtx := False, proc := Sleeping\<rparr>)"
| relock: "proc s = Woken \<Longrightarrow> \<not> mtx s \<Longrightarrow> wake_step s (s\<lparr>mtx := True, proc := Unlocking\<rparr>)"
| unlock: "proc s = Unlocking \<Longrightarrow> wake_step s (s\<lparr>mtx := False, proc := Storing_True\<rparr>)"
| store_true: "proc s = Storing_True \<Longrightarrow> wake_step s (s\<lparr>processing_packets := True, proc := Polling 0\<rparr>)"
| capture: "capt s = Capturing \<Longrightarrow> wake_step s (s\<lparr>frames := Suc (frames s), capt := Testing\<rparr>)"
| test_busy: "capt s = Testing \<Longrightarrow> processing_packets s \<Longrightarrow> wake_step s (s\<lparr>capt := Capturing\<rparr>)"
| test_idle: "capt s = Testing \<Longrightarrow> \<not> processing_packets s \<Longrightarrow> wake_step s (s\<lparr>capt := Capt_Locking\<rparr>)"
| capt_lock: "capt s = Capt_Locking \<Longrightarrow> \<not> mtx s \<Longrightarrow> wake_step s (s\<lparr>mtx := True, capt := Signalling\<rparr>)"
| signal: "capt s = Signalling \<Longrightarrow>
    wake_step s (s\<lparr>proc := (if proc s = Sleeping then Woken else proc s), capt := Capt_Unlocking\<rparr>)"
| capt_unlock: "capt s = Capt_Unlocking \<Longrightarrow> wake_step s (s\<lparr>mtx := False, capt := Capturing\<rparr>)"

inductive wake_reach :: "wake_sys \<Rightarrow> bool" where
  start: "wake_reach wake_start"
| step: "wake_reach s \<Longrightarrow> wake_step s s' \<Longrightarrow> wake_reach s'"

text \<open>
  The flag is false from before the sleep until after it, and the mutex has one owner.
\<close>

definition wake_inv :: "wake_sys \<Rightarrow> bool" where
  "wake_inv s \<longleftrightarrow> (processing_packets s \<longleftrightarrow> (\<exists>n. proc s = Polling n) \<or> proc s = Storing_False) \<and>
     (mtx s \<longleftrightarrow> proc s \<in> {Holding, Unlocking} \<or> capt s \<in> {Signalling, Capt_Unlocking}) \<and>
     \<not> (proc s \<in> {Holding, Unlocking} \<and> capt s \<in> {Signalling, Capt_Unlocking}) \<and>
     \<not> (proc s = Sleeping \<and> capt s = Capt_Unlocking)"

lemma wake_step_inv: "wake_step s s' \<Longrightarrow> wake_inv s \<Longrightarrow> wake_inv s'"
  by (induction rule: wake_step.induct) (auto simp: wake_inv_def)

lemma wake_reach_inv: "wake_reach s \<Longrightarrow> wake_inv s"
proof (induction rule: wake_reach.induct)
  case start
  show ?case by (simp add: wake_inv_def wake_start_def)
next
  case (step s s')
  then show ?case by (blast intro: wake_step_inv)
qed


lemma polling_reach:
  assumes "wake_reach (wake_start\<lparr>proc := Polling n\<rparr>)" and "fst (idle_step n) \<noteq> Wait_Signal"
  shows "wake_reach (wake_start\<lparr>proc := Polling (snd (idle_step n))\<rparr>)"
  using wake_reach.step [OF assms(1) wake_step.idle [of _ n "fst (idle_step n)" "snd (idle_step n)"]] assms(2)
  by (simp add: wake_start_def)

text \<open>An idle thread counts its polls up to the wait.\<close>

lemma idle_reach: "k \<le> 255 \<Longrightarrow> wake_reach (wake_start\<lparr>proc := Polling (of_nat k)\<rparr>)"
proof (induction k)
  case 0
  have "wake_start\<lparr>proc := Polling (of_nat 0)\<rparr> = wake_start" by (simp add: wake_start_def)
  then show ?case by (simp only: wake_reach.start)
next
  case (Suc k)
  have "(of_nat k :: u8) \<noteq> 255" using Suc.prems by (subst word_unat_eq_iff) (simp add: unat_of_nat)
  then have "fst (idle_step (of_nat k)) \<noteq> Wait_Signal" "snd (idle_step (of_nat k)) = of_nat (Suc k)" by (simp_all add: idle_step_def)
  with polling_reach [of "of_nat k"] Suc show ?case by simp
qed

lemma asleep_reach:
  obtains s where "wake_reach s" and "s = \<lparr>frames = 1, processing_packets = False, mtx = False, proc = Sleeping, capt = Capturing\<rparr>"
proof -
  define s1 where "s1 = wake_start\<lparr>proc := Storing_False\<rparr>"
  define s2 where "s2 = s1\<lparr>frames := 1, capt := Testing\<rparr>"
  define s3 where "s3 = s2\<lparr>capt := Capturing\<rparr>"
  define s4 where "s4 = s3\<lparr>processing_packets := False, proc := Locking\<rparr>"
  define s5 where "s5 = s4\<lparr>mtx := True, proc := Holding\<rparr>"
  define s6 where "s6 = s5\<lparr>mtx := False, proc := Sleeping\<rparr>"
  note defs = s1_def s2_def s3_def s4_def s5_def s6_def wake_start_def
  have "idle_step 255 = (Wait_Signal, 0)" by (simp add: idle_step_def)
  then have "wake_step (wake_start\<lparr>proc := Polling 255\<rparr>) s1" using wake_step.tired [of "wake_start\<lparr>proc := Polling 255\<rparr>"] by (simp add: defs)
  then have "wake_reach s1" using wake_reach.step idle_reach [of 255] by simp
  moreover have "wake_step s1 s2" using wake_step.capture [of s1] by (simp add: defs)
  moreover have "wake_step s2 s3" unfolding s3_def by (rule wake_step.test_busy) (simp_all add: defs)
  moreover have "wake_step s3 s4" unfolding s4_def by (rule wake_step.store_false) (simp add: defs)
  moreover have "wake_step s4 s5" unfolding s5_def by (rule wake_step.lock) (simp_all add: defs)
  moreover have "wake_step s5 s6" unfolding s6_def by (rule wake_step.wait) (simp add: defs)
  ultimately have "wake_reach s6" by (meson wake_reach.step)
  then show ?thesis by (rule that) (simp add: defs)
qed



text \<open>
  C27. A frame captured while the thread sleeps does wake it: as long as the thread sleeps on,
  the capturing thread is still on its way to the signal and some step is possible, and the
  signal makes the thread run again.
\<close>

theorem sleeper_woken:
  assumes "wake_reach s" and "proc s = Sleeping" and "capt s = Capturing" and "wake_step s s1"
    and "(\<lambda>t t'. wake_step t t' \<and> proc t' = Sleeping)\<^sup>*\<^sup>* s1 s2"
  shows "capt s2 \<in> {Testing, Capt_Locking, Signalling} \<and> (\<exists>s3. wake_step s2 s3) \<and>
    (\<forall>s3. wake_step s2 s3 \<longrightarrow> capt s2 = Signalling \<longrightarrow> proc s3 = Woken)"
proof -
  from assms(4) have "proc s1 = Sleeping \<and> capt s1 = Testing" by (cases rule: wake_step.cases) (use assms(2,3) in simp_all)
  with wake_reach.step [OF assms(1,4)] have 1: "wake_reach s1" "proc s1 = Sleeping" "capt s1 = Testing" by simp_all
  from assms(5) have "wake_reach s2 \<and> proc s2 = Sleeping \<and> capt s2 \<in> {Testing, Capt_Locking, Signalling}"
  proof (induction rule: rtranclp_induct)
    case (step t t')
    then have t: "wake_reach t'" "\<not> processing_packets t" using wake_reach.step wake_reach_inv [of t] by (auto simp: wake_inv_def)
    from step(2) have "wake_step t t'" by simp
    then show ?case using step t by (cases rule: wake_step.cases) (auto split: if_splits)
  qed (use 1 in simp)
  then have 2: "wake_inv s2" "proc s2 = Sleeping" "capt s2 \<in> {Testing, Capt_Locking, Signalling}" using wake_reach_inv by auto
  have "\<exists>s3. wake_step s2 s3" using 2 by (fastforce simp: wake_inv_def intro: wake_step.intros)
  moreover have "proc s3 = Woken" if "wake_step s2 s3" "capt s2 = Signalling" for s3
    using that(1) by (cases rule: wake_step.cases) (use that(2) 2(2) in simp_all)
  ultimately show ?thesis using 2(3) by blast
qed

theorem sleeper_woken_witness:
  "\<exists>s1. proc s1 = Sleeping \<and> frames s1 = 2 \<and> (\<exists>s3. wake_step s1 s3) \<and> (\<forall>s3. wake_step s1 s3 \<longrightarrow> capt s1 = Signalling \<longrightarrow> proc s3 = Woken)"
proof -
  obtain s where s: "wake_reach s" "s = \<lparr>frames = 1, processing_packets = False, mtx = False, proc = Sleeping, capt = Capturing\<rparr>"
    by (rule asleep_reach)
  let ?s1 = "s\<lparr>frames := Suc (frames s), capt := Testing\<rparr>"
  have "wake_step s ?s1" by (rule wake_step.capture) (simp add: s(2))
  with sleeper_woken [OF s(1) _ _ this rtranclp.rtrancl_refl] s(2) show ?thesis by (intro exI [of _ ?s1]) simp
qed

end
