(* ===== verification/Swift_Control.thy ===== *)
theory Swift_Control
  imports Swift_Callback
begin

text \<open>
  The control frames between two connections (\<open>src/process_packets.c\<close>,
  \<open>src/send_packet.c\<close>): the request for lost chunks and its two answers, the list of the
  chunks that are missing and the confirmation, and what the sender does with them.
\<close>

section \<open>The frames the library answers with\<close>

text \<open>The confirmation of a message.\<close>

definition confirmation :: "conn_cfg \<Rightarrow> ip_header \<Rightarrow> packet_info \<Rightarrow> u8 list" where
  "confirmation c ip info =
     frame (link_bytes (cf_net c) (cf_eth c)) (construct_ip_header (cf_globals c) (ip_src ip) 44 (ip_id ip))
       (sealed (construct_packet_info (cf_globals c) 0 SUCCESSFULLY_RECEIVED_PACKET 1 0 (reply_ports info)) []) []"

lemma success_frame_eq: "link_ok (cf_net c) (cf_eth c) \<Longrightarrow> success_frame c ip info = Inr (confirmation c ip info)"
  by (simp add: success_frame_def internal_frame_eq confirmation_def)

text \<open>The list of lost chunks.\<close>

definition lost_answer :: "conn_cfg \<Rightarrow> ip_header \<Rightarrow> packet_info \<Rightarrow> u32 list \<Rightarrow> u8 list" where
  "lost_answer c ip info lost =
     frame (link_bytes (cf_net c) (cf_eth c))
       ((construct_ip_header (cf_globals c) (ip_src ip) 0 (ip_id ip))\<lparr>ip_len := htons (of_nat (PACKET_HEADER_SIZE + 4 * length lost))\<rparr>)
       (sealed ((construct_packet_info (cf_globals c) 0 SEND_LOST_PACKETS_RESPONSE 1 0 (reply_ports info))
          \<lparr>packet_length := of_nat (4 * length lost)\<rparr>) (words_bytes lost)) (words_bytes lost)"

lemma length_words_bytes [simp]: "length (words_bytes ws) = 4 * length ws"
  by (induction ws) (simp_all add: words_bytes_def)

lemma memcpy_at_frame_length:
  assumes "length link = p" and "b = length pre"
  shows "memcpy_at (b + p + IP_SIZE) (le_bytes 4 c) (pre @ frame link ip pi data @ rest) =
    Inr (pre @ frame link ip (pi\<lparr>packet_length := c\<rparr>) data @ rest)"
  using assms by (simp add: memcpy_at_def frame_def put_append_right put_append_left put_packet_length)

lemma lost_chunks_frame_eq:
  assumes "link_ok (cf_net c) (cf_eth c)" and "min_mtu (pi_mtu info) (cf_globals c) = mtu" and "44 \<le> unat mtu"
    and "unat (chunk_amount (pm_info x)) + 8 < 2 ^ 32" and "(unat (chunk_amount (pm_info x)) + 7) div 8 \<le> length (pm_chunks x)"
  shows "lost_chunks_frame c ip info x = Inr (lost_answer c ip info
     (take ((unat mtu - 44) div 4) (map of_nat (lost_indexes (pm_chunks x) 0 (unat (chunk_amount (pm_info x)))))))"
proof -
  let ?l = "link_bytes (cf_net c) (cf_eth c)" let ?p = "cf_prepend c" let ?cds = "ucast (chunk_size mtu) :: u32"
  let ?ip = "construct_ip_header (cf_globals c) (ip_src ip) 0 (ip_id ip)"
  let ?pi = "construct_packet_info (cf_globals c) 0 SEND_LOST_PACKETS_RESPONSE 1 0 (reply_ports info)"
  define lost :: "u32 list" where
    "lost = take ((unat mtu - 44) div 4) (map of_nat (lost_indexes (pm_chunks x) 0 (unat (chunk_amount (pm_info x)))))"
  let ?n = "of_nat (length lost) * 4 :: u32"
  have m: "unat mtu < 2 ^ 16" using unsigned_less [of mtu, where ?'a = nat] by simp
  have cds: "unat ?cds = unat mtu - 44" using chunk_size_unat [OF assms(3)] m by (simp add: unsigned_ucast_eq take_bit_nat_eq_self)
  have len: "4 * length lost \<le> unat mtu - 44" unfolding lost_def by (auto simp: min_def)
  have ll: "length ?l = ?p" by (rule length_link [OF assms(1)])
  have sz: "unat mtu + ?p = ?p + PACKET_HEADER_SIZE + (unat mtu - 44)" using assms(3) by simp
  have c1: "packet_construction ?ip ?pi (cf_net c) (cf_eth c) (unat mtu + ?p) = Inr (frame ?l ?ip ?pi (replicate (unat mtu - 44) 0))"
    unfolding sz by (rule packet_construction_frame [OF assms(1) refl])
  have c2: "return_lost_chunk_indexes (pm_chunks x) (chunk_amount (pm_info x)) ?cds = Inr lost"
    using return_lost_spec [OF assms(4) _ assms(5), of ?cds] cds m unfolding lost_def by simp
  let ?rest = "replicate (unat mtu - 44 - 4 * length lost) 0 :: u8 list"
  have "replicate (unat mtu - 44) (0 :: u8) = replicate (4 * length lost) 0 @ ?rest" using len by (simp add: replicate_add [symmetric])
  then have c3: "memcpy_at (PACKET_HEADER_SIZE + ?p) (words_bytes lost) (frame ?l ?ip ?pi (replicate (unat mtu - 44) 0)) =
      Inr (frame ?l ?ip ?pi (words_bytes lost) @ ?rest)"
    using ll memcpy_at_middle [of "words_bytes lost" "replicate (4 * length lost) 0" "PACKET_HEADER_SIZE + ?p" "frame ?l ?ip ?pi []" ?rest] by (simp add: frame_def)
  have n: "unat ?n = 4 * length lost" using len m by (simp add: unat_word_ariths unat_of_nat mult.commute)
  then have n': "?n = of_nat (4 * length lost)" by (metis word_unat_eq_iff unat_of_nat of_nat_mult mult.commute of_nat_numeral)
  have t: "unat (44 + ?n) = PACKET_HEADER_SIZE + 4 * length lost" using n len m by (simp add: unat_word_ariths)
  have small: "PACKET_HEADER_SIZE + 4 * length lost < 2 ^ 16" using len m assms(3) by linarith
  have "unat (ucast (44 + ?n) :: u16) = PACKET_HEADER_SIZE + 4 * length lost"
    using small by (subst unsigned_ucast_eq) (simp only: t take_bit_nat_eq_self len_num1 len_bit0, simp add: take_bit_nat_eq_self)
  moreover have "unat (of_nat (PACKET_HEADER_SIZE + 4 * length lost) :: u16) = PACKET_HEADER_SIZE + 4 * length lost"
    using small by (subst unat_of_nat) simp
  ultimately have h: "(ucast (44 + ?n) :: u16) = of_nat (PACKET_HEADER_SIZE + 4 * length lost)" by (simp only: word_unat_eq_iff)
  let ?ip1 = "?ip\<lparr>ip_len := htons (of_nat (PACKET_HEADER_SIZE + 4 * length lost))\<rparr>" let ?pi1 = "?pi\<lparr>packet_length := of_nat (4 * length lost)\<rparr>"
  have c4: "memcpy_at (?p + IP_LEN_OFFSET) (le_bytes 2 (htons (ucast (44 + ?n)))) (frame ?l ?ip ?pi (words_bytes lost) @ ?rest) =
      Inr (frame ?l ?ip1 ?pi (words_bytes lost) @ ?rest)" unfolding h using memcpy_at_frame_ip_len [OF ll, of 0 "[]" _ ?ip ?pi "words_bytes lost" ?rest] by simp
  have c5: "memcpy_at (?p + IP_SIZE) (le_bytes 4 ?n) (frame ?l ?ip1 ?pi (words_bytes lost) @ ?rest) = Inr (frame ?l ?ip1 ?pi1 (words_bytes lost) @ ?rest)"
    unfolding n' using memcpy_at_frame_length [OF ll, of 0 "[]" _ ?ip1 ?pi "words_bytes lost" ?rest] by simp
  have k: "unat (44 + ?n - 20) = INFO_SIZE + length (words_bytes lost)" using t by (subst unat_sub) (simp_all add: word_le_nat_alt)
  have c6: "handle_checksum (?p + IP_SIZE) (unat (44 + ?n - 20)) (frame ?l ?ip1 ?pi1 (words_bytes lost) @ ?rest) =
      Inr (frame ?l ?ip1 (sealed ?pi1 (words_bytes lost)) (words_bytes lost) @ ?rest)"
    using handle_checksum_frame [OF ll, of 0 "[]" _ "words_bytes lost" ?ip1 ?pi1 ?rest] k by simp
  have p14: "?p \<le> 14" by (rule link_prepend [OF assms(1)])
  have pn: "unat (of_nat ?p :: u32) = ?p" using p14 by (subst unat_of_nat) simp
  have "unat (44 + ?n + of_nat ?p) = PACKET_HEADER_SIZE + 4 * length lost + ?p"
    using small p14 n by (simp only: unat_word_ariths(1) pn) simp
  then have e: "unat (44 + ?n + of_nat ?p) = length (frame ?l ?ip1 (sealed ?pi1 (words_bytes lost)) (words_bytes lost))" using ll by simp
  have c7: "read_at 0 (unat (44 + ?n + of_nat ?p)) (frame ?l ?ip1 (sealed ?pi1 (words_bytes lost)) (words_bytes lost) @ ?rest) =
      Inr (frame ?l ?ip1 (sealed ?pi1 (words_bytes lost)) (words_bytes lost))" unfolding e by (simp add: read_at_def seg_def del: length_frame)
  show ?thesis
    unfolding lost_chunks_frame_def Let_def assms(2) c1 rbind_Inr c2 c3 c4 c5 c6 c7 lost_answer_def lost_def [symmetric] by simp
qed


section \<open>Requests for lost chunks\<close>

definition request_ip :: "route \<Rightarrow> u16 \<Rightarrow> ip_header" where
  "request_ip r packet_id = construct_ip_header (rt_globals r) (rt_dest r) 44 packet_id"

definition request_info :: "route \<Rightarrow> packet_info" where
  "request_info r = sealed (construct_packet_info (rt_globals r) 0 SEND_LOST_PACKETS_REQUEST 1 0 (rt_ports r)) []"

lemma request_frame_parts:
  "link_ok (rt_net r) (rt_eth r) \<Longrightarrow> request_frame r i = Inr (frame (link_bytes (rt_net r) (rt_eth r)) (request_ip r i) (request_info r) [])"
  by (simp add: request_frame_ok request_ip_def request_info_def)

lemma request_info_fields [simp]:
  "packet_type (request_info r) = SEND_LOST_PACKETS_REQUEST" "ports (request_info r) = rt_ports r"
  "pi_mtu (request_info r) = maximum_transmission_unit (rt_globals r)" "ip_id (request_ip r i) = htons i" "ip_sum (request_ip r i) = 0"
  "ip_src (request_ip r i) = private_ip_address (rt_globals r)"
  by (simp_all add: request_info_def request_ip_def sealed_def construct_packet_info_def construct_ip_header_def)

lemma request_addressed: "leads_to r c B \<Longrightarrow> addressed c B (link_bytes (rt_net r) (rt_eth r)) (request_ip r i) (request_info r) []"
  by (simp add: addressed_def leads_to_def)

text \<open>A request run through the receiver, by what its handler does.\<close>

lemma receive_request:
  assumes "leads_to r c B" and "between_frames c B s"
    and "\<And>s1. pending_messages s1 = pending_messages s \<Longrightarrow> packets_completed s1 = packets_completed s \<Longrightarrow> pending_at s1 = pending_at s \<Longrightarrow>
      wire s1 = wire s \<Longrightarrow>
      \<exists>pa w. handle_lost_request c (request_ip r packet_id) (request_info r) s1 = Inr (s1\<lparr>pending_at := pa, wire := w\<rparr>) \<and> P pa w"
  shows "\<exists>s' req. request_frame r packet_id = Inr req \<and> receive_frame c rnd req s = Inr s' \<and> between_frames c B s' \<and> calm s s' \<and>
     tables_grow (s_env s) (s_env s') \<and> P (pending_at s') (wire s')"
proof -
  let ?l = "link_bytes (rt_net r) (rt_eth r)" let ?ip = "request_ip r packet_id" let ?pi = "request_info r"
  have lk: "link_ok (rt_net r) (rt_eth r)" using assms(1) by (simp add: leads_to_def)
  have "\<exists>s'. receive_frame c rnd (frame ?l ?ip ?pi []) s = Inr s' \<and> between_frames c B s' \<and> calm s s' \<and>
     tables_grow (s_env s) (s_env s') \<and> packets_sending s' = packets_sending s \<and> P (pending_at s') (wire s')"
  proof (rule receive_quiet [OF assms(2) request_addressed [OF assms(1)], where P = "\<lambda>pa sa w. P pa w"])
    fix b e nodes buf
    let ?S = "s\<lparr>s_env := e, frame_queue := empty_queue, frame_nodes := nodes, buffer_at := (buffer_at s)(b := buf)\<rparr>"
    from assms(3) [of ?S] obtain pa w where
      1: "handle_lost_request c ?ip ?pi ?S = Inr (?S\<lparr>pending_at := pa, wire := w\<rparr>)" "P pa w" by auto
    have "?S\<lparr>pending_at := pa, wire := w\<rparr> = ?S\<lparr>pending_at := pa, sending_at := sending_at s, wire := w\<rparr>" by simp
    moreover have "dispatch c rnd ?ip ?pi b buf ?S = drop_buffer b (?S\<lparr>pending_at := pa, wire := w\<rparr>)"
      using 1(1) by (simp add: dispatch_def)
    ultimately show "\<exists>pa sa w. dispatch c rnd ?ip ?pi b buf ?S = drop_buffer b (?S\<lparr>pending_at := pa, sending_at := sa, wire := w\<rparr>) \<and> P pa w"
      using 1(2) by metis
  qed
  then show ?thesis using request_frame_parts [OF lk] by blast
qed

text \<open>The chunks of a message that are missing.\<close>

definition missing :: "nat \<Rightarrow> u8 list \<Rightarrow> nat set \<Rightarrow> nat list" where
  "missing cs msg R = filter (\<lambda>j. j \<notin> R) [0..<chunk_count cs (length msg)]"

lemma progress_missing:
  assumes "progress cs msg R x"
  shows "lost_indexes (pm_chunks x) 0 (chunk_count cs (length msg)) = missing cs msg R"
  unfolding lost_indexes_def missing_def using assms by (intro filter_cong) (simp_all add: progress_def)

text \<open>
  While a message is being collected, a request for lost chunks is answered with the list
  of exactly the chunks that have not come yet, in increasing order and as many as fit one
  frame; what has been collected stays as it was.
\<close>

lemma lost_chunks_reported:
  assumes "leads_to r c B" and "splits (unat (rt_mtu r) - 44) msg"
    and "collecting c B (unat (rt_mtu r) - 44) msg (htons packet_id) (source_port (rt_ports r)) pm R s"
  shows "\<exists>s' req. request_frame r packet_id = Inr req \<and> receive_frame c rnd req s = Inr s' \<and>
    wire s' = wire s @ [lost_answer c (request_ip r packet_id) (request_info r)
      (take ((unat (rt_mtu r) - 44) div 4) (map of_nat (missing (unat (rt_mtu r) - 44) msg R)))] \<and>
    collecting c B (unat (rt_mtu r) - 44) msg (htons packet_id) (source_port (rt_ports r)) pm R s' \<and> calm s s'"
proof -
  let ?cs = "unat (rt_mtu r) - 44" let ?i = "htons packet_id" let ?port = "source_port (rt_ports r)"
  let ?ip = "request_ip r packet_id" let ?pi = "request_info r" let ?N = "chunk_count ?cs (length msg)"
  have ok: "conn_ok c B s" "hm_abs (pending_messages s) (conn_key ?port ?i) = [pm]" "hm_abs (packets_completed s) (conn_key ?port ?i) = []"
    using assms(3) by (simp_all add: collecting_def)
  obtain x where x: "pending_at s pm = Some x" "progress ?cs msg R x" "belongs ?i ?port x" using assms(3) by (auto simp: collecting_def)
  have l: "link_ok (cf_net c) (cf_eth c)" "min_mtu (pi_mtu ?pi) (cf_globals c) = rt_mtu r" "44 \<le> unat (rt_mtu r)"
    using assms(1) by (simp_all add: leads_to_def)
  have n: "unat (chunk_amount (pm_info x)) = ?N" using x(2) chunk_count_bound [OF assms(2)] by (simp add: progress_def unat_of_nat)
  let ?L = "take (?cs div 4) (map of_nat (missing ?cs msg R)) :: u32 list"
  have fr: "lost_chunks_frame c ?ip ?pi x = Inr (lost_answer c ?ip ?pi ?L)"
    using lost_chunks_frame_eq [OF l, of x ?ip] n chunk_count_bound [OF assms(2)] x(2) progress_missing [OF x(2)] by (simp add: progress_def)
  let ?x = "x\<lparr>sending_lost_packets := True\<rparr>"
  let ?P = "\<lambda>pa w. pa = (pending_at s)(pm \<mapsto> ?x) \<and> w = wire s @ [lost_answer c ?ip ?pi ?L]"
  have "\<exists>s' req. request_frame r packet_id = Inr req \<and> receive_frame c rnd req s = Inr s' \<and> between_frames c B s' \<and> calm s s' \<and>
     tables_grow (s_env s) (s_env s') \<and> ?P (pending_at s') (wire s')"
  proof (rule receive_request [OF assms(1) conn_ok_between [OF ok(1)]])
    fix s1 :: conn_state assume s1: "pending_messages s1 = pending_messages s" "packets_completed s1 = packets_completed s" "pending_at s1 = pending_at s" "wire s1 = wire s"
    have "get_pending_message c ?i ?port s1 = Inr (Some pm)" using conn_ok_lookup(1) [OF ok(1) s1(1,2)] ok(2) by (simp add: first_of_def)
    then have "handle_lost_request c ?ip ?pi s1 = Inr (s1\<lparr>pending_at := (pending_at s)(pm \<mapsto> ?x), wire := wire s @ [lost_answer c ?ip ?pi ?L]\<rparr>)"
      using s1(3,4) x(1) fr by (simp add: handle_lost_request_def emit_def)
    then show "\<exists>pa w. handle_lost_request c ?ip ?pi s1 = Inr (s1\<lparr>pending_at := pa, wire := w\<rparr>) \<and> ?P pa w" by blast
  qed
  then obtain s' req where s': "request_frame r packet_id = Inr req" "receive_frame c rnd req s = Inr s'" "between_frames c B s'" "calm s s'"
    "tables_grow (s_env s) (s_env s')" "pending_at s' = (pending_at s)(pm \<mapsto> ?x)" "wire s' = wire s @ [lost_answer c ?ip ?pi ?L]" by blast
  have "conn_ok c B s'" by (rule calm_conn_ok [OF ok(1) s'(4,5)]) (use s'(3) in \<open>simp_all add: between_frames_def\<close>)
  moreover have "progress ?cs msg R ?x" "belongs ?i ?port ?x" using x(2,3) by (simp_all add: progress_def belongs_def)
  ultimately have "collecting c B ?cs msg ?i ?port pm R s'" using s'(4,6) ok(2,3) by (simp add: collecting_def calm_def)
  with s' show ?thesis by blast
qed


lemma sample_collecting:
  "\<exists>s pm. collecting sample_cfg 100 20 (replicate 50 7) (htons 9) 5000 pm {0} s \<and> complete_room s \<and> handover_room sample_cfg [] s"
proof -
  let ?r = "sample_route loopback" let ?msg = "replicate 50 7 :: u8 list"
  obtain s where s: "\<forall>i port n. n \<le> 900000 \<longrightarrow> recv_ready sample_cfg 100 i port n s" "handover_room sample_cfg [] s"
    using sample_conn_ready [of sample_cfg 100] by blast
  have r: "unat (rt_mtu ?r) - 44 = 20" "source_port (rt_ports ?r) = 5000" by (simp_all add: sample_route_def)
  have n: "chunk_count 20 (length ?msg) = 3" by (simp add: chunk_count_def)
  have sp: "splits 20 ?msg" by (simp add: splits_def)
  let ?f = "(0, link_bytes (rt_net ?r) (rt_eth ?r), chunk_ip ?r 9 ?msg 0, chunk_info ?r MESSAGE ?msg 0)"
  have "carries sample_cfg 100 20 ?msg (htons 9) 5000 ?f"
    using message_chunk_for [OF sample_leads, of ?msg 0 MESSAGE 9] sp n unfolding r by (simp add: carries_def)
  moreover have "recv_ready sample_cfg 100 (htons 9) 5000 (length ?msg + (chunk_count 20 (length ?msg) + 7) div 8) s" using s(1) n by simp
  ultimately show ?thesis using receive_opening [OF sp _ s(2), of 100 "htons 9" 5000 ?f thesis for thesis] by (metis fst_conv)
qed

section \<open>Confirmation\<close>

text \<open>The connection \<open>c'\<close>, with buffers of \<open>B'\<close> bytes, from which the route \<open>r\<close> leads to \<open>c\<close>, and the way back.\<close>

definition leads_back :: "route \<Rightarrow> conn_cfg \<Rightarrow> conn_cfg \<Rightarrow> nat \<Rightarrow> bool" where
  "leads_back r c c' B' \<longleftrightarrow> link_accepts (cf_net c') (link_bytes (cf_net c) (cf_eth c)) \<and> cf_port c' = source_port (rt_ports r) \<and>
     cf_prepend c' + unat (maximum_transmission_unit (cf_globals c')) \<le> B' \<and> 44 \<le> unat (maximum_transmission_unit (cf_globals c')) \<and>
     cf_globals c' = rt_globals r"

text \<open>The sender \<open>t\<close> has the message \<open>packet_id\<close> under way in \<open>ps\<close>.\<close>

definition sending :: "conn_cfg \<Rightarrow> nat \<Rightarrow> u16 \<Rightarrow> ptr \<Rightarrow> packet_sending \<Rightarrow> conn_state \<Rightarrow> bool" where
  "sending c' B' packet_id ps x t \<longleftrightarrow> between_frames c' B' t \<and> hm_wf (cf_seed c') (packets_sending t) \<and>
     first_of (hm_abs (packets_sending t) (le_bytes 2 packet_id)) = Some ps \<and> sending_at t ps = Some x"

lemma sending_lookup: "sending c' B' packet_id ps x t \<Longrightarrow> packets_sending t' = packets_sending t \<Longrightarrow> get_packet_sending c' packet_id t' = Inr (Some ps)"
  by (simp add: sending_def get_packet_sending_def hashmap_get_abs first_of_def)

lemma confirmation_addressed:
  assumes "leads_back r c c' B'"
  shows "addressed c' B' (link_bytes (cf_net c) (cf_eth c)) (construct_ip_header (cf_globals c) a 44 (htons packet_id))
    (sealed (construct_packet_info (cf_globals c) 0 SUCCESSFULLY_RECEIVED_PACKET 1 0 (reply_ports (request_info r))) []) []"
  using assms
  by (auto simp: addressed_def leads_back_def construct_ip_header_def sealed_def construct_packet_info_def reply_ports_def)

lemma confirmation_sent:
  assumes "leads_to r c B" and "between_frames c B s"
    and "get_pending_message c (htons packet_id) (source_port (rt_ports r)) s = Inr None"
    and "check_packet_already_completed c (htons packet_id) (source_port (rt_ports r)) s = Inr True"
  shows "\<exists>req s'. request_frame r packet_id = Inr req \<and> receive_frame c rnd req s = Inr s' \<and>
    wire s' = wire s @ [confirmation c (request_ip r packet_id) (request_info r)]"
proof -
  let ?i = "htons packet_id" let ?port = "source_port (rt_ports r)" let ?ip = "request_ip r packet_id" let ?pi = "request_info r"
  let ?fr = "confirmation c ?ip ?pi"
  have l: "link_ok (cf_net c) (cf_eth c)" using assms(1) by (simp add: leads_to_def)
  have "\<exists>s' req. request_frame r packet_id = Inr req \<and> receive_frame c rnd req s = Inr s' \<and> between_frames c B s' \<and> calm s s' \<and>
     tables_grow (s_env s) (s_env s') \<and> wire s' = wire s @ [?fr]"
  proof (rule receive_request [OF assms(1,2), where P = "\<lambda>pa w. w = wire s @ [?fr]"])
    fix s1 :: conn_state assume s1: "pending_messages s1 = pending_messages s" "packets_completed s1 = packets_completed s" "pending_at s1 = pending_at s" "wire s1 = wire s"
    have "get_pending_message c ?i ?port s1 = Inr None" "check_packet_already_completed c ?i ?port s1 = Inr True"
      using assms(3,4) s1(1,2) by (simp_all add: get_pending_message_def check_packet_already_completed_def)
    then have "handle_lost_request c ?ip ?pi s1 = Inr (s1\<lparr>wire := wire s @ [?fr]\<rparr>)"
      using s1(4) success_frame_eq [OF l] by (simp add: handle_lost_request_def emit_def)
    moreover have "s1\<lparr>wire := wire s @ [?fr]\<rparr> = s1\<lparr>pending_at := pending_at s1, wire := wire s @ [?fr]\<rparr>" by simp
    ultimately show "\<exists>pa w. handle_lost_request c ?ip ?pi s1 = Inr (s1\<lparr>pending_at := pa, wire := w\<rparr>) \<and> w = wire s @ [?fr]" by metis
  qed
  then show ?thesis by blast
qed

lemma confirmation_taken:
  assumes "leads_back r c c' B'" and "sending c' B' packet_id ps x t"
  shows "\<exists>t'. receive_frame c' rnd (confirmation c (request_ip r packet_id) (request_info r)) t = Inr t' \<and>
    sending_at t' ps = Some (x\<lparr>updated := SUCCESSFULLY_RECEIVED\<rparr>) \<and> packets_sending t' = packets_sending t \<and>
    tables_grow (s_env t) (s_env t') \<and> wire t' = wire t"
proof -
  let ?ip = "request_ip r packet_id" let ?pi = "request_info r"
  let ?l = "link_bytes (cf_net c) (cf_eth c)" let ?ip2 = "construct_ip_header (cf_globals c) (ip_src ?ip) 44 (htons packet_id)"
  let ?pi2 = "sealed (construct_packet_info (cf_globals c) 0 SUCCESSFULLY_RECEIVED_PACKET 1 0 (reply_ports ?pi)) []"
  have fr: "confirmation c ?ip ?pi = frame ?l ?ip2 ?pi2 []" by (simp add: confirmation_def)
  have ty: "packet_type ?pi2 = SUCCESSFULLY_RECEIVED_PACKET" "ip_id ?ip2 = packet_id" by (simp_all add: sealed_def construct_packet_info_def construct_ip_header_def)
  have bt: "between_frames c' B' t" and x: "sending_at t ps = Some x" using assms(2) by (simp_all add: sending_def)
  let ?sa = "(sending_at t)(ps \<mapsto> x\<lparr>updated := SUCCESSFULLY_RECEIVED\<rparr>)"
  have "\<exists>t'. receive_frame c' rnd (frame ?l ?ip2 ?pi2 []) t = Inr t' \<and> between_frames c' B' t' \<and> calm t t' \<and>
     tables_grow (s_env t) (s_env t') \<and> packets_sending t' = packets_sending t \<and> sending_at t' = ?sa \<and> wire t' = wire t"
  proof (rule receive_quiet [OF bt confirmation_addressed [OF assms(1)], where P = "\<lambda>pa sa w. sa = ?sa \<and> w = wire t"])
    fix b e nodes buf
    let ?S = "t\<lparr>s_env := e, frame_queue := empty_queue, frame_nodes := nodes, buffer_at := (buffer_at t)(b := buf)\<rparr>"
    have "get_packet_sending c' packet_id ?S = Inr (Some ps)" by (rule sending_lookup [OF assms(2)]) simp
    then have "handle_success c' ?ip2 ?S = Inr (?S\<lparr>sending_at := ?sa\<rparr>)" using x ty(2) by (simp add: handle_success_def)
    then have "dispatch c' rnd ?ip2 ?pi2 b buf ?S = drop_buffer b (?S\<lparr>sending_at := ?sa\<rparr>)" using ty(1) by (simp add: dispatch_def)
    moreover have "?S\<lparr>sending_at := ?sa\<rparr> = ?S\<lparr>pending_at := pending_at t, sending_at := ?sa, wire := wire t\<rparr>" by simp
    ultimately show "\<exists>pa sa w. dispatch c' rnd ?ip2 ?pi2 b buf ?S = drop_buffer b (?S\<lparr>pending_at := pa, sending_at := sa, wire := w\<rparr>) \<and> sa = ?sa \<and> w = wire t"
      by metis
  qed
  then show ?thesis unfolding fr by auto
qed

text \<open>
  C5. A message that has been delivered and taken by its callback is confirmed: the
  receiver answers the next request for lost chunks with the confirmation, and when that
  frame comes back to the sender, the sender's record of the message says that it was
  received.
\<close>

theorem delivery_confirmed:
  assumes "leads_to r c B" and "leads_back r c c' B'" and "between_frames c B s" and "sending c' B' packet_id ps x t"
    and "get_pending_message c (htons packet_id) (source_port (rt_ports r)) s = Inr None"
    and "check_packet_already_completed c (htons packet_id) (source_port (rt_ports r)) s = Inr True"
  shows "\<exists>req s' fr t'. request_frame r packet_id = Inr req \<and> receive_frame c rnd req s = Inr s' \<and> wire s' = wire s @ [fr] \<and>
    receive_frame c' rnd' fr t = Inr t' \<and> sending_at t' ps = Some (x\<lparr>updated := SUCCESSFULLY_RECEIVED\<rparr>)"
  using confirmation_sent [OF assms(1,3,5,6), of rnd] confirmation_taken [OF assms(2,4), of rnd'] by blast


definition sample_client :: conn_cfg where
  "sample_client = sample_cfg\<lparr>cf_port := 5000, cf_type := CONNECTION_TYPE_CLIENT\<rparr>"

lemma sample_leads_back: "leads_back (sample_route loopback) sample_cfg sample_client 100"
  by (simp add: leads_back_def sample_client_def sample_cfg_def sample_route_def link_accepts_def link_bytes_def
    initialize_networking_def packet_prepend_size_def)

lemma sample_sending:
  "\<exists>t ps x. sending sample_client 100 9 ps x t \<and> lost_chunks_at x = None \<and> heap_room 900000 (c_heap (s_env t)) \<and> wire t = []"
proof -
  let ?c = sample_client
  obtain s where s: "\<forall>i port n. n \<le> 900000 \<longrightarrow> recv_ready ?c 100 i port n s" "hm_abs (packets_sending s) = (\<lambda>k. [])" "send_ready (cf_seed ?c) s" "wire s = []"
    using sample_conn_ready [of ?c 100] by blast
  have rd: "recv_ready ?c 100 0 0 900000 s" using s(1) by simp
  obtain ps and s1 :: conn_state where 0: "entered (cf_seed ?c) 9 ps s s1" using register_sending_ok [OF s(3), of 9] by blast
  then obtain x where 1: "hm_ok (cf_seed ?c) (packets_sending s1) (s_env s1)" "hm_abs (packets_sending s1) (le_bytes 2 (9 :: u16)) = [ps]"
    "sending_at s1 ps = Some x" "lost_chunks_at x = None" using entered_at [OF 0] s(2) by (simp add: entered_def)
  let ?t = "s\<lparr>packets_sending := packets_sending s1, sending_at := sending_at s1\<rparr>"
  have "between_frames ?c 100 ?t" using rd by (auto simp: recv_ready_def conn_ok_def between_frames_def hm_ok_def)
  moreover have "heap_room 900000 (c_heap (s_env ?t))" using rd by (simp add: recv_ready_def pending_room_def)
  ultimately have "sending ?c 100 9 ps x ?t" using 1(1-3) by (simp add: sending_def hm_ok_def first_of_def)
  with 1(4) s(4) \<open>heap_room 900000 (c_heap (s_env ?t))\<close> show ?thesis by (intro exI [of _ ?t] exI [of _ ps] exI [of _ x]) simp
qed

theorem delivery_confirmed_witness:
  "\<exists>req s s' fr t t' ps x. request_frame (sample_route loopback) 9 = Inr req \<and> receive_frame sample_cfg 0 req s = Inr s' \<and>
     wire s' = wire s @ [fr] \<and> receive_frame sample_client 0 fr t = Inr t' \<and> sending_at t' ps = Some x \<and> updated x = SUCCESSFULLY_RECEIVED"
proof -
  obtain s0 where s0: "\<forall>i port n. n \<le> 900000 \<longrightarrow> recv_ready sample_cfg 100 i port n s0" using sample_conn_ready [of sample_cfg 100] by blast
  obtain s1 node where s1: "finished sample_cfg 100 (replicate 50 7) (htons 9) 5000 [] node s1" using sample_finished by blast
  obtain t ps x where t: "sending sample_client 100 9 ps x t" using sample_sending by blast
  let ?s = "s0\<lparr>packets_completed := packets_completed s1\<rparr>"
  have rd: "recv_ready sample_cfg 100 (htons 9) 5000 0 s0" using s0 by simp
  have bt: "between_frames sample_cfg 100 ?s"
    using rd s1 by (auto simp: recv_ready_def conn_ok_def between_frames_def hm_ok_def finished_def)
  have r: "source_port (rt_ports (sample_route loopback)) = 5000" by (simp add: sample_route_def)
  have "get_pending_message sample_cfg (htons 9) 5000 ?s = Inr None" "check_packet_already_completed sample_cfg (htons 9) 5000 ?s = Inr True"
    using between_lookup [OF bt refl refl, of "htons 9" 5000] rd s1 by (simp_all add: recv_ready_def finished_def first_of_def)
  from delivery_confirmed [OF sample_leads sample_leads_back bt t, unfolded r, OF this, of 0 0] show ?thesis by fastforce
qed

section \<open>The list of lost chunks at the sender\<close>

lemma seg_words_bytes: "k < length ws \<Longrightarrow> seg (4 * k) 4 (words_bytes ws) = le_bytes 4 (ws ! k)"
proof (induction ws arbitrary: k)
  case (Cons w ws)
  then show ?case by (cases k) (simp_all add: words_bytes_def seg_append_left seg_skip)
qed simp

lemma seg_prefix: "off + n \<le> length d \<Longrightarrow> length d \<le> length m \<Longrightarrow> seg off n (put 0 d m) = seg off n d"
  by (simp add: put_def seg_append_left)

lemma lost_chunks_block_ok:
  assumes "env_ok e" and "heap_room (max 1 (unat (chunk_size (maximum_transmission_unit (cf_globals c'))))) (c_heap e)"
    and "lost_chunks_at x \<noteq> None \<Longrightarrow> length (lost_chunks x) = unat (chunk_size (maximum_transmission_unit (cf_globals c')))"
  shows "\<exists>x1 e1. lost_chunks_block c' x e = Inr (x1, e1) \<and> env_ok e1 \<and> pool e1 = pool e \<and> lost_chunks_at x1 \<noteq> None \<and>
     length (lost_chunks x1) = unat (chunk_size (maximum_transmission_unit (cf_globals c'))) \<and> sending_packet_id x1 = sending_packet_id x"
proof (cases "lost_chunks_at x = None")
  case True
  let ?n = "unat (chunk_size (maximum_transmission_unit (cf_globals c')))"
  obtain q e1 where "env_malloc ?n e = (Some q, e1)" "env_grows e e1" "pool e1 = pool e" by (rule take_block [OF assms(1,2) order.refl])
  with True show ?thesis by (simp add: lost_chunks_block_def Let_def env_grows_def)
qed (use assms in \<open>simp add: lost_chunks_block_def\<close>)

definition lost_list :: "u32 list \<Rightarrow> packet_sending \<Rightarrow> bool" where
  "lost_list lost x \<longleftrightarrow> updated x = UPDATED_LOST_CHUNKS \<and> unat (lost_chunks_size x) = length lost \<and>
     (\<forall>k < length lost. lost_chunk_at x k = Inr (lost ! k))"

text \<open>
  The list of lost chunks arrives at the sender as the receiver made it: after the frame
  has been processed the sender's record of the message says so, its count is the length
  of the list, and each entry read from it is the entry of the list.
\<close>

lemma lost_list_received:
  assumes "leads_back r c c' B'" and "sending c' B' packet_id ps x t"
    and "heap_room (max 1 (unat (chunk_size (maximum_transmission_unit (cf_globals c'))))) (c_heap (s_env t))"
    and "lost_chunks_at x \<noteq> None \<Longrightarrow> length (lost_chunks x) = unat (chunk_size (maximum_transmission_unit (cf_globals c')))"
    and "4 * length lost \<le> unat (chunk_size (maximum_transmission_unit (cf_globals c')))"
  shows "\<exists>t' x'. receive_frame c' rnd (lost_answer c (request_ip r packet_id) (request_info r) lost) t = Inr t' \<and>
    sending_at t' ps = Some x' \<and> lost_list lost x' \<and> sending_packet_id x' = sending_packet_id x"
proof -
  let ?g = "cf_globals c'" let ?n = "unat (chunk_size (maximum_transmission_unit ?g))"
  let ?l = "link_bytes (cf_net c) (cf_eth c)" let ?w = "words_bytes lost"
  let ?ip = "(construct_ip_header (cf_globals c) (ip_src (request_ip r packet_id)) 0 (htons packet_id))\<lparr>ip_len := htons (of_nat (PACKET_HEADER_SIZE + 4 * length lost))\<rparr>"
  let ?pi = "sealed ((construct_packet_info (cf_globals c) 0 SEND_LOST_PACKETS_RESPONSE 1 0 (reply_ports (request_info r)))
          \<lparr>packet_length := of_nat (4 * length lost)\<rparr>) ?w"
  have bk: "link_accepts (cf_net c') ?l" "cf_port c' = source_port (rt_ports r)" "cf_prepend c' + unat (maximum_transmission_unit ?g) \<le> B'"
    "44 \<le> unat (maximum_transmission_unit ?g)" using assms(1) unfolding leads_back_def by blast+
  have n: "?n = unat (maximum_transmission_unit ?g) - 44" by (rule chunk_size_unat [OF bk(4)])
  have m: "unat (maximum_transmission_unit ?g) < 2 ^ 16" using unsigned_less [of "maximum_transmission_unit ?g", where ?'a = nat] by simp
  have fr: "lost_answer c (request_ip r packet_id) (request_info r) lost = frame ?l ?ip ?pi ?w" by (simp add: lost_answer_def)
  have pi: "packet_type ?pi = SEND_LOST_PACKETS_RESPONSE" "ip_id ?ip = packet_id" "packet_length ?pi = of_nat (4 * length lost)" "ip_sum ?ip = 0"
    "destination_port (ports ?pi) = cf_port c'"
    by (simp_all add: sealed_def construct_packet_info_def construct_ip_header_def reply_ports_def bk(2))
  have len: "unat (of_nat (4 * length lost) :: u32) = 4 * length lost" using assms(5) n m by (subst unat_of_nat) simp
  have fit: "cf_prepend c' + PACKET_HEADER_SIZE + length ?w \<le> B'" using bk(3,4) assms(5) n by simp
  have ad: "addressed c' B' ?l ?ip ?pi ?w" unfolding addressed_def using bk(1) pi(4,5) fit by simp
  have bt: "between_frames c' B' t" and x: "sending_at t ps = Some x" using assms(2) by (simp_all add: sending_def)
  obtain b node e nodes buf where 1: "took_frame b node (s_env t) e" "length buf = B'" "seg (cf_prepend c' + PACKET_HEADER_SIZE) (length ?w) buf = ?w"
    "receive_frame c' rnd (frame ?l ?ip ?pi ?w) t =
      rbind (dispatch c' rnd ?ip ?pi b buf (t\<lparr>s_env := e, frame_queue := empty_queue, frame_nodes := nodes, buffer_at := (buffer_at t)(b := buf)\<rparr>))
        (free_node node)" by (rule receive_addressed [OF bt ad])
  define t1 where "t1 = t\<lparr>s_env := e, frame_queue := empty_queue, frame_nodes := nodes, buffer_at := (buffer_at t)(b := buf)\<rparr>"
  have e: "env_ok e" "heap_room (max 1 ?n) (c_heap e)" using 1(1) assms(3) by (simp_all add: took_frame_def same_except_def)
  from lost_chunks_block_ok [OF e assms(4)] obtain x1 e1 where
    2: "lost_chunks_block c' x e = Inr (x1, e1)" "env_ok e1" "pool e1 = pool e" "lost_chunks_at x1 \<noteq> None" "length (lost_chunks x1) = ?n"
      "sending_packet_id x1 = sending_packet_id x" by blast
  let ?m = "put 0 ?w (lost_chunks x1)"
  let ?x = "x1\<lparr>lost_chunks := ?m, lost_chunks_size := of_nat (4 * length lost) div 4, updated := UPDATED_LOST_CHUNKS\<rparr>"
  let ?t2 = "t1\<lparr>s_env := e1, sending_at := (sending_at t)(ps \<mapsto> ?x)\<rparr>"
  have rd: "read_at (cf_prepend c' + PACKET_HEADER_SIZE) (4 * length lost) buf = Inr ?w" using 1(2,3) fit by (simp add: read_at_def)
  have cp: "memcpy_at 0 ?w (lost_chunks x1) = Inr ?m" using assms(5) 2(5) by (simp add: memcpy_at_def)
  have "get_packet_sending c' packet_id t1 = Inr (Some ps)" by (rule sending_lookup [OF assms(2)]) (simp add: t1_def)
  then have "handle_lost_response c' ?ip ?pi buf t1 = Inr ?t2"
    using x 2(1) rd cp len unfolding handle_lost_response_def pi(2,3) by (simp add: t1_def del: of_nat_mult)
  then have run: "dispatch c' rnd ?ip ?pi b buf t1 = drop_buffer b ?t2" using pi(1) by (simp add: dispatch_def)
  have p2: "pool e1 Packet_buffer_pool = pool e Packet_buffer_pool" "pool e1 Packet_queue_node_pool = pool e Packet_queue_node_pool" "s_env ?t2 = e1"
    using 2(3) by simp_all
  obtain e3 where 3: "rbind (drop_buffer b ?t2) (free_node node) = Inr (?t2\<lparr>s_env := e3\<rparr>)" using release_frame [OF 1(1) 2(2) p2] by blast
  have "receive_frame c' rnd (frame ?l ?ip ?pi ?w) t = Inr (?t2\<lparr>s_env := e3\<rparr>)" using 1(4) run 3 by (simp add: t1_def)
  moreover have "lost_list lost ?x"
  proof -
    have "lost_chunk_at ?x k = Inr (lost ! k)" if "k < length lost" for k
    proof -
      have "seg (4 * k) 4 ?m = seg (4 * k) 4 ?w" using that assms(5) 2(5) by (intro seg_prefix) simp_all
      then show ?thesis using that assms(5) 2(4,5) seg_words_bytes [OF that] by (simp add: lost_chunk_at_def read_at_def)
    qed
    moreover have "unat (of_nat (4 * length lost) div 4 :: u32) = length lost" using len by (simp only: unat_div) simp
    ultimately show ?thesis by (simp add: lost_list_def)
  qed
  ultimately show ?thesis unfolding fr using 2(6)
    by (intro exI [of _ "?t2\<lparr>s_env := e3\<rparr>"] exI [of _ ?x]) simp
qed

section \<open>Sending lost chunks again\<close>

definition resend_ip :: "route \<Rightarrow> u16 \<Rightarrow> ip_header" where
  "resend_ip r packet_id = construct_ip_header (rt_globals r) (rt_dest r) (rt_mtu r) packet_id"

definition resent :: "route \<Rightarrow> u16 \<Rightarrow> u8 \<Rightarrow> u8 list \<Rightarrow> nat \<Rightarrow> carrier" where
  "resent r packet_id ty msg j =
     (let cs = unat (rt_mtu r) - 44; link = link_bytes (rt_net r) (rt_eth r)
      in (j, if length msg \<le> j * cs + cs then put 2 (le_bytes 2 (htons (of_nat (44 + length (chunk_data cs msg j))))) link else link,
          resend_ip r packet_id, chunk_info r ty msg j))"

lemma link_accepts_put:
  assumes "link_accepts nd link" and "length w = 2" and "4 \<le> length link"
  shows "link_accepts nd (put 2 w link)"
  using assms by (auto simp: link_accepts_def copy_simps)

lemma resent_carries:
  assumes "leads_to r c B" and "splits (unat (rt_mtu r) - 44) msg" and "j < chunk_count (unat (rt_mtu r) - 44) (length msg)"
    and "ty = MESSAGE \<or> ty = REQUEST"
  shows "carries c B (unat (rt_mtu r) - 44) msg (htons packet_id) (source_port (rt_ports r)) (resent r packet_id ty msg j)"
proof -
  have l: "link_ok (rt_net r) (rt_eth r)" "link_accepts (cf_net c) (link_bytes (rt_net r) (rt_eth r))" using assms(1) by (simp_all add: leads_to_def)
  have "4 \<le> length (link_bytes (rt_net r) (rt_eth r))" unfolding length_link [OF l(1)] using l(1) by (auto simp: link_ok_def)
  then have "link_accepts (cf_net c) (put 2 (le_bytes 2 (w :: u16)) (link_bytes (rt_net r) (rt_eth r)))" for w
    using link_accepts_put [OF l(2)] by simp
  moreover note message_chunk_for [OF assms, of packet_id]
  ultimately show ?thesis
    by (auto simp: carries_def resent_def Let_def chunk_for_def data_frame_def addressed_def resend_ip_def construct_ip_header_def
      chunk_ip_def message_ip_def l(2) split: if_splits)
qed

lemma resend_all:
  fixes ty :: u8 and packet_id :: u16
  assumes "can_send (rt_prepend r) (rt_mtu r) len pb mem" and "link_ok (rt_net r) (rt_eth r)" and "unat len + 2 ^ 16 < 2 ^ 32"
    and "lost_list (map of_nat L) x" and "\<forall>j \<in> set L. j < chunk_count (unat (rt_mtu r) - 44) (unat len)"
  defines "msg \<equiv> seg DATA_START (unat len) mem"
    and "hdr \<equiv> frame (link_bytes (rt_net r) (rt_eth r)) (resend_ip r packet_id) (message_info r len ty) []"
  shows "\<forall>k \<in> set ks. k < length L \<Longrightarrow> resend_loop ks (rt_prepend r) hdr (rt_mtu r) len pb x mem =
     Inr (map (\<lambda>k. carried (unat (rt_mtu r) - 44) msg (resent r packet_id ty msg (L ! k))) ks, mem)"
proof (induction ks)
  case (Cons k ks)
  let ?cs = "unat (rt_mtu r) - 44" let ?l = "link_bytes (rt_net r) (rt_eth r)" let ?j = "L ! k"
  have k: "k < length L" using Cons.prems by simp
  have cs: "0 < ?cs" "length msg = unat len" using assms(1) by (simp_all add: can_send_def msg_def)
  have lc: "lost_chunk_at x k = Inr (of_nat ?j)" using assms(4) k by (simp add: lost_list_def)
  have j: "?j * ?cs < unat len" using assms(5) k chunk_count_index [OF cs(1)] by simp
  have ll: "length ?l = rt_prepend r" by (rule length_link [OF assms(2)])
  have p4: "4 \<le> rt_prepend r" using assms(2) by (auto simp: link_ok_def)
  have "of_nat (length msg) = len" using cs(2) by simp
  then have "resend_chunk (rt_prepend r) hdr (rt_mtu r) len pb (of_nat ?j) mem = Inr (carried ?cs msg (resent r packet_id ty msg ?j), mem)"
    using resend_chunk_frame [OF assms(1) ll j assms(3) p4, of "resend_ip r packet_id" "message_info r len ty", folded msg_def] cs(2)
    unfolding hdr_def by (simp add: carried_def resent_def Let_def chunk_info_def)
  with lc Cons show ?case by simp
qed simp



end
