(* ===== verification/Swift_Exchange.thy ===== *)
theory Swift_Exchange
  imports Swift_Control
begin

text \<open>
  A transfer between two connections as one run: what the receiver and its callback thread
  make of the frames of a message, and what the confirmation does at the sender while it
  waits in \<open>handle_lost_packets\<close>.
\<close>

text \<open>What a handler that only reads the packet leaves alone.\<close>

definition reads_only :: "handler \<Rightarrow> bool" where
  "reads_only f \<longleftrightarrow> (\<forall>pd s. \<exists>s'. f pd s = Inr s' \<and> s_env s' = s_env s \<and> pending_messages s' = pending_messages s \<and>
     packets_completed s' = packets_completed s \<and> frame_queue s' = frame_queue s \<and> buffer_at s' = buffer_at s \<and> wire s' = wire s)"

text \<open>
  The other side of a transfer: the frames put on the wire since \<open>n\<close> reach the receiver \<open>s\<close>,
  whose callback thread takes a turn before the last of them, and the receiver's last frame
  reaches the sender.
\<close>

definition remote_run :: "conn_cfg \<Rightarrow> handler \<Rightarrow> u16 \<Rightarrow> u8 list list \<Rightarrow> conn_state \<Rightarrow> conn_state res" where
  "remote_run c f rnd frs s =
     rbind (receive_frames c rnd (butlast frs) s)
       (\<lambda>s1. rbind (callback_turn c (Some f) s1) (receive_frame c rnd (last frs)))"

definition round_trip :: "conn_cfg \<Rightarrow> handler \<Rightarrow> u16 \<Rightarrow> conn_state \<Rightarrow> conn_cfg \<Rightarrow> nat \<Rightarrow> conn_state \<Rightarrow> conn_state" where
  "round_trip c f rnd s c' n t =
     (case rbind (remote_run c f rnd (drop n (wire t)) s) (\<lambda>s'. receive_frame c' rnd (last (wire s')) t) of
        Inl _ \<Rightarrow> t | Inr t' \<Rightarrow> t')"

lemma free_callback_node_ok:
  assumes "between_frames c B s" and "node \<in> pool_live (s_env s) Packet_callback_queue_node_pool"
  shows "\<exists>s'. free_callback_node node s = Inr s' \<and> between_frames c B s' \<and> wire s' = wire s \<and>
    pending_messages s' = pending_messages s \<and> packets_completed s' = packets_completed s"
proof -
  have "env_ok (s_env s)" using assms(1) by (simp add: between_frames_def)
  then obtain e where "pool_free Packet_callback_queue_node_pool node (s_env s) = Inr e" "env_ok e"
    "same_except {Packet_callback_queue_node_pool} (s_env s) e" using pool_free_ok assms(2) by blast
  then show ?thesis using assms(1) by (auto simp: free_callback_node_def between_frames_def same_except_def)
qed

lemma receive_whole_message:
  assumes "leads_to r c B" and "splits (unat (rt_mtu r) - 44) msg"
    and "recv_ready c B (htons packet_id) (source_port (rt_ports r)) (message_room r (length msg)) s" and "handover_room c ps s"
  shows "\<exists>s' node. receive_frames c rnd (message_frames r packet_id MESSAGE msg) s = Inr s' \<and>
     finished c B msg (htons packet_id) (source_port (rt_ports r)) ps node s'"
proof -
  let ?N = "chunk_count (unat (rt_mtu r) - 44) (length msg)"
  have "length (message_frames r packet_id MESSAGE msg) = ?N" by (simp add: message_frames_def Let_def)
  then have m: "map (\<lambda>j. message_frames r packet_id MESSAGE msg ! j) [0..<?N] = message_frames r packet_id MESSAGE msg" by (metis map_nth)
  have "0 < ?N" using assms(2) chunk_count_index [of "unat (rt_mtu r) - 44" 0 "length msg"] by (auto simp: splits_def)
  then have js: "[0..<?N] \<noteq> []" "hd [0..<?N] = 0" "set [0..<?N] = {0..<?N}" by (simp_all add: hd_upt)
  show ?thesis using receive_message [OF assms(1,2) disjI1 [OF refl] assms(3,4) js, of rnd, unfolded m] .
qed

lemma remote_confirms:
  assumes "leads_to r c B" and "splits (unat (rt_mtu r) - 44) msg" and "reads_only f"
    and "recv_ready c B (htons packet_id) (source_port (rt_ports r)) (message_room r (length msg)) s" and "handover_room c [] s"
    and "request_frame r packet_id = Inr req"
  shows "\<exists>s' w. remote_run c f rnd (message_frames r packet_id MESSAGE msg @ [req]) s = Inr s' \<and>
    wire s' = w @ [confirmation c (request_ip r packet_id) (request_info r)]"
proof -
  let ?i = "htons packet_id" let ?port = "source_port (rt_ports r)"
  obtain s1 node where 1: "receive_frames c rnd (message_frames r packet_id MESSAGE msg) s = Inr s1" "finished c B msg ?i ?port [] node s1"
    using receive_whole_message [OF assms(1,2,4,5), of rnd] by blast
  have "length msg < 2 ^ 32" using assms(2) by (simp add: splits_def)
  from callback_step [OF 1(2) this, of f] obtain pd s2 where
    2: "callback_turn c (Some f) s1 = rbind (f pd s2) (free_callback_node node)" "get_pending_message c ?i ?port s2 = Inr None"
      "check_packet_already_completed c ?i ?port s2 = Inr True" "between_frames c B s2" "node \<in> pool_live (s_env s2) Packet_callback_queue_node_pool" by blast
  obtain s3 where 3: "f pd s2 = Inr s3" "s_env s3 = s_env s2" "pending_messages s3 = pending_messages s2"
    "packets_completed s3 = packets_completed s2" "frame_queue s3 = frame_queue s2" "buffer_at s3 = buffer_at s2" using assms(3) unfolding reads_only_def by blast
  have "between_frames c B s3" "node \<in> pool_live (s_env s3) Packet_callback_queue_node_pool" using 2(4,5) 3 by (simp_all add: between_frames_def)
  from free_callback_node_ok [OF this] obtain s4 where 4: "free_callback_node node s3 = Inr s4" "between_frames c B s4"
    "pending_messages s4 = pending_messages s3" "packets_completed s4 = packets_completed s3" by blast
  have "get_pending_message c ?i ?port s4 = Inr None" "check_packet_already_completed c ?i ?port s4 = Inr True"
    using 2(2,3) 3(3,4) 4(3,4) by (simp_all add: get_pending_message_def check_packet_already_completed_def)
  from confirmation_sent [OF assms(1) 4(2) this, of rnd] obtain s5 where
    5: "receive_frame c rnd req s4 = Inr s5" "wire s5 = wire s4 @ [confirmation c (request_ip r packet_id) (request_info r)]" using assms(6) by auto
  have "remote_run c f rnd (message_frames r packet_id MESSAGE msg @ [req]) s = Inr s5" using 1(1) 2(1) 3(1) 4(1) 5(1) by (simp add: remote_run_def)
  with 5(2) show ?thesis by blast
qed

lemma entered_sending:
  assumes "entered (cf_seed c') packet_id ps t t1" and "between_frames c' B' t" and "hm_abs (packets_sending t) (le_bytes 2 packet_id) = []"
  shows "sending c' B' packet_id ps (new_sending packet_id) (t1\<lparr>wire := w\<rparr>)"
proof -
  obtain e hm where t1: "t1 = t\<lparr>s_env := e, packets_sending := hm, sending_at := (sending_at t)(ps \<mapsto> new_sending packet_id)\<rparr>"
    using assms(1) by (auto simp: entered_def)
  have e: "env_ok e" "same_except {Packets_sending_pool, Uint16_pool, Hashmap_item_pool} (s_env t) e" "hm_ok (cf_seed c') hm e"
    "hm_abs hm (le_bytes 2 packet_id) = [ps]"
    using assms(1,3) unfolding t1 by (simp_all add: entered_def env_grows_def)
  have "between_frames c' B' (t1\<lparr>wire := w\<rparr>)" using assms(2) e(1,2) unfolding t1 by (simp add: between_frames_def same_except_def)
  then show ?thesis using e(3,4) unfolding t1 by (simp add: sending_def hm_ok_def first_of_def)
qed


lemma round_trip_confirms:
  assumes "leads_to r c B" and "leads_back r c c' B'" and "cf_seed c' = rt_seed r"
    and "splits (unat (rt_mtu r) - 44) msg" and "reads_only f"
    and "recv_ready c B (htons packet_id) (source_port (rt_ports r)) (message_room r (length msg)) s" and "handover_room c [] s"
    and "between_frames c' B' t" and "hm_abs (packets_sending t) (le_bytes 2 packet_id) = []"
    and "entered (rt_seed r) packet_id ps t t1" and "request_frame r packet_id = Inr req"
  shows "confirms (rt_seed r) ps (new_sending packet_id) (round_trip c f rnd s c' (length (wire t)))
     (t1\<lparr>wire := wire t @ message_frames r packet_id MESSAGE msg @ [req]\<rparr>)"
proof -
  let ?t = "t1\<lparr>wire := wire t @ message_frames r packet_id MESSAGE msg @ [req]\<rparr>"
  obtain s' w where 1: "remote_run c f rnd (message_frames r packet_id MESSAGE msg @ [req]) s = Inr s'"
    "wire s' = w @ [confirmation c (request_ip r packet_id) (request_info r)]"
    using remote_confirms [OF assms(1,4-7,11), of rnd] by blast
  have en: "entered (cf_seed c') packet_id ps t t1" using assms(3,10) by simp
  from confirmation_taken [OF assms(2) entered_sending [OF en assms(8,9)], of rnd "wire t @ message_frames r packet_id MESSAGE msg @ [req]"]
  obtain t' where 2: "receive_frame c' rnd (last (wire s')) ?t = Inr t'" "sending_at t' ps = Some ((new_sending packet_id)\<lparr>updated := SUCCESSFULLY_RECEIVED\<rparr>)"
    "packets_sending t' = packets_sending ?t" "tables_grow (s_env ?t) (s_env t')" "wire t' = wire ?t" using 1(2) by auto
  have rt: "round_trip c f rnd s c' (length (wire t)) ?t = t'" using 1(1) 2(1) by (simp add: round_trip_def)
  have ok: "hm_ok (rt_seed r) (packets_sending ?t) (s_env ?t)" "key_memory_allocator (packets_sending ?t) = Some Uint16_pool"
    "ps \<in> pool_live (s_env ?t) Packets_sending_pool" using assms(10) by (simp_all add: entered_def)
  have "hm_ok (rt_seed r) (packets_sending ?t) (s_env t')" by (rule hm_ok_tables_grow [OF ok(1) 2(4) ok(2)]) simp_all
  moreover have "ps \<in> pool_live (s_env t') Packets_sending_pool" using 2(4) ok(3) by (auto simp: tables_grow_def)
  ultimately show ?thesis unfolding confirms_def rt using 2(2,3,5) by blast
qed

end
