(* ===== verification/Swift_Listener.thy ===== *)
theory Swift_Listener
  imports Swift_Exchange
begin

text \<open>
  The library around its connections: the global state that \<open>src/initialize_swiftnet.c\<close>
  declares, the client and server structures of \<open>src/swift_net.h\<close>, the listeners of
  \<open>src/internal/internal.h\<close>, and what happens to a captured frame before a connection sees
  it (\<open>handle_client_init\<close>, \<open>handle_correct_receiver\<close> and \<open>pcap_packet_handle\<close> in
  \<open>src/handle_packets.c\<close>, \<open>src/internal/check_existing_listener.c\<close>).

  A connection works on the library's memory: before each of its steps the global part of
  its state is what the library has, together with its own three pools, and afterwards the
  library has what the step left. What pcap makes of an interface is a parameter: the link
  type \<open>pcap_datalink\<close> reports, or nothing when it cannot be opened.
\<close>

section \<open>State\<close>

record client_connection =
  cc_state :: conn_state
  cc_pool :: "pool_id \<Rightarrow> mem_allocator"
  cc_network_data :: network_data
  cc_port_info :: port_info
  cc_eth_header :: ether_header
  cc_mtu :: u16
  cc_server_addr :: u32
  cc_loopback :: bool
  cc_closing :: bool
  cc_initialized :: bool

record server =
  sv_state :: conn_state
  sv_pool :: "pool_id \<Rightarrow> mem_allocator"
  sv_network_data :: network_data
  sv_port :: u16
  sv_eth_header :: ether_header
  sv_loopback :: bool
  sv_closing :: bool

text \<open>
  The pcap handle of a listener is \<open>None\<close> for \<open>NULL\<close>, otherwise whether it is still open.
\<close>

record listener =
  li_network_data :: network_data
  li_pcap :: "bool option"
  servers :: "ptr hashmap"
  client_connections :: "ptr hashmap"
  interface_name :: "u8 list"
  li_addr_type :: u16
  li_loopback :: bool

record library =
  lib_env :: env
  lib_seed :: u64
  lib_globals :: net_globals
  mac_address :: "u8 list"
  default_network_interface :: "u8 list"
  lib_requests_sent :: "ptr hashmap"
  lib_request_at :: "ptr \<Rightarrow> request_sent option"
  lib_buffer_at :: "ptr \<Rightarrow> u8 list"
  listeners :: "ptr hashmap"
  listener_at :: "ptr \<Rightarrow> listener option"
  client_at :: "ptr \<Rightarrow> client_connection option"
  server_at :: "ptr \<Rightarrow> server option"
  swiftnet_closing :: bool
  lib_leaks :: leak_counters

text \<open>The pools that every connection has for itself.\<close>

definition connection_pools :: "pool_id set" where
  "connection_pools = {Pending_messages_pool, Packets_sending_pool, Packets_completed_pool}"

definition lend :: "(pool_id \<Rightarrow> mem_allocator) \<Rightarrow> library \<Rightarrow> conn_state \<Rightarrow> conn_state" where
  "lend own l s = s\<lparr>s_env := (lib_env l)\<lparr>pool := \<lambda>i. if i \<in> connection_pools then own i else pool (lib_env l) i\<rparr>,
     requests_sent := lib_requests_sent l, request_at := lib_request_at l, buffer_at := lib_buffer_at l\<rparr>"

definition reclaim :: "conn_state \<Rightarrow> library \<Rightarrow> library" where
  "reclaim s l = l\<lparr>lib_env := (s_env s)\<lparr>pool := \<lambda>i. if i \<in> connection_pools then pool (lib_env l) i else pool (s_env s) i\<rparr>,
     lib_requests_sent := requests_sent s, lib_request_at := request_at s, lib_buffer_at := buffer_at s\<rparr>"

text \<open>What \<open>swiftnet_client_process_packets\<close> and \<open>swiftnet_server_process_packets\<close> pass on.\<close>

definition client_cfg :: "library \<Rightarrow> client_connection \<Rightarrow> conn_cfg" where
  "client_cfg l cc = \<lparr>cf_globals = lib_globals l, cf_seed = lib_seed l, cf_port = source_port (cc_port_info cc),
     cf_net = cc_network_data cc, cf_eth = cc_eth_header cc, cf_type = CONNECTION_TYPE_CLIENT\<rparr>"

definition server_cfg :: "library \<Rightarrow> server \<Rightarrow> conn_cfg" where
  "server_cfg l sv = \<lparr>cf_globals = lib_globals l, cf_seed = lib_seed l, cf_port = sv_port sv,
     cf_net = sv_network_data sv, cf_eth = sv_eth_header sv, cf_type = CONNECTION_TYPE_SERVER\<rparr>"

definition on_client :: "(conn_cfg \<Rightarrow> conn_state \<Rightarrow> conn_state res) \<Rightarrow> ptr \<Rightarrow> library \<Rightarrow> library res" where
  "on_client f p l =
     (case client_at l p of
        None \<Rightarrow> Inl Null_Deref
      | Some cc \<Rightarrow>
          rbind (f (client_cfg l cc) (lend (cc_pool cc) l (cc_state cc)))
            (\<lambda>s. Inr ((reclaim s l)\<lparr>client_at := (client_at l)(p \<mapsto> cc\<lparr>cc_state := s, cc_pool := pool (s_env s)\<rparr>)\<rparr>)))"

definition on_server :: "(conn_cfg \<Rightarrow> conn_state \<Rightarrow> conn_state res) \<Rightarrow> ptr \<Rightarrow> library \<Rightarrow> library res" where
  "on_server f p l =
     (case server_at l p of
        None \<Rightarrow> Inl Null_Deref
      | Some sv \<Rightarrow>
          rbind (f (server_cfg l sv) (lend (sv_pool sv) l (sv_state sv)))
            (\<lambda>s. Inr ((reclaim s l)\<lparr>server_at := (server_at l)(p \<mapsto> sv\<lparr>sv_state := s, sv_pool := pool (s_env s)\<rparr>)\<rparr>)))"

section \<open>Captured frames\<close>

text \<open>
  A frame for a client that waits for the server's information. The destination MAC is
  taken over before the frame is looked at.
\<close>

definition handle_client_init :: "u8 list \<Rightarrow> client_connection \<Rightarrow> client_connection res" where
  "handle_client_init data cc =
     (let p = unat (prepend_size (cc_network_data cc))
      in if cc_closing cc then Inr cc
         else if length data \<noteq> PACKET_HEADER_SIZE + 4 + p then Inr cc
         else rbind (if addr_type (cc_network_data cc) \<noteq> 0
                     then rbind (read_at 6 6 data) (\<lambda>m. Inr (cc\<lparr>cc_eth_header := (cc_eth_header cc)\<lparr>ether_dhost := m\<rparr>\<rparr>))
                     else Inr cc)
           (\<lambda>cc1. rbind (read_at (p + IP_SIZE) INFO_SIZE data)
           (\<lambda>ib. rbind (read_at (p + IP_SIZE + INFO_SIZE) 2 data)
           (\<lambda>mb. let info = info_of ib
              in if destination_port (ports info) \<noteq> source_port (cc_port_info cc) \<or> source_port (ports info) \<noteq> destination_port (cc_port_info cc)
                 then Inr cc1
                 else if packet_type info \<noteq> REQUEST_INFORMATION then Inr cc1
                 else Inr (cc1\<lparr>cc_mtu := le_word mb, cc_initialized := True\<rparr>)))))"

definition handle_correct_receiver ::
  "connection_type \<Rightarrow> listener \<Rightarrow> port_info \<Rightarrow> u8 list \<Rightarrow> library \<Rightarrow> (bool \<times> library) res" where
  "handle_correct_receiver ty li pi data l =
     (case ty of
        CONNECTION_TYPE_CLIENT \<Rightarrow>
          rbind (hashmap_get (lib_seed l) (le_bytes 2 (destination_port pi)) 2 (client_connections li))
            (\<lambda>r. case r of
               None \<Rightarrow> Inr (False, l)
             | Some p \<Rightarrow>
                 (case client_at l p of
                    None \<Rightarrow> Inl Null_Deref
                  | Some cc \<Rightarrow>
                      if cc_initialized cc
                      then rbind (on_client (\<lambda>c. handle_packets c data) p l) (\<lambda>l1. Inr (True, l1))
                      else rbind (handle_client_init data cc) (\<lambda>cc1. Inr (True, l\<lparr>client_at := (client_at l)(p \<mapsto> cc1)\<rparr>))))
      | CONNECTION_TYPE_SERVER \<Rightarrow>
          rbind (hashmap_get (lib_seed l) (le_bytes 2 (destination_port pi)) 2 (servers li))
            (\<lambda>r. case r of
               None \<Rightarrow> Inr (False, l)
             | Some p \<Rightarrow> rbind (on_server (\<lambda>c. handle_packets c data) p l) (\<lambda>l1. Inr (True, l1))))"

text \<open>The ports are read from where they are in a frame of this listener's link, however short the frame is.\<close>

definition pcap_packet_handle :: "ptr \<Rightarrow> u8 list \<Rightarrow> library \<Rightarrow> library res" where
  "pcap_packet_handle lp packet l =
     (case listener_at l lp of
        None \<Rightarrow> Inl Null_Deref
      | Some li \<Rightarrow>
          rbind (read_at (unat (packet_prepend_size (li_addr_type li)) + IP_SIZE + 16) 4 packet)
            (\<lambda>pb. let pi = \<lparr>destination_port = le_word (take 2 pb), source_port = le_word (drop 2 pb)\<rparr>
               in rbind (handle_correct_receiver CONNECTION_TYPE_CLIENT li pi packet l)
                    (\<lambda>(found, l1). if found then Inr l1
                       else rbind (handle_correct_receiver CONNECTION_TYPE_SERVER li pi packet l1) (\<lambda>(_, l2). Inr l2))))"

section \<open>Listeners\<close>

text \<open>The key of a connection in its listener's table.\<close>

definition enter_connection :: "u64 \<Rightarrow> u16 \<Rightarrow> ptr \<Rightarrow> ptr hashmap \<Rightarrow> env \<Rightarrow> (ptr hashmap \<times> env) res" where
  "enter_connection seed port con hm e =
     rbind (pool_allocate Uint16_pool e) (\<lambda>(k, e1). hashmap_insert seed k (le_bytes 2 port) 2 (Some con) hm e1)"

definition register_connection :: "connection_type \<Rightarrow> u16 \<Rightarrow> ptr \<Rightarrow> u64 \<Rightarrow> listener \<Rightarrow> env \<Rightarrow> (listener \<times> env) res" where
  "register_connection ty port con seed li e =
     (case ty of
        CONNECTION_TYPE_CLIENT \<Rightarrow>
          rbind (enter_connection seed port con (client_connections li) e) (\<lambda>(hm, e1). Inr (li\<lparr>client_connections := hm\<rparr>, e1))
      | CONNECTION_TYPE_SERVER \<Rightarrow>
          rbind (enter_connection seed port con (servers li) e) (\<lambda>(hm, e1). Inr (li\<lparr>servers := hm\<rparr>, e1)))"

definition open_networking :: "u16 option \<Rightarrow> network_data" where
  "open_networking datalink = (case datalink of None \<Rightarrow> \<lparr>addr_type = 0, prepend_size = 0\<rparr> | Some dl \<Rightarrow> initialize_networking dl)"

abbreviation IFNAMSIZ :: nat where "IFNAMSIZ \<equiv> 16"

text \<open>A fresh listener, entered under its interface's name.\<close>

definition new_listener ::
  "u16 option \<Rightarrow> u8 list \<Rightarrow> ptr \<Rightarrow> connection_type \<Rightarrow> u16 \<Rightarrow> bool \<Rightarrow> library \<Rightarrow> (ptr \<times> library) res" where
  "new_listener datalink name con ty port lo l =
     rbind (pool_allocate Listener_pool (lib_env l))
       (\<lambda>(lp, e1). case hashmap_create (Some Uint16_pool) e1 of (sv, e2) \<Rightarrow>
          (case hashmap_create (Some Uint16_pool) e2 of (cc, e3) \<Rightarrow>
             let nd = open_networking datalink
             in if IFNAMSIZ < length name + 1 then Inl Out_Of_Bounds
                else rbind (register_connection ty port con (lib_seed l)
                              \<lparr>li_network_data = nd, li_pcap = map_option (\<lambda>_. True) datalink, servers = sv, client_connections = cc, interface_name = name,
                               li_addr_type = addr_type nd, li_loopback = lo\<rparr> e3)
                  (\<lambda>(li, e4). case env_malloc (length name) e4 of
                     (None, _) \<Rightarrow> Inl Exit_Failure
                   | (Some k, e5) \<Rightarrow>
                       rbind (hashmap_insert (lib_seed l) k name (of_nat (length name)) (Some lp) (listeners l) e5)
                         (\<lambda>(hm, e6). Inr (lp, l\<lparr>lib_env := e6, listeners := hm, listener_at := (listener_at l)(lp \<mapsto> li)\<rparr>)))))"

definition check_existing_listener ::
  "u16 option \<Rightarrow> u8 list \<Rightarrow> ptr \<Rightarrow> connection_type \<Rightarrow> u16 \<Rightarrow> bool \<Rightarrow> library \<Rightarrow> (ptr \<times> library) res" where
  "check_existing_listener datalink name con ty port lo l =
     rbind (hashmap_get (lib_seed l) name (of_nat (length name)) (listeners l))
       (\<lambda>r. case r of
          None \<Rightarrow> new_listener datalink name con ty port lo l
        | Some lp \<Rightarrow>
            (case listener_at l lp of
               None \<Rightarrow> Inl Null_Deref
             | Some li \<Rightarrow>
                 rbind (register_connection ty port con (lib_seed l) li (lib_env l))
                   (\<lambda>(li1, e1). Inr (lp, l\<lparr>lib_env := e1, listener_at := (listener_at l)(lp \<mapsto> li1)\<rparr>))))"


section \<open>Routing\<close>

lemma frame_ports:
  assumes "length link = n"
  shows "read_at (n + IP_SIZE + 16) 4 (frame link ip pi d) =
    Inr (le_bytes 2 (destination_port (ports pi)) @ le_bytes 2 (source_port (ports pi)))"
proof -
  have "seg (n + IP_SIZE + 16) 4 (frame link ip pi d) = le_bytes 2 (destination_port (ports pi)) @ le_bytes 2 (source_port (ports pi))"
    using assms by (simp add: frame_def seg_skip info_bytes_def) (simp add: seg_def)
  then show ?thesis using assms by (simp add: read_at_def)
qed

text \<open>A connection with \<open>ps\<close> in its queue and memory for one frame more.\<close>

definition queue_ready :: "nat \<Rightarrow> ptr list \<Rightarrow> conn_state \<Rightarrow> bool" where
  "queue_ready B ps s \<longleftrightarrow> env_ok (s_env s) \<and> q_rep (frame_queue s) (frame_nodes s) ps \<and> set ps \<subseteq> pool_live (s_env s) Packet_queue_node_pool \<and>
     0 < pool_avail (s_env s) Packet_buffer_pool \<and> 0 < pool_avail (s_env s) Packet_queue_node_pool \<and> (\<forall>b. length (buffer_at s b) = B)"

text \<open>The frame is the last in the queue.\<close>

definition queued :: "u8 list \<Rightarrow> ptr list \<Rightarrow> (ptr \<Rightarrow> u8 list) \<Rightarrow> conn_state \<Rightarrow> bool" where
  "queued fr ps buffers s \<longleftrightarrow> (\<exists>node n b. q_rep (frame_queue s) (frame_nodes s) (ps @ [node]) \<and> frame_nodes s node = Some n \<and>
     rf_data (q_item n) = Some b \<and> take (length fr) (buffers b) = fr \<and> data_read (q_item n) = of_nat (length fr))"

lemma handle_packets_queues:
  assumes "queue_ready B ps s" and "length (frame link ip pi d) \<le> B" and "link_accepts (cf_net c) link"
  shows "\<exists>s'. handle_packets c (frame link ip pi d) s = Inr s' \<and> queued (frame link ip pi d) ps (buffer_at s') s'"
proof -
  let ?fr = "frame link ip pi d"
  note rd = assms(1) [unfolded queue_ready_def]
  have env: "env_ok (s_env s)" "0 < pool_avail (s_env s) Packet_buffer_pool" using rd by simp_all
  obtain b e1 where 1: "pool_allocate Packet_buffer_pool (s_env s) = Inr (b, e1)" "env_ok e1" "same_except {Packet_buffer_pool} (s_env s) e1"
    using pool_allocate_ok [OF env] by blast
  let ?buf = "put 0 ?fr (buffer_at s b)"
  have m: "memcpy_at 0 ?fr (buffer_at s b) = Inr ?buf" using rd assms(2) by (simp add: memcpy_at_def)
  have buf: "?buf = ?fr @ drop (length ?fr) (buffer_at s b)" by (simp add: put_def)
  obtain addr where a: "sender_address_of (cf_net c) ?buf = Inr (Some addr)" unfolding buf using sender_address_frame [OF assms(3)] by blast
  have "0 < pool_avail e1 Packet_queue_node_pool" using 1(3) rd by (simp add: same_except_def)
  from pool_allocate_ok [OF 1(2) this] obtain node e2 where
    2: "pool_allocate Packet_queue_node_pool e1 = Inr (node, e2)" "node \<notin> pool_live e1 Packet_queue_node_pool" by blast
  have nd: "node \<notin> set ps" using 2(2) 1(3) rd by (auto simp: same_except_def)
  let ?n = "\<lparr>q_next = None, q_item = \<lparr>rf_data = Some b, data_read = of_nat (length ?fr), rf_sender_address = addr\<rparr>\<rparr>"
  let ?nodes = "(frame_nodes s)(node \<mapsto> ?n)"
  have "q_rep (frame_queue s) ?nodes ps" using rd nd by (simp add: q_rep_def)
  moreover have "?nodes node = Some ?n" "q_next ?n = None" by simp_all
  ultimately obtain q st where 3: "insert_queue_node (Some node) (frame_queue s) ?nodes = Inr (q, st)" "q_rep q st (ps @ [node])"
    "\<forall>x. map_option q_item (st x) = map_option q_item (?nodes x)"
    using insert_queue_node_rep [of "frame_queue s" ?nodes ps node ?n] nd by blast
  obtain n where n: "st node = Some n" "q_item n = q_item ?n" using 3(3) by (metis (no_types, lifting) fun_upd_same map_option_eq_Some)
  have ne: "?fr \<noteq> []" by (simp add: frame_def info_bytes_def)
  let ?s = "s\<lparr>s_env := e2, buffer_at := (buffer_at s)(b := ?buf), frame_queue := q, frame_nodes := st\<rparr>"
  have "handle_packets c ?fr s = Inr ?s"
    using ne 1(1) m a 2(1) 3(1) by (simp add: handle_packets_def construct_node_def Let_def)
  moreover have "take (length ?fr) (buffer_at ?s b) = ?fr" by (simp add: buf)
  ultimately show ?thesis unfolding queued_def using 3(2) n by (intro exI [of _ ?s]) fastforce
qed


section \<open>Registration\<close>

definition connection_table :: "connection_type \<Rightarrow> listener \<Rightarrow> ptr hashmap" where
  "connection_table ty li = (case ty of CONNECTION_TYPE_CLIENT \<Rightarrow> client_connections li | CONNECTION_TYPE_SERVER \<Rightarrow> servers li)"

definition listener_ok :: "u64 \<Rightarrow> env \<Rightarrow> listener \<Rightarrow> bool" where
  "listener_ok seed e li \<longleftrightarrow> (\<forall>ty. hm_ok seed (connection_table ty li) e \<and> key_memory_allocator (connection_table ty li) = Some Uint16_pool) \<and>
     li_addr_type li = addr_type (li_network_data li)"

definition lib_ok :: "library \<Rightarrow> bool" where
  "lib_ok l \<longleftrightarrow> hm_ok (lib_seed l) (listeners l) (lib_env l) \<and> key_memory_allocator (listeners l) = None \<and>
     (\<forall>name. \<forall>lp \<in> set (hm_abs (listeners l) name). \<exists>li. listener_at l lp = Some li \<and> listener_ok (lib_seed l) (lib_env l) li \<and>
        lp \<in> pool_live (lib_env l) Listener_pool)"

text \<open>What a registration takes of the memory.\<close>

definition register_room :: "library \<Rightarrow> bool" where
  "register_room l \<longleftrightarrow> hm_size (listeners l) + 1 < hm_capacity (listeners l) \<and> 0 < pool_avail (lib_env l) Listener_pool \<and>
     0 < pool_avail (lib_env l) Uint16_pool \<and> 1 < pool_avail (lib_env l) Hashmap_item_pool \<and> heap_room 20576 (c_heap (lib_env l)) \<and>
     (\<forall>lp li ty. listener_at l lp = Some li \<longrightarrow> hm_size (connection_table ty li) + 1 < hm_capacity (connection_table ty li))"

lemma listener_ok_grows: "listener_ok seed e li \<Longrightarrow> env_grows e e' \<Longrightarrow> listener_ok seed e' li"
  by (auto simp: listener_ok_def intro: hm_ok_grows)

lemma register_connection_ok:
  assumes "listener_ok seed e li" and "hm_size (connection_table ty li) + 1 < hm_capacity (connection_table ty li)"
    and "0 < pool_avail e Uint16_pool" and "0 < pool_avail e Hashmap_item_pool"
  obtains li' e' where "register_connection ty port con seed li e = Inr (li', e')" and "listener_ok seed e' li'" and "env_grows e e'"
    and "hm_abs (connection_table ty li') = (hm_abs (connection_table ty li))
      (le_bytes 2 port := hm_abs (connection_table ty li) (le_bytes 2 port) @ [con])"
    and "\<forall>ty'. ty' \<noteq> ty \<longrightarrow> connection_table ty' li' = connection_table ty' li" and "same_except {Uint16_pool, Hashmap_item_pool} e e'"
    and "pool_avail e Hashmap_item_pool \<le> Suc (pool_avail e' Hashmap_item_pool)"
    and "li_network_data li' = li_network_data li \<and> li_pcap li' = li_pcap li"
    and "pool_avail e Uint16_pool \<le> Suc (pool_avail e' Uint16_pool)"
proof -
  let ?hm = "connection_table ty li"
  have hm: "hm_ok seed ?hm e" "key_memory_allocator ?hm = Some Uint16_pool" using assms(1) by (simp_all add: listener_ok_def)
  have "length (le_bytes 2 port) = unat (2 :: u32)" by simp
  from enter_key [OF hm this assms(2-4), of con] obtain key e1 hm' e2 where
    1: "pool_allocate Uint16_pool e = Inr (key, e1)" "hashmap_insert seed key (le_bytes 2 port) 2 (Some con) ?hm e1 = Inr (hm', e2)"
      "hm_ok seed hm' e2" "hm_abs hm' = (hm_abs ?hm)(le_bytes 2 port := hm_abs ?hm (le_bytes 2 port) @ [con])" "env_grows e e2"
      "same_except {Uint16_pool, Hashmap_item_pool} e e2" "key_memory_allocator hm' = Some Uint16_pool"
      "pool_avail e Hashmap_item_pool \<le> Suc (pool_avail e2 Hashmap_item_pool)" "pool_avail e Uint16_pool = Suc (pool_avail e2 Uint16_pool)" by metis
  let ?li = "case ty of CONNECTION_TYPE_CLIENT \<Rightarrow> li\<lparr>client_connections := hm'\<rparr> | CONNECTION_TYPE_SERVER \<Rightarrow> li\<lparr>servers := hm'\<rparr>"
  have run: "register_connection ty port con seed li e = Inr (?li, e2)"
    using 1(1,2) by (cases ty) (simp_all add: register_connection_def enter_connection_def connection_table_def)
  have tab: "connection_table ty ?li = hm'" "\<forall>ty'. ty' \<noteq> ty \<longrightarrow> connection_table ty' ?li = connection_table ty' li"
    by (auto simp: connection_table_def split: connection_type.splits)
  have "hm_ok seed (connection_table ty' ?li) e2 \<and> key_memory_allocator (connection_table ty' ?li) = Some Uint16_pool" for ty'
  proof (cases "ty' = ty")
    case True
    with tab(1) 1(3,7) show ?thesis by simp
  next
    case False
    with tab(2) assms(1) hm_ok_grows [OF _ 1(5)] show ?thesis by (auto simp: listener_ok_def)
  qed
  moreover have nd: "li_network_data ?li = li_network_data li \<and> li_pcap ?li = li_pcap li" "li_addr_type ?li = li_addr_type li" by (cases ty; simp)+
  ultimately have "listener_ok seed e2 ?li" using assms(1) unfolding listener_ok_def by simp
  with run show ?thesis using that [of ?li e2] 1(4-6,8,9) tab nd(1) by simp
qed


lemma port_key_inj: "le_bytes 2 (a :: u16) = le_bytes 2 b \<longleftrightarrow> a = b"
proof
  assume "le_bytes 2 a = le_bytes 2 b"
  then have "(le_word (le_bytes 2 a) :: u16) = le_word (le_bytes 2 b)" by simp
  then show "a = b" by simp
qed simp

text \<open>A listener's name entered in the table of listeners.\<close>

lemma enter_name:
  assumes "hm_ok seed hm e" and "key_memory_allocator hm = None" and "hm_size hm + 1 < hm_capacity hm"
    and "0 < pool_avail e Hashmap_item_pool" and "heap_room (max 1 (length name)) (c_heap e)" and "length name < 2 ^ 32"
  obtains k e1 hm' e2 where "env_malloc (length name) e = (Some k, e1)"
    and "hashmap_insert seed k name (of_nat (length name)) (Some lp) hm e1 = Inr (hm', e2)" and "hm_ok seed hm' e2"
    and "hm_abs hm' = (hm_abs hm)(name := hm_abs hm name @ [lp])" and "key_memory_allocator hm' = None" and "env_grows e e2"
    and "same_pools {Hashmap_item_pool} e e2" and "heap_within (max 1 (length name)) e e2"
    and "pool_avail e Hashmap_item_pool \<le> Suc (pool_avail e2 Hashmap_item_pool)"
proof -
  have env: "env_ok e" using assms(1) by (simp add: hm_ok_def)
  obtain k e1 where 1: "env_malloc (length name) e = (Some k, e1)" "env_grows e e1" "pool e1 = pool e"
    "k \<notin> dom (blocks (c_heap e))" "k \<in> dom (blocks (c_heap e1))" by (rule take_block [OF env assms(5) order.refl])
  have ok1: "hm_ok seed hm e1" by (rule hm_ok_grows [OF assms(1) 1(2)])
  have "key_fresh k hm e1" using assms(1,2) 1(4,5) by (auto simp: key_fresh_def key_live_def hm_ok_def keys_owned_def arrays_owned_def)
  moreover have "length name = unat (of_nat (length name) :: u32)" using assms(6) by (simp add: unat_of_nat)
  moreover have a: "0 < pool_avail e1 Hashmap_item_pool" using assms(4) 1(3) by simp
  ultimately obtain hm' e2 where 2: "hashmap_insert seed k name (of_nat (length name)) (Some lp) hm e1 = Inr (hm', e2)" "hm_ok seed hm' e2"
    "hm_abs hm' = (hm_abs hm)(name := hm_abs hm name @ [lp])" "key_memory_allocator hm' = key_memory_allocator hm" "same_except {Hashmap_item_pool} e1 e2"
    "pool_avail e1 Hashmap_item_pool \<le> Suc (pool_avail e2 Hashmap_item_pool)"
    using hashmap_insert_small [OF ok1 _ _ _ assms(3), of name "of_nat (length name)" k lp] by metis
  have "env_grows e1 e2" using hashmap_insert_live [OF _ a assms(3) 2(1)] 1(2) 2(2,5) by (simp add: env_grows_def hm_ok_def same_except_def)
  then have "env_grows e e2" by (rule env_grows_trans [OF 1(2)])
  moreover have "same_pools {Hashmap_item_pool} e e2" using 2(5) 1(3) by (simp add: same_pools_def same_except_def)
  moreover have "heap_within (max 1 (length name)) e e2"
    using heap_within_malloc [OF 1(1)] 2(5) by (simp add: heap_within_def same_except_def)
  ultimately show ?thesis using that 1(1,3) 2 assms(2) by simp
qed

lemma heap_within_create: "hashmap_create kma e = (hm, e') \<Longrightarrow> heap_within 10280 e e'"
  by (auto simp: hashmap_create_def hashmap_calloc_def occupation_calloc_def occupation_words_def heap_within_def
      split: prod.splits dest!: heap_within_malloc)

lemma new_tables:
  assumes "env_ok e" and "heap_room (k + 20560) (c_heap e)"
  obtains sv cc e1 e2 where "hashmap_create (Some Uint16_pool) e = (sv, e1)" and "hashmap_create (Some Uint16_pool) e1 = (cc, e2)"
    and "\<forall>hm. hm = sv \<or> hm = cc \<longrightarrow> hm_ok seed (hm :: ptr hashmap) e2 \<and> hm_abs hm = (\<lambda>k. []) \<and> hm_size hm = 0 \<and> hm_capacity hm = 320 \<and>
       key_memory_allocator hm = Some Uint16_pool"
    and "env_grows e e2" and "pool e2 = pool e" and "heap_room k (c_heap e2)" and "heap_within 20560 e e2"
proof -
  have r: "heap_room 10280 (c_heap e)" using assms(2) by (simp add: heap_room_def)
  obtain sv e1 where 1: "hashmap_create (Some Uint16_pool) e = (sv, e1)" "hm_ok seed (sv :: ptr hashmap) e1" "hm_abs sv = (\<lambda>k. [])" "hm_size sv = 0"
    "hm_capacity sv = 320" "key_memory_allocator sv = Some Uint16_pool" "pool e1 = pool e" "\<forall>k. heap_room (k + 10280) (c_heap e) \<longrightarrow> heap_room k (c_heap e1)"
    using hashmap_create_ok [OF assms(1) r, of "Some Uint16_pool" seed] by auto
  have g1: "env_grows e e1" by (rule hashmap_create_grows [OF assms(1) 1(1)])
  have "heap_room (k + 10280 + 10280) (c_heap e)" using assms(2) by (simp add: heap_room_def)
  then have r1: "heap_room (k + 10280) (c_heap e1)" using 1(8) by blast
  have e1: "env_ok e1" "heap_room 10280 (c_heap e1)" using 1(2) r1 by (simp_all add: hm_ok_def heap_room_def)
  obtain cc e2 where 2: "hashmap_create (Some Uint16_pool) e1 = (cc, e2)" "hm_ok seed (cc :: ptr hashmap) e2" "hm_abs cc = (\<lambda>k. [])" "hm_size cc = 0"
    "hm_capacity cc = 320" "key_memory_allocator cc = Some Uint16_pool" "pool e2 = pool e1" "\<forall>k. heap_room (k + 10280) (c_heap e1) \<longrightarrow> heap_room k (c_heap e2)"
    using hashmap_create_ok [OF e1, of "Some Uint16_pool" seed] by auto
  have g2: "env_grows e1 e2" by (rule hashmap_create_grows [OF e1(1) 2(1)])
  have "hm_ok seed sv e2" by (rule hm_ok_grows [OF 1(2) g2])
  moreover have "heap_within 20560 e e2" using heap_within_trans [OF heap_within_create [OF 1(1)] heap_within_create [OF 2(1)]] by simp
  ultimately show ?thesis using that [OF 1(1) 2(1)] 1(3-7) 2(2-8) r1 env_grows_trans [OF g1 g2] by auto
qed

text \<open>What a registration takes at most.\<close>

definition register_cost :: "env \<Rightarrow> env \<Rightarrow> bool" where
  "register_cost e e' \<longleftrightarrow> heap_within 20576 e e' \<and> pool_avail e Uint16_pool \<le> pool_avail e' Uint16_pool + 1 \<and>
     pool_avail e Hashmap_item_pool \<le> pool_avail e' Hashmap_item_pool + 2"

lemma new_listener_ok:
  assumes "lib_ok l" and "register_room l" and "length name < IFNAMSIZ"
  shows "\<exists>lp l' li. new_listener dl name con ty port lo l = Inr (lp, l') \<and> lib_ok l' \<and>
     hm_abs (listeners l') = (hm_abs (listeners l))(name := hm_abs (listeners l) name @ [lp]) \<and>
     listener_at l' = (listener_at l)(lp \<mapsto> li) \<and> li_network_data li = open_networking dl \<and> li_pcap li = map_option (\<lambda>_. True) dl \<and>
     (\<forall>ty' port'. hm_abs (connection_table ty' li) (le_bytes 2 port') = (if ty' = ty \<and> port' = port then [con] else [])) \<and>
     (\<exists>e' hm. l' = l\<lparr>lib_env := e', listeners := hm, listener_at := (listener_at l)(lp \<mapsto> li)\<rparr>) \<and> env_grows (lib_env l) (lib_env l') \<and>
     same_pools {Listener_pool, Uint16_pool, Hashmap_item_pool} (lib_env l) (lib_env l') \<and> register_cost (lib_env l) (lib_env l')"
proof -
  let ?seed = "lib_seed l" let ?e = "lib_env l"
  note lk = assms(1) [unfolded lib_ok_def] and rm = assms(2) [unfolded register_room_def]
  have env: "env_ok ?e" "0 < pool_avail ?e Listener_pool" using lk rm by (simp_all add: hm_ok_def)
  from take_item [OF env] obtain lp e1 where 1: "pool_allocate Listener_pool ?e = Inr (lp, e1)" "env_grows ?e e1" "lp \<notin> pool_live ?e Listener_pool"
    "lp \<in> pool_live e1 Listener_pool" "same_except {Listener_pool} ?e e1" by blast
  have ok1: "env_ok e1" "heap_room (16 + 20560) (c_heap e1)" using 1(2,5) rm by (simp_all add: env_grows_def same_except_def)
  obtain sv cc e2 e3 where
    2: "hashmap_create (Some Uint16_pool) e1 = (sv, e2)" "hashmap_create (Some Uint16_pool) e2 = (cc, e3)"
      "\<forall>hm. hm = sv \<or> hm = cc \<longrightarrow> hm_ok ?seed (hm :: ptr hashmap) e3 \<and> hm_abs hm = (\<lambda>k. []) \<and> hm_size hm = 0 \<and> hm_capacity hm = 320 \<and>
         key_memory_allocator hm = Some Uint16_pool" "env_grows e1 e3" "pool e3 = pool e1" "heap_room 16 (c_heap e3)" "heap_within 20560 e1 e3"
    by (rule new_tables [OF ok1, of ?seed])
  let ?nd = "open_networking dl"
  let ?li = "\<lparr>li_network_data = ?nd, li_pcap = map_option (\<lambda>_. True) dl, servers = sv, client_connections = cc, interface_name = name, li_addr_type = addr_type ?nd, li_loopback = lo\<rparr>"
  have tb: "connection_table ty' ?li = sv \<or> connection_table ty' ?li = cc" for ty' by (cases ty') (simp_all add: connection_table_def)
  have ok: "listener_ok ?seed e3 ?li" unfolding listener_ok_def using 2(3) [rule_format, OF tb] by simp
  have rg: "hm_size (connection_table ty ?li) + 1 < hm_capacity (connection_table ty ?li)" "0 < pool_avail e3 Uint16_pool" "0 < pool_avail e3 Hashmap_item_pool"
    using 2(3) [rule_format, OF tb, of ty] 2(5) 1(5) rm by (auto simp: same_except_def)
  obtain li e4 where 3: "register_connection ty port con ?seed ?li e3 = Inr (li, e4)" "listener_ok ?seed e4 li" "env_grows e3 e4"
    "hm_abs (connection_table ty li) = (hm_abs (connection_table ty ?li))(le_bytes 2 port := hm_abs (connection_table ty ?li) (le_bytes 2 port) @ [con])"
    "\<forall>ty'. ty' \<noteq> ty \<longrightarrow> connection_table ty' li = connection_table ty' ?li" "same_except {Uint16_pool, Hashmap_item_pool} e3 e4"
    "pool_avail e3 Hashmap_item_pool \<le> Suc (pool_avail e4 Hashmap_item_pool)" "li_network_data li = li_network_data ?li \<and> li_pcap li = li_pcap ?li"
    "pool_avail e3 Uint16_pool \<le> Suc (pool_avail e4 Uint16_pool)"
    by (rule register_connection_ok [OF ok rg])
  have g4: "env_grows ?e e4" by (rule env_grows_trans [OF env_grows_trans [OF 1(2) 2(4)] 3(3)])
  have lo4: "hm_ok ?seed (listeners l) e4" "key_memory_allocator (listeners l) = None" "hm_size (listeners l) + 1 < hm_capacity (listeners l)"
    using hm_ok_grows [OF conjunct1 [OF lk] g4] lk rm by simp_all
  have r4: "0 < pool_avail e4 Hashmap_item_pool" "heap_room (max 1 (length name)) (c_heap e4)" "length name < 2 ^ 32"
    using 3(6,7) 2(5,6) 1(5) rm assms(3) by (auto simp: same_except_def heap_room_def)
  obtain k e5 hm e6 where 4: "env_malloc (length name) e4 = (Some k, e5)" "hashmap_insert ?seed k name (of_nat (length name)) (Some lp) (listeners l) e5 = Inr (hm, e6)"
    "hm_ok ?seed hm e6" "hm_abs hm = (hm_abs (listeners l))(name := hm_abs (listeners l) name @ [lp])" "key_memory_allocator hm = None" "env_grows e4 e6"
    "same_pools {Hashmap_item_pool} e4 e6" "heap_within (max 1 (length name)) e4 e6" "pool_avail e4 Hashmap_item_pool \<le> Suc (pool_avail e6 Hashmap_item_pool)"
    by (rule enter_name [OF lo4 r4])
  let ?l = "l\<lparr>lib_env := e6, listeners := hm, listener_at := (listener_at l)(lp \<mapsto> li)\<rparr>"
  have run: "new_listener dl name con ty port lo l = Inr (lp, ?l)"
    using 1(1) 2(1,2) 3(1) 4(1,2) assms(3) by (simp add: new_listener_def Let_def)
  have g: "env_grows ?e e6" by (rule env_grows_trans [OF g4 4(6)])
  have li6: "listener_ok ?seed e6 li" by (rule listener_ok_grows [OF 3(2) 4(6)])
  have lp6: "lp \<in> pool_live e6 Listener_pool" using 1(4) env_grows_trans [OF env_grows_trans [OF 2(4) 3(3)] 4(6)] unfolding env_grows_def by blast
  have old: "\<exists>li. listener_at ?l lp' = Some li \<and> listener_ok ?seed e6 li \<and> lp' \<in> pool_live e6 Listener_pool" if "lp' \<in> set (hm_abs (listeners l) n)" for lp' n
  proof -
    from lk that obtain li' where "listener_at l lp' = Some li'" "listener_ok ?seed ?e li'" "lp' \<in> pool_live ?e Listener_pool" by blast
    then show ?thesis using listener_ok_grows [OF _ g] g 1(3) by (auto simp: env_grows_def)
  qed
  have "lib_ok ?l" unfolding lib_ok_def using 4(3-5) old li6 lp6 by auto
  moreover have "hm_abs (connection_table ty' li) (le_bytes 2 port') = (if ty' = ty \<and> port' = port then [con] else [])" for ty' port'
    using 3(4,5) 2(3) [rule_format, OF tb, of ty] 2(3) [rule_format, OF tb, of ty'] by (cases "ty' = ty") (simp_all add: port_key_inj)
  moreover have "same_pools {Listener_pool, Uint16_pool, Hashmap_item_pool} ?e e6"
    using 1(5) 2(5) 3(6) 4(7) by (auto simp: same_pools_def same_except_def)
  moreover have "heap_within 16 e4 e6" using heap_within_mono [OF 4(8)] assms(3) by simp
  then have "register_cost ?e e6"
    using 1(5) 2(5,7) 3(6,7,9) 4(7,9) by (simp add: register_cost_def heap_within_def same_except_def same_pools_def)
  moreover have "\<exists>e' hm'. ?l = l\<lparr>lib_env := e', listeners := hm', listener_at := (listener_at l)(lp \<mapsto> li)\<rparr>" by blast
  ultimately show ?thesis using run 4(4) 3(8) g by (intro exI [of _ lp] exI [of _ ?l] exI [of _ li]) simp
qed

text \<open>The library after a connection has been registered with the listener \<open>li\<close> at \<open>lp\<close>.\<close>

definition registered ::
  "u16 option \<Rightarrow> u8 list \<Rightarrow> ptr \<Rightarrow> connection_type \<Rightarrow> u16 \<Rightarrow> library \<Rightarrow> ptr \<Rightarrow> listener \<Rightarrow> library \<Rightarrow> bool" where
  "registered dl name con ty port l lp li l' \<longleftrightarrow> lib_ok l' \<and> env_grows (lib_env l) (lib_env l') \<and>
     (\<exists>e' hm. l' = l\<lparr>lib_env := e', listeners := hm, listener_at := (listener_at l)(lp \<mapsto> li)\<rparr>) \<and>
     same_pools {Listener_pool, Uint16_pool, Hashmap_item_pool} (lib_env l) (lib_env l') \<and> register_cost (lib_env l) (lib_env l') \<and>
     hm_abs (listeners l') = (if hm_abs (listeners l) name = [] then (hm_abs (listeners l))(name := [lp]) else hm_abs (listeners l)) \<and>
     first_of (hm_abs (listeners l') name) = Some lp \<and>
     (case first_of (hm_abs (listeners l) name) of
        None \<Rightarrow> li_network_data li = open_networking dl \<and> li_pcap li = map_option (\<lambda>_. True) dl \<and>
          (\<forall>ty' port'. hm_abs (connection_table ty' li) (le_bytes 2 port') = (if ty' = ty \<and> port' = port then [con] else []))
      | Some lp0 \<Rightarrow> lp0 = lp \<and> (\<exists>li0. listener_at l lp = Some li0 \<and> li_network_data li = li_network_data li0 \<and> li_pcap li = li_pcap li0 \<and>
          (\<forall>ty' port'. hm_abs (connection_table ty' li) (le_bytes 2 port') =
             hm_abs (connection_table ty' li0) (le_bytes 2 port') @ (if ty' = ty \<and> port' = port then [con] else []))))"

lemma check_existing_listener_ok:
  assumes "lib_ok l" and "register_room l" and "length name < IFNAMSIZ"
  obtains lp l' li where "check_existing_listener dl name con ty port lo l = Inr (lp, l')" and "registered dl name con ty port l lp li l'"
proof -
  note lk = assms(1) [unfolded lib_ok_def] and rm = assms(2) [unfolded register_room_def]
  have wf: "hm_wf (lib_seed l) (listeners l)" using lk by (simp add: hm_ok_def)
  have "length name = unat (of_nat (length name) :: u32)" using assms(3) by (simp add: unat_of_nat)
  note get = hashmap_get_abs [OF wf this]
  show ?thesis
  proof (cases "hm_abs (listeners l) name")
    case Nil
    from new_listener_ok [OF assms, of dl con ty port lo] obtain lp l' li where 1: "new_listener dl name con ty port lo l = Inr (lp, l')"
      "lib_ok l'" "hm_abs (listeners l') = (hm_abs (listeners l))(name := hm_abs (listeners l) name @ [lp])" "li_network_data li = open_networking dl"
      "li_pcap li = map_option (\<lambda>_. True) dl"
      "\<forall>ty' port'. hm_abs (connection_table ty' li) (le_bytes 2 port') = (if ty' = ty \<and> port' = port then [con] else [])"
      "\<exists>e' hm. l' = l\<lparr>lib_env := e', listeners := hm, listener_at := (listener_at l)(lp \<mapsto> li)\<rparr>" "env_grows (lib_env l) (lib_env l')"
      "same_pools {Listener_pool, Uint16_pool, Hashmap_item_pool} (lib_env l) (lib_env l')" "register_cost (lib_env l) (lib_env l')" by blast
    have "registered dl name con ty port l lp li l'" unfolding registered_def using Nil 1(2-10) by (simp add: first_of_def)
    moreover
    have "check_existing_listener dl name con ty port lo l = Inr (lp, l')" using 1(1) Nil get by (simp add: check_existing_listener_def first_of_def)
    ultimately show ?thesis using that by blast
  next
    case (Cons lp lps)
    then have "lp \<in> set (hm_abs (listeners l) name)" by simp
    with lk obtain li where li: "listener_at l lp = Some li" "listener_ok (lib_seed l) (lib_env l) li" "lp \<in> pool_live (lib_env l) Listener_pool" by blast
    have rg: "hm_size (connection_table ty li) + 1 < hm_capacity (connection_table ty li)" "0 < pool_avail (lib_env l) Uint16_pool"
      "0 < pool_avail (lib_env l) Hashmap_item_pool" using rm li(1) by auto
    obtain li' e' where 1: "register_connection ty port con (lib_seed l) li (lib_env l) = Inr (li', e')" "listener_ok (lib_seed l) e' li'" "env_grows (lib_env l) e'"
      "hm_abs (connection_table ty li') = (hm_abs (connection_table ty li))(le_bytes 2 port := hm_abs (connection_table ty li) (le_bytes 2 port) @ [con])"
      "\<forall>ty'. ty' \<noteq> ty \<longrightarrow> connection_table ty' li' = connection_table ty' li" "same_except {Uint16_pool, Hashmap_item_pool} (lib_env l) e'"
      "li_network_data li' = li_network_data li \<and> li_pcap li' = li_pcap li"
      "pool_avail (lib_env l) Hashmap_item_pool \<le> Suc (pool_avail e' Hashmap_item_pool)"
      "pool_avail (lib_env l) Uint16_pool \<le> Suc (pool_avail e' Uint16_pool)" by (rule register_connection_ok [OF li(2) rg])
    let ?l = "l\<lparr>lib_env := e', listener_at := (listener_at l)(lp \<mapsto> li')\<rparr>"
    have run: "check_existing_listener dl name con ty port lo l = Inr (lp, ?l)"
      using 1(1) li(1) Cons get by (simp add: check_existing_listener_def first_of_def)
    have old: "\<exists>li. listener_at ?l p = Some li \<and> listener_ok (lib_seed l) e' li \<and> p \<in> pool_live e' Listener_pool" if p: "p \<in> set (hm_abs (listeners l) n)" for p n
    proof -
      from lk p obtain li2 where "listener_at l p = Some li2" "listener_ok (lib_seed l) (lib_env l) li2" "p \<in> pool_live (lib_env l) Listener_pool" by blast
      then show ?thesis using listener_ok_grows [OF _ 1(3)] 1(2,3) by (auto simp: env_grows_def)
    qed
    then have "lib_ok ?l" unfolding lib_ok_def using hm_ok_grows [OF conjunct1 [OF lk] 1(3)] lk by simp
    moreover have "hm_abs (connection_table ty' li') (le_bytes 2 port') =
        hm_abs (connection_table ty' li) (le_bytes 2 port') @ (if ty' = ty \<and> port' = port then [con] else [])" for ty' port'
      using 1(4,5) by (cases "ty' = ty") (simp_all add: port_key_inj)
    moreover have "\<exists>e'' hm. ?l = l\<lparr>lib_env := e'', listeners := hm, listener_at := (listener_at l)(lp \<mapsto> li')\<rparr>"
      by (intro exI [of _ e'] exI [of _ "listeners l"]) simp
    moreover have "same_pools {Listener_pool, Uint16_pool, Hashmap_item_pool} (lib_env l) e'" using 1(6) by (simp add: same_pools_def same_except_def)
    moreover have "register_cost (lib_env l) e'" using 1(6,8,9) by (simp add: register_cost_def heap_within_def same_except_def)
    moreover have "first_of (hm_abs (listeners l) name) = Some lp" using Cons by (simp add: first_of_def)
    ultimately have "registered dl name con ty port l lp li' ?l" unfolding registered_def using Cons li(1) 1(3,7) by simp
    with run show ?thesis by (rule that)
  qed
qed


text \<open>A library without connections, on a sample memory.\<close>

lemma sample_library:
  "\<exists>l. lib_ok l \<and> register_room l \<and> hm_abs (listeners l) = (\<lambda>k. []) \<and> (\<forall>b. length (lib_buffer_at l b) = B) \<and>
     (\<forall>i. pool_avail (lib_env l) i = 200) \<and> listener_at l = Map.empty \<and> heap_room 980000 (c_heap (lib_env l)) \<and> mac_address l = replicate 6 1 \<and>
     lib_globals l = \<lparr>maximum_transmission_unit = 64, private_ip_address = 0x0100007F\<rparr> \<and> lib_seed l = 7"
proof -
  obtain e0 where e0: "env_ok e0" "\<forall>i. pool_live e0 i = {} \<and> pool_avail e0 i = 200" "heap_room 1000000 (c_heap e0)" using sample_env by blast
  have "heap_room 10280 (c_heap e0)" using e0(3) by (simp add: heap_room_def)
  from hashmap_create_ok [OF e0(1) this, of None 7] obtain hm e where
    hm: "hm_ok 7 (hm :: ptr hashmap) e" "hm_abs hm = (\<lambda>k. [])" "hm_size hm = 0" "hm_capacity hm = 320" "key_memory_allocator hm = None" "pool e = pool e0"
      "\<forall>k. heap_room (k + 10280) (c_heap e0) \<longrightarrow> heap_room k (c_heap e)" by auto
  have room: "heap_room 980000 (c_heap e)" using hm(7) e0(3) by (auto simp: heap_room_def dest: spec [of _ 980000])
  let ?l = "\<lparr>lib_env = e, lib_seed = 7, lib_globals = \<lparr>maximum_transmission_unit = 64, private_ip_address = 0x0100007F\<rparr>,
    mac_address = replicate 6 1, default_network_interface = [101], lib_requests_sent = hm, lib_request_at = Map.empty, lib_buffer_at = (\<lambda>b. replicate B 0),
    listeners = hm, listener_at = Map.empty, client_at = Map.empty, server_at = Map.empty, swiftnet_closing = False,
    lib_leaks = \<lparr>items_leaked = 0, bytes_leaked = 0\<rparr>\<rparr>"
  have "lib_ok ?l" using hm(1,2,5) by (simp add: lib_ok_def)
  moreover have "register_room ?l" using hm(3,4,6) room e0(2) by (simp add: register_room_def heap_room_def)
  ultimately show ?thesis using hm(2,6) e0(2) room by (intro exI [of _ ?l]) simp
qed

section \<open>Properties\<close>



text \<open>
  C9. A connection that is registered can be found: afterwards the interface's name leads to
  a listener whose table leads from the connection's port to the connection; connections
  registered before stay where they were, in the same listener if there was one for the
  interface, and the invariant of the library holds.
\<close>

theorem connection_registered:
  assumes "lib_ok l" and "register_room l" and "length name < IFNAMSIZ"
  shows "\<exists>lp l' li. check_existing_listener dl name con ty port lo l = Inr (lp, l') \<and> lib_ok l' \<and>
    hm_abs (listeners l') = (if hm_abs (listeners l) name = [] then (hm_abs (listeners l))(name := [lp]) else hm_abs (listeners l)) \<and>
    first_of (hm_abs (listeners l') name) = Some lp \<and> listener_at l' = (listener_at l)(lp \<mapsto> li) \<and>
    con \<in> set (hm_abs (connection_table ty li) (le_bytes 2 port)) \<and>
    (\<forall>li0 ty' port'. first_of (hm_abs (listeners l) name) = Some lp \<longrightarrow> listener_at l lp = Some li0 \<longrightarrow>
       hm_abs (connection_table ty' li) (le_bytes 2 port') =
         hm_abs (connection_table ty' li0) (le_bytes 2 port') @ (if ty' = ty \<and> port' = port then [con] else [])) \<and>
    client_at l' = client_at l \<and> server_at l' = server_at l"
proof -
  obtain lp l' li where 1: "check_existing_listener dl name con ty port lo l = Inr (lp, l')" "registered dl name con ty port l lp li l'"
    by (rule check_existing_listener_ok [OF assms])
  from 1(2) have 2: "con \<in> set (hm_abs (connection_table ty li) (le_bytes 2 port))"
    by (cases "first_of (hm_abs (listeners l) name)") (auto simp: registered_def)
  from 1(2) have "listener_at l' = (listener_at l)(lp \<mapsto> li) \<and> client_at l' = client_at l \<and> server_at l' = server_at l" by (auto simp: registered_def)
  with 1 2 show ?thesis by (intro exI [of _ lp] exI [of _ l'] exI [of _ li]) (auto simp: registered_def)
qed

theorem connection_registered_witness:
  "\<exists>l lp l' li. check_existing_listener (Some DLT_NULL) [108, 111] 5 CONNECTION_TYPE_SERVER 8080 True l = Inr (lp, l') \<and>
     listener_at l' lp = Some li \<and> 5 \<in> set (hm_abs (servers li) (le_bytes 2 (8080 :: u16)))"
proof -
  obtain l where l: "lib_ok l" "register_room l" using sample_library [of 100] by blast
  have "length [108, 111 :: u8] < IFNAMSIZ" by simp
  from connection_registered [OF l this, of "Some DLT_NULL" 5 CONNECTION_TYPE_SERVER 8080 True] obtain lp l' li where
    "check_existing_listener (Some DLT_NULL) [108, 111] 5 CONNECTION_TYPE_SERVER 8080 True l = Inr (lp, l')" "listener_at l' = (listener_at l)(lp \<mapsto> li)"
    "5 \<in> set (hm_abs (connection_table CONNECTION_TYPE_SERVER li) (le_bytes 2 (8080 :: u16)))" by blast
  then show ?thesis by (intro exI [of _ l] exI [of _ lp] exI [of _ l'] exI [of _ li]) (simp add: connection_table_def)
qed

end
