(* ===== verification/Swift_Connections.thy ===== *)
theory Swift_Connections
  imports Swift_Listener
begin

text \<open>
  The life of a connection: \<open>src/initialize_server.c\<close>, \<open>src/initialize_client_connection.c\<close>
  and \<open>src/cleanup_connection.c\<close>. Values from outside are arguments: the link type pcap
  reports for the interface (or that it cannot be opened), the values of \<open>rand()\<close>, the
  readings of the clock. Starting a thread is not a step of its own: a thread's turns are
  \<open>process_turn\<close> and \<open>callback_turn\<close> on the connection, and joining one that sees
  \<open>closing\<close> ends them.
\<close>

section \<open>Construction\<close>

text \<open>A pool created in the place of \<open>i\<close>.\<close>

definition pool_create :: "pool_id \<Rightarrow> u32 \<Rightarrow> u32 \<Rightarrow> env \<Rightarrow> env res" where
  "pool_create i item_size amount e =
     rbind (allocator_create item_size amount (c_heap e)) (\<lambda>(a, h). Inr (e\<lparr>c_heap := h, pool := (pool e)(i := a)\<rparr>))"

text \<open>
  The pools and tables of a connection: 200 pending messages of 64 bytes, 200 messages being
  sent of 24 bytes, 200 completed messages of 4 bytes.
\<close>

definition connection_memory :: "env \<Rightarrow> (env \<times> ptr hashmap \<times> ptr hashmap \<times> ptr hashmap) res" where
  "connection_memory e =
     rbind (pool_create Pending_messages_pool 64 200 e)
       (\<lambda>e1. rbind (pool_create Packets_sending_pool 24 200 e1)
       (\<lambda>e2. rbind (pool_create Packets_completed_pool 4 200 e2)
       (\<lambda>e3. case hashmap_create (Some Packet_completed_key_pool) e3 of (hc, e4) \<Rightarrow>
          (case hashmap_create (Some Uint16_pool) e4 of (hs, e5) \<Rightarrow>
             (case hashmap_create (Some Pending_message_key_pool) e5 of (hp, e6) \<Rightarrow>
                Inr (e6, hc, hs, hp))))))"

definition fresh_connection :: "library \<Rightarrow> env \<Rightarrow> ptr hashmap \<Rightarrow> ptr hashmap \<Rightarrow> ptr hashmap \<Rightarrow> conn_state" where
  "fresh_connection l e hc hs hp =
     \<lparr>s_env = e, packets_sending = hs, sending_at = Map.empty, requests_sent = lib_requests_sent l, request_at = lib_request_at l,
      wire = [], pending_messages = hp, pending_at = Map.empty, packets_completed = hc, completed_at = Map.empty,
      frame_queue = empty_queue, frame_nodes = Map.empty, callback_queue = empty_queue, callback_nodes = Map.empty,
      buffer_at = lib_buffer_at l, packet_data_at = Map.empty\<rparr>"

definition default_eth_header :: "library \<Rightarrow> ether_header" where
  "default_eth_header l = \<lparr>ether_dhost = replicate 6 0xff, ether_shost = mac_address l, ether_type = htons 0x0800\<rparr>"

definition construct_client_connection :: "bool \<Rightarrow> u16 \<Rightarrow> u32 \<Rightarrow> u16 \<Rightarrow> library \<Rightarrow> (ptr \<times> library) res" where
  "construct_client_connection lo destination server_address rnd l =
     rbind (pool_allocate Client_connection_pool (lib_env l))
       (\<lambda>(p, e1). rbind (connection_memory e1)
       (\<lambda>(e, hc, hs, hp).
          let s = fresh_connection l e hc hs hp
          in Inr (p, (reclaim s l)\<lparr>client_at := (client_at l)(p \<mapsto>
               \<lparr>cc_state = s, cc_pool = pool e, cc_network_data = \<lparr>addr_type = 0, prepend_size = 0\<rparr>,
                cc_port_info = \<lparr>destination_port = destination, source_port = rnd\<rparr>, cc_eth_header = default_eth_header l,
                cc_mtu = 0, cc_server_addr = server_address, cc_loopback = lo, cc_closing = False, cc_initialized = False\<rparr>)\<rparr>)))"

definition construct_server :: "bool \<Rightarrow> u16 \<Rightarrow> library \<Rightarrow> (ptr \<times> library) res" where
  "construct_server lo port l =
     rbind (pool_allocate Server_pool (lib_env l))
       (\<lambda>(p, e1). rbind (connection_memory e1)
       (\<lambda>(e, hc, hs, hp).
          let s = fresh_connection l e hc hs hp
          in Inr (p, (reclaim s l)\<lparr>server_at := (server_at l)(p \<mapsto>
               \<lparr>sv_state = s, sv_pool = pool e, sv_network_data = \<lparr>addr_type = 0, prepend_size = 0\<rparr>, sv_port = port,
                sv_eth_header = default_eth_header l, sv_loopback = lo, sv_closing = False\<rparr>)\<rparr>)))"

text \<open>The loopback interface is \<open>lo\<close>.\<close>

definition get_interface_name :: "bool \<Rightarrow> library \<Rightarrow> u8 list" where
  "get_interface_name lo l = (if lo then [108, 111] else default_network_interface l)"

definition set_server_network :: "ptr \<Rightarrow> network_data \<Rightarrow> library \<Rightarrow> library res" where
  "set_server_network p nd l =
     (case server_at l p of
        None \<Rightarrow> Inl Null_Deref
      | Some sv \<Rightarrow> Inr (l\<lparr>server_at := (server_at l)(p \<mapsto> sv\<lparr>sv_network_data := nd\<rparr>)\<rparr>))"

definition create_server :: "u16 option \<Rightarrow> u16 \<Rightarrow> bool \<Rightarrow> library \<Rightarrow> (ptr \<times> library) res" where
  "create_server datalink port lo l =
     rbind (construct_server lo port l)
       (\<lambda>(p, l1). rbind (check_existing_listener datalink (get_interface_name lo l) p CONNECTION_TYPE_SERVER port lo l1)
       (\<lambda>(lp, l2). case listener_at l2 lp of
          None \<Rightarrow> Inl Null_Deref
        | Some li \<Rightarrow> rbind (set_server_network p (li_network_data li) l2) (\<lambda>l3. Inr (p, l3))))"

section \<open>Connecting\<close>

text \<open>
  The request for the server's information: the frame, and the loop that sends it every
  quarter of a second until the client is initialised or the time is over. The arguments of
  the loop are the clock's reading at the start and, for each turn, the reading and what the
  other threads do while this one sleeps; a loop that is still running when they are used up
  is \<open>Stuck\<close>.
\<close>

definition info_request :: "library \<Rightarrow> client_connection \<Rightarrow> u16 \<Rightarrow> u8 list res" where
  "info_request l cc rnd =
     (let nd = cc_network_data cc; p = unat (prepend_size nd)
      in rbind (packet_construction (construct_ip_header (lib_globals l) (cc_server_addr cc) 44 rnd)
                  (construct_packet_info (lib_globals l) 0 REQUEST_INFORMATION 1 0 (cc_port_info cc))
                  nd (cc_eth_header cc) (PACKET_HEADER_SIZE + p))
           (handle_checksum (IP_SIZE + p) (PACKET_HEADER_SIZE + p - p - IP_SIZE)))"

definition client_emit :: "u8 list \<Rightarrow> ptr \<Rightarrow> library \<Rightarrow> library res" where
  "client_emit fr p l =
     (case client_at l p of
        None \<Rightarrow> Inl Null_Deref
      | Some cc \<Rightarrow> Inr (l\<lparr>client_at := (client_at l)(p \<mapsto> cc\<lparr>cc_state := emit fr (cc_state cc)\<rparr>)\<rparr>))"

fun request_server_information ::
  "u32 \<Rightarrow> u32 \<Rightarrow> u8 list \<Rightarrow> ptr \<Rightarrow> (u32 \<times> (library \<Rightarrow> library)) list \<Rightarrow> library \<Rightarrow> library res" where
  "request_server_information start timeout_ms fr p [] l = Inl Stuck"
| "request_server_information start timeout_ms fr p ((now, others) # turns) l =
     (if start + timeout_ms < now then Inr l
      else case client_at l p of
        None \<Rightarrow> Inl Null_Deref
      | Some cc \<Rightarrow>
          if cc_initialized cc then Inr l
          else rbind (client_emit fr p l) (\<lambda>l1. request_server_information start timeout_ms fr p turns (others l1)))"

abbreviation ntohl :: "u32 \<Rightarrow> u32" where "ntohl \<equiv> htonl"

text \<open>The pcap handle a client closes is the one it shares with its listener.\<close>

definition close_pcap :: "ptr \<Rightarrow> library \<Rightarrow> library res" where
  "close_pcap lp l =
     (case listener_at l lp of
        None \<Rightarrow> Inl Null_Deref
      | Some li \<Rightarrow>
          (case li_pcap li of
             None \<Rightarrow> Inl Null_Deref
           | Some False \<Rightarrow> Inl Bad_Free
           | Some True \<Rightarrow> Inr (l\<lparr>listener_at := (listener_at l)(lp \<mapsto> li\<lparr>li_pcap := Some False\<rparr>)\<rparr>)))"

definition connection_port :: "connection_type \<Rightarrow> ptr \<Rightarrow> library \<Rightarrow> u16 res" where
  "connection_port ty p l =
     (case ty of
        CONNECTION_TYPE_CLIENT \<Rightarrow> (case client_at l p of None \<Rightarrow> Inl Null_Deref | Some cc \<Rightarrow> Inr (source_port (cc_port_info cc)))
      | CONNECTION_TYPE_SERVER \<Rightarrow> (case server_at l p of None \<Rightarrow> Inl Null_Deref | Some sv \<Rightarrow> Inr (sv_port sv)))"

definition set_connection_table :: "connection_type \<Rightarrow> ptr hashmap \<Rightarrow> listener \<Rightarrow> listener" where
  "set_connection_table ty hm li =
     (case ty of CONNECTION_TYPE_CLIENT \<Rightarrow> li\<lparr>client_connections := hm\<rparr> | CONNECTION_TYPE_SERVER \<Rightarrow> li\<lparr>servers := hm\<rparr>)"

definition remove_con_from_listener :: "u16 \<Rightarrow> ptr \<Rightarrow> library \<Rightarrow> library res" where
  "remove_con_from_listener port lp l =
     (case listener_at l lp of
        None \<Rightarrow> Inl Null_Deref
      | Some li \<Rightarrow>
          rbind (hashmap_remove (lib_seed l) (le_bytes 2 port) 2 (client_connections li) (lib_env l))
            (\<lambda>(hm, e). Inr (l\<lparr>lib_env := e, listener_at := (listener_at l)(lp \<mapsto> li\<lparr>client_connections := hm\<rparr>)\<rparr>)))"

text \<open>
  When no server has answered. The connection is given back to its pool before its port is
  read for the last time: the structure is still there, as nothing else has been allocated.
\<close>

definition give_up :: "ptr \<Rightarrow> ptr \<Rightarrow> client_connection \<Rightarrow> library \<Rightarrow> library res" where
  "give_up p lp cc l =
     rbind (close_pcap lp (l\<lparr>client_at := (client_at l)(p \<mapsto> cc\<lparr>cc_closing := True\<rparr>)\<rparr>))
       (\<lambda>l1. rbind (pool_free Client_connection_pool p (lib_env l1))
       (\<lambda>e. rbind (remove_con_from_listener (source_port (cc_port_info cc)) lp (l1\<lparr>lib_env := e\<rparr>))
       (\<lambda>l2. Inr (l2\<lparr>client_at := (client_at l2)(p := None)\<rparr>))))"

definition create_client ::
  "u16 option \<Rightarrow> u32 \<Rightarrow> u16 \<Rightarrow> u32 \<Rightarrow> u16 \<Rightarrow> u16 \<Rightarrow> u32 \<Rightarrow> (u32 \<times> (library \<Rightarrow> library)) list \<Rightarrow> library \<Rightarrow> (ptr option \<times> library) res" where
  "create_client datalink addr port timeout_ms rnd_port rnd_id start turns l =
     (let lo = (drop_bit 24 (ntohl addr) = 127)
      in rbind (construct_client_connection lo port addr rnd_port l)
       (\<lambda>(p, l1). rbind (check_existing_listener datalink (get_interface_name lo l) p CONNECTION_TYPE_CLIENT rnd_port lo l1)
       (\<lambda>(lp, l2). case (listener_at l2 lp, client_at l2 p) of
          (Some li, Some cc0) \<Rightarrow>
            (let cc = cc0\<lparr>cc_network_data := li_network_data li\<rparr>; l3 = l2\<lparr>client_at := (client_at l2)(p \<mapsto> cc)\<rparr>
             in rbind (info_request l3 cc rnd_id)
              (\<lambda>fr. rbind (request_server_information start timeout_ms fr p turns l3)
              (\<lambda>l4. case client_at l4 p of
                 None \<Rightarrow> Inl Null_Deref
               | Some cc1 \<Rightarrow>
                   if cc_initialized cc1 then Inr (Some p, l4)
                   else rbind (give_up p lp cc1 l4) (\<lambda>l5. Inr (None, l5)))))
        | _ \<Rightarrow> Inl Null_Deref)))"

section \<open>Clean-up\<close>

definition destroy_pool :: "pool_id \<Rightarrow> bool \<Rightarrow> leak_counters \<times> env \<Rightarrow> (leak_counters \<times> env) res" where
  "destroy_pool i unchecked ce =
     rbind (allocator_destroy (pool (snd ce) i) unchecked (fst ce) (c_heap (snd ce))) (\<lambda>(c, h). Inr (c, (snd ce)\<lparr>c_heap := h\<rparr>))"

definition cleanup_connection_resources :: "conn_state \<Rightarrow> leak_counters \<Rightarrow> (leak_counters \<times> conn_state) res" where
  "cleanup_connection_resources s c =
     rbind (destroy_pool Packets_sending_pool False (c, s_env s))
       (\<lambda>ce1. rbind (destroy_pool Pending_messages_pool False ce1)
       (\<lambda>ce2. rbind (destroy_pool Packets_completed_pool True ce2)
       (\<lambda>(c3, e3). rbind (hashmap_destroy (pending_messages s) e3)
       (\<lambda>e4. rbind (hashmap_destroy (packets_sending s) e4)
       (\<lambda>e5. rbind (hashmap_destroy (packets_completed s) e5)
       (\<lambda>e6. Inr (c3, s\<lparr>s_env := e6\<rparr>)))))))"

definition break_receiver_loop :: "listener \<Rightarrow> unit res" where
  "break_receiver_loop li = (case li_pcap li of None \<Rightarrow> Inl Null_Deref | Some False \<Rightarrow> Inl Bad_Free | Some True \<Rightarrow> Inr ())"

definition drop_listener :: "u8 list \<Rightarrow> ptr \<Rightarrow> listener \<Rightarrow> library \<Rightarrow> library res" where
  "drop_listener name lp li l =
     rbind (hashmap_destroy (servers li) (lib_env l))
       (\<lambda>e1. rbind (hashmap_destroy (client_connections li) e1)
       (\<lambda>e2. rbind (break_receiver_loop li)
       (\<lambda>_. rbind (close_pcap lp (l\<lparr>lib_env := e2\<rparr>))
       (\<lambda>l1. rbind (pool_free Listener_pool lp (lib_env l1))
       (\<lambda>e3. rbind (hashmap_remove (lib_seed l) name (of_nat (length name)) (listeners l) e3)
       (\<lambda>(hm, e4). Inr (l1\<lparr>lib_env := e4, listeners := hm, listener_at := (listener_at l1)(lp := None)\<rparr>)))))))"

definition remove_listener :: "connection_type \<Rightarrow> u8 list \<Rightarrow> ptr \<Rightarrow> library \<Rightarrow> library res" where
  "remove_listener ty name con l =
     rbind (hashmap_get (lib_seed l) name (of_nat (length name)) (listeners l))
       (\<lambda>r. case r of
          None \<Rightarrow> Inr l
        | Some lp \<Rightarrow>
            (case listener_at l lp of
               None \<Rightarrow> Inl Null_Deref
             | Some li \<Rightarrow>
                 rbind (connection_port ty con l)
                   (\<lambda>port. rbind (hashmap_remove (lib_seed l) (le_bytes 2 port) 2 (connection_table ty li) (lib_env l))
                   (\<lambda>(hm, e). let li1 = set_connection_table ty hm li; l1 = l\<lparr>lib_env := e, listener_at := (listener_at l)(lp \<mapsto> li1)\<rparr>
                      in if hm_size (servers li1) + hm_size (client_connections li1) = 0 then drop_listener name lp li1 l1 else Inr l1))))"

text \<open>
  \<open>close_threads\<close>: the threads see \<open>closing\<close> at their next turn, the signals wake them if
  they sleep, and the joins wait for their end.
\<close>

definition close_client_threads :: "ptr \<Rightarrow> library \<Rightarrow> library res" where
  "close_client_threads p l =
     (case client_at l p of
        None \<Rightarrow> Inl Null_Deref
      | Some cc \<Rightarrow> Inr (l\<lparr>client_at := (client_at l)(p \<mapsto> cc\<lparr>cc_closing := True\<rparr>)\<rparr>))"

definition close_server_threads :: "ptr \<Rightarrow> library \<Rightarrow> library res" where
  "close_server_threads p l =
     (case server_at l p of
        None \<Rightarrow> Inl Null_Deref
      | Some sv \<Rightarrow> Inr (l\<lparr>server_at := (server_at l)(p \<mapsto> sv\<lparr>sv_closing := True\<rparr>)\<rparr>))"

definition client_cleanup :: "ptr \<Rightarrow> library \<Rightarrow> library res" where
  "client_cleanup p l =
     (case client_at l p of
        None \<Rightarrow> Inl Null_Deref
      | Some cc \<Rightarrow>
          rbind (cleanup_connection_resources (lend (cc_pool cc) l (cc_state cc)) (lib_leaks l))
            (\<lambda>(c, s). rbind (remove_listener CONNECTION_TYPE_CLIENT (get_interface_name (cc_loopback cc) l) p
                               ((reclaim s l)\<lparr>lib_leaks := c, client_at := (client_at l)(p \<mapsto> cc\<lparr>cc_state := s\<rparr>)\<rparr>))
            (\<lambda>l2. rbind (close_client_threads p l2)
            (\<lambda>l3. rbind (pool_free Client_connection_pool p (lib_env l3))
            (\<lambda>e. Inr (l3\<lparr>lib_env := e, client_at := (client_at l3)(p := None)\<rparr>))))))"

definition server_cleanup :: "ptr \<Rightarrow> library \<Rightarrow> library res" where
  "server_cleanup p l =
     (case server_at l p of
        None \<Rightarrow> Inl Null_Deref
      | Some sv \<Rightarrow>
          rbind (cleanup_connection_resources (lend (sv_pool sv) l (sv_state sv)) (lib_leaks l))
            (\<lambda>(c, s). rbind (remove_listener CONNECTION_TYPE_SERVER (get_interface_name (sv_loopback sv) l) p
                               ((reclaim s l)\<lparr>lib_leaks := c, server_at := (server_at l)(p \<mapsto> sv\<lparr>sv_state := s\<rparr>)\<rparr>))
            (\<lambda>l2. rbind (close_server_threads p l2)
            (\<lambda>l3. rbind (pool_free Server_pool p (lib_env l3))
            (\<lambda>e. Inr (l3\<lparr>lib_env := e, server_at := (server_at l3)(p := None)\<rparr>))))))"


section \<open>Memory of a connection\<close>

text \<open>
  What a change of the memory leaves alone: everything that is live outside the
  connections' own pools.
\<close>

definition keeps :: "env \<Rightarrow> env \<Rightarrow> bool" where
  "keeps e e' \<longleftrightarrow> env_ok e' \<and> dom (blocks (c_heap e)) \<subseteq> dom (blocks (c_heap e')) \<and> (\<forall>i. i \<notin> connection_pools \<longrightarrow> pool_live e i \<subseteq> pool_live e' i)"

lemma keeps_trans: "keeps e1 e2 \<Longrightarrow> keeps e2 e3 \<Longrightarrow> keeps e1 e3"
  unfolding keeps_def by blast

lemma keeps_grows: "env_grows e e' \<Longrightarrow> keeps e e'"
  by (simp add: keeps_def env_grows_def)

lemma hm_ok_keeps:
  assumes "hm_ok seed hm e" and "keeps e e'" and "key_memory_allocator hm \<notin> Some ` connection_pools"
  shows "hm_ok seed hm e'"
proof (rule hm_ok_mono [OF assms(1)])
  show "key_live (key_memory_allocator hm) e \<subseteq> key_live (key_memory_allocator hm) e'"
    using assms(2,3) by (cases "key_memory_allocator hm") (auto simp: key_live_def keeps_def image_iff)
  show "pool_live e Hashmap_item_pool \<subseteq> pool_live e' Hashmap_item_pool" using assms(2) by (simp add: keeps_def connection_pools_def)
qed (use assms(2) in \<open>simp_all add: keeps_def\<close>)

lemma lib_ok_keeps:
  assumes "lib_ok l" and "keeps (lib_env l) e"
  shows "lib_ok (l\<lparr>lib_env := e\<rparr>)"
proof -
  note lk = assms(1) [unfolded lib_ok_def]
  have "listener_ok (lib_seed l) e li" if "listener_ok (lib_seed l) (lib_env l) li" for li
    using that hm_ok_keeps [OF _ assms(2)] by (fastforce simp: listener_ok_def connection_pools_def)
  moreover have "pool_live (lib_env l) Listener_pool \<subseteq> pool_live e Listener_pool" using assms(2) by (simp add: keeps_def connection_pools_def)
  moreover have "hm_ok (lib_seed l) (listeners l) e" using hm_ok_keeps [OF conjunct1 [OF lk] assms(2)] lk by simp
  ultimately show ?thesis using lk unfolding lib_ok_def by fastforce
qed

lemma make_stack_within:
  assumes "make_stack isz n idx h = Inr (s, h')"
  shows "brk h \<le> brk h' \<and> heap_limit h' = heap_limit h"
  using assms by (auto simp: make_stack_def malloc_def split: if_splits option.splits)

lemma make_stack_cost:
  assumes "make_stack isz n idx h = Inr (s, h')" and "0 < isz" and "0 < n" and "unat isz * unat n < 2 ^ 32"
  shows "brk h' \<le> brk h + stack_cost (unat isz) (unat n)"
proof -
  have m: "unat (isz * n) = unat isz * unat n" using assms(4) unat_mult_lem [of isz n] by simp
  have pos: "1 \<le> unat isz * unat n" "1 \<le> unat n" using assms(2,3) by (simp_all add: word_less_nat_alt Suc_le_eq)
  show ?thesis using assms(1) pos
    by (auto simp: make_stack_def malloc_def stack_cost_def m div8_plus1 max_def split: if_splits option.splits)
qed

lemma pool_create_ok:
  assumes "env_ok e" and "0 < isz" and "0 < n" and "unat isz * unat n < 2 ^ 32" and "heap_room (stack_cost (unat isz) (unat n)) (c_heap e)"
    and "i \<in> connection_pools"
  obtains e' where "pool_create i isz n e = Inr e'" and "keeps e e'" and "same_pools {i} e e'" and "pool_live e' i = {}"
    and "pool_avail e' i = unat n" and "heap_within (stack_cost (unat isz) (unat n)) e e'"
proof -
  have h: "heap_ok (c_heap e)" using assms(1) by (simp add: env_ok_def)
  from allocator_create_ok [OF assms(2-5) h] obtain a h' where
    1: "allocator_create isz n (c_heap e) = Inr (a, h')" "alloc_ok h' a" "heap_ok h'" "heap_grows (c_heap e) h'" "al_live a = {}" "length (al_frees a) = unat n" by blast
  obtain s where s: "make_stack isz n 0 (c_heap e) = Inr (s, h')" using 1(1) by (auto simp: allocator_create_def rbind_eq_Inr)
  let ?e = "e\<lparr>c_heap := h', pool := (pool e)(i := a)\<rparr>"
  have "env_ok ?e" using assms(1) 1(2-4) by (auto simp: env_ok_def intro: alloc_ok_grows)
  moreover have "dom (blocks (c_heap e)) \<subseteq> dom (blocks h')" using 1(4) by (auto simp: heap_grows_def map_le_def) (metis domI)
  ultimately have "keeps e ?e" using assms(6) by (auto simp: keeps_def)
  moreover have "heap_within (stack_cost (unat isz) (unat n)) e ?e"
    using make_stack_cost [OF s assms(2-4)] make_stack_within [OF s] by (simp add: heap_within_def)
  ultimately show ?thesis using that [of ?e] 1(1,5,6) by (simp add: pool_create_def same_pools_def)
qed


text \<open>A table just created, with keys from the pool \<open>i\<close>.\<close>

definition fresh_table :: "u64 \<Rightarrow> env \<Rightarrow> pool_id \<Rightarrow> ptr hashmap \<Rightarrow> bool" where
  "fresh_table seed e i hm \<longleftrightarrow> hm_ok seed hm e \<and> hm_abs hm = (\<lambda>k. []) \<and> hm_size hm = 0 \<and> hm_capacity hm = 320 \<and>
     key_memory_allocator hm = Some i"

lemma fresh_table_keeps: "fresh_table seed e i hm \<Longrightarrow> keeps e e' \<Longrightarrow> i \<notin> connection_pools \<Longrightarrow> fresh_table seed e' i hm"
  using hm_ok_keeps [of seed hm e e'] by (auto simp: fresh_table_def)

lemma fresh_table_created:
  assumes "env_ok e" and "heap_room 10280 (c_heap e)" and "i \<noteq> Hashmap_item_pool"
  obtains hm e' where "hashmap_create (Some i) e = (hm, e')" and "fresh_table seed e' i hm" and "keeps e e'" and "pool e' = pool e"
    and "heap_within 10280 e e'"
proof -
  from hashmap_create_ok [OF assms(1,2), of "Some i" seed] assms(3) obtain hm e' where
    1: "hashmap_create (Some i) e = (hm, e')" "hm_ok seed (hm :: ptr hashmap) e'" "hm_abs hm = (\<lambda>k. [])" "hm_size hm = 0" "hm_capacity hm = 320"
      "key_memory_allocator hm = Some i" "pool e' = pool e" by auto
  from keeps_grows [OF hashmap_create_grows [OF assms(1) 1(1)]] heap_within_create [OF 1(1)] that [OF 1(1)] 1(2-7) show ?thesis
    by (simp add: fresh_table_def)
qed

text \<open>What a new connection needs.\<close>

abbreviation connection_cost :: nat where "connection_cost \<equiv> 55000"

definition own_pools :: "env \<Rightarrow> (pool_id \<Rightarrow> mem_allocator) \<Rightarrow> bool" where
  "own_pools e own \<longleftrightarrow> (\<forall>i \<in> connection_pools. alloc_ok (c_heap e) (own i) \<and> al_live (own i) = {} \<and> length (al_frees (own i)) = 200)"

lemma connection_memory_ok:
  assumes "env_ok e" and "heap_room connection_cost (c_heap e)"
  obtains e' hc hs hp where "connection_memory e = Inr (e', hc, hs, hp)" and "keeps e e'" and "same_pools connection_pools e e'"
    and "own_pools e' (pool e')" and "fresh_table seed e' Packet_completed_key_pool hc" and "fresh_table seed e' Uint16_pool hs"
    and "fresh_table seed e' Pending_message_key_pool hp" and "heap_within connection_cost e e'"
proof -
  have pools: "Pending_messages_pool \<in> connection_pools" "Packets_sending_pool \<in> connection_pools" "Packets_completed_pool \<in> connection_pools"
    by (simp_all add: connection_pools_def)
  have r: "heap_room (stack_cost (unat (64 :: u32)) (unat (200 :: u32))) (c_heap e)" using assms(2) by (simp add: heap_room_def stack_cost_def)
  obtain e1 where 1: "pool_create Pending_messages_pool 64 200 e = Inr e1" "keeps e e1" "same_pools {Pending_messages_pool} e e1" "pool_live e1 Pending_messages_pool = {}"
    "pool_avail e1 Pending_messages_pool = unat (200 :: u32)" "heap_within (stack_cost (unat (64 :: u32)) (unat (200 :: u32))) e e1"
    by (rule pool_create_ok [OF assms(1) _ _ _ r pools(1)]) simp_all
  have ok1: "env_ok e1" using 1(2) by (simp add: keeps_def)
  have r1: "heap_room (stack_cost (unat (24 :: u32)) (unat (200 :: u32))) (c_heap e1)" using assms(2) 1(6) by (simp add: heap_room_def stack_cost_def heap_within_def)
  obtain e2 where 2: "pool_create Packets_sending_pool 24 200 e1 = Inr e2" "keeps e1 e2" "same_pools {Packets_sending_pool} e1 e2" "pool_live e2 Packets_sending_pool = {}"
    "pool_avail e2 Packets_sending_pool = unat (200 :: u32)" "heap_within (stack_cost (unat (24 :: u32)) (unat (200 :: u32))) e1 e2"
    by (rule pool_create_ok [OF ok1 _ _ _ r1 pools(2)]) simp_all
  have ok2: "env_ok e2" using 2(2) by (simp add: keeps_def)
  have r2: "heap_room (stack_cost (unat (4 :: u32)) (unat (200 :: u32))) (c_heap e2)" using assms(2) 1(6) 2(6) by (simp add: heap_room_def stack_cost_def heap_within_def)
  obtain e3 where 3: "pool_create Packets_completed_pool 4 200 e2 = Inr e3" "keeps e2 e3" "same_pools {Packets_completed_pool} e2 e3" "pool_live e3 Packets_completed_pool = {}"
    "pool_avail e3 Packets_completed_pool = unat (200 :: u32)" "heap_within (stack_cost (unat (4 :: u32)) (unat (200 :: u32))) e2 e3"
    by (rule pool_create_ok [OF ok2 _ _ _ r2 pools(3)]) simp_all
  have w3: "heap_within 24160 e e3" using 1(6) 2(6) 3(6) by (simp add: heap_within_def stack_cost_def)
  have ok3: "env_ok e3" "heap_room 10280 (c_heap e3)" using 3(2) w3 assms(2) by (simp_all add: keeps_def heap_within_def heap_room_def)
  obtain hc e4 where 4: "hashmap_create (Some Packet_completed_key_pool) e3 = (hc, e4)" "fresh_table seed e4 Packet_completed_key_pool hc" "keeps e3 e4" "pool e4 = pool e3"
    "heap_within 10280 e3 e4" by (rule fresh_table_created [OF ok3, of Packet_completed_key_pool seed]) simp_all
  have ok4: "env_ok e4" "heap_room 10280 (c_heap e4)" using 4(3,5) w3 assms(2) by (simp_all add: keeps_def heap_within_def heap_room_def)
  obtain hs e5 where 5: "hashmap_create (Some Uint16_pool) e4 = (hs, e5)" "fresh_table seed e5 Uint16_pool hs" "keeps e4 e5" "pool e5 = pool e4"
    "heap_within 10280 e4 e5" by (rule fresh_table_created [OF ok4, of Uint16_pool seed]) simp_all
  have ok5: "env_ok e5" "heap_room 10280 (c_heap e5)" using 4(5) 5(3,5) w3 assms(2) by (simp_all add: keeps_def heap_within_def heap_room_def)
  obtain hp e6 where 6: "hashmap_create (Some Pending_message_key_pool) e5 = (hp, e6)" "fresh_table seed e6 Pending_message_key_pool hp" "keeps e5 e6" "pool e6 = pool e5"
    "heap_within 10280 e5 e6" by (rule fresh_table_created [OF ok5, of Pending_message_key_pool seed]) simp_all
  have run: "connection_memory e = Inr (e6, hc, hs, hp)" using 1(1) 2(1) 3(1) 4(1) 5(1) 6(1) by (simp add: connection_memory_def)
  have k: "keeps e e6" using 1(2) 2(2) 3(2) 4(3) 5(3) 6(3) by (blast intro: keeps_trans)
  have p: "pool e6 = pool e3" using 4(4) 5(4) 6(4) by simp
  have sp: "same_pools connection_pools e e6" using 1(3) 2(3) 3(3) by (simp add: p same_pools_def connection_pools_def)
  have "env_ok e6" using 6(3) by (simp add: keeps_def)
  then have own: "own_pools e6 (pool e6)" using 1(3-5) 2(3-5) 3(3-5) by (auto simp: own_pools_def env_ok_def p same_pools_def connection_pools_def)
  have n: "Packet_completed_key_pool \<notin> connection_pools" "Uint16_pool \<notin> connection_pools" by (simp_all add: connection_pools_def)
  have "heap_within connection_cost e e6" using w3 4(5) 5(5) 6(5) by (simp add: heap_within_def)
  with that [OF run k sp own] fresh_table_keeps [OF fresh_table_keeps [OF 4(2) 5(3) n(1)] 6(3) n(1)] fresh_table_keeps [OF 5(2) 6(3) n(2)] 6(2)
  show ?thesis by blast
qed


section \<open>New connections\<close>

lemma alloc_ok_brk: "alloc_ok h a \<Longrightarrow> brk h \<le> brk h' \<Longrightarrow> alloc_ok h' a"
  unfolding alloc_ok_def alloc_shape_def by (meson order_trans)

text \<open>A connection nobody has used yet.\<close>

definition fresh_conn :: "library \<Rightarrow> (pool_id \<Rightarrow> mem_allocator) \<Rightarrow> conn_state \<Rightarrow> bool" where
  "fresh_conn l own s \<longleftrightarrow> own_pools (lib_env l) own \<and> fresh_table (lib_seed l) (lib_env l) Packet_completed_key_pool (packets_completed s) \<and>
     fresh_table (lib_seed l) (lib_env l) Uint16_pool (packets_sending s) \<and> fresh_table (lib_seed l) (lib_env l) Pending_message_key_pool (pending_messages s) \<and>
     frame_queue s = empty_queue \<and> callback_queue s = empty_queue \<and> wire s = []"

lemma fresh_conn_keeps:
  assumes "fresh_conn l own s" and "keeps (lib_env l) (lib_env l')" and "heap_within k (lib_env l) (lib_env l')" and "lib_seed l' = lib_seed l"
  shows "fresh_conn l' own s"
proof -
  have "own_pools (lib_env l') own" using assms(1,3) by (auto simp: fresh_conn_def own_pools_def heap_within_def intro: alloc_ok_brk)
  moreover have "fresh_table (lib_seed l) (lib_env l') i hm" if "fresh_table (lib_seed l) (lib_env l) i hm" "i \<notin> connection_pools" for i hm
    using fresh_table_keeps [OF that(1) assms(2) that(2)] .
  moreover have "Packet_completed_key_pool \<notin> connection_pools" "Uint16_pool \<notin> connection_pools" "Pending_message_key_pool \<notin> connection_pools"
    by (simp_all add: connection_pools_def)
  ultimately show ?thesis using assms(1,4) by (simp add: fresh_conn_def)
qed

lemma new_connection:
  assumes "lib_ok l" and "0 < pool_avail (lib_env l) i" and "heap_room connection_cost (c_heap (lib_env l))" and "i \<notin> connection_pools"
  obtains p e1 e hc hs hp e' where "pool_allocate i (lib_env l) = Inr (p, e1)" and "connection_memory e1 = Inr (e, hc, hs, hp)"
    and "reclaim (fresh_connection l e hc hs hp) l = l\<lparr>lib_env := e'\<rparr>" and "lib_ok (l\<lparr>lib_env := e'\<rparr>)" and "same_pools {i} (lib_env l) e'"
    and "heap_within connection_cost (lib_env l) e'" and "fresh_conn (l\<lparr>lib_env := e'\<rparr>) (pool e) (fresh_connection l e hc hs hp)"
    and "keeps (lib_env l) e' \<and> p \<in> pool_live e' i"
proof -
  have env: "env_ok (lib_env l)" using assms(1) by (simp add: lib_ok_def hm_ok_def)
  from take_item [OF env assms(2)] obtain p e1 where 1: "pool_allocate i (lib_env l) = Inr (p, e1)" "env_grows (lib_env l) e1" "same_except {i} (lib_env l) e1"
    "p \<in> pool_live e1 i" by blast
  have ok1: "env_ok e1" "heap_room connection_cost (c_heap e1)" using 1(2,3) assms(3) by (simp_all add: env_grows_def same_except_def)
  obtain e hc hs hp where 2: "connection_memory e1 = Inr (e, hc, hs, hp)" "keeps e1 e" "same_pools connection_pools e1 e" "own_pools e (pool e)"
    "fresh_table (lib_seed l) e Packet_completed_key_pool hc" "fresh_table (lib_seed l) e Uint16_pool hs" "fresh_table (lib_seed l) e Pending_message_key_pool hp"
    "heap_within connection_cost e1 e" by (rule connection_memory_ok [OF ok1])
  let ?e = "e\<lparr>pool := \<lambda>j. if j \<in> connection_pools then pool (lib_env l) j else pool e j\<rparr>"
  let ?s = "fresh_connection l e hc hs hp"
  have rc: "reclaim ?s l = l\<lparr>lib_env := ?e\<rparr>" by (simp add: reclaim_def fresh_connection_def cong: if_cong)
  have hw: "heap_within connection_cost (lib_env l) ?e" using 1(3) 2(8) by (simp add: heap_within_def same_except_def)
  have eok: "env_ok ?e" using env 2(2) hw by (auto simp: env_ok_def keeps_def heap_within_def intro: alloc_ok_brk)
  have k1: "keeps e ?e" using eok by (simp add: keeps_def)
  have k: "keeps (lib_env l) ?e" by (rule keeps_trans [OF keeps_trans [OF keeps_grows [OF 1(2)] 2(2)] k1])
  have sp: "same_pools {i} (lib_env l) ?e" using 1(3) 2(3) by (simp add: same_pools_def same_except_def)
  have "own_pools ?e (pool e)" using 2(4) by (simp add: own_pools_def)
  moreover have n: "Packet_completed_key_pool \<notin> connection_pools" "Uint16_pool \<notin> connection_pools" "Pending_message_key_pool \<notin> connection_pools"
    by (simp_all add: connection_pools_def)
  moreover note fresh_table_keeps [OF 2(5) k1 n(1)] fresh_table_keeps [OF 2(6) k1 n(2)] fresh_table_keeps [OF 2(7) k1 n(3)]
  ultimately have fc: "fresh_conn (l\<lparr>lib_env := ?e\<rparr>) (pool e) ?s" by (simp add: fresh_conn_def fresh_connection_def)
  have "p \<in> pool_live ?e i" using 1(4) 2(2) assms(4) unfolding keeps_def by auto
  with k show ?thesis using that [OF 1(1) 2(1) rc lib_ok_keeps [OF assms(1) k] sp hw fc] by blast
qed

text \<open>Room for a new connection with \<open>n\<close> bytes of messages, and buffers of \<open>B\<close> bytes.\<close>

definition connect_room :: "nat \<Rightarrow> nat \<Rightarrow> library \<Rightarrow> bool" where
  "connect_room n B l \<longleftrightarrow> register_room l \<and> heap_room (n + (20576 + connection_cost)) (c_heap (lib_env l)) \<and>
     0 < pool_avail (lib_env l) Server_pool \<and> 0 < pool_avail (lib_env l) Client_connection_pool \<and>
     0 < pool_avail (lib_env l) Packet_buffer_pool \<and> 0 < pool_avail (lib_env l) Packet_queue_node_pool \<and>
     0 < pool_avail (lib_env l) Packet_callback_queue_node_pool \<and> 0 < pool_avail (lib_env l) Server_packet_data_pool \<and>
     0 < pool_avail (lib_env l) Client_packet_data_pool \<and> 0 < pool_avail (lib_env l) Pending_message_key_pool \<and>
     0 < pool_avail (lib_env l) Packet_completed_key_pool \<and> 1 < pool_avail (lib_env l) Uint16_pool \<and>
     3 < pool_avail (lib_env l) Hashmap_item_pool \<and> (\<forall>b. length (lib_buffer_at l b) = B)"

text \<open>A connection ready for its first messages, in both directions.\<close>

definition conn_ready :: "conn_cfg \<Rightarrow> nat \<Rightarrow> nat \<Rightarrow> conn_state \<Rightarrow> bool" where
  "conn_ready c B n s \<longleftrightarrow> (\<forall>i port. recv_ready c B i port n s) \<and> handover_room c [] s \<and> send_ready (cf_seed c) s \<and>
     hm_abs (packets_sending s) = (\<lambda>k. [])"

lemma fresh_conn_ready:
  assumes "fresh_conn l own s" and "env_ok (lib_env l)" and "cf_seed c = lib_seed l" and "heap_room n (c_heap (lib_env l))"
    and "0 < pool_avail (lib_env l) Packet_buffer_pool" and "0 < pool_avail (lib_env l) Packet_queue_node_pool"
    and "0 < pool_avail (lib_env l) Packet_callback_queue_node_pool" and "0 < pool_avail (lib_env l) (packet_data_pool (cf_type c))"
    and "0 < pool_avail (lib_env l) Pending_message_key_pool" and "0 < pool_avail (lib_env l) Packet_completed_key_pool"
    and "0 < pool_avail (lib_env l) Uint16_pool" and "1 < pool_avail (lib_env l) Hashmap_item_pool" and "\<forall>b. length (lib_buffer_at l b) = B"
  shows "conn_ready c B n (lend own l s)"
proof -
  let ?e = "(lib_env l)\<lparr>pool := \<lambda>i. if i \<in> connection_pools then own i else pool (lib_env l) i\<rparr>"
  let ?s = "lend own l s"
  note f = assms(1) [unfolded fresh_conn_def]
  have "env_ok ?e" using assms(2) f by (auto simp: env_ok_def own_pools_def)
  then have k: "keeps (lib_env l) ?e" by (simp add: keeps_def)
  have n: "i \<notin> connection_pools" if "i \<in> {Packet_buffer_pool, Packet_queue_node_pool, Packet_callback_queue_node_pool, Server_packet_data_pool, Client_packet_data_pool,
      Pending_message_key_pool, Packet_completed_key_pool, Uint16_pool, Hashmap_item_pool}" for i using that by (auto simp: connection_pools_def)
  have pd: "packet_data_pool (cf_type c) \<notin> connection_pools" using packet_data_pool_cases [of "cf_type c"] by (auto simp: connection_pools_def)
  have own: "length (al_frees (own i)) = 200" if "i \<in> connection_pools" for i using f that by (simp add: own_pools_def)
  have cp: "Pending_messages_pool \<in> connection_pools" "Packets_sending_pool \<in> connection_pools" "Packets_completed_pool \<in> connection_pools" by (simp_all add: connection_pools_def)
  have t: "fresh_table (lib_seed l) ?e Packet_completed_key_pool (packets_completed s)" "fresh_table (lib_seed l) ?e Uint16_pool (packets_sending s)"
    "fresh_table (lib_seed l) ?e Pending_message_key_pool (pending_messages s)" using f fresh_table_keeps [OF _ k] n by auto
  have env: "s_env ?s = ?e" by (simp add: lend_def)
  have fields: "packets_sending ?s = packets_sending s" "packets_completed ?s = packets_completed s" "pending_messages ?s = pending_messages s"
    "frame_queue ?s = empty_queue" "callback_queue ?s = empty_queue" "buffer_at ?s = lib_buffer_at l" "callback_nodes ?s = callback_nodes s"
    using f by (simp_all add: lend_def)
  note ts = t [unfolded fresh_table_def]
  have hi: "al_frees (pool (lib_env l) Hashmap_item_pool) \<noteq> []" using assms(12) by auto
  have "conn_ok c B ?s" using ts assms(3,5,6,13) n by (simp add: conn_ok_def env fields)
  then have "recv_ready c B i port n ?s" for i port
    using ts assms(4,9-12) hi n own cp by (simp add: recv_ready_def pending_room_def complete_room_def env fields)
  moreover have "handover_room c [] ?s" using assms(7,8) n pd by (simp add: handover_room_def env fields)
  moreover have "send_ready (cf_seed c) ?s" using ts assms(3,11) hi n own cp by (simp add: send_ready_def env fields)
  ultimately show ?thesis using ts by (simp add: conn_ready_def fields)
qed


lemma register_room_env:
  assumes "register_room l" and "same_pools {i} (lib_env l) e" and "i \<notin> {Listener_pool, Uint16_pool, Hashmap_item_pool}" and "heap_room 20576 (c_heap e)"
  shows "register_room (l\<lparr>lib_env := e\<rparr>)"
proof -
  have "pool e j = pool (lib_env l) j" if "j \<in> {Listener_pool, Uint16_pool, Hashmap_item_pool}" for j using assms(2,3) that by (auto simp: same_pools_def)
  then show ?thesis using assms(1,4) by (simp add: register_room_def)
qed

lemma registered_fields:
  assumes "registered dl name con ty port l lp li l'"
  shows "lib_seed l' = lib_seed l" and "lib_globals l' = lib_globals l" and "lib_buffer_at l' = lib_buffer_at l" and "listener_at l' = (listener_at l)(lp \<mapsto> li)"
    and "client_at l' = client_at l" and "server_at l' = server_at l" and "lib_ok l'" and "keeps (lib_env l) (lib_env l')"
    and "heap_within 20576 (lib_env l) (lib_env l')" and "same_pools {Listener_pool, Uint16_pool, Hashmap_item_pool} (lib_env l) (lib_env l')"
    and "mac_address l' = mac_address l" and "con \<in> set (hm_abs (connection_table ty li) (le_bytes 2 port))"
    and "first_of (hm_abs (listeners l') name) = Some lp" and "register_cost (lib_env l) (lib_env l')"
proof -
  note r = assms [unfolded registered_def]
  then obtain e' hm where l': "l' = l\<lparr>lib_env := e', listeners := hm, listener_at := (listener_at l)(lp \<mapsto> li)\<rparr>" by blast
  show "lib_seed l' = lib_seed l" "lib_globals l' = lib_globals l" "lib_buffer_at l' = lib_buffer_at l" "listener_at l' = (listener_at l)(lp \<mapsto> li)"
    "client_at l' = client_at l" "server_at l' = server_at l" "mac_address l' = mac_address l" by (simp_all add: l')
  show "lib_ok l'" "keeps (lib_env l) (lib_env l')" "heap_within 20576 (lib_env l) (lib_env l')"
    "same_pools {Listener_pool, Uint16_pool, Hashmap_item_pool} (lib_env l) (lib_env l')" "register_cost (lib_env l) (lib_env l')" using r by (simp_all add: keeps_grows register_cost_def)
  show "first_of (hm_abs (listeners l') name) = Some lp" using r by blast
  show "con \<in> set (hm_abs (connection_table ty li) (le_bytes 2 port))" using r by (cases "first_of (hm_abs (listeners l) name)") auto
qed

text \<open>The memory after a new connection has been registered is enough for its first messages.\<close>

lemma registered_ready:
  assumes "connect_room n B l0" and "fresh_conn l1 own s" and "registered dl name con ty port l1 lp li l2"
    and "same_pools {i} (lib_env l0) (lib_env l1)" and "i \<in> {Server_pool, Client_connection_pool}" and "heap_within connection_cost (lib_env l0) (lib_env l1)"
    and "lib_buffer_at l1 = lib_buffer_at l0" and "cf_seed c = lib_seed l1" and "lib_buffer_at l2' = lib_buffer_at l2" and "lib_env l2' = lib_env l2" and "lib_seed l2' = lib_seed l2"
  shows "conn_ready c B n (lend own l2' s)"
proof -
  note f = registered_fields [OF assms(3)] and rm = assms(1) [unfolded connect_room_def]
  have fc: "fresh_conn l2' own s" by (rule fresh_conn_keeps [OF assms(2)]) (use f(8,9) assms(10,11) f(1) in simp_all)
  have "env_ok (lib_env l2')" using f(7) assms(10) by (simp add: lib_ok_def hm_ok_def)
  note rdy = fresh_conn_ready [OF fc this]
  have p: "pool (lib_env l2') j = pool (lib_env l0) j" if "j \<notin> {Listener_pool, Uint16_pool, Hashmap_item_pool, Server_pool, Client_connection_pool}" for j
    using f(10) assms(4,5,10) that by (auto simp: same_pools_def)
  have q: "pool (lib_env l1) j = pool (lib_env l0) j" if "j \<in> {Uint16_pool, Hashmap_item_pool}" for j using assms(4,5) that by (auto simp: same_pools_def)
  have "heap_within (20576 + connection_cost) (lib_env l0) (lib_env l2')" using heap_within_trans [OF assms(6) f(9)] assms(10) by simp
  from heap_within_room [OF this] rm have hr: "heap_room n (c_heap (lib_env l2'))" by blast
  have u: "0 < pool_avail (lib_env l2') Uint16_pool" "1 < pool_avail (lib_env l2') Hashmap_item_pool"
    using f(14) rm q assms(10) by (auto simp: register_cost_def)
  have pd: "packet_data_pool (cf_type c) \<in> {Server_packet_data_pool, Client_packet_data_pool}" using packet_data_pool_cases [of "cf_type c"] by simp
  then have d: "0 < pool_avail (lib_env l2') (packet_data_pool (cf_type c))" using p rm by auto
  show ?thesis
    by (rule rdy) (use assms(7-11) f(1,3) p rm hr u d in simp_all)
qed



text \<open>A sample library with room for connections.\<close>

lemma sample_connect_room:
  "\<exists>l. lib_ok l \<and> connect_room 900000 B l \<and> hm_abs (listeners l) = (\<lambda>k. []) \<and> mac_address l = replicate 6 1 \<and>
     lib_globals l = \<lparr>maximum_transmission_unit = 64, private_ip_address = 0x0100007F\<rparr> \<and> lib_seed l = 7"
proof -
  obtain l where "lib_ok l" "register_room l" "hm_abs (listeners l) = (\<lambda>k. [])" "\<forall>b. length (lib_buffer_at l b) = B"
    "\<forall>i. pool_avail (lib_env l) i = 200" "heap_room 980000 (c_heap (lib_env l))" "mac_address l = replicate 6 1"
    "lib_globals l = \<lparr>maximum_transmission_unit = 64, private_ip_address = 0x0100007F\<rparr>" "lib_seed l = 7" using sample_library [of B] by blast
  then show ?thesis by (intro exI [of _ l]) (simp add: connect_room_def heap_room_def)
qed


section \<open>The handshake\<close>

text \<open>The two frames.\<close>

definition request_of :: "library \<Rightarrow> client_connection \<Rightarrow> u16 \<Rightarrow> u8 list" where
  "request_of l cc rnd = frame (link_bytes (cc_network_data cc) (cc_eth_header cc)) (construct_ip_header (lib_globals l) (cc_server_addr cc) 44 rnd)
     (sealed (construct_packet_info (lib_globals l) 0 REQUEST_INFORMATION 1 0 (cc_port_info cc)) []) []"

definition answer_of :: "conn_cfg \<Rightarrow> u32 \<Rightarrow> u16 \<Rightarrow> u16 \<Rightarrow> u8 list" where
  "answer_of c dst port rnd = frame (link_bytes (cf_net c) (cf_eth c)) (construct_ip_header (cf_globals c) dst 44 rnd)
     (sealed (construct_packet_info (cf_globals c) 4 REQUEST_INFORMATION 1 0 \<lparr>destination_port = port, source_port = cf_port c\<rparr>)
        (le_bytes 2 (maximum_transmission_unit (cf_globals c)) @ [0, 0]))
     (le_bytes 2 (maximum_transmission_unit (cf_globals c)) @ [0, 0])"

lemma info_request_eq:
  assumes "link_ok (cc_network_data cc) (cc_eth_header cc)"
  shows "info_request l cc rnd = Inr (request_of l cc rnd)"
proof -
  let ?nd = "cc_network_data cc" let ?ip = "construct_ip_header (lib_globals l) (cc_server_addr cc) 44 rnd"
  let ?pi = "construct_packet_info (lib_globals l) 0 REQUEST_INFORMATION 1 0 (cc_port_info cc)"
  have ll: "length (link_bytes ?nd (cc_eth_header cc)) = unat (prepend_size ?nd)" by (rule length_link [OF assms])
  have "packet_construction ?ip ?pi ?nd (cc_eth_header cc) (PACKET_HEADER_SIZE + unat (prepend_size ?nd)) = Inr (frame (link_bytes ?nd (cc_eth_header cc)) ?ip ?pi [])"
    using packet_construction_frame [OF assms, of _ 0] by (simp add: add.commute)
  then show ?thesis using handle_checksum_frame [OF ll, of 0 "[]" INFO_SIZE "[]" ?ip ?pi "[]"]
    by (simp add: info_request_def Let_def request_of_def add.commute)
qed

lemma information_answered:
  assumes "link_ok (cf_net c) (cf_eth c)" and "between_frames c B s" and "addressed c B link ip info d" and "packet_type info = REQUEST_INFORMATION"
  shows "\<exists>s'. receive_frame c rnd (frame link ip info d) s = Inr s' \<and> between_frames c B s' \<and>
    wire s' = wire s @ [answer_of c (ip_src ip) (source_port (ports info)) rnd]"
proof -
  let ?w = "wire s @ [answer_of c (ip_src ip) (source_port (ports info)) rnd]"
  have "\<exists>s'. receive_frame c rnd (frame link ip info d) s = Inr s' \<and> between_frames c B s' \<and> calm s s' \<and>
     tables_grow (s_env s) (s_env s') \<and> packets_sending s' = packets_sending s \<and> wire s' = ?w"
  proof (rule receive_quiet [OF assms(2,3), where P = "\<lambda>pa sa w. w = ?w"])
    fix b e nodes buf
    let ?S = "s\<lparr>s_env := e, frame_queue := empty_queue, frame_nodes := nodes, buffer_at := (buffer_at s)(b := buf)\<rparr>"
    have "dispatch c rnd ip info b buf ?S = drop_buffer b (?S\<lparr>wire := ?w\<rparr>)"
      using assms(4) internal_frame_eq [OF assms(1)] by (simp add: dispatch_def handle_request_information_def answer_of_def emit_def)
    moreover have "?S\<lparr>wire := ?w\<rparr> = ?S\<lparr>pending_at := pending_at s, sending_at := sending_at s, wire := ?w\<rparr>" by simp
    ultimately show "\<exists>pa sa w. dispatch c rnd ip info b buf ?S = drop_buffer b (?S\<lparr>pending_at := pa, sending_at := sa, wire := w\<rparr>) \<and> w = ?w" by metis
  qed
  then show ?thesis by blast
qed

lemma answer_taken:
  assumes "link_ok (cf_net c) (cf_eth c)" and "cc_network_data cc = cf_net c" and "\<not> cc_closing cc"
    and "cc_port_info cc = \<lparr>destination_port = cf_port c, source_port = port\<rparr>"
  shows "handle_client_init (answer_of c dst port rnd) cc = Inr (cc\<lparr>cc_mtu := maximum_transmission_unit (cf_globals c), cc_initialized := True,
    cc_eth_header := if addr_type (cf_net c) = 0 then cc_eth_header cc else (cc_eth_header cc)\<lparr>ether_dhost := ether_shost (cf_eth c)\<rparr>\<rparr>)"
proof -
  let ?mtu = "maximum_transmission_unit (cf_globals c)" let ?d = "le_bytes 2 ?mtu @ [0, 0]" let ?link = "link_bytes (cf_net c) (cf_eth c)"
  let ?ip = "construct_ip_header (cf_globals c) dst 44 rnd"
  let ?pi = "sealed (construct_packet_info (cf_globals c) 4 REQUEST_INFORMATION 1 0 \<lparr>destination_port = port, source_port = cf_port c\<rparr>) ?d"
  let ?fr = "frame ?link ?ip ?pi ?d" let ?p = "unat (prepend_size (cf_net c))"
  have ll: "length ?link = ?p" by (rule length_link [OF assms(1)])
  have pi: "packet_type ?pi = REQUEST_INFORMATION" "ports ?pi = \<lparr>destination_port = port, source_port = cf_port c\<rparr>" by (simp_all add: sealed_def construct_packet_info_def)
  have ib: "read_at (?p + IP_SIZE) INFO_SIZE ?fr = Inr (info_bytes ?pi)" using ll by (simp add: read_at_def frame_def seg_skip)
  have "seg (?p + IP_SIZE + INFO_SIZE) 2 ?fr = le_bytes 2 ?mtu" using ll by (simp add: frame_def seg_skip)
  then have mb: "read_at (?p + IP_SIZE + INFO_SIZE) 2 ?fr = Inr (le_bytes 2 ?mtu)" using ll by (simp add: read_at_def)
  have mac: "read_at 6 6 ?fr = Inr (ether_shost (cf_eth c))" if "addr_type (cf_net c) \<noteq> 0"
  proof -
    have eh: "?link = eth_bytes (cf_eth c)" "length (ether_dhost (cf_eth c)) = 6" "length (ether_shost (cf_eth c)) = 6"
      using that assms(1) by (auto simp: link_ok_def link_bytes_def eth_ok_def)
    then have "seg 6 6 ?fr = ether_shost (cf_eth c)" by (simp add: frame_def eth_bytes_def seg_skip)
    then show ?thesis using ll by (simp add: read_at_def)
  qed
  have len: "length ?fr = PACKET_HEADER_SIZE + 4 + ?p" using ll by simp
  show ?thesis unfolding answer_of_def
    using ib mb mac len pi assms(2-4) by (cases "addr_type (cf_net c) = 0") (simp_all add: handle_client_init_def Let_def)
qed


text \<open>The network data that a connection on this interface gets, and the connections it has already.\<close>

definition interface_listener :: "u8 list \<Rightarrow> library \<Rightarrow> listener option" where
  "interface_listener name l = Option.bind (first_of (hm_abs (listeners l) name)) (listener_at l)"

definition interface_network :: "u16 option \<Rightarrow> u8 list \<Rightarrow> library \<Rightarrow> network_data" where
  "interface_network dl name l = (case interface_listener name l of None \<Rightarrow> open_networking dl | Some li \<Rightarrow> li_network_data li)"

definition interface_pcap :: "u16 option \<Rightarrow> u8 list \<Rightarrow> library \<Rightarrow> bool option" where
  "interface_pcap dl name l = (case interface_listener name l of None \<Rightarrow> map_option (\<lambda>_. True) dl | Some li \<Rightarrow> li_pcap li)"

definition interface_clients :: "u8 list \<Rightarrow> library \<Rightarrow> u16 \<Rightarrow> ptr list" where
  "interface_clients name l port = (case interface_listener name l of None \<Rightarrow> [] | Some li \<Rightarrow> hm_abs (client_connections li) (le_bytes 2 port))"

lemma registered_interface:
  assumes "registered dl name con ty port l lp li l'"
  shows "li_network_data li = interface_network dl name l" and "li_pcap li = interface_pcap dl name l"
    and "hm_abs (client_connections li) (le_bytes 2 port') =
      interface_clients name l port' @ (if ty = CONNECTION_TYPE_CLIENT \<and> port' = port then [con] else [])"
proof -
  note r = assms [unfolded registered_def]
  have t: "client_connections x = connection_table CONNECTION_TYPE_CLIENT x" for x by (simp add: connection_table_def)
  show "li_network_data li = interface_network dl name l" "li_pcap li = interface_pcap dl name l"
    using r by (auto simp: interface_network_def interface_pcap_def interface_listener_def split: option.splits)
  show "hm_abs (client_connections li) (le_bytes 2 port') =
      interface_clients name l port' @ (if ty = CONNECTION_TYPE_CLIENT \<and> port' = port then [con] else [])"
    unfolding interface_clients_def interface_listener_def t using r by (cases "first_of (hm_abs (listeners l) name)") auto
qed

text \<open>A client that has been registered and is about to ask for the server's information.\<close>

definition asking :: "u16 option \<Rightarrow> u32 \<Rightarrow> u16 \<Rightarrow> u16 \<Rightarrow> library \<Rightarrow> ptr \<Rightarrow> ptr \<Rightarrow> listener \<Rightarrow> client_connection \<Rightarrow> library \<Rightarrow> bool" where
  "asking dl addr port rnd l p lp li cc l' \<longleftrightarrow>
     (let name = get_interface_name (drop_bit 24 (ntohl addr) = 127) l
      in lib_ok l' \<and> client_at l' p = Some cc \<and> listener_at l' lp = Some li \<and> first_of (hm_abs (listeners l') name) = Some lp \<and>
         lib_seed l' = lib_seed l \<and> lib_globals l' = lib_globals l \<and> p \<in> pool_live (lib_env l') Client_connection_pool \<and>
         cc_network_data cc = interface_network dl name l \<and> li_network_data li = interface_network dl name l \<and> li_pcap li = interface_pcap dl name l \<and>
         cc_port_info cc = \<lparr>destination_port = port, source_port = rnd\<rparr> \<and> cc_eth_header cc = default_eth_header l \<and> cc_server_addr cc = addr \<and>
         \<not> cc_closing cc \<and> \<not> cc_initialized cc \<and> hm_abs (client_connections li) (le_bytes 2 rnd) = interface_clients name l rnd @ [p])"

lemma create_client_asks:
  assumes "lib_ok l" and "connect_room n B l" and "name = get_interface_name (drop_bit 24 (ntohl addr) = 127) l" and "length name < IFNAMSIZ"
    and "link_ok (interface_network dl name l) (default_eth_header l)"
  obtains p lp li cc l' where "asking dl addr port rnd l p lp li cc l'"
    and "\<forall>timeout_ms rnd_id start turns. create_client dl addr port timeout_ms rnd rnd_id start turns l =
       rbind (request_server_information start timeout_ms (request_of l cc rnd_id) p turns l')
         (\<lambda>l4. case client_at l4 p of None \<Rightarrow> Inl Null_Deref | Some cc1 \<Rightarrow>
            if cc_initialized cc1 then Inr (Some p, l4) else rbind (give_up p lp cc1 l4) (\<lambda>l5. Inr (None, l5)))"
    and "conn_ready (client_cfg l' cc) B n (lend (cc_pool cc) l' (cc_state cc))" and "wire (cc_state cc) = []"
proof -
  note rm = assms(2) [unfolded connect_room_def]
  define lo where "lo = (drop_bit 24 (ntohl addr) = 127)"
  have hr: "heap_room connection_cost (c_heap (lib_env l))" using rm by (simp add: heap_room_def)
  have sp: "0 < pool_avail (lib_env l) Client_connection_pool" "Client_connection_pool \<notin> connection_pools" using rm by (simp_all add: connection_pools_def)
  obtain p e1 e hc hs hp e' where 1: "pool_allocate Client_connection_pool (lib_env l) = Inr (p, e1)" "connection_memory e1 = Inr (e, hc, hs, hp)"
    "reclaim (fresh_connection l e hc hs hp) l = l\<lparr>lib_env := e'\<rparr>" "lib_ok (l\<lparr>lib_env := e'\<rparr>)" "same_pools {Client_connection_pool} (lib_env l) e'"
    "heap_within connection_cost (lib_env l) e'" "fresh_conn (l\<lparr>lib_env := e'\<rparr>) (pool e) (fresh_connection l e hc hs hp)"
    "keeps (lib_env l) e' \<and> p \<in> pool_live e' Client_connection_pool" by (rule new_connection [OF assms(1) sp(1) hr sp(2)])
  let ?s = "fresh_connection l e hc hs hp"
  define cc where "cc = \<lparr>cc_state = ?s, cc_pool = pool e, cc_network_data = \<lparr>addr_type = 0, prepend_size = 0\<rparr>,
                cc_port_info = \<lparr>destination_port = port, source_port = rnd\<rparr>, cc_eth_header = default_eth_header l,
                cc_mtu = 0, cc_server_addr = addr, cc_loopback = lo, cc_closing = False, cc_initialized = False\<rparr>"
  define l1 where "l1 = l\<lparr>lib_env := e', client_at := (client_at l)(p \<mapsto> cc)\<rparr>"
  have c1: "construct_client_connection lo port addr rnd l = Inr (p, l1)" using 1(1-3) by (simp add: construct_client_connection_def Let_def l1_def cc_def)
  have "heap_room 20576 (c_heap e')" using heap_within_room [OF 1(6), of "n + 20576"] rm by (simp add: heap_room_def)
  then have l1: "lib_ok l1" "register_room l1"
    using 1(4) register_room_env [OF _ 1(5)] rm by (simp_all add: l1_def lib_ok_def register_room_def)
  obtain lp l2 li where 2: "check_existing_listener dl name p CONNECTION_TYPE_CLIENT rnd lo l1 = Inr (lp, l2)"
    "registered dl name p CONNECTION_TYPE_CLIENT rnd l1 lp li l2" by (rule check_existing_listener_ok [OF l1 assms(4)])
  note f = registered_fields [OF 2(2)]
  have same: "interface_network dl name l1 = interface_network dl name l" "interface_pcap dl name l1 = interface_pcap dl name l"
    "interface_clients name l1 = interface_clients name l"
    by (simp_all add: interface_network_def interface_pcap_def interface_clients_def interface_listener_def l1_def fun_eq_iff)
  note g = registered_interface [OF 2(2), unfolded same]
  define cc' where "cc' = cc\<lparr>cc_network_data := li_network_data li\<rparr>"
  define l' where "l' = l2\<lparr>client_at := (client_at l2)(p \<mapsto> cc')\<rparr>"
  have cl2: "client_at l2 p = Some cc" using f(5) by (simp add: l1_def)
  have lk: "link_ok (cc_network_data cc') (cc_eth_header cc')" using assms(5) g(1) by (simp add: cc'_def cc_def)
  have rq: "info_request l' cc' rnd_id = Inr (request_of l cc' rnd_id)" for rnd_id
    using info_request_eq [OF lk] f(2) by (simp add: request_of_def l'_def l1_def)
  have run: "create_client dl addr port timeout_ms rnd rnd_id start turns l =
       rbind (request_server_information start timeout_ms (request_of l cc' rnd_id) p turns l')
         (\<lambda>l4. case client_at l4 p of None \<Rightarrow> Inl Null_Deref | Some cc1 \<Rightarrow>
            if cc_initialized cc1 then Inr (Some p, l4) else rbind (give_up p lp cc1 l4) (\<lambda>l5. Inr (None, l5)))" for timeout_ms rnd_id start turns
    using c1 2(1) cl2 f(4) rq unfolding create_client_def lo_def [symmetric] assms(3) by (simp add: Let_def cc'_def [symmetric] l'_def [symmetric])
  have "p \<in> pool_live (lib_env l2) Client_connection_pool" using 1(8) f(8) by (auto simp: keeps_def l1_def connection_pools_def)
  moreover have "lib_ok l'" using f(7) by (simp add: l'_def lib_ok_def)
  ultimately have ask: "asking dl addr port rnd l p lp li cc' l'"
    unfolding asking_def lo_def [symmetric] assms(3) [unfolded lo_def [symmetric], symmetric]
    using f(1,2,4,13) g by (simp add: Let_def l'_def l1_def cc'_def cc_def)
  have fc: "fresh_conn l1 (pool e) ?s" using 1(7) by (simp add: fresh_conn_def l1_def)
  have "conn_ready (client_cfg l' cc') B n (lend (pool e) l' ?s)"
    by (rule registered_ready [OF assms(2) fc 2(2), where i = Client_connection_pool]) (use 1(5,6) f(1) in \<open>simp_all add: l1_def l'_def client_cfg_def\<close>)
  then show ?thesis using that [OF ask] run by (simp add: cc'_def cc_def fresh_connection_def)
qed


text \<open>
  What the other side does while the client sleeps: the server \<open>s\<close> takes the last frame the
  client has sent, and its answer is captured by the client's listener.
\<close>

definition server_answers :: "conn_cfg \<Rightarrow> conn_state \<Rightarrow> u16 \<Rightarrow> ptr \<Rightarrow> ptr \<Rightarrow> library \<Rightarrow> library" where
  "server_answers c s rnd lp p l =
     (case client_at l p of
        None \<Rightarrow> l
      | Some cc \<Rightarrow>
          (case rbind (receive_frame c rnd (last (wire (cc_state cc))) s) (\<lambda>s'. pcap_packet_handle lp (last (wire s')) l) of Inl _ \<Rightarrow> l | Inr l1 \<Rightarrow> l1))"

lemma default_link_accepted:
  assumes "link_ok nd (default_eth_header l)"
  shows "link_accepts nd (link_bytes nd (default_eth_header l))"
proof (cases "addr_type nd = 0")
  case True
  then show ?thesis using length_link [OF assms] by (simp add: link_accepts_def)
next
  case False
  then have m: "length (mac_address l) = 6" "addr_type nd = DLT_EN10MB" "prepend_size nd = 14"
    using assms by (auto simp: link_ok_def eth_ok_def default_eth_header_def)
  have "seg 12 2 (eth_bytes (default_eth_header l)) = le_bytes 2 (htons 0x0800)" using m(1) by (simp add: eth_bytes_def default_eth_header_def seg_skip)
  then show ?thesis using m False by (simp add: link_accepts_def link_bytes_def eth_bytes_def default_eth_header_def)
qed

lemma lib_ok_listener:
  assumes "lib_ok l" and "first_of (hm_abs (listeners l) name) = Some lp" and "listener_at l lp = Some li"
  shows "listener_ok (lib_seed l) (lib_env l) li"
proof -
  have "lp \<in> set (hm_abs (listeners l) name)" using assms(2) by (auto simp: first_of_def split: list.splits if_splits)
  then obtain li' where "listener_at l lp = Some li'" "listener_ok (lib_seed l) (lib_env l) li'" using assms(1) unfolding lib_ok_def by blast
  with assms(3) show ?thesis by simp
qed

lemma answer_routed:
  assumes "asking dl addr port rnd l p lp li cc l'" and "link_ok (cf_net c) (cf_eth c)" and "cf_net c = cc_network_data cc" and "cf_port c = port"
    and "interface_clients (get_interface_name (drop_bit 24 (ntohl addr) = 127) l) l rnd = []" and "client_at l2 p = Some cc2" and "cc2 = cc\<lparr>cc_state := t\<rparr>"
    and "l2 = l'\<lparr>client_at := (client_at l')(p \<mapsto> cc2)\<rparr>"
  shows "pcap_packet_handle lp (answer_of c dst rnd rid) l2 = Inr (l'\<lparr>client_at := (client_at l')(p \<mapsto>
    cc2\<lparr>cc_mtu := maximum_transmission_unit (cf_globals c), cc_initialized := True,
      cc_eth_header := if addr_type (cf_net c) = 0 then cc_eth_header cc else (cc_eth_header cc)\<lparr>ether_dhost := ether_shost (cf_eth c)\<rparr>\<rparr>)\<rparr>)"
proof -
  note a = assms(1) [unfolded asking_def Let_def]
  then have lo: "listener_ok (lib_seed l') (lib_env l') li" using lib_ok_listener [of l'] by blast
  then have "hm_ok (lib_seed l') (connection_table CONNECTION_TYPE_CLIENT li) (lib_env l')" unfolding listener_ok_def by blast
  then have wf: "hm_wf (lib_seed l') (client_connections li)" by (simp add: hm_ok_def connection_table_def)
  have get: "hashmap_get (lib_seed l') (le_bytes 2 rnd) 2 (client_connections li) = Inr (Some p)"
    using hashmap_get_abs [OF wf, of "le_bytes 2 rnd" 2] a assms(5) by (simp add: first_of_def)
  have ad: "li_addr_type li = addr_type (cf_net c)" using lo a assms(3) by (simp add: listener_ok_def)
  have pp: "packet_prepend_size (addr_type (cf_net c)) = prepend_size (cf_net c)" using assms(2) by (auto simp: link_ok_def packet_prepend_size_def)
  have "length (link_bytes (cf_net c) (cf_eth c)) = unat (packet_prepend_size (li_addr_type li))" using length_link [OF assms(2)] ad pp by simp
  note rd = frame_ports [OF this]
  have init: "handle_client_init (answer_of c dst rnd rid) cc2 = Inr (cc2\<lparr>cc_mtu := maximum_transmission_unit (cf_globals c), cc_initialized := True,
      cc_eth_header := if addr_type (cf_net c) = 0 then cc_eth_header cc2 else (cc_eth_header cc2)\<lparr>ether_dhost := ether_shost (cf_eth c)\<rparr>\<rparr>)"
    by (rule answer_taken) (use assms(2-4,7) a in simp_all)
  have "read_at (unat (packet_prepend_size (li_addr_type li)) + IP_SIZE + 16) 4 (answer_of c dst rnd rid) = Inr (le_bytes 2 rnd @ le_bytes 2 (cf_port c))"
    unfolding answer_of_def rd by (simp add: sealed_def construct_packet_info_def)
  then show ?thesis using a get init assms(6-8)
    by (simp add: pcap_packet_handle_def handle_correct_receiver_def Let_def)
qed


lemma conn_ready_emit: "conn_ready c B n (lend own l (emit fr s)) = conn_ready c B n (lend own l s)"
  by (simp add: conn_ready_def recv_ready_def conn_ok_def pending_room_def complete_room_def handover_room_def send_ready_def emit_def lend_def)

text \<open>
  C6. A client that is created while its server listens gets connected: the request for
  information reaches the server, the server's answer is routed to the client that waits for
  it, and \<open>swiftnet_create_client\<close> returns a client that is initialised, has the server's MTU
  and, on Ethernet, the server's MAC address as its destination, is registered under its port
  and ready for its first messages.
\<close>

theorem client_connected:
  assumes "lib_ok l" and "connect_room n B l" and "name = get_interface_name (drop_bit 24 (ntohl addr) = 127) l" and "length name < IFNAMSIZ"
    and "link_ok (interface_network dl name l) (default_eth_header l)" and "interface_clients name l rnd = []"
    and "cf_net c = interface_network dl name l" and "link_ok (cf_net c) (cf_eth c)" and "cf_port c = port" and "between_frames c B' s"
    and "cf_prepend c + PACKET_HEADER_SIZE \<le> B'" and "\<not> start + timeout_ms < t0"
  shows "\<exists>p lp l' cc li. create_client dl addr port timeout_ms rnd rnd_id start [(t0, server_answers c s rid lp p), (t1, others)] l = Inr (Some p, l') \<and>
    client_at l' p = Some cc \<and> cc_initialized cc \<and> cc_mtu cc = maximum_transmission_unit (cf_globals c) \<and>
    cc_port_info cc = \<lparr>destination_port = port, source_port = rnd\<rparr> \<and> (addr_type (cf_net c) \<noteq> 0 \<longrightarrow> ether_dhost (cc_eth_header cc) = ether_shost (cf_eth c)) \<and>
    listener_at l' lp = Some li \<and> first_of (hm_abs (listeners l') name) = Some lp \<and> hm_abs (client_connections li) (le_bytes 2 rnd) = [p] \<and>
    lib_ok l' \<and> conn_ready (client_cfg l' cc) B n (lend (cc_pool cc) l' (cc_state cc))"
proof -
  obtain p lp li cc l' where 1: "asking dl addr port rnd l p lp li cc l'"
    "\<forall>timeout_ms rnd_id start turns. create_client dl addr port timeout_ms rnd rnd_id start turns l =
       rbind (request_server_information start timeout_ms (request_of l cc rnd_id) p turns l')
         (\<lambda>l4. case client_at l4 p of None \<Rightarrow> Inl Null_Deref | Some cc1 \<Rightarrow>
            if cc_initialized cc1 then Inr (Some p, l4) else rbind (give_up p lp cc1 l4) (\<lambda>l5. Inr (None, l5)))"
    "conn_ready (client_cfg l' cc) B n (lend (cc_pool cc) l' (cc_state cc))" "wire (cc_state cc) = []"
    by (rule create_client_asks [OF assms(1-5)])
  note a = 1(1) [unfolded asking_def Let_def assms(3) [symmetric]]
  let ?rq = "request_of l cc rnd_id" let ?cc = "cc\<lparr>cc_state := emit ?rq (cc_state cc)\<rparr>" let ?l2 = "l'\<lparr>client_at := (client_at l')(p \<mapsto> ?cc)\<rparr>"
  let ?ip = "construct_ip_header (lib_globals l) addr 44 rnd_id"
  let ?pi = "sealed (construct_packet_info (lib_globals l) 0 REQUEST_INFORMATION 1 0 (cc_port_info cc)) []" let ?link = "link_bytes (cf_net c) (default_eth_header l)"
  have rq: "?rq = frame ?link ?ip ?pi []" using a assms(7) by (simp add: request_of_def)
  have pi: "packet_type ?pi = REQUEST_INFORMATION" "ports ?pi = \<lparr>destination_port = port, source_port = rnd\<rparr>" using a by (simp_all add: sealed_def construct_packet_info_def)
  have "addressed c B' ?link ?ip ?pi []"
    using default_link_accepted [OF assms(5)] assms(7,9,11) pi by (simp add: addressed_def construct_ip_header_def)
  from information_answered [OF assms(8,10) this pi(1), of rid] obtain s' where s': "receive_frame c rid ?rq s = Inr s'"
    "wire s' = wire s @ [answer_of c (ip_src ?ip) rnd rid]" unfolding rq pi by auto
  let ?cc2 = "?cc\<lparr>cc_mtu := maximum_transmission_unit (cf_globals c), cc_initialized := True,
      cc_eth_header := if addr_type (cf_net c) = 0 then cc_eth_header cc else (cc_eth_header cc)\<lparr>ether_dhost := ether_shost (cf_eth c)\<rparr>\<rparr>"
  let ?l4 = "l'\<lparr>client_at := (client_at l')(p \<mapsto> ?cc2)\<rparr>"
  have "pcap_packet_handle lp (answer_of c (ip_src ?ip) rnd rid) ?l2 = Inr ?l4"
    by (rule answer_routed [OF 1(1) assms(8) _ assms(9)]) (use a assms(3,6,7) in simp_all)
  then have others: "server_answers c s rid lp p ?l2 = ?l4" using s' by (simp add: server_answers_def emit_def)
  have "client_emit ?rq p l' = Inr ?l2" using a by (simp add: client_emit_def)
  then have "request_server_information start timeout_ms ?rq p [(t0, server_answers c s rid lp p), (t1, others)] l' = Inr ?l4"
    using assms(12) a others by simp
  then have run: "create_client dl addr port timeout_ms rnd rnd_id start [(t0, server_answers c s rid lp p), (t1, others)] l = Inr (Some p, ?l4)"
    using 1(2) by simp
  have "client_cfg ?l4 ?cc2 = (client_cfg l' cc)\<lparr>cf_eth := cc_eth_header ?cc2\<rparr>" by (simp add: client_cfg_def)
  moreover have "conn_ready (c\<lparr>cf_eth := x\<rparr>) B n s = conn_ready c B n s" for c x s
    by (simp add: conn_ready_def recv_ready_def conn_ok_def handover_room_def)
  moreover have "lend (cc_pool cc) ?l4 (cc_state ?cc2) = lend (cc_pool cc) l' (emit ?rq (cc_state cc))" by (simp add: lend_def cong: if_cong)
  ultimately have "conn_ready (client_cfg ?l4 ?cc2) B n (lend (cc_pool ?cc2) ?l4 (cc_state ?cc2))" using 1(3) by (simp add: conn_ready_emit)
  moreover have "lib_ok l'" using a by blast
  then have "lib_ok ?l4" by (simp add: lib_ok_def)
  ultimately show ?thesis using run a assms(6)
    by (intro exI [of _ p] exI [of _ lp] exI [of _ ?l4] exI [of _ ?cc2] exI [of _ li]) simp
qed


theorem client_connected_witness:
  "\<exists>l l' p cc f. create_client (Some DLT_NULL) 0x0100007F 8080 1000 5000 9 0 [(0, f), (250, id)] l = Inr (Some p, l') \<and>
     client_at l' p = Some cc \<and> cc_initialized cc \<and> cc_mtu cc = 64"
proof -
  define c where "c = \<lparr>cf_globals = \<lparr>maximum_transmission_unit = 64, private_ip_address = 0x0100007F\<rparr>, cf_seed = 7, cf_port = 8080, cf_net = loopback,
    cf_eth = \<lparr>ether_dhost = [], ether_shost = [], ether_type = 0\<rparr>, cf_type = CONNECTION_TYPE_SERVER\<rparr>"
  obtain l where l: "lib_ok l" "connect_room 900000 100 l" "hm_abs (listeners l) = (\<lambda>k. [])" using sample_connect_room by blast
  obtain s where "recv_ready c 100 0 0 0 s" using sample_conn_ready [of c 100] by auto
  then have s: "between_frames c 100 s" by (simp add: recv_ready_def conn_ok_between)
  have lo: "drop_bit 24 (ntohl 0x0100007F) = 127" by code_simp
  let ?name = "get_interface_name (drop_bit 24 (ntohl 0x0100007F) = 127) l"
  have n: "?name = [108, 111]" unfolding lo by (simp add: get_interface_name_def)
  have net: "interface_network (Some DLT_NULL) ?name l = loopback" "interface_clients ?name l 5000 = []"
    using l(3) by (simp_all add: interface_network_def interface_clients_def interface_listener_def first_of_def open_networking_def)
  have lk: "link_ok loopback x" for x by (simp add: link_ok_def initialize_networking_def packet_prepend_size_def)
  have 1: "length ?name < IFNAMSIZ" "cf_net c = interface_network (Some DLT_NULL) ?name l" "link_ok (cf_net c) (cf_eth c)" "cf_port c = 8080"
    "cf_prepend c + PACKET_HEADER_SIZE \<le> 100" "\<not> (0 :: u32) + 1000 < 0" "link_ok (interface_network (Some DLT_NULL) ?name l) (default_eth_header l)"
    unfolding n net by (simp_all add: c_def lk net(1) [unfolded n]) (simp_all add: initialize_networking_def packet_prepend_size_def)
  from client_connected [OF l(1,2) refl 1(1,7) net(2) 1(2-4) s 1(5,6), of 9 1 250 id] obtain p lp l' cc where
    "create_client (Some DLT_NULL) 0x0100007F 8080 1000 5000 9 0 [(0, server_answers c s 1 lp p), (250, id)] l = Inr (Some p, l')"
    "client_at l' p = Some cc" "cc_initialized cc" "cc_mtu cc = maximum_transmission_unit (cf_globals c)" by blast
  then show ?thesis by (intro exI [of _ l] exI [of _ l'] exI [of _ p] exI [of _ cc] exI [of _ "server_answers c s 1 lp p"]) (simp add: c_def)
qed

lemma unanswered:
  assumes "client_at l p = Some cc" and "\<not> cc_initialized cc" and "\<forall>t \<in> set ts. \<not> start + timeout_ms < t" and "start + timeout_ms < t1"
  shows "request_server_information start timeout_ms fr p (map (\<lambda>t. (t, id)) ts @ [(t1, others)]) l =
    Inr (l\<lparr>client_at := (client_at l)(p \<mapsto> cc\<lparr>cc_state := (emit fr ^^ length ts) (cc_state cc)\<rparr>)\<rparr>)"
  using assms
proof (induction ts arbitrary: l cc)
  case Nil
  then have upd: "(client_at l)(p \<mapsto> cc) = client_at l" by (simp add: fun_upd_idem)
  have run: "request_server_information start timeout_ms fr p (map (\<lambda>t. (t, id)) [] @ [(t1, others)]) l = Inr l" using Nil by simp
  show ?case unfolding run by (simp add: upd del: fun_upd_apply)
next
  case (Cons t ts)
  let ?cc = "cc\<lparr>cc_state := emit fr (cc_state cc)\<rparr>" let ?l = "l\<lparr>client_at := (client_at l)(p \<mapsto> ?cc)\<rparr>"
  have step: "request_server_information start timeout_ms fr p ((t, id) # turns) l = request_server_information start timeout_ms fr p turns ?l" for turns
    using Cons.prems by (simp add: client_emit_def)
  have "request_server_information start timeout_ms fr p (map (\<lambda>t. (t, id)) ts @ [(t1, others)]) ?l =
    Inr (?l\<lparr>client_at := (client_at ?l)(p \<mapsto> ?cc\<lparr>cc_state := (emit fr ^^ length ts) (cc_state ?cc)\<rparr>)\<rparr>)"
    by (rule Cons.IH) (use Cons.prems in simp_all)
  moreover have "?l\<lparr>client_at := (client_at ?l)(p \<mapsto> ?cc\<lparr>cc_state := (emit fr ^^ length ts) (cc_state ?cc)\<rparr>)\<rparr> =
      l\<lparr>client_at := (client_at l)(p \<mapsto> cc\<lparr>cc_state := (emit fr ^^ length (t # ts)) (cc_state cc)\<rparr>)\<rparr>" by (simp add: funpow_swap1)
  ultimately show ?case unfolding list.map append_Cons step by (rule trans [OF _ arg_cong])
qed

lemma hm_ok_same_except:
  assumes "hm_ok seed hm e" and "same_except {i} e e'" and "env_ok e'" and "i \<noteq> Hashmap_item_pool" and "key_memory_allocator hm \<noteq> Some i"
  shows "hm_ok seed hm e'"
  by (rule hm_ok_mono [OF assms(1)]) (use assms(2-5) in \<open>auto simp: key_live_def same_except_def split: option.splits\<close>)

text \<open>
  C12. A client whose server never answers: the request is sent in every turn until the time is
  over, then \<open>swiftnet_create_client\<close> returns \<open>NULL\<close>, the client is back in its pool and the
  oldest client under its port is out of the listener's table. But the listener stays
  registered with a capture handle that is closed: whoever closes it next, the next
  unanswered client or the clean-up of the interface's last connection, uses a handle that
  has been freed.
\<close>

theorem client_gives_up:
  assumes "lib_ok l" and "connect_room n B l" and "name = get_interface_name (drop_bit 24 (ntohl addr) = 127) l" and "length name < IFNAMSIZ"
    and "link_ok (interface_network dl name l) (default_eth_header l)" and "interface_pcap dl name l = Some True"
    and "\<forall>t \<in> set ts. \<not> start + timeout_ms < t" and "start + timeout_ms < t1"
  shows "\<exists>p lp l' li. create_client dl addr port timeout_ms rnd rnd_id start (map (\<lambda>t. (t, id)) ts @ [(t1, others)]) l = Inr (None, l') \<and>
    client_at l' p = None \<and> p \<notin> pool_live (lib_env l') Client_connection_pool \<and>
    first_of (hm_abs (listeners l') name) = Some lp \<and> listener_at l' lp = Some li \<and>
    hm_abs (client_connections li) (le_bytes 2 rnd) = tl (interface_clients name l rnd @ [p]) \<and>
    close_pcap lp l' = Inl Bad_Free \<and> break_receiver_loop li = Inl Bad_Free"
proof -
  obtain p lp li cc l' where 1: "asking dl addr port rnd l p lp li cc l'"
    "\<forall>timeout_ms rnd_id start turns. create_client dl addr port timeout_ms rnd rnd_id start turns l =
       rbind (request_server_information start timeout_ms (request_of l cc rnd_id) p turns l')
         (\<lambda>l4. case client_at l4 p of None \<Rightarrow> Inl Null_Deref | Some cc1 \<Rightarrow>
            if cc_initialized cc1 then Inr (Some p, l4) else rbind (give_up p lp cc1 l4) (\<lambda>l5. Inr (None, l5)))"
    by (rule create_client_asks [OF assms(1-5)])
  note a = 1(1) [unfolded asking_def Let_def assms(3) [symmetric]]
  let ?fr = "request_of l cc rnd_id" let ?cc = "cc\<lparr>cc_state := (emit ?fr ^^ length ts) (cc_state cc)\<rparr>" let ?l4 = "l'\<lparr>client_at := (client_at l')(p \<mapsto> ?cc)\<rparr>"
  have ask: "request_server_information start timeout_ms ?fr p (map (\<lambda>t. (t, id)) ts @ [(t1, others)]) l' = Inr ?l4"
    by (rule unanswered) (use a assms(7,8) in simp_all)
  have lk: "lib_ok l'" using a by blast
  then have env: "env_ok (lib_env l')" by (simp add: lib_ok_def hm_ok_def)
  have "p \<in> pool_live (lib_env l') Client_connection_pool" using a by blast
  from pool_free_ok [OF env this] obtain e where 2: "pool_free Client_connection_pool p (lib_env l') = Inr e" "env_ok e"
    "pool_live e Client_connection_pool = pool_live (lib_env l') Client_connection_pool - {p}" "same_except {Client_connection_pool} (lib_env l') e" by blast
  have "listener_ok (lib_seed l') (lib_env l') li" using lib_ok_listener [OF lk] a by blast
  then have "hm_ok (lib_seed l') (connection_table CONNECTION_TYPE_CLIENT li) (lib_env l') \<and>
     key_memory_allocator (connection_table CONNECTION_TYPE_CLIENT li) = Some Uint16_pool" unfolding listener_ok_def by blast
  then have "hm_ok (lib_seed l') (client_connections li) e" "key_memory_allocator (client_connections li) = Some Uint16_pool"
    using hm_ok_same_except [OF _ 2(4,2), of "lib_seed l'" "client_connections li"] by (auto simp: connection_table_def)
  moreover have "length (le_bytes 2 rnd) = unat (2 :: u32)" by simp
  ultimately obtain hm e' where 3: "hashmap_remove (lib_seed l') (le_bytes 2 rnd) 2 (client_connections li) e = Inr (hm, e')"
    "hm_abs hm = (hm_abs (client_connections li))(le_bytes 2 rnd := tl (hm_abs (client_connections li) (le_bytes 2 rnd)))" using hashmap_remove_ok by blast
  have "pool e' Client_connection_pool = pool e Client_connection_pool" by (rule hashmap_remove_frame [OF 3(1)]) (use \<open>key_memory_allocator (client_connections li) = Some Uint16_pool\<close> in simp_all)
  then have np: "p \<notin> pool_live e' Client_connection_pool" using 2(3) by simp
  let ?li = "li\<lparr>li_pcap := Some False, client_connections := hm\<rparr>"
  let ?l5 = "l'\<lparr>lib_env := e', listener_at := (listener_at l')(lp \<mapsto> ?li), client_at := (client_at l')(p := None)\<rparr>"
  have "give_up p lp ?cc ?l4 = Inr ?l5"
    using a assms(6) 2(1) 3(1) by (simp add: give_up_def close_pcap_def remove_con_from_listener_def)
  then have "create_client dl addr port timeout_ms rnd rnd_id start (map (\<lambda>t. (t, id)) ts @ [(t1, others)]) l = Inr (None, ?l5)"
    using 1(2) ask a by simp
  then show ?thesis using a np 3(2)
    by (intro exI [of _ p] exI [of _ lp] exI [of _ ?l5] exI [of _ ?li]) (simp add: close_pcap_def break_receiver_loop_def)
qed


theorem client_gives_up_witness:
  "\<exists>l l' lp. create_client (Some DLT_NULL) 0x0100007F 8080 1000 5000 9 0 [(0, id), (250, id), (1001, id)] l = Inr (None, l') \<and>
     close_pcap lp l' = Inl Bad_Free"
proof -
  obtain l where l: "lib_ok l" "connect_room 900000 100 l" "hm_abs (listeners l) = (\<lambda>k. [])" using sample_connect_room by blast
  have lo: "drop_bit 24 (ntohl 0x0100007F) = 127" by code_simp
  let ?name = "get_interface_name (drop_bit 24 (ntohl 0x0100007F) = 127) l"
  have n: "?name = [108, 111]" unfolding lo by (simp add: get_interface_name_def)
  have net: "interface_network (Some DLT_NULL) ?name l = loopback" "interface_pcap (Some DLT_NULL) ?name l = Some True"
    using l(3) by (simp_all add: interface_network_def interface_pcap_def interface_listener_def first_of_def open_networking_def)
  have 1: "length ?name < IFNAMSIZ" unfolding n by simp
  have 2: "link_ok (interface_network (Some DLT_NULL) ?name l) (default_eth_header l)"
    unfolding net by (simp add: link_ok_def initialize_networking_def packet_prepend_size_def)
  have 3: "\<forall>t \<in> set [0, 250 :: u32]. \<not> 0 + 1000 < t" "(0 :: u32) + 1000 < 1001" by simp_all
  obtain lp l' where 4: "create_client (Some DLT_NULL) 0x0100007F 8080 1000 5000 9 0 (map (\<lambda>t. (t, id)) [0, 250] @ [(1001, id)]) l = Inr (None, l')"
    "close_pcap lp l' = Inl Bad_Free" using client_gives_up [OF l(1,2) refl 1 2 net(2) 3, of 8080 5000 9 id] by blast
  moreover have "map (\<lambda>t. (t, id :: library \<Rightarrow> library)) [0, 250 :: u32] @ [(1001, id)] = [(0, id), (250, id), (1001, id)]" by simp
  ultimately show ?thesis by metis
qed

text \<open>
  Taking a connection off its listener: the oldest entry under its port leaves the table
  of its kind and nothing else changes in the listener; when both tables then count no
  connection, the listener itself is dropped, and an interface without a listener is left
  alone.
\<close>

theorem connection_unregistered:
  assumes "lib_ok l" and "length name < IFNAMSIZ" and "connection_port ty con l = Inr port"
  shows "(hm_abs (listeners l) name = [] \<longrightarrow> remove_listener ty name con l = Inr l) \<and>
    (\<forall>lp li. first_of (hm_abs (listeners l) name) = Some lp \<longrightarrow> listener_at l lp = Some li \<longrightarrow>
       (\<exists>hm e. hm_ok (lib_seed l) hm e \<and> hm_abs hm = (hm_abs (connection_table ty li))(le_bytes 2 port := tl (hm_abs (connection_table ty li) (le_bytes 2 port))) \<and>
          remove_listener ty name con l =
            (let li1 = set_connection_table ty hm li; l1 = l\<lparr>lib_env := e, listener_at := (listener_at l)(lp \<mapsto> li1)\<rparr>
             in if hm_size (servers li1) + hm_size (client_connections li1) = 0 then drop_listener name lp li1 l1 else Inr l1)))"
proof -
  have wf: "hm_wf (lib_seed l) (listeners l)" using assms(1) by (simp add: lib_ok_def hm_ok_def)
  have "length name = unat (of_nat (length name) :: u32)" using assms(2) by (simp add: unat_of_nat)
  note get = hashmap_get_abs [OF wf this]
  have "\<exists>hm e. hm_ok (lib_seed l) hm e \<and> hm_abs hm = (hm_abs (connection_table ty li))(le_bytes 2 port := tl (hm_abs (connection_table ty li) (le_bytes 2 port))) \<and>
          remove_listener ty name con l =
            (let li1 = set_connection_table ty hm li; l1 = l\<lparr>lib_env := e, listener_at := (listener_at l)(lp \<mapsto> li1)\<rparr>
             in if hm_size (servers li1) + hm_size (client_connections li1) = 0 then drop_listener name lp li1 l1 else Inr l1)"
    if lp: "first_of (hm_abs (listeners l) name) = Some lp" "listener_at l lp = Some li" for lp li
  proof -
    have "hm_ok (lib_seed l) (connection_table ty li) (lib_env l)" using lib_ok_listener [OF assms(1) lp] unfolding listener_ok_def by blast
    moreover have "length (le_bytes 2 port) = unat (2 :: u32)" by simp
    ultimately obtain hm e where "hashmap_remove (lib_seed l) (le_bytes 2 port) 2 (connection_table ty li) (lib_env l) = Inr (hm, e)" "hm_ok (lib_seed l) hm e"
      "hm_abs hm = (hm_abs (connection_table ty li))(le_bytes 2 port := tl (hm_abs (connection_table ty li) (le_bytes 2 port)))" using hashmap_remove_ok by blast
    then show ?thesis using get lp assms(3) by (intro exI [of _ hm] exI [of _ e]) (simp add: remove_listener_def first_of_def)
  qed
  moreover have "hm_abs (listeners l) name = [] \<Longrightarrow> remove_listener ty name con l = Inr l" using get by (simp add: remove_listener_def first_of_def)
  ultimately show ?thesis by blast
qed


theorem connection_unregistered_witness:
  "\<exists>l lp li hm e. 5 \<in> set (hm_abs (servers li) (le_bytes 2 (8080 :: u16))) \<and> hm_abs hm (le_bytes 2 (8080 :: u16)) = tl (hm_abs (servers li) (le_bytes 2 (8080 :: u16))) \<and>
     remove_listener CONNECTION_TYPE_SERVER [108, 111] 5 l =
       (let li1 = li\<lparr>servers := hm\<rparr>; l1 = l\<lparr>lib_env := e, listener_at := (listener_at l)(lp \<mapsto> li1)\<rparr>
        in if hm_size (servers li1) + hm_size (client_connections li1) = 0 then drop_listener [108, 111] lp li1 l1 else Inr l1)"
proof -
  obtain l0 where l0: "lib_ok l0" "register_room l0" using sample_library [of 100] by blast
  obtain s0 :: conn_state where "recv_ready sample_cfg 100 0 0 0 s0" using sample_conn_ready [of sample_cfg 100] by auto
  define sv where "sv = \<lparr>sv_state = s0, sv_pool = pool (lib_env l0), sv_network_data = loopback, sv_port = 8080,
    sv_eth_header = default_eth_header l0, sv_loopback = True, sv_closing = False\<rparr>"
  define l1 where "l1 = l0\<lparr>server_at := [5 \<mapsto> sv]\<rparr>"
  have l1: "lib_ok l1" "register_room l1" "length [108, 111 :: u8] < IFNAMSIZ" using l0 by (simp_all add: l1_def lib_ok_def register_room_def)
  obtain lp l li where "registered (Some DLT_NULL) [108, 111] 5 CONNECTION_TYPE_SERVER 8080 l1 lp li l"
    by (rule check_existing_listener_ok [OF l1, of "Some DLT_NULL" 5 CONNECTION_TYPE_SERVER 8080 True])
  note f = registered_fields [OF this]
  have "connection_port CONNECTION_TYPE_SERVER 5 l = Inr 8080" using f(6) by (simp add: connection_port_def l1_def sv_def)
  from connection_unregistered [OF f(7) l1(3) this] f(4,13) obtain hm e where
    "hm_abs hm = (hm_abs (connection_table CONNECTION_TYPE_SERVER li))(le_bytes 2 (8080 :: u16) := tl (hm_abs (connection_table CONNECTION_TYPE_SERVER li) (le_bytes 2 (8080 :: u16))))"
    "remove_listener CONNECTION_TYPE_SERVER [108, 111] 5 l =
       (let li1 = set_connection_table CONNECTION_TYPE_SERVER hm li; l1 = l\<lparr>lib_env := e, listener_at := (listener_at l)(lp \<mapsto> li1)\<rparr>
        in if hm_size (servers li1) + hm_size (client_connections li1) = 0 then drop_listener [108, 111] lp li1 l1 else Inr l1)" by auto
  with f(12) show ?thesis by (intro exI [of _ l] exI [of _ lp] exI [of _ li] exI [of _ hm] exI [of _ e]) (simp add: connection_table_def set_connection_table_def)
qed

end
