(* ===== verification/Swift_Requests.thy ===== *)
theory Swift_Requests
  imports Swift_Connections
begin

text \<open>
  Requests and responses (\<open>src/make_request.c\<close>, \<open>src/make_response.c\<close>) and the sending
  calls of the API (the end of \<open>src/send_packet.c\<close>). A request is a message whose sender
  waits, with a clock and in steps of five milliseconds, until the receiving side has put the
  response into its record. The clock's readings and what the other threads do between
  them are arguments, as for the client's connection.
\<close>

section \<open>Routes\<close>

text \<open>The route of a client's messages, and of a server's to one of its clients.\<close>

definition client_route :: "library \<Rightarrow> client_connection \<Rightarrow> route" where
  "client_route l cc = \<lparr>rt_globals = lib_globals l, rt_seed = lib_seed l, rt_mtu = min_mtu (cc_mtu cc) (lib_globals l),
     rt_ports = cc_port_info cc, rt_dest = cc_server_addr cc, rt_eth = cc_eth_header cc, rt_net = cc_network_data cc\<rparr>"

definition server_route :: "library \<Rightarrow> server \<Rightarrow> client_addr_data \<Rightarrow> route" where
  "server_route l sv target = \<lparr>rt_globals = lib_globals l, rt_seed = lib_seed l, rt_mtu = min_mtu (sender_mtu target) (lib_globals l),
     rt_ports = \<lparr>destination_port = sender_port target, source_port = sv_port sv\<rparr>, rt_dest = sender_address target,
     rt_eth = sv_eth_header sv, rt_net = sv_network_data sv\<rparr>"

text \<open>Only \<open>swiftnet_server_send_packet\<close> puts the target's MAC address into the frame.\<close>

definition server_send_route :: "library \<Rightarrow> server \<Rightarrow> client_addr_data \<Rightarrow> route" where
  "server_send_route l sv target = (server_route l sv target)\<lparr>rt_eth := (sv_eth_header sv)\<lparr>ether_dhost := sender_mac target\<rparr>\<rparr>"

section \<open>Requests\<close>

definition packet_size :: "packet_buffer \<Rightarrow> u32" where
  "packet_size pb = of_nat (packet_append_pointer pb) - of_nat (packet_data_start pb)"

definition construct_request_sent :: "u32 \<Rightarrow> 'z send_state_scheme \<Rightarrow> (ptr \<times> 'z send_state_scheme) res" where
  "construct_request_sent address s =
     rbind (pool_allocate Requests_sent_pool (s_env s))
       (\<lambda>(q, e). Inr (q, s\<lparr>s_env := e, request_at := (request_at s)(q \<mapsto>
          \<lparr>request_packet_data = None, request_address = address, request_packet_id = 0\<rparr>)\<rparr>))"

definition delete_request_sent :: "u64 \<Rightarrow> ptr \<Rightarrow> 'z send_state_scheme \<Rightarrow> 'z send_state_scheme res" where
  "delete_request_sent seed q s =
     (case request_at s q of
        None \<Rightarrow> Inl Null_Deref
      | Some x \<Rightarrow>
          rbind (hashmap_remove seed (le_bytes 2 (request_packet_id x)) 2 (requests_sent s) (s_env s))
            (\<lambda>(hm, e). rbind (pool_free Requests_sent_pool q e)
            (\<lambda>e1. Inr (s\<lparr>requests_sent := hm, s_env := e1, request_at := (request_at s)(q := None)\<rparr>))))"

text \<open>The loop at \<open>check_response\<close>: the clock is looked at before the record.\<close>

fun check_response ::
  "u64 \<Rightarrow> u32 \<Rightarrow> u32 \<Rightarrow> ptr \<Rightarrow> (u32 \<times> ('z send_state_scheme \<Rightarrow> 'z send_state_scheme)) list \<Rightarrow> 'z send_state_scheme \<Rightarrow>
   (ptr option \<times> 'z send_state_scheme) res" where
  "check_response seed start timeout_ms q [] s = Inl Stuck"
| "check_response seed start timeout_ms q ((now, others) # turns) s =
     (if start + timeout_ms < now then rbind (delete_request_sent seed q s) (\<lambda>s1. Inr (None, s1))
      else case request_at s q of
        None \<Rightarrow> Inl Null_Deref
      | Some x \<Rightarrow>
          (case request_packet_data x of
             Some pd \<Rightarrow>
               rbind (pool_free Requests_sent_pool q (s_env s))
                 (\<lambda>e. Inr (Some pd, s\<lparr>s_env := e, request_at := (request_at s)(q := None)\<rparr>))
           | None \<Rightarrow> check_response seed start timeout_ms q turns (others s)))"

definition make_request ::
  "route \<Rightarrow> u16 \<Rightarrow> ('z send_state_scheme \<Rightarrow> 'z send_state_scheme) list \<Rightarrow> u32 \<Rightarrow> u32 \<Rightarrow> (u32 \<times> ('z send_state_scheme \<Rightarrow> 'z send_state_scheme)) list \<Rightarrow>
   packet_buffer \<Rightarrow> 'z send_state_scheme \<Rightarrow> ((ptr option \<times> packet_buffer) \<times> 'z send_state_scheme) res" where
  "make_request r rnd sending_turns start timeout_ms turns pb s =
     rbind (construct_request_sent (rt_dest r) s)
       (\<lambda>(q, s1). rbind (send_packet r rnd (packet_size pb) (Some q) None sending_turns pb s1)
       (\<lambda>(pb1, s2). rbind (check_response (rt_seed r) start timeout_ms q turns s2)
       (\<lambda>(pd, s3). Inr ((pd, pb1), s3))))"

text \<open>A response goes out under the id of the request it answers.\<close>

definition make_response ::
  "route \<Rightarrow> ptr \<Rightarrow> (conn_state \<Rightarrow> conn_state) list \<Rightarrow> packet_buffer \<Rightarrow> conn_state \<Rightarrow> (packet_buffer \<times> conn_state) res" where
  "make_response r pd sending_turns pb s =
     (case packet_data_at s pd of
        None \<Rightarrow> Inl Null_Deref
      | Some d \<Rightarrow> send_packet r 0 (packet_size pb) None (Some (md_packet_id d)) sending_turns pb s)"

section \<open>The calls of the API\<close>

definition with_client :: "(client_connection \<Rightarrow> conn_state \<Rightarrow> ('a \<times> conn_state) res) \<Rightarrow> ptr \<Rightarrow> library \<Rightarrow> ('a \<times> library) res" where
  "with_client f p l =
     (case client_at l p of
        None \<Rightarrow> Inl Null_Deref
      | Some cc \<Rightarrow>
          rbind (f cc (lend (cc_pool cc) l (cc_state cc)))
            (\<lambda>(x, s). Inr (x, (reclaim s l)\<lparr>client_at := (client_at l)(p \<mapsto> cc\<lparr>cc_state := s, cc_pool := pool (s_env s)\<rparr>)\<rparr>)))"

definition with_server :: "(server \<Rightarrow> conn_state \<Rightarrow> ('a \<times> conn_state) res) \<Rightarrow> ptr \<Rightarrow> library \<Rightarrow> ('a \<times> library) res" where
  "with_server f p l =
     (case server_at l p of
        None \<Rightarrow> Inl Null_Deref
      | Some sv \<Rightarrow>
          rbind (f sv (lend (sv_pool sv) l (sv_state sv)))
            (\<lambda>(x, s). Inr (x, (reclaim s l)\<lparr>server_at := (server_at l)(p \<mapsto> sv\<lparr>sv_state := s, sv_pool := pool (s_env s)\<rparr>)\<rparr>)))"

definition client_send_packet :: "ptr \<Rightarrow> u16 \<Rightarrow> u32 \<Rightarrow> (conn_state \<Rightarrow> conn_state) list \<Rightarrow> packet_buffer \<Rightarrow> library \<Rightarrow> (packet_buffer \<times> library) res" where
  "client_send_packet p rnd len others pb l = with_client (\<lambda>cc. send_packet (client_route l cc) rnd len None None others pb) p l"

definition server_send_packet ::
  "ptr \<Rightarrow> client_addr_data \<Rightarrow> u16 \<Rightarrow> u32 \<Rightarrow> (conn_state \<Rightarrow> conn_state) list \<Rightarrow> packet_buffer \<Rightarrow> library \<Rightarrow> (packet_buffer \<times> library) res" where
  "server_send_packet p target rnd len others pb l = with_server (\<lambda>sv. send_packet (server_send_route l sv target) rnd len None None others pb) p l"

definition client_make_request ::
  "ptr \<Rightarrow> u16 \<Rightarrow> (conn_state \<Rightarrow> conn_state) list \<Rightarrow> u32 \<Rightarrow> u32 \<Rightarrow> (u32 \<times> (conn_state \<Rightarrow> conn_state)) list \<Rightarrow> packet_buffer \<Rightarrow> library \<Rightarrow>
   ((ptr option \<times> packet_buffer) \<times> library) res" where
  "client_make_request p rnd sending_turns start timeout_ms turns pb l =
     with_client (\<lambda>cc. make_request (client_route l cc) rnd sending_turns start timeout_ms turns pb) p l"

definition server_make_request ::
  "ptr \<Rightarrow> client_addr_data \<Rightarrow> u16 \<Rightarrow> (conn_state \<Rightarrow> conn_state) list \<Rightarrow> u32 \<Rightarrow> u32 \<Rightarrow> (u32 \<times> (conn_state \<Rightarrow> conn_state)) list \<Rightarrow> packet_buffer \<Rightarrow> library \<Rightarrow>
   ((ptr option \<times> packet_buffer) \<times> library) res" where
  "server_make_request p addr_data rnd sending_turns start timeout_ms turns pb l =
     with_server (\<lambda>sv. make_request (server_route l sv addr_data) rnd sending_turns start timeout_ms turns pb) p l"

definition client_make_response :: "ptr \<Rightarrow> ptr \<Rightarrow> (conn_state \<Rightarrow> conn_state) list \<Rightarrow> packet_buffer \<Rightarrow> library \<Rightarrow> (packet_buffer \<times> library) res" where
  "client_make_response p pd others pb l = with_client (\<lambda>cc. make_response (client_route l cc) pd others pb) p l"

text \<open>The server answers to the port the request came from, at the address it has noted for its sender.\<close>

definition server_make_response :: "ptr \<Rightarrow> ptr \<Rightarrow> (conn_state \<Rightarrow> conn_state) list \<Rightarrow> packet_buffer \<Rightarrow> library \<Rightarrow> (packet_buffer \<times> library) res" where
  "server_make_response p pd others pb l =
     with_server (\<lambda>sv s. case Option.bind (packet_data_at s pd) (\<lambda>d. map_option (\<lambda>a. (a, source_port (md_ports d))) (md_sender d)) of
        None \<Rightarrow> Inl Null_Deref
      | Some (target, port) \<Rightarrow> make_response (server_route l sv (target\<lparr>sender_port := port\<rparr>)) pd others pb s) p l"

section \<open>Sending a request\<close>

lemma request_sent_single:
  assumes "link_ok (rt_net r) (rt_eth r)" and "packet_data_start pb = DATA_START" and "packet_append_pointer pb = DATA_START + length msg"
    and "seg DATA_START (length msg) (pb_mem pb) = msg" and "DATA_START + length msg \<le> length (pb_mem pb)" and "length msg + DATA_START < 2 ^ 16"
    and "44 < unat (rt_mtu r)" and "length msg \<le> unat (rt_mtu r)" and "register_request (rt_seed r) (case resp of Some i \<Rightarrow> i | None \<Rightarrow> rnd) q s = Inr s1"
  shows "\<exists>pb'. send_packet r rnd (packet_size pb) q resp others pb s =
    Inr (pb', emit (whole_frame r (case resp of Some i \<Rightarrow> i | None \<Rightarrow> rnd)
      (case resp of Some _ \<Rightarrow> RESPONSE | None \<Rightarrow> (if q = None then MESSAGE else REQUEST)) msg) s1)"
proof -
  have len: "packet_size pb = of_nat (length msg)" "unat (packet_size pb) = length msg" using assms(2,3,6) by (simp_all add: packet_size_def unat_of_nat)
  have "\<not> ucast (rt_mtu r) < packet_size pb"
    using assms(8) len(2) unsigned_less [of "rt_mtu r", where ?'a = nat] by (simp add: word_less_nat_alt unsigned_ucast_eq take_bit_nat_eq_self)
  then have "send_packet r rnd (packet_size pb) q resp others pb s =
      send_single r (case resp of Some i \<Rightarrow> i | None \<Rightarrow> rnd) (packet_size pb) (case resp of Some _ \<Rightarrow> RESPONSE | None \<Rightarrow> (if q = None then MESSAGE else REQUEST)) pb s1"
    using count_chunks_ok [OF assms(7)] assms(9) by (simp add: send_packet_def Let_def)
  moreover have "\<exists>pb'. send_single r i (packet_size pb) ty pb s1 = Inr (pb', emit (whole_frame r i ty msg) s1)" for i ty
    using send_single_frame [OF assms(1,2), of "packet_size pb" i ty s1, unfolded len(2)] assms(4-6) len(1) by (auto simp: whole_frame_def)
  ultimately show ?thesis by (simp only:)
qed


text \<open>What a request needs: its record, its entry in the table of requests.\<close>

definition request_room :: "u64 \<Rightarrow> 'z send_state_scheme \<Rightarrow> bool" where
  "request_room seed s \<longleftrightarrow> hm_ok seed (requests_sent s) (s_env s) \<and> key_memory_allocator (requests_sent s) = Some Uint16_pool \<and>
     hm_size (requests_sent s) + 1 < hm_capacity (requests_sent s) \<and> 0 < pool_avail (s_env s) Requests_sent_pool \<and>
     0 < pool_avail (s_env s) Uint16_pool \<and> 0 < pool_avail (s_env s) Hashmap_item_pool"

text \<open>A request on its way: its record \<open>q\<close> is the last entry under its id.\<close>

definition requesting :: "u64 \<Rightarrow> u16 \<Rightarrow> u32 \<Rightarrow> ptr \<Rightarrow> 'z send_state_scheme \<Rightarrow> 'z send_state_scheme \<Rightarrow> bool" where
  "requesting seed i dst q s s' \<longleftrightarrow> (\<exists>e hm. s' = s\<lparr>s_env := e, requests_sent := hm, request_at := (request_at s)(q \<mapsto>
       \<lparr>request_packet_data = None, request_address = dst, request_packet_id = i\<rparr>)\<rparr>) \<and>
     hm_ok seed (requests_sent s') (s_env s') \<and> key_memory_allocator (requests_sent s') = Some Uint16_pool \<and>
     hm_abs (requests_sent s') = (hm_abs (requests_sent s))(le_bytes 2 i := hm_abs (requests_sent s) (le_bytes 2 i) @ [q]) \<and>
     env_grows (s_env s) (s_env s') \<and> same_except {Requests_sent_pool, Uint16_pool, Hashmap_item_pool} (s_env s) (s_env s') \<and>
     q \<notin> pool_live (s_env s) Requests_sent_pool \<and> pool_live (s_env s') Requests_sent_pool = insert q (pool_live (s_env s) Requests_sent_pool) \<and>
     pool_avail (s_env s) Uint16_pool = Suc (pool_avail (s_env s') Uint16_pool) \<and>
     pool_avail (s_env s) Hashmap_item_pool \<le> Suc (pool_avail (s_env s') Hashmap_item_pool)"

lemma request_entered:
  assumes "request_room seed s"
  obtains q s1 s2 where "construct_request_sent dst s = Inr (q, s1)" and "register_request seed i (Some q) s1 = Inr s2" and "requesting seed i dst q s s2"
proof -
  note rm = assms [unfolded request_room_def]
  have env: "env_ok (s_env s)" "0 < pool_avail (s_env s) Requests_sent_pool" using rm by (simp_all add: hm_ok_def)
  obtain q e where 1: "pool_allocate Requests_sent_pool (s_env s) = Inr (q, e)" "env_grows (s_env s) e" "q \<notin> pool_live (s_env s) Requests_sent_pool"
    "q \<in> pool_live e Requests_sent_pool" "Suc (pool_avail e Requests_sent_pool) = pool_avail (s_env s) Requests_sent_pool"
    "same_except {Requests_sent_pool} (s_env s) e" "pool_live e Requests_sent_pool = insert q (pool_live (s_env s) Requests_sent_pool)" by (rule take_item [OF env])
  let ?x = "\<lparr>request_packet_data = None, request_address = dst, request_packet_id = 0\<rparr>"
  let ?s1 = "s\<lparr>s_env := e, request_at := (request_at s)(q \<mapsto> ?x)\<rparr>"
  have ok: "hm_ok seed (requests_sent s) e" using hm_ok_grows [OF _ 1(2)] rm by blast
  have k: "length (le_bytes 2 i) = unat (2 :: u32)" by simp
  have r: "key_memory_allocator (requests_sent s) = Some Uint16_pool" "hm_size (requests_sent s) + 1 < hm_capacity (requests_sent s)"
    "0 < pool_avail e Uint16_pool" "0 < pool_avail e Hashmap_item_pool" using rm 1(6) by (simp_all add: same_except_def)
  obtain key e1 hm e2 where 2: "pool_allocate Uint16_pool e = Inr (key, e1)" "hashmap_insert seed key (le_bytes 2 i) 2 (Some q) (requests_sent s) e1 = Inr (hm, e2)"
    "hm_ok seed hm e2" "hm_abs hm = (hm_abs (requests_sent s))(le_bytes 2 i := hm_abs (requests_sent s) (le_bytes 2 i) @ [q])" "env_grows e e2"
    "same_except {Uint16_pool, Hashmap_item_pool} e e2" "key_memory_allocator hm = Some Uint16_pool"
    "pool_avail e Hashmap_item_pool \<le> Suc (pool_avail e2 Hashmap_item_pool)" "hm_capacity hm = hm_capacity (requests_sent s)"
    "hm_size hm = hm_size (requests_sent s) + 1" "pool_avail e Uint16_pool = Suc (pool_avail e2 Uint16_pool)"
    by (rule enter_key [OF ok r(1) k r(2-4)])
  let ?s2 = "s\<lparr>s_env := e2, requests_sent := hm, request_at := (request_at s)(q \<mapsto> ?x\<lparr>request_packet_id := i\<rparr>)\<rparr>"
  have "construct_request_sent dst s = Inr (q, ?s1)" using 1(1) by (simp add: construct_request_sent_def)
  moreover have "register_request seed i (Some q) ?s1 = Inr ?s2" using 2(1,2) by (simp add: register_request_def)
  moreover have "requesting seed i dst q s ?s2"
    unfolding requesting_def using 1(3,6,7) 2 env_grows_trans [OF 1(2) 2(5)]
    by (intro conjI exI [of _ e2] exI [of _ hm]) (simp_all add: same_except_def)
  ultimately show ?thesis by (rule that)
qed


section \<open>Receiving the response\<close>

lemma took_frame_grows: "took_frame b node e e' \<Longrightarrow> env_grows e e'"
  unfolding took_frame_def env_grows_def same_except_def by (metis insertCI insertE order.refl subset_insertI singletonD)

lemma receive_response:
  assumes "conn_ok c B s" and "data_frame c B link ip info d" and "ip_id ip = i" and "source_port (ports info) = port"
    and "hm_abs (pending_messages s) (conn_key port i) = []" and "hm_abs (packets_completed s) (conn_key port i) = []"
    and "packet_length info \<le> ucast (chunk_size (min_mtu (pi_mtu info) (cf_globals c)))" and "packet_type info = RESPONSE"
    and "packet_length info = of_nat (length d)" and "length d < 2 ^ 32" and "complete_room s" and "0 < pool_avail (s_env s) (packet_data_pool (cf_type c))"
    and "hm_ok (cf_seed c) (requests_sent s) (s_env s)" and "key_memory_allocator (requests_sent s) = Some Uint16_pool"
    and "first_of (hm_abs (requests_sent s) (le_bytes 2 i)) = Some q" and "request_at s q = Some x"
  shows "\<exists>s' pd. receive_frame c r (frame link ip info d) s = Inr s' \<and> request_at s' = (request_at s)(q \<mapsto> x\<lparr>request_packet_data := Some pd\<rparr>) \<and>
     hm_abs (requests_sent s') = (hm_abs (requests_sent s))(le_bytes 2 i := tl (hm_abs (requests_sent s) (le_bytes 2 i))) \<and>
     packet_bytes c s' pd = Some d \<and> env_ok (s_env s') \<and> pool (s_env s') Requests_sent_pool = pool (s_env s) Requests_sent_pool \<and> wire s' = wire s"
proof -
  let ?at = "\<lambda>b. b + cf_prepend c + PACKET_HEADER_SIZE" let ?dp = "packet_data_pool (cf_type c)"
  have dp: "?dp \<notin> {Packets_completed_pool, Uint16_pool, Packet_completed_key_pool, Hashmap_item_pool, Packet_buffer_pool, Packet_queue_node_pool, Requests_sent_pool}"
    using packet_data_pool_cases [of "cf_type c"] by auto
  obtain b node e nodes buf where 1: "took_frame b node (s_env s) e" "length buf = B"
    "seg (cf_prepend c + PACKET_HEADER_SIZE) (length d) buf = d"
    "receive_frame c r (frame link ip info d) s =
      rbind (process_data c ip info b buf (s\<lparr>s_env := e, frame_queue := empty_queue, frame_nodes := nodes, buffer_at := (buffer_at s)(b := buf)\<rparr>))
        (free_node node)" by (rule receive_data_frame [OF assms(1,2)])
  define s1 where "s1 = s\<lparr>s_env := e, frame_queue := empty_queue, frame_nodes := nodes, buffer_at := (buffer_at s)(b := buf)\<rparr>"
  have eq: "pool e y = pool (s_env s) y" if "y \<noteq> Packet_buffer_pool" "y \<noteq> Packet_queue_node_pool" for y
    using 1(1) that by (auto simp: took_frame_def same_except_def)
  have c1: "hm_ok (cf_seed c) (packets_completed s1) (s_env s1)" "key_memory_allocator (packets_completed s1) = Some Packet_completed_key_pool"
    using hm_ok_took_frame(2) [OF assms(1) 1(1)] assms(1) by (simp_all add: s1_def conn_ok_def)
  have r1: "complete_room s1" using assms(11) eq by (simp add: complete_room_def s1_def)
  obtain e2 hm item where 2: "packet_completed c i port s1 = Inr (s1\<lparr>s_env := e2, packets_completed := hm,
       completed_at := (completed_at s1)(item \<mapsto> \<lparr>completed_packet_id = i, marked_cleanup = False\<rparr>)\<rparr>)" "hm_ok (cf_seed c) hm e2"
    "hm_abs hm = (hm_abs (packets_completed s1))(conn_key port i := hm_abs (packets_completed s1) (conn_key port i) @ [item])"
    "key_memory_allocator hm = Some Packet_completed_key_pool" "env_grows (s_env s1) e2"
    "same_except {Packets_completed_pool, Uint16_pool, Packet_completed_key_pool, Hashmap_item_pool} (s_env s1) e2"
    by (rule packet_completed_ok [OF c1 r1(1)])
  have p2: "pool e2 j = pool (s_env s) j" if "j \<notin> {Packets_completed_pool, Uint16_pool, Packet_completed_key_pool, Hashmap_item_pool, Packet_buffer_pool, Packet_queue_node_pool}" for j
    using 2(6) eq that by (simp add: same_except_def s1_def)
  have ok2: "env_ok e2" "0 < pool_avail e2 ?dp" using 2(5) p2 dp assms(12) by (simp_all add: env_grows_def)
  obtain pd e3 where 3: "pool_allocate ?dp e2 = Inr (pd, e3)" "env_grows e2 e3" "same_except {?dp} e2 e3" using take_item [OF ok2] by metis
  have g: "env_grows (s_env s) e3" using env_grows_trans [OF env_grows_trans [OF took_frame_grows [OF 1(1)]]] 2(5) 3(2) by (simp add: s1_def)
  have k: "length (le_bytes 2 i) = unat (2 :: u32)" by simp
  have okr: "hm_ok (cf_seed c) (requests_sent s) e3" by (rule hm_ok_grows [OF assms(13) g])
  obtain hr e4 where 4: "hashmap_remove (cf_seed c) (le_bytes 2 i) 2 (requests_sent s) e3 = Inr (hr, e4)" "hm_ok (cf_seed c) hr e4"
    "hm_abs hr = (hm_abs (requests_sent s))(le_bytes 2 i := tl (hm_abs (requests_sent s) (le_bytes 2 i)))" using hashmap_remove_ok [OF okr k] by blast
  have p4: "pool e4 j = pool e3 j" if "j \<noteq> Hashmap_item_pool" "j \<noteq> Uint16_pool" for j by (rule hashmap_remove_frame [OF 4(1) that(1)]) (use assms(14) that in simp)
  have get: "hashmap_get (cf_seed c) (le_bytes 2 i) 2 (requests_sent s) = Inr (Some q)"
    using hashmap_get_abs [OF _ k, of "cf_seed c" "requests_sent s"] assms(13,15) unfolding hm_ok_def by simp
  let ?d = "\<lparr>internal_pending_message = None, pd_data = ?at b, current_pointer = ?at b, md_sender = (if cf_type c = CONNECTION_TYPE_SERVER then Some (sender_of c info) else None),
      md_data_length = packet_length info, md_ports = ports info, md_packet_id = i, expecting_response = (packet_type info = REQUEST)\<rparr>"
  define s4 where "s4 = s1\<lparr>s_env := e4, packets_completed := hm, completed_at := (completed_at s1)(item \<mapsto> \<lparr>completed_packet_id = i, marked_cleanup = False\<rparr>),
      packet_data_at := (packet_data_at s)(pd \<mapsto> ?d), request_at := (request_at s)(q \<mapsto> x\<lparr>request_packet_data := Some pd\<rparr>), requests_sent := hr\<rparr>"
  have "\<not> ucast (chunk_size (min_mtu (pi_mtu info) (cf_globals c))) < packet_length info" using assms(7) by simp
  then have run: "process_data c ip info b buf s1 = Inr s4"
    using 2(1) 3(1) 4(1) get conn_ok_lookup [OF assms(1), of s1 i port] assms(3-6,8,16)
    by (simp add: process_data_def deliver_def handle_request_response_def first_of_def s4_def s1_def)
  have env4: "env_ok e4" using 4(2) by (simp add: hm_ok_def)
  have "node \<in> pool_live e Packet_queue_node_pool" using 1(1) by (simp add: took_frame_def)
  then have nd: "node \<in> pool_live e4 Packet_queue_node_pool" using env_grows_trans [OF 2(5) 3(2)] p4 [of Packet_queue_node_pool] by (auto simp: env_grows_def s1_def)
  from pool_free_ok [OF env4 nd] obtain e5 where 5: "pool_free Packet_queue_node_pool node e4 = Inr e5" "env_ok e5" "same_except {Packet_queue_node_pool} e4 e5" by blast
  let ?s = "s4\<lparr>s_env := e5\<rparr>"
  have rf: "receive_frame c r (frame link ip info d) s = Inr ?s" using 1(4) run 5(1) by (simp add: s1_def free_node_def s4_def)
  have "pool e5 Requests_sent_pool = pool (s_env s) Requests_sent_pool" using 5(3) p4 [of Requests_sent_pool] 3(3) dp p2 [of Requests_sent_pool] by (auto simp: same_except_def)
  moreover have "packet_bytes c ?s pd = Some d" using 1(3) assms(9,10) by (simp add: packet_bytes_def s4_def s1_def unat_of_nat)
  ultimately show ?thesis using rf 4(3) 5(2) by (intro exI [of _ ?s] exI [of _ pd]) (simp add: s4_def s1_def)
qed


section \<open>Properties\<close>

text \<open>The other side sends a response, and its frame reaches the one who asked.\<close>

definition response_arrives ::
  "conn_cfg \<Rightarrow> u16 \<Rightarrow> route \<Rightarrow> ptr \<Rightarrow> packet_buffer \<Rightarrow> conn_state \<Rightarrow> conn_state \<Rightarrow> conn_state" where
  "response_arrives c rnd r pd pb t s =
     (case rbind (make_response r pd [] pb t) (\<lambda>(_, t'). receive_frame c rnd (last (wire t')) s) of Inl _ \<Rightarrow> s | Inr s' \<Rightarrow> s')"

text \<open>A buffer that holds a message to be sent in one frame.\<close>

definition holds :: "u8 list \<Rightarrow> u16 \<Rightarrow> packet_buffer \<Rightarrow> bool" where
  "holds msg mtu pb \<longleftrightarrow> packet_data_start pb = DATA_START \<and> packet_append_pointer pb = DATA_START + length msg \<and>
     seg DATA_START (length msg) (pb_mem pb) = msg \<and> DATA_START + length msg \<le> length (pb_mem pb) \<and> length msg + DATA_START < 2 ^ 16 \<and>
     44 < unat mtu \<and> length msg \<le> unat mtu - 44"

lemma whole_frame_sent:
  assumes "link_ok (rt_net r) (rt_eth r)" and "holds msg (rt_mtu r) pb" and "register_request (rt_seed r) (case resp of Some i \<Rightarrow> i | None \<Rightarrow> rnd) q s = Inr s1"
  shows "\<exists>pb'. send_packet r rnd (packet_size pb) q resp others pb s =
    Inr (pb', emit (whole_frame r (case resp of Some i \<Rightarrow> i | None \<Rightarrow> rnd)
      (case resp of Some _ \<Rightarrow> RESPONSE | None \<Rightarrow> (if q = None then MESSAGE else REQUEST)) msg) s1)"
proof -
  have "length msg \<le> unat (rt_mtu r)" using assms(2) unfolding holds_def by linarith
  with assms(2) [unfolded holds_def] have "packet_data_start pb = DATA_START" "packet_append_pointer pb = DATA_START + length msg" "seg DATA_START (length msg) (pb_mem pb) = msg"
    "DATA_START + length msg \<le> length (pb_mem pb)" "length msg + DATA_START < 2 ^ 16" "44 < unat (rt_mtu r)" "length msg \<le> unat (rt_mtu r)" by blast+
  from request_sent_single [OF assms(1) this assms(3)] show ?thesis .
qed

lemma response_frame:
  assumes "leads_to r c B" and "holds d (rt_mtu r) pb"
  shows "data_frame c B (link_bytes (rt_net r) (rt_eth r)) (construct_ip_header (rt_globals r) (rt_dest r) (of_nat (PACKET_HEADER_SIZE + length d)) i)
      (sealed (construct_packet_info (rt_globals r) (of_nat (length d)) RESPONSE 1 0 (rt_ports r)) d) d"
    and "of_nat (length d) \<le> (ucast (chunk_size (min_mtu (maximum_transmission_unit (rt_globals r)) (cf_globals c))) :: u32)"
proof -
  have m: "44 < unat (rt_mtu r)" "cf_prepend c + unat (rt_mtu r) \<le> B" "min_mtu (maximum_transmission_unit (rt_globals r)) (cf_globals c) = rt_mtu r"
    using assms(1) by (simp_all add: leads_to_def)
  have d: "length d \<le> unat (rt_mtu r) - 44" "length d < 2 ^ 16" using assms(2) by (simp_all add: holds_def)
  then have "cf_prepend c + PACKET_HEADER_SIZE + length d \<le> B" using m(1,2) by linarith
  then show "data_frame c B (link_bytes (rt_net r) (rt_eth r)) (construct_ip_header (rt_globals r) (rt_dest r) (of_nat (PACKET_HEADER_SIZE + length d)) i)
      (sealed (construct_packet_info (rt_globals r) (of_nat (length d)) RESPONSE 1 0 (rt_ports r)) d) d"
    using assms(1) by (simp add: data_frame_def addressed_def leads_to_def construct_ip_header_def sealed_def construct_packet_info_def)
  show "of_nat (length d) \<le> (ucast (chunk_size (min_mtu (maximum_transmission_unit (rt_globals r)) (cf_globals c))) :: u32)"
    unfolding m(3) word_le_nat_alt using chunk_size_u32 [OF m(1)] d by (simp add: unat_of_nat)
qed

text \<open>The response reaches the record of the request it answers.\<close>

lemma response_taken:
  assumes "requesting (rt_seed r) rnd (rt_dest r) q s s2" and "hm_abs (requests_sent s) (le_bytes 2 rnd) = []"
    and "leads_to r' c B" and "holds d (rt_mtu r') pb'" and "packet_data_at t pd' = Some x" and "md_packet_id x = htons rnd"
    and "cf_seed c = rt_seed r" and "recv_ready c B rnd (source_port (rt_ports r')) 0 s" and "1 < pool_avail (s_env s) Uint16_pool"
    and "0 < pool_avail (s_env s) (packet_data_pool (cf_type c))"
  obtains s4 pd where "response_arrives c rid r' pd' pb' t (emit fr s2) = s4"
    and "request_at s4 q = Some \<lparr>request_packet_data = Some pd, request_address = rt_dest r, request_packet_id = rnd\<rparr>"
    and "hm_abs (requests_sent s4) = (hm_abs (requests_sent s2))(le_bytes 2 rnd := tl (hm_abs (requests_sent s2) (le_bytes 2 rnd)))"
    and "packet_bytes c s4 pd = Some d" and "env_ok (s_env s4)" and "pool (s_env s4) Requests_sent_pool = pool (s_env s2) Requests_sent_pool"
    and "wire s4 = wire s2 @ [fr]"
proof -
  note rq = assms(1) [unfolded requesting_def]
  obtain e hm where s2: "s2 = s\<lparr>s_env := e, requests_sent := hm, request_at := (request_at s)(q \<mapsto>
       \<lparr>request_packet_data = None, request_address = rt_dest r, request_packet_id = rnd\<rparr>)\<rparr>" using rq by blast
  let ?s3 = "emit fr s2"
  have "register_request (rt_seed r') (case Some (htons rnd) of Some i \<Rightarrow> i | None \<Rightarrow> 0) None t = Inr t" by (simp add: register_request_def)
  moreover have "link_ok (rt_net r') (rt_eth r')" using assms(3) by (simp add: leads_to_def)
  ultimately obtain pb2 where 3: "make_response r' pd' [] pb' t = Inr (pb2, emit (whole_frame r' (htons rnd) RESPONSE d) t)"
    using whole_frame_sent [OF _ assms(4), where resp = "Some (htons rnd)" and rnd = 0 and q = None and s = t and others = "[]"] assms(5,6) by (auto simp: make_response_def)
  have rd: "conn_ok c B s" "hm_abs (pending_messages s) (conn_key (source_port (rt_ports r')) rnd) = []"
    "hm_abs (packets_completed s) (conn_key (source_port (rt_ports r')) rnd) = []" "complete_room s" "1 < pool_avail (s_env s) Hashmap_item_pool"
    using assms(8) by (simp_all add: recv_ready_def)
  have se: "same_except {Requests_sent_pool, Uint16_pool, Hashmap_item_pool} (s_env s) (s_env s2)" "env_grows (s_env s) (s_env s2)" using rq by blast+
  have ok3: "conn_ok c B ?s3"
    using rd(1) hm_ok_grows [OF _ se(2)] se(1) by (auto simp: conn_ok_def emit_def s2 same_except_def)
  have av: "0 < pool_avail (s_env s2) Uint16_pool" "0 < pool_avail (s_env s2) Hashmap_item_pool" using rq assms(9) rd(5) by linarith+
  then have cr: "complete_room ?s3" using rd(4) se(1) by (auto simp: complete_room_def emit_def s2 same_except_def)
  have dpr: "0 < pool_avail (s_env ?s3) (packet_data_pool (cf_type c))"
    using assms(10) se(1) packet_data_pool_cases [of "cf_type c"] by (auto simp: emit_def same_except_def)
  have fo: "first_of (hm_abs (requests_sent ?s3) (le_bytes 2 rnd)) = Some q" "request_at ?s3 q = Some \<lparr>request_packet_data = None, request_address = rt_dest r, request_packet_id = rnd\<rparr>"
    "hm_ok (cf_seed c) (requests_sent ?s3) (s_env ?s3)" "key_memory_allocator (requests_sent ?s3) = Some Uint16_pool"
    using rq assms(2,7) by (simp_all add: emit_def first_of_def s2)
  have len: "length d < 2 ^ 32" using assms(4) by (simp add: holds_def)
  let ?pi = "sealed (construct_packet_info (rt_globals r') (of_nat (length d)) RESPONSE 1 0 (rt_ports r')) d"
  let ?ip = "construct_ip_header (rt_globals r') (rt_dest r') (of_nat (PACKET_HEADER_SIZE + length d)) (htons rnd)"
  have f: "ip_id ?ip = rnd" "source_port (ports ?pi) = source_port (rt_ports r')" "packet_type ?pi = RESPONSE" "packet_length ?pi = of_nat (length d)"
    "pi_mtu ?pi = maximum_transmission_unit (rt_globals r')" by (simp_all add: construct_ip_header_def sealed_def construct_packet_info_def)
  have emp: "hm_abs (pending_messages ?s3) (conn_key (source_port (rt_ports r')) rnd) = []" "hm_abs (packets_completed ?s3) (conn_key (source_port (rt_ports r')) rnd) = []"
    using rd(2,3) by (simp_all add: emit_def s2)
  have le: "packet_length ?pi \<le> ucast (chunk_size (min_mtu (pi_mtu ?pi) (cf_globals c)))" using response_frame(2) [OF assms(3,4)] f by simp
  from receive_response [OF ok3 response_frame(1) [OF assms(3,4)] f(1,2) emp le f(3,4) len cr dpr fo(3,4,1,2), of rid] obtain s4 pd where
    4: "receive_frame c rid (whole_frame r' (htons rnd) RESPONSE d) ?s3 = Inr s4"
      "request_at s4 q = Some \<lparr>request_packet_data = Some pd, request_address = rt_dest r, request_packet_id = rnd\<rparr>"
      "hm_abs (requests_sent s4) = (hm_abs (requests_sent ?s3))(le_bytes 2 rnd := tl (hm_abs (requests_sent ?s3) (le_bytes 2 rnd)))"
      "packet_bytes c s4 pd = Some d" "env_ok (s_env s4)" "pool (s_env s4) Requests_sent_pool = pool (s_env ?s3) Requests_sent_pool" "wire s4 = wire ?s3"
    unfolding whole_frame_def by auto
  have arr: "response_arrives c rid r' pd' pb' t ?s3 = s4" using 3 4(1) by (simp add: response_arrives_def emit_def)
  show ?thesis by (rule that [OF arr 4(2)]) (use 4(3-7) in \<open>simp_all add: emit_def\<close>)
qed



text \<open>A connection with an empty table of requests.\<close>

lemma sample_requester:
  "\<exists>s. (\<forall>i port. recv_ready c 100 i port 0 s) \<and> request_room (cf_seed c) s \<and> hm_abs (requests_sent s) = (\<lambda>k. []) \<and> (\<forall>i. pool_avail (s_env s) i = 200)"
proof -
  obtain s where s: "\<forall>i port n. n \<le> 900000 \<longrightarrow> recv_ready c 100 i port n s" "hm_abs (packets_sending s) = (\<lambda>k. [])" "send_ready (cf_seed c) s" "\<forall>i. pool_avail (s_env s) i = 200"
    using sample_conn_ready [of c 100] by blast
  let ?s = "s\<lparr>requests_sent := packets_sending s\<rparr>"
  have "recv_ready c 100 i port 0 ?s" for i port
  proof -
    have "recv_ready c 100 i port 0 s" using s(1) by simp
    then show ?thesis by (simp add: recv_ready_def conn_ok_def pending_room_def complete_room_def)
  qed
  moreover have "request_room (cf_seed c) ?s" using s(3,4) by (simp add: request_room_def send_ready_def)
  ultimately show ?thesis using s(2,4) by (intro exI [of _ ?s]) simp
qed

lemma sample_holds: "length msg \<le> 20 \<Longrightarrow> holds msg (rt_mtu (sample_route loopback)) (sample_pb msg)"
  by (simp add: holds_def sample_route_def seg_def)


lemma unanswered_request:
  assumes "\<forall>t \<in> set ts. \<not> start + timeout_ms < t" and "start + timeout_ms < t1" and "request_at s q = Some x" and "request_packet_data x = None"
  shows "check_response seed start timeout_ms q (map (\<lambda>t. (t, id)) ts @ [(t1, others)]) s = rbind (delete_request_sent seed q s) (\<lambda>s1. Inr (None, s1))"
  using assms(1)
proof (induction ts)
  case (Cons t ts)
  then show ?case using assms(3,4) by (simp add: id_def)
qed (use assms(2) in simp)



end
