(* ===== verification/Swift_Library.thy ===== *)
theory Swift_Library
  imports Swift_Requests "HOL-Library.Multiset"
begin

text \<open>
  The beginning and the end of the library: \<open>src/initialize_swiftnet.c\<close> with
  \<open>src/internal/get_default_interface_and_mac.c\<close> and \<open>src/internal/get_mtu.c\<close>,
  \<open>src/cleanup_swiftnet.c\<close>, and the service of
  \<open>src/memory_cleanup_background_service.c\<close> in between. What the operating system answers
  is an argument, a record with one field per system call; so are the sizes of the two
  structures that contain types of the thread library.
\<close>

section \<open>The default interface\<close>

text \<open>
  The list \<open>getifaddrs\<close> returns. Of an address the code looks at the family, at the IP
  address of \<open>AF_INET\<close>, and at \<open>sll_halen\<close> and \<open>sll_addr\<close> of \<open>AF_PACKET\<close>; the eight bytes of
  the latter are kept in one word. A name is its bytes without the terminating zero.
\<close>

datatype if_address = AF_INET u32 | AF_PACKET u8 u64 | AF_other

record ifaddrs =
  ifa_name :: "u8 list"
  ifa_addr :: "if_address option"

text \<open>
  The first loop compares the printed addresses, which are equal exactly when the addresses
  are.
\<close>

fun find_match :: "u32 \<Rightarrow> ifaddrs list \<Rightarrow> ifaddrs option" where
  "find_match local_ip [] = None"
| "find_match local_ip (ifa # rest) =
     (case ifa_addr ifa of
        Some (AF_INET ip) \<Rightarrow> if local_ip = ip then Some ifa else find_match local_ip rest
      | _ \<Rightarrow> find_match local_ip rest)"

fun find_mac :: "u8 list \<Rightarrow> ifaddrs list \<Rightarrow> u8 list option" where
  "find_mac name [] = None"
| "find_mac name (ifa # rest) =
     (case ifa_addr ifa of
        None \<Rightarrow> find_mac name rest
      | Some a \<Rightarrow>
          if ifa_name ifa \<noteq> name then find_mac name rest
          else (case a of
                  AF_PACKET sll_halen sll_addr \<Rightarrow> if sll_halen = 6 then Some (take 6 (le_bytes 8 sll_addr)) else find_mac name rest
                | _ \<Rightarrow> find_mac name rest))"

text \<open>\<open>None\<close> is the return value -1. \<open>strncpy\<close> cuts the name to fit with its zero.\<close>

definition get_default_interface_and_mac :: "nat \<Rightarrow> u32 option \<Rightarrow> ifaddrs list option \<Rightarrow> (u8 list \<times> u8 list) option" where
  "get_default_interface_and_mac interface_name_length sockname ifs =
     (case sockname of
        None \<Rightarrow> None
      | Some local_ip \<Rightarrow>
          (case ifs of
             None \<Rightarrow> None
           | Some list \<Rightarrow>
               (case find_match local_ip list of
                  None \<Rightarrow> None
                | Some ifa \<Rightarrow>
                    let name = take (interface_name_length - 1) (ifa_name ifa)
                    in map_option (Pair name) (find_mac name list))))"

definition get_mtu :: "(u8 list \<Rightarrow> u32 option) \<Rightarrow> u8 list \<Rightarrow> u16 res" where
  "get_mtu ioctl_mtu interface =
     (case ioctl_mtu (take (IFNAMSIZ - 1) interface) of None \<Rightarrow> Inl Exit_Failure | Some ifr_mtu \<Rightarrow> Inr (ucast ifr_mtu))"

section \<open>Initialisation\<close>

text \<open>
  The answers of the system: \<open>rand\<close>, whether \<open>socket\<close> and \<open>connect\<close> succeed, the address
  \<open>getsockname\<close> gives (the code asks twice, for the same socket), the interfaces, the MTU of
  an interface, the contents of fresh memory, and \<open>sizeof\<close> of the server and of the client.
\<close>

record system =
  sys_rand :: u64
  sys_socket :: bool
  sys_connect :: bool
  sys_sockname :: "u32 option"
  sys_ifaddrs :: "ifaddrs list option"
  sys_mtu :: "u8 list \<Rightarrow> u32 option"
  sys_memory :: "ptr \<Rightarrow> nat \<Rightarrow> u8"
  sizeof_server :: u32
  sizeof_client :: u32

definition library_pools :: "system \<Rightarrow> u16 \<Rightarrow> (pool_id \<times> u32 \<times> u32) list" where
  "library_pools os mtu =
     [(Packet_queue_node_pool, 24, 200), (Packet_callback_queue_node_pool, 32, 200), (Server_packet_data_pool, 56, 200),
      (Client_packet_data_pool, 40, 200), (Packet_buffer_pool, ucast mtu + 14, 200), (Server_pool, sizeof_server os, 10),
      (Client_connection_pool, sizeof_client os, 10), (Listener_pool, 128, 200), (Hashmap_item_pool, 32, 1275),
      (Uint16_pool, 2, 1275), (Pending_message_key_pool, 4, 1275), (Packet_completed_key_pool, 4, 1275), (Requests_sent_pool, 16, 200)]"

fun create_pools :: "(pool_id \<times> u32 \<times> u32) list \<Rightarrow> env \<Rightarrow> env res" where
  "create_pools [] e = Inr e"
| "create_pools ((i, item_size, amount) # ps) e = rbind (pool_create i item_size amount e) (create_pools ps)"

text \<open>
  The allocators before their creation: zero. The places of the pools that belong to
  connections mean nothing in the library's own memory; once the others are there they
  repeat one of them.
\<close>

definition zero_allocator :: mem_allocator where
  "zero_allocator = \<lparr>al_occupied = 0, al_stacks = [], al_stacks_allocated = 0, al_item_size = 0, al_chunk_item_amount = 0, al_creating_stack = 0\<rparr>"

definition initialize_allocators :: "system \<Rightarrow> u16 \<Rightarrow> heap \<Rightarrow> env res" where
  "initialize_allocators os mtu h =
     rbind (create_pools (library_pools os mtu) \<lparr>c_heap = h, pool = \<lambda>i. zero_allocator\<rparr>)
       (\<lambda>e. Inr (e\<lparr>pool := \<lambda>i. if i \<in> connection_pools then pool e Requests_sent_pool else pool e i\<rparr>))"

definition initialize_vectors :: "env \<Rightarrow> ptr hashmap \<times> ptr hashmap \<times> env" where
  "initialize_vectors e =
     (case hashmap_create (Some Uint16_pool) e of (rq, e1) \<Rightarrow>
        (case hashmap_create None e1 of (ls, e2) \<Rightarrow> (rq, ls, e2)))"

definition swiftnet_initialize :: "system \<Rightarrow> heap \<Rightarrow> library res" where
  "swiftnet_initialize os h =
     (if \<not> sys_socket os then Inl Exit_Failure
      else if \<not> sys_connect os then Inl Exit_Failure
      else case sys_sockname os of
        None \<Rightarrow> Inl Exit_Failure
      | Some ip \<Rightarrow>
          (case get_default_interface_and_mac IFNAMSIZ (sys_sockname os) (sys_ifaddrs os) of
             None \<Rightarrow> Inl Exit_Failure
           | Some (name, mac) \<Rightarrow>
               rbind (get_mtu (sys_mtu os) name)
                 (\<lambda>mtu. if mtu = 0 then Inl Exit_Failure
                    else rbind (initialize_allocators os mtu h)
                      (\<lambda>e. case initialize_vectors e of (rq, ls, e2) \<Rightarrow>
                         Inr \<lparr>lib_env = e2, lib_seed = sys_rand os, lib_globals = \<lparr>maximum_transmission_unit = mtu, private_ip_address = ip\<rparr>,
                              mac_address = mac, default_network_interface = name, lib_requests_sent = rq, lib_request_at = Map.empty,
                              lib_buffer_at = (\<lambda>b. map (sys_memory os b) [0..<unat mtu + 14]), listeners = ls, listener_at = Map.empty,
                              client_at = Map.empty, server_at = Map.empty, swiftnet_closing = False,
                              lib_leaks = \<lparr>items_leaked = 0, bytes_leaked = 0\<rparr>\<rparr>))))"

section \<open>Iterating over a table\<close>

text \<open>
  \<open>LOOP_HASHMAP\<close> with its body. The table is looked at anew after every run of the body,
  which may change it: \<open>tab\<close> finds it in the state. An item of a bucket is the head or a
  node of the chain; the next one is read after the body has run.
\<close>

fun item_at :: "'v hm_bucket \<Rightarrow> ptr option \<Rightarrow> 'v hm_item option" where
  "item_at b None = Some (fst b)"
| "item_at b (Some p) = map_of (snd b) p"

fun next_node :: "(ptr \<times> 'v hm_item) list \<Rightarrow> ptr \<Rightarrow> ptr option" where
  "next_node [] p = None"
| "next_node (n # cs) p = (if fst n = p then map_option fst (case cs of [] \<Rightarrow> None | c # _ \<Rightarrow> Some c) else next_node cs p)"

fun next_item :: "'v hm_bucket \<Rightarrow> ptr option \<Rightarrow> ptr option" where
  "next_item b None = (case snd b of [] \<Rightarrow> None | n # _ \<Rightarrow> Some (fst n))"
| "next_item b (Some p) = next_node (snd b) p"

definition bucket_at :: "('s \<Rightarrow> 'v hashmap option) \<Rightarrow> nat \<Rightarrow> 's \<Rightarrow> 'v hm_bucket res" where
  "bucket_at tab slot s =
     (case tab s of
        None \<Rightarrow> Inl Null_Deref
      | Some hm \<Rightarrow> if length (hm_items hm) \<le> slot then Inl Out_Of_Bounds else Inr (hm_items hm ! slot))"

primrec loop_items :: "nat \<Rightarrow> ('s \<Rightarrow> 'v hashmap option) \<Rightarrow> ('v hm_item \<Rightarrow> 's \<Rightarrow> 's res) \<Rightarrow> nat \<Rightarrow> ptr option \<Rightarrow> 's \<Rightarrow> 's res" where
  "loop_items 0 tab body slot at s = Inl Stuck"
| "loop_items (Suc fuel) tab body slot at s =
     rbind (bucket_at tab slot s)
       (\<lambda>b. case item_at b at of
          None \<Rightarrow> Inl Null_Deref
        | Some item \<Rightarrow>
            rbind (body item s)
              (\<lambda>s1. rbind (bucket_at tab slot s1)
              (\<lambda>b1. case next_item b1 at of
                 None \<Rightarrow> Inr s1
               | Some p \<Rightarrow> loop_items fuel tab body slot (Some p) s1)))"

primrec loop_bits :: "nat \<Rightarrow> ('s \<Rightarrow> 'v hashmap option) \<Rightarrow> ('v hm_item \<Rightarrow> 's \<Rightarrow> 's res) \<Rightarrow> nat \<Rightarrow> u32 \<Rightarrow> 's \<Rightarrow> 's res" where
  "loop_bits 0 tab body i inverted s = Inl Stuck"
| "loop_bits (Suc fuel) tab body i inverted s =
     (if inverted = -1 then Inr s
      else let bit_index = ctz64 (ucast inverted)
           in rbind (loop_items fuel tab body (i * 32 + bit_index) None s)
                (loop_bits fuel tab body i (inverted OR push_bit bit_index 1)))"

primrec loop_from :: "nat \<Rightarrow> ('s \<Rightarrow> 'v hashmap option) \<Rightarrow> ('v hm_item \<Rightarrow> 's \<Rightarrow> 's res) \<Rightarrow> nat \<Rightarrow> 's \<Rightarrow> 's res" where
  "loop_from 0 tab body i s = Inl Stuck"
| "loop_from (Suc fuel) tab body i s =
     (case tab s of
        None \<Rightarrow> Inl Null_Deref
      | Some hm \<Rightarrow>
          if unat (occupation_words (hm_capacity hm)) \<le> i then Inr s
          else if length (item_occupation hm) \<le> i then Inl Out_Of_Bounds
          else let current_index = item_occupation hm ! i
               in if current_index = 0 then loop_from fuel tab body (Suc i) s
                  else rbind (loop_bits fuel tab body i (NOT current_index) s) (loop_from fuel tab body (Suc i)))"

definition loop_table :: "nat \<Rightarrow> ('s \<Rightarrow> 'v hashmap option) \<Rightarrow> ('v hm_item \<Rightarrow> 's \<Rightarrow> 's res) \<Rightarrow> 's \<Rightarrow> 's res" where
  "loop_table fuel tab body s = loop_from fuel tab body 0 s"

section \<open>The background service\<close>

definition forget_completed :: "u64 \<Rightarrow> ptr hm_item \<Rightarrow> conn_state \<Rightarrow> conn_state res" where
  "forget_completed seed item s =
     (case hm_value item of
        None \<Rightarrow> Inl Null_Deref
      | Some p \<Rightarrow>
          (case completed_at s p of
             None \<Rightarrow> Inl Null_Deref
           | Some x \<Rightarrow>
               if marked_cleanup x
               then rbind (hashmap_remove seed (key_bytes item) (key_original_data_size item) (packets_completed s) (s_env s))
                      (\<lambda>(hm, e). rbind (pool_free Packets_completed_pool p e)
                      (\<lambda>e1. Inr (s\<lparr>packets_completed := hm, s_env := e1, completed_at := (completed_at s)(p := None)\<rparr>)))
               else Inr (s\<lparr>completed_at := (completed_at s)(p \<mapsto> x\<lparr>marked_cleanup := True\<rparr>)\<rparr>)))"

definition cleanup_packets_completed :: "nat \<Rightarrow> u64 \<Rightarrow> conn_state \<Rightarrow> conn_state res" where
  "cleanup_packets_completed fuel seed s = loop_table fuel (\<lambda>s. Some (packets_completed s)) (forget_completed seed) s"

definition on_value :: "(ptr \<Rightarrow> 's \<Rightarrow> 's res) \<Rightarrow> ptr hm_item \<Rightarrow> 's \<Rightarrow> 's res" where
  "on_value f item s = (case hm_value item of None \<Rightarrow> Inl Null_Deref | Some p \<Rightarrow> f p s)"

definition handle_listener :: "nat \<Rightarrow> ptr \<Rightarrow> library \<Rightarrow> library res" where
  "handle_listener fuel lp l =
     rbind (loop_table fuel (\<lambda>l. map_option client_connections (listener_at l lp))
              (on_value (on_client (\<lambda>c. cleanup_packets_completed fuel (cf_seed c)))) l)
       (loop_table fuel (\<lambda>l. map_option servers (listener_at l lp))
          (on_value (on_server (\<lambda>c. cleanup_packets_completed fuel (cf_seed c)))))"

definition memory_cleanup :: "nat \<Rightarrow> library \<Rightarrow> library res" where
  "memory_cleanup fuel l = loop_table fuel (\<lambda>l. Some (listeners l)) (on_value (handle_listener fuel)) l"

text \<open>
  The service itself: a turn ends with a pause, in which the other threads do what the
  argument says; how long it is depends on the clock and on nothing the library keeps.
\<close>

fun memory_cleanup_background_service :: "nat \<Rightarrow> (library \<Rightarrow> library) list \<Rightarrow> library \<Rightarrow> library res" where
  "memory_cleanup_background_service fuel [] l = (if swiftnet_closing l then Inr l else Inl Stuck)"
| "memory_cleanup_background_service fuel (others # turns) l =
     (if swiftnet_closing l then Inr l
      else rbind (memory_cleanup fuel l) (\<lambda>l1. memory_cleanup_background_service fuel turns (others l1)))"

section \<open>Clean-up of the library\<close>

definition close_listener :: "ptr \<Rightarrow> library \<Rightarrow> library res" where
  "close_listener lp l =
     (case listener_at l lp of
        None \<Rightarrow> Inl Null_Deref
      | Some li \<Rightarrow>
          rbind (break_receiver_loop li)
            (\<lambda>_. rbind (close_pcap lp l)
            (\<lambda>l1. rbind (hashmap_destroy (client_connections li) (lib_env l1))
            (\<lambda>e1. rbind (hashmap_destroy (servers li) e1) (\<lambda>e2. Inr (l1\<lparr>lib_env := e2\<rparr>))))))"

definition close_listeners :: "nat \<Rightarrow> library \<Rightarrow> library res" where
  "close_listeners fuel l =
     rbind (loop_table fuel (\<lambda>l. Some (listeners l)) (on_value close_listener) l)
       (\<lambda>l1. rbind (hashmap_destroy (listeners l1) (lib_env l1)) (\<lambda>e. Inr (l1\<lparr>lib_env := e\<rparr>)))"

fun destroy_pools :: "pool_id list \<Rightarrow> library \<Rightarrow> library res" where
  "destroy_pools [] l = Inr l"
| "destroy_pools (i # is) l =
     rbind (destroy_pool i False (lib_leaks l, lib_env l)) (\<lambda>(c, e). destroy_pools is (l\<lparr>lib_leaks := c, lib_env := e\<rparr>))"

text \<open>The pools that are destroyed before and after the listeners are closed.\<close>

definition early_pools :: "pool_id list" where
  "early_pools = [Packet_queue_node_pool, Packet_callback_queue_node_pool, Server_packet_data_pool, Client_packet_data_pool, Packet_buffer_pool,
     Requests_sent_pool]"

definition late_pools :: "pool_id list" where
  "late_pools = [Hashmap_item_pool, Server_pool, Client_connection_pool, Listener_pool, Uint16_pool, Packet_completed_key_pool,
     Pending_message_key_pool]"

definition swiftnet_cleanup :: "nat \<Rightarrow> library \<Rightarrow> library res" where
  "swiftnet_cleanup fuel l =
     rbind (destroy_pools early_pools l)
       (\<lambda>l1. rbind (hashmap_destroy (lib_requests_sent l1) (lib_env l1))
       (\<lambda>e. rbind (close_listeners fuel (l1\<lparr>lib_env := e\<rparr>))
       (\<lambda>l2. rbind (destroy_pools late_pools l2)
       (\<lambda>l3. Inr (l3\<lparr>swiftnet_closing := True\<rparr>)))))"


section \<open>The iteration visits nothing\<close>

lemma loop_bits_stuck: "w \<noteq> -1 \<Longrightarrow> loop_bits fuel tab body i w s \<noteq> Inr s'"
  by (induction fuel arbitrary: s) (auto simp: Let_def ctz_bit_set [simplified] res_simps)

lemma loop_from_same: "loop_from fuel tab body i s = Inr s' \<Longrightarrow> s' = s"
proof (induction fuel arbitrary: i s)
  case (Suc fuel)
  have "NOT w \<noteq> -1" if "w \<noteq> 0" for w :: u32 using that by (metis bit.double_compl bit.compl_zero)
  then show ?case using Suc by (auto simp: Let_def res_simps loop_bits_stuck split: option.splits if_splits)
qed simp

lemma loop_table_same: "loop_table fuel tab body s = Inr s' \<Longrightarrow> s' = s"
  unfolding loop_table_def by (rule loop_from_same)

lemma loop_from_empty:
  assumes "tab s = Some hm" and "item_occupation hm = replicate (unat (occupation_words (hm_capacity hm))) 0"
    and "unat (occupation_words (hm_capacity hm)) < fuel + i"
  shows "loop_from fuel tab body i s = (if fuel = 0 then Inl Stuck else Inr s)"
  using assms(3) by (induction fuel arbitrary: i) (use assms(1,2) in auto)

lemma loop_table_empty:
  assumes "tab s = Some hm" and "item_occupation hm = replicate (unat (occupation_words (hm_capacity hm))) 0"
    and "unat (occupation_words (hm_capacity hm)) < fuel"
  shows "loop_table fuel tab body s = Inr s"
  using loop_from_empty [where tab = tab and s = s and i = 0, OF assms(1,2)] assms(3) by (simp add: loop_table_def)

text \<open>
  The background service does nothing: whatever it returns, the library is what the other
  threads have made of it in the pauses. No completed message is ever marked or forgotten.
\<close>

theorem background_service_idle:
  assumes "memory_cleanup_background_service fuel turns l = Inr l'"
  shows "\<exists>k \<le> length turns. l' = foldl (\<lambda>l f. f l) l (take k turns) \<and> swiftnet_closing l'"
  using assms
proof (induction turns arbitrary: l)
  case (Cons f turns)
  show ?case
  proof (cases "swiftnet_closing l")
    case True
    then show ?thesis using Cons.prems by (intro exI [of _ 0]) simp
  next
    case False
    then obtain l1 where l1: "memory_cleanup fuel l = Inr l1" "memory_cleanup_background_service fuel turns (f l1) = Inr l'"
      using Cons.prems by (auto simp: res_simps)
    have "l1 = l" by (rule loop_table_same [OF l1(1) [unfolded memory_cleanup_def]])
    from Cons.IH [OF l1(2) [unfolded this]] obtain k where "k \<le> length turns" "l' = foldl (\<lambda>l f. f l) (f l) (take k turns)" "swiftnet_closing l'" by blast
    then show ?thesis by (intro exI [of _ "Suc k"]) simp
  qed
qed (auto split: if_splits)

section \<open>The interface\<close>

text \<open>An entry with an Ethernet address under the name, and that address.\<close>

definition has_mac :: "u8 list \<Rightarrow> ifaddrs \<Rightarrow> bool" where
  "has_mac name ifa \<longleftrightarrow> ifa_name ifa = name \<and> (case ifa_addr ifa of Some (AF_PACKET n a) \<Rightarrow> n = 6 | _ \<Rightarrow> False)"

definition mac_of :: "ifaddrs \<Rightarrow> u8 list" where
  "mac_of ifa = (case ifa_addr ifa of Some (AF_PACKET n a) \<Rightarrow> take 6 (le_bytes 8 a) | _ \<Rightarrow> [])"

lemma find_match_find: "find_match ip ifs = List.find (\<lambda>ifa. ifa_addr ifa = Some (AF_INET ip)) ifs"
  by (induction ifs) (auto split: option.splits if_address.splits)

lemma find_mac_find: "find_mac name ifs = map_option mac_of (List.find (has_mac name) ifs)"
  by (induction ifs) (auto simp: has_mac_def mac_of_def split: option.splits if_address.splits)

lemma length_mac_of: "has_mac name ifa \<Longrightarrow> length (mac_of ifa) = 6"
  by (auto simp: has_mac_def mac_of_def split: option.splits if_address.splits)

lemma default_interface_bounds:
  assumes "get_default_interface_and_mac IFNAMSIZ sockname ifs = Some (name, mac)"
  shows "length name < IFNAMSIZ" and "length mac = 6"
proof -
  obtain list and x y :: ifaddrs where xy: "name = take 15 (ifa_name x)" "List.find (has_mac name) list = Some y" "mac = mac_of y"
    using assms by (auto simp: get_default_interface_and_mac_def Let_def find_mac_find split: option.splits)
  then show "length name < IFNAMSIZ" by simp
  have "has_mac name y" using xy(2) by (auto simp: find_Some_iff)
  then show "length mac = 6" using xy(3) length_mac_of by blast
qed

text \<open>
  C39. The default interface: what the code finds is the name of the first interface with the
  local IP address, cut to fit a name field with its final zero, and the six bytes of the
  first Ethernet address listed under exactly that name; it finds nothing exactly when one of
  the two is missing.
\<close>

theorem default_interface_found:
  "get_default_interface_and_mac IFNAMSIZ (Some ip) (Some ifs) = Some (name, mac) \<longleftrightarrow>
     (\<exists>x y. List.find (\<lambda>ifa. ifa_addr ifa = Some (AF_INET ip)) ifs = Some x \<and> name = take 15 (ifa_name x) \<and>
        List.find (has_mac name) ifs = Some y \<and> mac = mac_of y \<and> length name < IFNAMSIZ \<and> length mac = 6)"
  (is "?found \<longleftrightarrow> ?first")
proof
  assume f: ?found
  then show ?first
    using default_interface_bounds [OF f]
    by (auto simp: get_default_interface_and_mac_def Let_def find_match_find find_mac_find split: option.splits)
qed (auto simp: get_default_interface_and_mac_def Let_def find_match_find find_mac_find)

section \<open>The pools of the library\<close>

text \<open>What a set of pools costs, and that their creation succeeds with that much memory.\<close>

definition pools_cost :: "(pool_id \<times> u32 \<times> u32) list \<Rightarrow> nat" where
  "pools_cost ps = (\<Sum>(i, isz, n) \<leftarrow> ps. stack_cost (unat isz) (unat n))"

definition pools_fit :: "(pool_id \<times> u32 \<times> u32) list \<Rightarrow> bool" where
  "pools_fit ps \<longleftrightarrow> distinct (map fst ps) \<and> (\<forall>(i, isz, n) \<in> set ps. 0 < isz \<and> 0 < n \<and> unat isz * unat n < 2 ^ 32)"

text \<open>The blocks of pools, and that they are exactly what a memory has more than before.\<close>

definition pools_blocks :: "pool_id list \<Rightarrow> env \<Rightarrow> ptr list" where
  "pools_blocks is e = concat (map (\<lambda>i. al_blocks (pool e i)) is)"

lemma pools_blocks_simps [simp]:
  "pools_blocks [] e = []" "pools_blocks (i # is) e = al_blocks (pool e i) @ pools_blocks is e"
  "pools_blocks (is @ js) e = pools_blocks is e @ pools_blocks js e" "pools_blocks is (e\<lparr>c_heap := h\<rparr>) = pools_blocks is e"
  by (simp_all add: pools_blocks_def)

definition adds_blocks :: "ptr list \<Rightarrow> (ptr \<Rightarrow> nat option) \<Rightarrow> (ptr \<Rightarrow> nat option) \<Rightarrow> bool" where
  "adds_blocks bs m m' \<longleftrightarrow> distinct bs \<and> set bs \<subseteq> dom m' \<and> (\<forall>p. m p = (if p \<in> set bs then None else m' p))"

lemma adds_blocks_keep: "adds_blocks bs m m' \<Longrightarrow> p \<in> dom m \<Longrightarrow> p \<notin> set bs \<and> m' p = m p"
  by (auto simp: adds_blocks_def dom_def split: if_splits)

lemma adds_blocks_append:
  assumes "adds_blocks bs m m'" and "adds_blocks cs m' m''"
  shows "adds_blocks (bs @ cs) m m''"
proof -
  have bs: "p \<notin> set cs \<and> p \<in> dom m''" if "p \<in> set bs" for p
    using adds_blocks_keep [OF assms(2), of p] assms(1) that by (auto simp: adds_blocks_def subset_eq dom_def)
  have "m p = (if p \<in> set (bs @ cs) then None else m'' p)" for p
    using assms by (cases "p \<in> set bs"; cases "p \<in> set cs") (simp_all add: adds_blocks_def)
  then show ?thesis unfolding adds_blocks_def using assms bs by (auto simp: adds_blocks_def)
qed

lemma make_stack_adds:
  assumes "heap_ok h" and "make_stack isz n idx h = Inr (s, h')" and "st_status_at s \<noteq> None"
  shows "adds_blocks (stack_blocks s) (blocks h) (blocks h')"
proof -
  from assms(2) obtain d h1 q h2 h3 st where m: "malloc (unat (isz * n)) h = (Some d, h1)"
    "malloc (unat n * 8) h1 = (Some q, h2)" "malloc 32 h2 = (Some (st_self s), h3)"
    "malloc (unat (n div 8 + 1)) h3 = (st, h')" "st_data s = d" "st_pointers_at s = q" "st_status_at s = st"
    by (auto simp: make_stack_def split: prod.splits option.splits)
  obtain t where t: "st = Some t" using assms(3) m(7) by auto
  note m1 = malloc_SomeD [OF m(1)] and m2 = malloc_SomeD [OF m(2)] and m3 = malloc_SomeD [OF m(3)] and m4 = malloc_SomeD [OF m(4) [unfolded t]]
  have order: "brk h = d" "d < q" "q < st_self s" "st_self s < t"
    using m1(1,2) m2(1,2) m3(1,2) m4(1,2) by (simp_all add: less_max_iff_disj)
  have above: "p < brk h" if "p \<in> dom (blocks h)" for p using assms(1) that by (fastforce simp: heap_ok_def)
  have b: "blocks h' = (blocks h)(d \<mapsto> unat (isz * n), q \<mapsto> unat n * 8, st_self s \<mapsto> 32, t \<mapsto> unat (n div 8 + 1))"
    using m1(3) m2(3) m3(3) m4(3) by simp
  have sb: "stack_blocks s = [d, q, st_self s, t]" using m(5-7) t by (simp add: stack_blocks_def)
  have "{d, q, st_self s, t} \<inter> dom (blocks h) = {}" using above order by fastforce
  then show ?thesis using order by (auto simp: adds_blocks_def sb b)
qed


text \<open>A pool without live items, with \<open>n\<close> free ones.\<close>

definition fresh_pool :: "heap \<Rightarrow> nat \<Rightarrow> mem_allocator \<Rightarrow> bool" where
  "fresh_pool h n a \<longleftrightarrow> alloc_ok h a \<and> al_live a = {} \<and> length (al_frees a) = n"

lemma pool_created:
  assumes "heap_ok (c_heap e)" and "0 < isz" and "0 < n" and "unat isz * unat n < 2 ^ 32" and "heap_room (stack_cost (unat isz) (unat n)) (c_heap e)"
  obtains a h where "pool_create i isz n e = Inr \<lparr>c_heap = h, pool = (pool e)(i := a)\<rparr>" and "heap_ok h" and "heap_grows (c_heap e) h"
    and "brk h \<le> brk (c_heap e) + stack_cost (unat isz) (unat n)" and "fresh_pool h (unat n) a" and "adds_blocks (al_blocks a) (blocks (c_heap e)) (blocks h)"
proof -
  from allocator_create_ok [OF assms(2-5,1)] obtain a h where
    1: "allocator_create isz n (c_heap e) = Inr (a, h)" "alloc_ok h a" "heap_ok h" "heap_grows (c_heap e) h" "al_live a = {}" "length (al_frees a) = unat n" by blast
  obtain s where s: "make_stack isz n 0 (c_heap e) = Inr (s, h)" "al_stacks a = [s]" using 1(1) by (auto simp: allocator_create_def res_simps)
  have "st_ptr_status s \<noteq> []" using 1(2) s(2) by (auto simp: alloc_ok_def alloc_shape_def stack_ok_def)
  then have "st_status_at s \<noteq> None" using s(1) by (auto simp: make_stack_def split: prod.splits option.splits if_splits)
  then have "adds_blocks (al_blocks a) (blocks (c_heap e)) (blocks h)" using make_stack_adds [OF assms(1) s(1)] s(2) by (simp add: al_blocks_def)
  moreover have "pool_create i isz n e = Inr \<lparr>c_heap = h, pool = (pool e)(i := a)\<rparr>" using 1(1) by (simp add: pool_create_def)
  moreover have "fresh_pool h (unat n) a" using 1 by (simp add: fresh_pool_def)
  ultimately show ?thesis using that 1(3,4) make_stack_cost [OF s(1) assms(2-4)] by blast
qed

lemma fresh_pool_grows: "fresh_pool h n a \<Longrightarrow> heap_grows h h' \<Longrightarrow> fresh_pool h' n a"
  by (auto simp: fresh_pool_def intro: alloc_ok_grows)

lemma create_pools_ok:
  assumes "heap_ok (c_heap e)" and "pools_fit ps" and "heap_room (pools_cost ps) (c_heap e)"
  shows "\<exists>e'. create_pools ps e = Inr e' \<and> heap_ok (c_heap e') \<and> heap_grows (c_heap e) (c_heap e') \<and> brk (c_heap e') \<le> brk (c_heap e) + pools_cost ps \<and>
    (\<forall>i. i \<notin> fst ` set ps \<longrightarrow> pool e' i = pool e i) \<and> (\<forall>(i, isz, n) \<in> set ps. fresh_pool (c_heap e') (unat n) (pool e' i)) \<and>
    adds_blocks (pools_blocks (map fst ps) e') (blocks (c_heap e)) (blocks (c_heap e'))"
  using assms
proof (induction ps arbitrary: e)
  case (Cons p ps)
  obtain i isz n where p: "p = (i, isz, n)" by (cases p)
  note fit = Cons.prems(2) [unfolded p pools_fit_def]
  have room: "heap_room (stack_cost (unat isz) (unat n)) (c_heap e)" using Cons.prems(3) by (simp add: p pools_cost_def heap_room_def)
  have "0 < isz" "0 < n" "unat isz * unat n < 2 ^ 32" using fit by simp_all
  from pool_created [OF Cons.prems(1) this room] obtain a h where
    1: "pool_create i isz n e = Inr \<lparr>c_heap = h, pool = (pool e)(i := a)\<rparr>" "heap_ok h" "heap_grows (c_heap e) h"
      "brk h \<le> brk (c_heap e) + stack_cost (unat isz) (unat n)" "fresh_pool h (unat n) a" "adds_blocks (al_blocks a) (blocks (c_heap e)) (blocks h)" by metis
  let ?e = "\<lparr>c_heap = h, pool = (pool e)(i := a)\<rparr>"
  have "pools_fit ps" using fit by (simp add: pools_fit_def)
  moreover have "heap_room (pools_cost ps) (c_heap ?e)" using Cons.prems(3) 1(3,4) by (simp add: p pools_cost_def heap_room_def heap_grows_def)
  moreover have "heap_ok (c_heap ?e)" using 1(2) by simp
  ultimately obtain e' where 2: "create_pools ps ?e = Inr e'" "heap_ok (c_heap e')" "heap_grows h (c_heap e')"
    "brk (c_heap e') \<le> brk h + pools_cost ps" "\<forall>j. j \<notin> fst ` set ps \<longrightarrow> pool e' j = pool ?e j"
    "\<forall>(i, isz, n) \<in> set ps. fresh_pool (c_heap e') (unat n) (pool e' i)"
    "adds_blocks (pools_blocks (map fst ps) e') (blocks h) (blocks (c_heap e'))" using Cons.IH [of ?e] by auto
  have i: "pool e' i = a" using 2(5) fit by auto
  have "adds_blocks (pools_blocks (map fst (p # ps)) e') (blocks (c_heap e)) (blocks (c_heap e'))"
    using adds_blocks_append [OF 1(6) 2(7)] by (simp add: p i)
  moreover have "\<forall>(j, isz, n) \<in> set (p # ps). fresh_pool (c_heap e') (unat n) (pool e' j)" using 2(6) fresh_pool_grows [OF 1(5) 2(3)] by (simp add: p i)
  moreover have "brk (c_heap e') \<le> brk (c_heap e) + pools_cost (p # ps)" using 1(4) 2(4) by (simp add: p pools_cost_def)
  moreover have "create_pools (p # ps) e = Inr e'" using 1(1) 2(1) by (simp add: p)
  moreover have "\<forall>j. j \<notin> fst ` set (p # ps) \<longrightarrow> pool e' j = pool e j" using 2(5) by (simp add: p)
  ultimately show ?case using heap_grows_trans [OF 1(3) 2(3)] 2(2) by blast
qed (simp add: pools_cost_def adds_blocks_def)

text \<open>Destroying pools takes their blocks away, and pools without live items leak nothing.\<close>

lemma destroy_stacks_brk: "destroy_stacks a d ss c h = Inr (c', h') \<Longrightarrow> brk h' = brk h"
  by (induction ss arbitrary: c h) (auto simp: res_simps dest!: c_free_brk)

lemma destroy_pools_ok:
  assumes "\<forall>i \<in> set is. \<exists>n. fresh_pool (c_heap (lib_env l)) n (pool (lib_env l) i)"
    and "distinct (pools_blocks is (lib_env l))" and "set (pools_blocks is (lib_env l)) \<subseteq> dom (blocks (c_heap (lib_env l)))"
  shows "\<exists>h. destroy_pools is l = Inr (l\<lparr>lib_env := (lib_env l)\<lparr>c_heap := h\<rparr>\<rparr>) \<and> brk h = brk (c_heap (lib_env l)) \<and>
    blocks h = blocks (c_heap (lib_env l)) |` (- set (pools_blocks is (lib_env l)))"
  using assms
proof (induction "is" arbitrary: l)
  case (Cons i "is")
  let ?e = "lib_env l" let ?a = "pool ?e i"
  obtain n where a: "alloc_ok (c_heap ?e) ?a" "al_live ?a = {}" using Cons.prems(1) by (auto simp: fresh_pool_def)
  have "distinct (al_blocks ?a)" "set (al_blocks ?a) \<subseteq> dom (blocks (c_heap ?e))" using Cons.prems(2,3) by simp_all
  from allocator_destroy_counts [OF a(1) this, of "lib_leaks l"] a(2) obtain h where
    h: "allocator_destroy ?a False (lib_leaks l) (c_heap ?e) = Inr (lib_leaks l, h)" "blocks h = blocks (c_heap ?e) |` (- set (al_blocks ?a))" by auto
  have brk: "brk h = brk (c_heap ?e)" using h(1) destroy_stacks_brk by (auto simp: allocator_destroy_def split: if_splits)
  let ?l = "l\<lparr>lib_env := ?e\<lparr>c_heap := h\<rparr>\<rparr>"
  have step: "destroy_pools (i # is) l = destroy_pools is ?l" using h(1) by (simp add: destroy_pool_def)
  have "\<forall>i \<in> set is. \<exists>n. fresh_pool (c_heap (lib_env ?l)) n (pool (lib_env ?l) i)"
    using Cons.prems(1) alloc_ok_brk [of "c_heap ?e" _ h] brk by (fastforce simp: fresh_pool_def)
  moreover have "distinct (pools_blocks is (lib_env ?l))" using Cons.prems(2) by simp
  moreover have "set (pools_blocks is (lib_env ?l)) \<subseteq> dom (blocks (c_heap (lib_env ?l)))" using Cons.prems(2,3) h(2) by auto
  ultimately obtain h' where "destroy_pools is ?l = Inr (?l\<lparr>lib_env := (lib_env ?l)\<lparr>c_heap := h'\<rparr>\<rparr>)" "brk h' = brk h"
    "blocks h' = blocks h |` (- set (pools_blocks is (lib_env ?l)))" using Cons.IH [of ?l] by auto
  then show ?case unfolding step using brk h(2) by (intro exI [of _ h']) (simp add: restrict_restrict Int_commute)
next
  case Nil
  then show ?case by (intro exI [of _ "c_heap (lib_env l)"]) (simp add: restrict_map_def)
qed


section \<open>An initialised library\<close>

text \<open>The answers the system has to give, and the memory initialisation takes.\<close>

definition sys_answers :: "system \<Rightarrow> u32 \<Rightarrow> u8 list \<Rightarrow> u8 list \<Rightarrow> u16 \<Rightarrow> bool" where
  "sys_answers os ip name mac mtu \<longleftrightarrow> sys_socket os \<and> sys_connect os \<and> sys_sockname os = Some ip \<and>
     get_default_interface_and_mac IFNAMSIZ (Some ip) (sys_ifaddrs os) = Some (name, mac) \<and>
     get_mtu (sys_mtu os) name = Inr mtu \<and> mtu \<noteq> 0"

definition sizes_ok :: "system \<Rightarrow> bool" where
  "sizes_ok os \<longleftrightarrow> 0 < sizeof_server os \<and> sizeof_server os < 0x10000000 \<and> 0 < sizeof_client os \<and> sizeof_client os < 0x10000000"

abbreviation tables_cost :: nat where "tables_cost \<equiv> 20560"

definition init_cost :: "system \<Rightarrow> u16 \<Rightarrow> nat" where
  "init_cost os mtu = pools_cost (library_pools os mtu) + tables_cost"

definition library_pool_ids :: "pool_id list" where
  "library_pool_ids = [Packet_queue_node_pool, Packet_callback_queue_node_pool, Server_packet_data_pool, Client_packet_data_pool, Packet_buffer_pool,
     Server_pool, Client_connection_pool, Listener_pool, Hashmap_item_pool, Uint16_pool, Pending_message_key_pool, Packet_completed_key_pool, Requests_sent_pool]"

lemma buffer_size: "unat (ucast (mtu :: u16) + 14 :: u32) = unat mtu + 14"
proof -
  have "unat mtu < 65536" using unsigned_less [of mtu, where ?'a = nat] by simp
  then show ?thesis by (simp add: unat_word_ariths unsigned_ucast_eq take_bit_nat_def)
qed

lemma library_pools_fit: "sizes_ok os \<Longrightarrow> pools_fit (library_pools os mtu)"
proof -
  assume s: "sizes_ok os"
  have m: "unat mtu < 65536" using unsigned_less [of mtu, where ?'a = nat] by simp
  have "unat (sizeof_server os) < 0x10000000" "unat (sizeof_client os) < 0x10000000" using s by (simp_all add: sizes_ok_def word_less_nat_alt)
  moreover have "0 < (ucast mtu + 14 :: u32)" by (simp add: word_less_nat_alt buffer_size)
  ultimately show ?thesis using s m by (simp add: pools_fit_def library_pools_def sizes_ok_def buffer_size)
qed

text \<open>The memory of a library just initialised: its pools and its two tables, and nothing else.\<close>

definition fresh_library :: "system \<Rightarrow> u32 \<Rightarrow> u8 list \<Rightarrow> u8 list \<Rightarrow> u16 \<Rightarrow> heap \<Rightarrow> library \<Rightarrow> bool" where
  "fresh_library os ip name mac mtu h l \<longleftrightarrow> lib_globals l = \<lparr>maximum_transmission_unit = mtu, private_ip_address = ip\<rparr> \<and>
     default_network_interface l = name \<and> mac_address l = mac \<and> lib_seed l = sys_rand os \<and> \<not> swiftnet_closing l \<and>
     listener_at l = Map.empty \<and> client_at l = Map.empty \<and> server_at l = Map.empty \<and> lib_leaks l = \<lparr>items_leaked = 0, bytes_leaked = 0\<rparr> \<and>
     (\<forall>b. length (lib_buffer_at l b) = unat mtu + 14) \<and> env_ok (lib_env l) \<and> heap_grows h (c_heap (lib_env l)) \<and>
     brk (c_heap (lib_env l)) \<le> brk h + init_cost os mtu \<and>
     (\<forall>(i, isz, n) \<in> set (library_pools os mtu). fresh_pool (c_heap (lib_env l)) (unat n) (pool (lib_env l) i))"

lemma created_run:
  assumes "heap_room 10280 (c_heap e)" and "heap_ok (c_heap e)" and c: "hashmap_create kma e = (hm, e')"
  shows "pool e' = pool e" and "hm_items hm = replicate 320 (null_item, []) \<and> hm_capacity hm = 320 \<and> hm_items_at hm = Some (brk (c_heap e)) \<and>
      item_occupation hm = replicate 10 0"
    and "adds_blocks [brk (c_heap e), brk (c_heap e) + 10240] (blocks (c_heap e)) (blocks (c_heap e'))"
    and "blocks (c_heap e') (brk (c_heap e) + 10240) = Some 40" and "heap_ok (c_heap e')"
proof -
  have w: "unat (occupation_words 320) = 10" by (simp add: occupation_words_def)
  have above: "blocks (c_heap e) p = None" if "brk (c_heap e) \<le> p" for p
    using assms(2) that by (cases "blocks (c_heap e) p") (fastforce simp: heap_ok_def)+
  have r: "brk (c_heap e) + 10240 \<le> heap_limit (c_heap e)" "brk (c_heap e) + 10280 \<le> heap_limit (c_heap e)" using assms(1) by (simp_all add: heap_room_def)
  have f: "hm_items hm = replicate 320 (null_item, []) \<and> hm_capacity hm = 320 \<and> hm_items_at hm = Some (brk (c_heap e)) \<and> item_occupation hm = replicate 10 0"
    "pool e' = pool e" "blocks (c_heap e') = (blocks (c_heap e))(brk (c_heap e) \<mapsto> 10240, brk (c_heap e) + 10240 \<mapsto> 40)"
    "brk (c_heap e') = brk (c_heap e) + 10280"
    using c r by (auto simp: hashmap_create_def hashmap_calloc_def occupation_calloc_def w env_malloc_def malloc_def)
  show "heap_ok (c_heap e')" using assms(2) f(3,4) by (force simp: heap_ok_def)
  show "adds_blocks [brk (c_heap e), brk (c_heap e) + 10240] (blocks (c_heap e)) (blocks (c_heap e'))"
    using f(3) above by (auto simp: adds_blocks_def)
  show "pool e' = pool e" "blocks (c_heap e') (brk (c_heap e) + 10240) = Some 40" "hm_items hm = replicate 320 (null_item, []) \<and> hm_capacity hm = 320 \<and>
    hm_items_at hm = Some (brk (c_heap e)) \<and> item_occupation hm = replicate 10 0" using f by simp_all
qed

lemma library_pools_ids: "map fst (library_pools os mtu) = library_pool_ids"
  by (simp add: library_pools_def library_pool_ids_def)

lemma pool_id_cases: "i \<in> connection_pools \<or> i \<in> set library_pool_ids"
  by (cases i) (simp_all add: connection_pools_def library_pool_ids_def)

lemma initialize_allocators_ok:
  assumes "sizes_ok os" and "heap_ok h" and "heap_room (pools_cost (library_pools os mtu)) h"
  obtains e where "initialize_allocators os mtu h = Inr e" and "env_ok e" and "heap_grows h (c_heap e)"
    and "brk (c_heap e) \<le> brk h + pools_cost (library_pools os mtu)"
    and "\<forall>(i, isz, n) \<in> set (library_pools os mtu). fresh_pool (c_heap e) (unat n) (pool e i)"
    and "adds_blocks (pools_blocks library_pool_ids e) (blocks h) (blocks (c_heap e))"
proof -
  let ?e0 = "\<lparr>c_heap = h, pool = \<lambda>i. zero_allocator\<rparr>"
  have "heap_ok (c_heap ?e0)" "heap_room (pools_cost (library_pools os mtu)) (c_heap ?e0)" using assms(2,3) by simp_all
  from create_pools_ok [OF this(1) library_pools_fit [OF assms(1)] this(2), unfolded library_pools_ids env.simps] obtain e1 where
    1: "create_pools (library_pools os mtu) ?e0 = Inr e1" "heap_ok (c_heap e1)" "heap_grows h (c_heap e1)"
    "brk (c_heap e1) \<le> brk h + pools_cost (library_pools os mtu)" "\<forall>(i, isz, n) \<in> set (library_pools os mtu). fresh_pool (c_heap e1) (unat n) (pool e1 i)"
    "adds_blocks (pools_blocks library_pool_ids e1) (blocks h) (blocks (c_heap e1))"
    by blast
  let ?e = "e1\<lparr>pool := \<lambda>i. if i \<in> connection_pools then pool e1 Requests_sent_pool else pool e1 i\<rparr>"
  have n: "i \<notin> connection_pools" if "i \<in> set library_pool_ids" for i using that by (auto simp: connection_pools_def library_pool_ids_def)
  have ok: "alloc_ok (c_heap e1) (pool e1 i)" if "i \<in> set library_pool_ids" for i
    using 1(5) that unfolding library_pools_ids [of os mtu, symmetric] by (auto simp: fresh_pool_def)
  have rq: "Requests_sent_pool \<in> set library_pool_ids" by (simp add: library_pool_ids_def)
  have "alloc_ok (c_heap e1) (pool ?e i)" for i using ok [of i] ok [OF rq] pool_id_cases [of i] by auto
  then have "env_ok ?e" using 1(2) by (simp add: env_ok_def)
  moreover have "initialize_allocators os mtu h = Inr ?e" using 1(1) by (simp add: initialize_allocators_def)
  moreover have "\<forall>(i, isz, k) \<in> set (library_pools os mtu). fresh_pool (c_heap ?e) (unat k) (pool ?e i)"
    using 1(5) by (simp add: library_pools_def connection_pools_def)
  moreover
  have ch: "c_heap ?e = c_heap e1" by simp
  have "pools_blocks library_pool_ids ?e = pools_blocks library_pool_ids e1" by (simp add: connection_pools_def library_pool_ids_def)
  then have "adds_blocks (pools_blocks library_pool_ids ?e) (blocks h) (blocks (c_heap ?e))" using 1(6) by (simp only: ch)
  moreover have "heap_grows h (c_heap ?e)" "brk (c_heap ?e) \<le> brk h + pools_cost (library_pools os mtu)" using 1(3,4) by simp_all
  ultimately show ?thesis by (intro that)
qed


text \<open>The run of \<open>swiftnet_initialize\<close> with its two tables.\<close>

definition initialised :: "system \<Rightarrow> u32 \<Rightarrow> u8 list \<Rightarrow> u8 list \<Rightarrow> u16 \<Rightarrow> ptr hashmap \<Rightarrow> ptr hashmap \<Rightarrow> env \<Rightarrow> library" where
  "initialised os ip name mac mtu rq ls e =
     \<lparr>lib_env = e, lib_seed = sys_rand os, lib_globals = \<lparr>maximum_transmission_unit = mtu, private_ip_address = ip\<rparr>,
      mac_address = mac, default_network_interface = name, lib_requests_sent = rq, lib_request_at = Map.empty,
      lib_buffer_at = (\<lambda>b. map (sys_memory os b) [0..<unat mtu + 14]), listeners = ls, listener_at = Map.empty,
      client_at = Map.empty, server_at = Map.empty, swiftnet_closing = False, lib_leaks = \<lparr>items_leaked = 0, bytes_leaked = 0\<rparr>\<rparr>"

lemma initialize_run:
  assumes "sys_answers os ip name mac mtu" and "sizes_ok os" and "heap_ok h" and "heap_room (init_cost os mtu) h"
  obtains e rq e1 ls e2 where "swiftnet_initialize os h = Inr (initialised os ip name mac mtu rq ls e2)"
    and "env_ok e" and "heap_grows h (c_heap e)" and "brk (c_heap e) \<le> brk h + pools_cost (library_pools os mtu)"
    and "\<forall>(i, isz, n) \<in> set (library_pools os mtu). fresh_pool (c_heap e) (unat n) (pool e i)"
    and "adds_blocks (pools_blocks library_pool_ids e) (blocks h) (blocks (c_heap e))"
    and "hashmap_create (Some Uint16_pool) e = (rq, e1)" and "hashmap_create None e1 = (ls, e2)"
    and "heap_room tables_cost (c_heap e)"
proof -
  note a = assms(1) [unfolded sys_answers_def]
  have "heap_room (pools_cost (library_pools os mtu)) h" using assms(4) by (simp add: init_cost_def heap_room_def)
  from initialize_allocators_ok [OF assms(2,3) this] obtain e where
    e: "initialize_allocators os mtu h = Inr e" "env_ok e" "heap_grows h (c_heap e)" "brk (c_heap e) \<le> brk h + pools_cost (library_pools os mtu)"
      "\<forall>(i, isz, n) \<in> set (library_pools os mtu). fresh_pool (c_heap e) (unat n) (pool e i)"
      "adds_blocks (pools_blocks library_pool_ids e) (blocks h) (blocks (c_heap e))" by blast
  obtain rq :: "ptr hashmap" and e1 where 1: "hashmap_create (Some Uint16_pool) e = (rq, e1)" by (cases "hashmap_create (Some Uint16_pool) e :: ptr hashmap \<times> env")
  obtain ls :: "ptr hashmap" and e2 where 2: "hashmap_create None e1 = (ls, e2)" by (cases "hashmap_create None e1 :: ptr hashmap \<times> env")
  have "swiftnet_initialize os h = Inr (initialised os ip name mac mtu rq ls e2)"
    using a e(1) 1 2 by (simp add: swiftnet_initialize_def initialize_vectors_def initialised_def)
  moreover have "heap_room tables_cost (c_heap e)" using assms(4) e(3,4) by (simp add: heap_room_def heap_grows_def init_cost_def)
  ultimately show ?thesis using that e 1 2 by blast
qed

lemma created_table:
  assumes "env_ok e" and "heap_room (k + 10280) (c_heap e)" and "kma \<noteq> Some Hashmap_item_pool" and "hashmap_create kma e = (hm :: 'v hashmap, e')"
  shows "hm_ok seed hm e'" and "hm_abs hm = (\<lambda>k. [])" and "pool e' = pool e" and "heap_room k (c_heap e')" and "key_memory_allocator hm = kma"
    and "hm_size hm = 0" and "hm_capacity hm = 320"
proof -
  have "heap_room 10280 (c_heap e)" using assms(2) by (simp add: heap_room_def)
  from hashmap_create_ok [OF assms(1) this assms(3), of seed, where 'a = 'v] assms(2,4)
  show "hm_ok seed hm e'" "hm_abs hm = (\<lambda>k. [])" "pool e' = pool e" "heap_room k (c_heap e')" "key_memory_allocator hm = kma"
    "hm_size hm = 0" "hm_capacity hm = 320" by simp_all
qed

text \<open>
  C13. The library after \<open>swiftnet_initialize\<close>: when the system gives its answers, the
  library is well formed and empty, knows its interface, MAC address, IP address and MTU,
  and has memory for connections.
\<close>

theorem library_initialised:
  assumes "sys_answers os ip name mac mtu" and "sizes_ok os" and "heap_ok h" and "heap_room (n + init_cost os mtu + (20576 + connection_cost)) h"
  shows "\<exists>l. swiftnet_initialize os h = Inr l \<and> lib_ok l \<and> connect_room n (unat mtu + 14) l \<and> \<not> swiftnet_closing l \<and>
    hm_ok (lib_seed l) (lib_requests_sent l) (lib_env l) \<and> hm_abs (lib_requests_sent l) = (\<lambda>k. []) \<and> hm_abs (listeners l) = (\<lambda>k. []) \<and>
    lib_globals l = \<lparr>maximum_transmission_unit = mtu, private_ip_address = ip\<rparr> \<and> default_network_interface l = name \<and>
    mac_address l = mac \<and> length name < IFNAMSIZ \<and> length mac = 6"
proof -
  have room: "heap_room (init_cost os mtu) h" using assms(4) by (simp add: heap_room_def)
  obtain e rq e1 ls e2 where 1: "swiftnet_initialize os h = Inr (initialised os ip name mac mtu rq ls e2)"
    "env_ok e" "heap_grows h (c_heap e)" "brk (c_heap e) \<le> brk h + pools_cost (library_pools os mtu)"
    "\<forall>(i, isz, n) \<in> set (library_pools os mtu). fresh_pool (c_heap e) (unat n) (pool e i)"
    "hashmap_create (Some Uint16_pool) e = (rq, e1)" "hashmap_create None e1 = (ls, e2)" by (rule initialize_run [OF assms(1-3) room])
  let ?l = "initialised os ip name mac mtu rq ls e2"
  have r: "heap_room 10280 (c_heap e)" "heap_room ((n + (20576 + connection_cost) + 10280) + 10280) (c_heap e)"
    using assms(4) 1(3,4) by (simp_all add: heap_room_def heap_grows_def init_cost_def)
  have k: "Some Uint16_pool \<noteq> Some Hashmap_item_pool" "None \<noteq> Some Hashmap_item_pool" by simp_all
  note q1 = created_table [OF 1(2) r(2) k(1) 1(6)]
  have r1: "env_ok e1" "heap_room (n + (20576 + connection_cost) + 10280) (c_heap e1)" using q1(1,4) by (simp_all add: hm_ok_def)
  note q2 = created_table [OF r1 k(2) 1(7)]
  have rq: "hm_ok (sys_rand os) rq e2" by (rule hm_ok_grows [OF q1(1) hashmap_create_grows [OF r1(1) 1(7)]])
  have "lib_ok ?l" using q2 by (simp add: lib_ok_def initialised_def)
  moreover have "connect_room n (unat mtu + 14) ?l"
    using q1(3) q2(3,4,6,7) 1(5) by (simp add: connect_room_def register_room_def initialised_def library_pools_def fresh_pool_def heap_room_def)
  moreover have "get_default_interface_and_mac IFNAMSIZ (Some ip) (sys_ifaddrs os) = Some (name, mac)" using assms(1) by (simp add: sys_answers_def)
  then have "length name < IFNAMSIZ" "length mac = 6" by (rule default_interface_bounds)+
  ultimately show ?thesis using 1(1) rq q1(2) q2(2) by (intro exI [of _ ?l]) (simp add: initialised_def)
qed


text \<open>A sample system: one interface \<open>eth0\<close> with its two entries.\<close>

definition sample_system :: "u32 \<Rightarrow> system" where
  "sample_system mtu = \<lparr>sys_rand = 7, sys_socket = True, sys_connect = True, sys_sockname = Some 0x0A00000A,
     sys_ifaddrs = Some [\<lparr>ifa_name = [108, 111], ifa_addr = Some (AF_INET 0x0100007F)\<rparr>,
       \<lparr>ifa_name = [101, 116, 104, 48], ifa_addr = Some (AF_PACKET 6 0x060504030201)\<rparr>,
       \<lparr>ifa_name = [101, 116, 104, 48], ifa_addr = Some (AF_INET 0x0A00000A)\<rparr>],
     sys_mtu = (\<lambda>name. Some mtu), sys_memory = (\<lambda>b i. 0), sizeof_server = 2024, sizeof_client = 2032\<rparr>"

lemma sample_interface:
  "get_default_interface_and_mac IFNAMSIZ (Some 0x0A00000A) (sys_ifaddrs (sample_system m)) = Some ([101, 116, 104, 48], [1, 2, 3, 4, 5, 6])"
proof -
  have "take 6 (le_bytes 8 (0x060504030201 :: u64)) = [1, 2, 3, 4, 5, 6]" by code_simp
  then show ?thesis by (simp add: sample_system_def get_default_interface_and_mac_def Let_def)
qed

lemma sample_answers: "sys_answers (sample_system 1500) 0x0A00000A [101, 116, 104, 48] [1, 2, 3, 4, 5, 6] 1500" "sizes_ok (sample_system m)"
  using sample_interface [of 1500] by (simp_all add: sys_answers_def sizes_ok_def get_mtu_def) (simp_all add: sample_system_def)

lemma sample_init_cost: "init_cost (sample_system m) 1500 < 600000"
  by (simp add: init_cost_def library_pools_def pools_cost_def stack_cost_def sample_system_def)

theorem library_initialised_witness:
  "\<exists>l. swiftnet_initialize (sample_system 1500) \<lparr>brk = 16, heap_limit = 1000000, blocks = Map.empty\<rparr> = Inr l \<and> lib_ok l \<and> connect_room 300000 1514 l \<and>
     default_network_interface l = [101, 116, 104, 48] \<and> mac_address l = [1, 2, 3, 4, 5, 6]"
proof -
  have "heap_room (300000 + init_cost (sample_system 1500) 1500 + (20576 + connection_cost)) sample_heap"
    using sample_init_cost [of 1500] by (simp add: heap_room_def)
  from library_initialised [OF sample_answers sample_heap_ok(1) this] show ?thesis by auto
qed

text \<open>
  When the system does not answer, a call fails, no interface has the local address, the
  interface has no Ethernet address, or the MTU is zero in sixteen bits, the program ends;
  that includes an interface whose MTU is 65536.
\<close>

theorem initialization_refused:
  assumes "\<not> (\<exists>ip name mac mtu. sys_answers os ip name mac mtu)"
  shows "swiftnet_initialize os h = Inl Exit_Failure"
  using assms by (auto simp: swiftnet_initialize_def sys_answers_def get_mtu_def split: option.splits)

theorem initialization_refused_witness:
  "swiftnet_initialize (sample_system 65536) \<lparr>brk = 16, heap_limit = 1000000, blocks = Map.empty\<rparr> = Inl Exit_Failure"
proof (rule initialization_refused)
  show "\<not> (\<exists>ip name mac mtu. sys_answers (sample_system 65536) ip name mac mtu)"
    by (simp add: sys_answers_def get_mtu_def) (simp add: sample_system_def)
qed


section \<open>The end of the library\<close>

lemma hashmap_destroy_fresh:
  assumes "hm_items hm = replicate 320 (null_item, [])" and "hm_capacity hm = 320" and "hm_items_at hm = Some a" and "a \<in> dom (blocks (c_heap e))"
  shows "hashmap_destroy hm e = Inr (e\<lparr>c_heap := (c_heap e)\<lparr>blocks := (blocks (c_heap e))(a := None)\<rparr>\<rparr>)"
proof -
  have "concat (map (\<lambda>b. if hm_value (fst b) = None then [] else snd b) (replicate 320 (null_item :: 'a hm_item, []))) = []" by (simp add: null_item_def)
  then show ?thesis using assms by (auto simp: hashmap_destroy_def env_free_def c_free_def)
qed

text \<open>A library whose tables are empty and whose pools have no live items.\<close>

definition unused :: "library \<Rightarrow> ptr \<Rightarrow> ptr \<Rightarrow> bool" where
  "unused l a b \<longleftrightarrow> (\<forall>i \<in> set (early_pools @ late_pools). \<exists>n. fresh_pool (c_heap (lib_env l)) n (pool (lib_env l) i)) \<and>
     distinct (pools_blocks (early_pools @ late_pools) (lib_env l) @ [a, b]) \<and>
     set (pools_blocks (early_pools @ late_pools) (lib_env l) @ [a, b]) \<subseteq> dom (blocks (c_heap (lib_env l))) \<and>
     (\<forall>(hm, p) \<in> {(lib_requests_sent l, a), (listeners l, b)}. hm_items hm = replicate 320 (null_item, []) \<and> hm_capacity hm = 320 \<and>
        hm_items_at hm = Some p \<and> item_occupation hm = replicate 10 0)"

lemma cleanup_run:
  assumes "unused l a b" and "10 < fuel"
  shows "\<exists>h. swiftnet_cleanup fuel l = Inr (l\<lparr>lib_env := (lib_env l)\<lparr>c_heap := h\<rparr>, swiftnet_closing := True\<rparr>) \<and>
    blocks h = blocks (c_heap (lib_env l)) |` (- set (pools_blocks (early_pools @ late_pools) (lib_env l) @ [a, b]))"
proof -
  note u = assms(1) [unfolded unused_def]
  let ?e = "lib_env l" let ?E = "pools_blocks early_pools ?e" let ?L = "pools_blocks late_pools ?e"
  have split: "pools_blocks (early_pools @ late_pools) ?e = ?E @ ?L" by simp
  have d: "distinct (?E @ ?L @ [a, b])" "set (?E @ ?L @ [a, b]) \<subseteq> dom (blocks (c_heap ?e))" using u unfolding split by simp_all
  obtain h1 where 1: "destroy_pools early_pools l = Inr (l\<lparr>lib_env := ?e\<lparr>c_heap := h1\<rparr>\<rparr>)" "brk h1 = brk (c_heap ?e)"
    "blocks h1 = blocks (c_heap ?e) |` (- set ?E)" using destroy_pools_ok [of early_pools l] u d by auto
  let ?h2 = "h1\<lparr>blocks := (blocks h1)(a := None)\<rparr>" let ?h3 = "?h2\<lparr>blocks := (blocks ?h2)(b := None)\<rparr>"
  have a: "a \<in> dom (blocks h1)" and b: "b \<in> dom (blocks ?h2)" using d 1(3) by auto
  have rq: "hashmap_destroy (lib_requests_sent l) (?e\<lparr>c_heap := h1\<rparr>) = Inr (?e\<lparr>c_heap := ?h2\<rparr>)"
    using hashmap_destroy_fresh [of "lib_requests_sent l" a "?e\<lparr>c_heap := h1\<rparr>"] u a by simp
  have ls: "hashmap_destroy (listeners l) (?e\<lparr>c_heap := ?h2\<rparr>) = Inr (?e\<lparr>c_heap := ?h3\<rparr>)"
    using hashmap_destroy_fresh [of "listeners l" b "?e\<lparr>c_heap := ?h2\<rparr>"] u b by simp
  let ?l2 = "l\<lparr>lib_env := ?e\<lparr>c_heap := ?h2\<rparr>\<rparr>" let ?l3 = "l\<lparr>lib_env := ?e\<lparr>c_heap := ?h3\<rparr>\<rparr>"
  have "loop_table fuel (\<lambda>l. Some (listeners l)) (on_value close_listener) ?l2 = Inr ?l2"
    by (rule loop_table_empty [of _ _ "listeners l"]) (use u assms(2) in \<open>simp_all add: occupation_words_def\<close>)
  then have cl: "close_listeners fuel ?l2 = Inr ?l3" using ls by (simp add: close_listeners_def)
  have "\<forall>i \<in> set late_pools. \<exists>n. fresh_pool (c_heap (lib_env ?l3)) n (pool (lib_env ?l3) i)"
    using u 1(2) alloc_ok_brk [of "c_heap ?e" _ ?h3] by (fastforce simp: fresh_pool_def)
  moreover have "distinct (pools_blocks late_pools (lib_env ?l3))" "set (pools_blocks late_pools (lib_env ?l3)) \<subseteq> dom (blocks (c_heap (lib_env ?l3)))"
    using d 1(3) by auto
  ultimately obtain h4 where 4: "destroy_pools late_pools ?l3 = Inr (?l3\<lparr>lib_env := (lib_env ?l3)\<lparr>c_heap := h4\<rparr>\<rparr>)"
    "blocks h4 = blocks (c_heap (lib_env ?l3)) |` (- set (pools_blocks late_pools (lib_env ?l3)))" using destroy_pools_ok [of late_pools ?l3] by blast
  have "swiftnet_cleanup fuel l = Inr (l\<lparr>lib_env := ?e\<lparr>c_heap := h4\<rparr>, swiftnet_closing := True\<rparr>)"
    using 1(1) rq cl 4(1) unfolding swiftnet_cleanup_def by simp
  moreover have "blocks h4 = blocks (c_heap ?e) |` (- set (pools_blocks (early_pools @ late_pools) ?e @ [a, b]))"
    unfolding split 4(2) using 1(3) by (auto simp: restrict_map_def fun_eq_iff)
  ultimately show ?thesis by blast
qed


lemma initialised_unused:
  assumes "sys_answers os ip name mac mtu" and "sizes_ok os" and "heap_ok h" and "heap_room (init_cost os mtu) h"
  obtains l a b p q where "swiftnet_initialize os h = Inr l" and "unused l a b" and "lib_leaks l = \<lparr>items_leaked = 0, bytes_leaked = 0\<rparr>" and "p \<noteq> q"
    and "blocks (c_heap (lib_env l)) |` (- set (pools_blocks (early_pools @ late_pools) (lib_env l) @ [a, b])) = (blocks h)(p \<mapsto> 40, q \<mapsto> 40)"
    and "blocks h p = None" and "blocks h q = None" and "\<not> swiftnet_closing l"
proof -
  obtain e rq e1 ls e2 where 1: "swiftnet_initialize os h = Inr (initialised os ip name mac mtu rq ls e2)"
    "env_ok e" "heap_grows h (c_heap e)" "brk (c_heap e) \<le> brk h + pools_cost (library_pools os mtu)"
    "\<forall>(i, isz, n) \<in> set (library_pools os mtu). fresh_pool (c_heap e) (unat n) (pool e i)"
    "adds_blocks (pools_blocks library_pool_ids e) (blocks h) (blocks (c_heap e))"
    "hashmap_create (Some Uint16_pool) e = (rq, e1)" "hashmap_create None e1 = (ls, e2)" "heap_room tables_cost (c_heap e)"
    by (rule initialize_run [OF assms])
  let ?l = "initialised os ip name mac mtu rq ls e2" let ?a = "brk (c_heap e)" let ?b = "brk (c_heap e1)" let ?p = "?a + 10240" let ?q = "?b + 10240"
  have h: "heap_ok (c_heap e)" "heap_room 10280 (c_heap e)" using 1(2,9) by (simp_all add: env_ok_def heap_room_def)
  note t1 = created_run [OF h(2,1) 1(7)]
  have "heap_room (10280 + 10280) (c_heap e)" "Some Uint16_pool \<noteq> Some Hashmap_item_pool" using 1(9) by simp_all
  note r1 = created_table(4) [OF 1(2) this 1(7)]
  note t2 = created_run [OF r1 t1(5) 1(8)]
  have pool: "pool e2 = pool e" using t1(1) t2(1) by simp
  have g: "brk (c_heap e) \<le> brk (c_heap e2)" using heap_within_create [OF 1(7)] heap_within_create [OF 1(8)] by (simp add: heap_within_def)
  have ids: "set library_pool_ids = set (early_pools @ late_pools)" by (auto simp: library_pool_ids_def early_pools_def late_pools_def)
  have fr: "\<forall>i \<in> set (early_pools @ late_pools). \<exists>n. fresh_pool (c_heap e2) n (pool e2 i)"
    using 1(5) alloc_ok_brk [OF _ g] unfolding ids [symmetric] library_pools_ids [of os mtu, symmetric] pool by (fastforce simp: fresh_pool_def)
  have all: "adds_blocks (pools_blocks library_pool_ids e @ [?a, ?p] @ [?b, ?q]) (blocks h) (blocks (c_heap e2))"
    by (rule adds_blocks_append [OF 1(6) adds_blocks_append [OF t1(3) t2(3)]])
  have "mset (pools_blocks (early_pools @ late_pools) e2) = mset (pools_blocks library_pool_ids e)"
    by (simp add: library_pool_ids_def early_pools_def late_pools_def pool)
  then have pb: "set (pools_blocks (early_pools @ late_pools) e2) = set (pools_blocks library_pool_ids e)"
    "distinct (pools_blocks (early_pools @ late_pools) e2) = distinct (pools_blocks library_pool_ids e)" by (rule mset_eq_setD, rule mset_eq_imp_distinct_iff)
  note ab = all [unfolded adds_blocks_def]
  have "?p \<noteq> ?b" using ab by simp
  have d: "distinct (pools_blocks (early_pools @ late_pools) e2 @ [?a, ?b])" "set (pools_blocks (early_pools @ late_pools) e2 @ [?a, ?b]) \<subseteq> dom (blocks (c_heap e2))"
    unfolding set_append distinct_append pb using ab by auto
  then have un: "unused ?l ?a ?b" unfolding unused_def using fr t1(2) t2(2) by (simp add: initialised_def)
  have "blocks (c_heap e2) ?p = Some 40" using adds_blocks_keep [OF t2(3), of ?p] t1(4) by auto
  then have rest: "blocks (c_heap e2) |` (- set (pools_blocks (early_pools @ late_pools) e2 @ [?a, ?b])) = (blocks h)(?p \<mapsto> 40, ?q \<mapsto> 40)"
    unfolding set_append pb using ab t2(4) by (auto simp: restrict_map_def fun_eq_iff)
  show ?thesis
  proof (rule that [OF 1(1) un])
    show "?p \<noteq> ?q" "blocks h ?p = None" "blocks h ?q = None" using ab by simp_all
  qed (use rest in \<open>simp_all add: initialised_def\<close>)
qed

text \<open>
  C14. Initialising the library and cleaning it up gives the memory back, up to the two
  arrays of occupation bits, which \<open>hashmap_destroy\<close> forgets; no item of a pool is
  reported as leaked, and the background service is told to stop.
\<close>

theorem initialize_cleanup:
  assumes "sys_answers os ip name mac mtu" and "sizes_ok os" and "heap_ok h" and "heap_room (init_cost os mtu) h" and "10 < fuel"
  shows "\<exists>l l' p q. swiftnet_initialize os h = Inr l \<and> swiftnet_cleanup fuel l = Inr l' \<and> lib_leaks l' = \<lparr>items_leaked = 0, bytes_leaked = 0\<rparr> \<and>
    blocks (c_heap (lib_env l')) = (blocks h)(p \<mapsto> 40, q \<mapsto> 40) \<and> p \<noteq> q \<and> blocks h p = None \<and> blocks h q = None \<and> swiftnet_closing l'"
proof -
  obtain l a b p q where 1: "swiftnet_initialize os h = Inr l" "unused l a b" "lib_leaks l = \<lparr>items_leaked = 0, bytes_leaked = 0\<rparr>" "p \<noteq> q"
    "blocks (c_heap (lib_env l)) |` (- set (pools_blocks (early_pools @ late_pools) (lib_env l) @ [a, b])) = (blocks h)(p \<mapsto> 40, q \<mapsto> 40)"
    "blocks h p = None" "blocks h q = None" by (rule initialised_unused [OF assms(1-4)])
  from cleanup_run [OF 1(2) assms(5)] show ?thesis unfolding 1(5) using 1(1,3,4,6,7) by fastforce
qed

theorem initialize_cleanup_witness:
  "\<exists>l l' p q. swiftnet_initialize (sample_system 1500) \<lparr>brk = 16, heap_limit = 1000000, blocks = Map.empty\<rparr> = Inr l \<and> swiftnet_cleanup 11 l = Inr l' \<and>
     blocks (c_heap (lib_env l')) = [p \<mapsto> 40, q \<mapsto> 40]"
proof -
  have "heap_room (init_cost (sample_system 1500) 1500) sample_heap" using sample_init_cost [of 1500] by (simp add: heap_room_def)
  from initialize_cleanup [OF sample_answers sample_heap_ok(1) this, of 11] show ?thesis by auto
qed

lemma destroy_pools_listeners: "destroy_pools is l = Inr l' \<Longrightarrow> listener_at l' = listener_at l"
  by (induction "is" arbitrary: l) (auto simp: res_simps)

text \<open>
  The clean-up of the library closes no listener: when it returns, every listener is as it
  was, with its capture handle open if it was open, although its memory has been given back.
\<close>

theorem listeners_left_open:
  assumes "swiftnet_cleanup fuel l = Inr l'"
  shows "listener_at l' = listener_at l"
proof -
  obtain l1 e l2 l3 where 1: "destroy_pools early_pools l = Inr l1" "close_listeners fuel (l1\<lparr>lib_env := e\<rparr>) = Inr l2"
    "destroy_pools late_pools l2 = Inr l3" "l' = l3\<lparr>swiftnet_closing := True\<rparr>" using assms by (auto simp: swiftnet_cleanup_def res_simps)
  obtain l4 e4 where 2: "loop_table fuel (\<lambda>l. Some (listeners l)) (on_value close_listener) (l1\<lparr>lib_env := e\<rparr>) = Inr l4" "l2 = l4\<lparr>lib_env := e4\<rparr>"
    using 1(2) by (auto simp: close_listeners_def res_simps)
  have "listener_at l2 = listener_at l1" using loop_table_same [OF 2(1)] 2(2) by simp
  then show ?thesis using destroy_pools_listeners [OF 1(1)] destroy_pools_listeners [OF 1(3)] 1(4) by simp
qed

theorem listeners_left_open_witness:
  "\<exists>l l' li. swiftnet_cleanup 11 l = Inr l' \<and> listener_at l' 5 = Some li \<and> li_pcap li = Some True"
proof -
  have "heap_room (init_cost (sample_system 1500) 1500) sample_heap" using sample_init_cost [of 1500] by (simp add: heap_room_def)
  from initialised_unused [OF sample_answers sample_heap_ok(1) this] obtain l a b where l: "unused l a b" by metis
  define li where "li = \<lparr>li_network_data = open_networking (Some DLT_NULL), li_pcap = Some True, servers = listeners l, client_connections = listeners l,
    interface_name = [108, 111], li_addr_type = DLT_NULL, li_loopback = True\<rparr>"
  let ?l = "l\<lparr>listener_at := [5 \<mapsto> li]\<rparr>"
  have "unused ?l a b" using l by (simp add: unused_def)
  from cleanup_run [OF this, of 11] obtain l' where c: "swiftnet_cleanup 11 ?l = Inr l'" by auto
  from listeners_left_open [OF c] have "listener_at l' 5 = Some li" by simp
  with c show ?thesis by (intro exI [of _ ?l] exI [of _ l'] exI [of _ li]) (simp add: li_def)
qed

theorem background_service_idle_witness:
  "\<exists>l l'. memory_cleanup_background_service 11 [\<lambda>l. l\<lparr>swiftnet_closing := True\<rparr>] l = Inr l' \<and> \<not> swiftnet_closing l \<and> l' = l\<lparr>swiftnet_closing := True\<rparr>"
proof -
  have "heap_room (init_cost (sample_system 1500) 1500) sample_heap" using sample_init_cost [of 1500] by (simp add: heap_room_def)
  from initialised_unused [OF sample_answers sample_heap_ok(1) this] obtain l a b where l: "unused l a b" "\<not> swiftnet_closing l" by metis
  have "memory_cleanup 11 l = Inr l" unfolding memory_cleanup_def
    by (rule loop_table_empty [of _ _ "listeners l"]) (use l(1) in \<open>simp_all add: unused_def occupation_words_def\<close>)
  then have run: "memory_cleanup_background_service 11 [\<lambda>l. l\<lparr>swiftnet_closing := True\<rparr>] l = Inr (l\<lparr>swiftnet_closing := True\<rparr>)" using l(2) by simp
  from background_service_idle [OF run] have "swiftnet_closing (l\<lparr>swiftnet_closing := True\<rparr>)" by blast
  with run l(2) show ?thesis by blast
qed

end
