(* ===== verification/Swift_Dpdk.thy ===== *)
theory Swift_Dpdk
  imports Swift_Send
begin

text \<open>
  The packet buffers of the DPDK backend (\<open>src/internal/dpdk/dpdk_buffer.c\<close>): a message lies
  in a row of the framework's buffers, one per frame, each with room for the headers in
  front of its data. The framework itself is a parameter, a record of the functions the code
  calls; what the code relies on is \<open>rte_ok\<close>. Of an \<open>rte_mbuf\<close> the code uses the block at
  \<open>buf_addr\<close>, the offset \<open>data_off\<close> at which \<open>rte_pktmbuf_mtod\<close> points into it, and the
  lengths \<open>data_len\<close> and \<open>pkt_len\<close>.
\<close>

section \<open>The framework\<close>

record mbuf =
  buf_addr :: "u8 list"
  data_off :: u16
  data_len :: u16
  pkt_len :: u32

text \<open>
  The memory of a program on DPDK: the C heap, the buffers, the frames the device has taken,
  and whatever else the framework keeps.
\<close>

record dpdk =
  d_heap :: heap
  mbuf_at :: "ptr \<Rightarrow> mbuf option"
  tx_frames :: "u8 list list"

record 'z rte =
  rte_pktmbuf_alloc :: "'z dpdk_scheme \<Rightarrow> ptr option \<times> 'z dpdk_scheme"
  rte_pktmbuf_alloc_bulk :: "u32 \<Rightarrow> 'z dpdk_scheme \<Rightarrow> ptr list option \<times> 'z dpdk_scheme"
  rte_pktmbuf_append :: "ptr \<Rightarrow> u16 \<Rightarrow> 'z dpdk_scheme \<Rightarrow> 'z dpdk_scheme"
  rte_pktmbuf_free :: "ptr \<Rightarrow> 'z dpdk_scheme \<Rightarrow> 'z dpdk_scheme"
  rte_pktmbuf_free_bulk :: "ptr list \<Rightarrow> 'z dpdk_scheme \<Rightarrow> 'z dpdk_scheme"
  rte_pktmbuf_clone :: "ptr \<Rightarrow> 'z dpdk_scheme \<Rightarrow> ptr option \<times> 'z dpdk_scheme"
  rte_eth_tx_burst :: "ptr \<Rightarrow> 'z dpdk_scheme \<Rightarrow> bool \<times> 'z dpdk_scheme"

definition mbuf_get :: "ptr \<Rightarrow> 'z dpdk_scheme \<Rightarrow> mbuf res" where
  "mbuf_get p s = (case mbuf_at s p of None \<Rightarrow> Inl Null_Deref | Some m \<Rightarrow> Inr m)"

definition mbuf_set :: "ptr \<Rightarrow> mbuf \<Rightarrow> 'z dpdk_scheme \<Rightarrow> 'z dpdk_scheme" where
  "mbuf_set p m s = s\<lparr>mbuf_at := (mbuf_at s)(p \<mapsto> m)\<rparr>"

section \<open>Packet buffers\<close>

record dpdk_buffer =
  dpdk_buffers_at :: "ptr option"
  dpdk_buffers :: "ptr list"
  total_data_size :: u32
  buf_amount :: u32
  data_len_per_packet :: u16
  append_offset :: u32

definition mbuf_size_for_data :: "u16 \<Rightarrow> u8 \<Rightarrow> u16" where
  "mbuf_size_for_data data_size prepend = data_size + 44 + ucast prepend"

definition mbuf_size_for_full_chunk :: "net_globals \<Rightarrow> u8 \<Rightarrow> u16" where
  "mbuf_size_for_full_chunk g prepend = maximum_transmission_unit g + ucast prepend"

definition buffer_slot :: "dpdk_buffer \<Rightarrow> nat \<Rightarrow> ptr res" where
  "buffer_slot pb i =
     (if dpdk_buffers_at pb = None then Inl Null_Deref
      else if length (dpdk_buffers pb) \<le> i then Inl Out_Of_Bounds else Inr (dpdk_buffers pb ! i))"

text \<open>
  Full buffers from one bulk allocation, and one buffer with \<open>n\<close> bytes of data. The code
  does not look at whether the framework had any left: what it has then is no buffer.
\<close>

definition full_buffers :: "'z rte \<Rightarrow> net_globals \<Rightarrow> u8 \<Rightarrow> u32 \<Rightarrow> 'z dpdk_scheme \<Rightarrow> (ptr list \<times> 'z dpdk_scheme) res" where
  "full_buffers rte g prepend n s =
     (if 0 < n
      then case rte_pktmbuf_alloc_bulk rte n s of
             (None, s1) \<Rightarrow> Inl Null_Deref
           | (Some ps, s1) \<Rightarrow> Inr (ps, fold (\<lambda>p. rte_pktmbuf_append rte p (mbuf_size_for_full_chunk g prepend)) ps s1)
      else Inr ([], s))"

definition data_buffer :: "'z rte \<Rightarrow> u8 \<Rightarrow> u16 \<Rightarrow> 'z dpdk_scheme \<Rightarrow> (ptr \<times> 'z dpdk_scheme) res" where
  "data_buffer rte prepend n s =
     (case rte_pktmbuf_alloc rte s of
        (None, s1) \<Rightarrow> Inl Null_Deref
      | (Some p, s1) \<Rightarrow> Inr (p, rte_pktmbuf_append rte p (mbuf_size_for_data n prepend) s1))"

definition dpdk_create_packet_buffer ::
  "'z rte \<Rightarrow> net_globals \<Rightarrow> network_data \<Rightarrow> u32 \<Rightarrow> 'z dpdk_scheme \<Rightarrow> (dpdk_buffer \<times> 'z dpdk_scheme) res" where
  "dpdk_create_packet_buffer rte g nd buffer_size s =
     (let dl = maximum_transmission_unit g - 44
      in if dl = 0 then Inl Div_By_Zero
         else let remaining_data = ucast (buffer_size mod ucast dl) :: u16; chunk_amount = buffer_size div ucast dl
              in case malloc (8 * unat (chunk_amount + 1)) (d_heap s) of
                   (None, h) \<Rightarrow> Inl Null_Deref
                 | (Some a, h) \<Rightarrow>
                     rbind (full_buffers rte g (prepend_size nd) chunk_amount (s\<lparr>d_heap := h\<rparr>))
                       (\<lambda>(ps, s1). rbind (data_buffer rte (prepend_size nd) remaining_data s1)
                       (\<lambda>(p, s2). Inr (\<lparr>dpdk_buffers_at = Some a, dpdk_buffers = ps @ [p], total_data_size = buffer_size,
                                         buf_amount = chunk_amount + 1, data_len_per_packet = dl, append_offset = 0\<rparr>, s2))))"

text \<open>The data a buffer has behind its headers.\<close>

definition mbuf_data_size :: "u8 \<Rightarrow> mbuf \<Rightarrow> u16" where
  "mbuf_data_size prepend m = data_len m - 44 - ucast prepend"

definition cut_mbuf :: "ptr \<Rightarrow> u16 \<Rightarrow> mbuf \<Rightarrow> 'z dpdk_scheme \<Rightarrow> 'z dpdk_scheme" where
  "cut_mbuf p n m s = mbuf_set p (m\<lparr>data_len := n, pkt_len := ucast n\<rparr>) s"

text \<open>\<open>realloc\<close> of the array of pointers, to \<open>n\<close> of them.\<close>

definition realloc_array :: "ptr option \<Rightarrow> nat \<Rightarrow> heap \<Rightarrow> (ptr option \<times> heap) res" where
  "realloc_array a n h =
     (case malloc (8 * n) h of
        (None, h1) \<Rightarrow> Inr (None, h1)
      | (Some b, h1) \<Rightarrow> rbind (c_free a h1) (\<lambda>h2. Inr (Some b, h2)))"

text \<open>Growing fills the last buffer; for what does not fit there are full buffers and one for the remainder.\<close>

definition dpdk_extend ::
  "'z rte \<Rightarrow> net_globals \<Rightarrow> network_data \<Rightarrow> u32 \<Rightarrow> u32 \<Rightarrow> dpdk_buffer \<Rightarrow> 'z dpdk_scheme \<Rightarrow> (dpdk_buffer \<times> 'z dpdk_scheme) res" where
  "dpdk_extend rte g nd new_size rest pb s =
     (let dl = data_len_per_packet pb
      in if dl = 0 then Inl Div_By_Zero
         else let chunk_amount = rest div ucast dl; remainder = ucast (rest mod ucast dl) :: u16;
                  new_slots = chunk_amount + (if remainder \<noteq> 0 then 1 else 0)
              in rbind (realloc_array (dpdk_buffers_at pb) (unat (buf_amount pb + new_slots)) (d_heap s))
                   (\<lambda>(r, h). case r of
                      None \<Rightarrow> Inl Exit_Failure
                    | Some a \<Rightarrow>
                        rbind (full_buffers rte g (prepend_size nd) chunk_amount (s\<lparr>d_heap := h\<rparr>))
                          (\<lambda>(ps, s1).
                             let pb1 = pb\<lparr>dpdk_buffers_at := Some a, dpdk_buffers := take (unat (buf_amount pb)) (dpdk_buffers pb) @ ps,
                                          buf_amount := buf_amount pb + chunk_amount, total_data_size := new_size\<rparr>
                             in if remainder \<noteq> 0
                                then rbind (data_buffer rte (prepend_size nd) remainder s1)
                                       (\<lambda>(p, s2). Inr (pb1\<lparr>dpdk_buffers := dpdk_buffers pb1 @ [p], buf_amount := buf_amount pb1 + 1\<rparr>, s2))
                                else Inr (pb1, s1))))"

definition dpdk_grow ::
  "'z rte \<Rightarrow> net_globals \<Rightarrow> network_data \<Rightarrow> u32 \<Rightarrow> ptr \<Rightarrow> u16 \<Rightarrow> dpdk_buffer \<Rightarrow> 'z dpdk_scheme \<Rightarrow> (dpdk_buffer \<times> 'z dpdk_scheme) res" where
  "dpdk_grow rte g nd new_size last_packet last_size pb s =
     (let dl = data_len_per_packet pb; change = new_size - total_data_size pb
      in if change + ucast last_size \<le> ucast dl
         then Inr (pb\<lparr>total_data_size := new_size\<rparr>, rte_pktmbuf_append rte last_packet (ucast change) s)
         else dpdk_extend rte g nd new_size (change - (ucast dl - ucast last_size)) pb
                (rte_pktmbuf_append rte last_packet (dl - last_size) s))"

text \<open>The loop that gives back the buffers nothing of which is needed any more, and what it leaves.\<close>

function free_tail :: "'z rte \<Rightarrow> dpdk_buffer \<Rightarrow> u32 \<Rightarrow> u32 \<Rightarrow> 'z dpdk_scheme \<Rightarrow> (u32 \<times> u32 \<times> 'z dpdk_scheme) res" where
  "free_tail rte pb amount change s =
     (if ucast (data_len_per_packet pb) \<le> change \<and> 1 < amount
      then rbind (buffer_slot pb (unat (amount - 1)))
             (\<lambda>p. free_tail rte pb (amount - 1) (change - ucast (data_len_per_packet pb)) (rte_pktmbuf_free rte p s))
      else Inr (amount, change, s))"
  by pat_completeness auto
termination
proof (relation "measure (\<lambda>(rte, pb, amount, change, s). unat amount)")
  show "((rte, pb, amount - 1, change - ucast (data_len_per_packet pb), rte_pktmbuf_free rte p s), rte, pb, amount, change, s)
      \<in> measure (\<lambda>(rte, pb, amount, change, s). unat amount)"
    if "ucast (data_len_per_packet pb) \<le> change \<and> 1 < amount" for rte :: "'a rte" and pb amount change s p
  proof -
    have "1 \<le> amount" "1 < unat amount" using that by (simp_all add: word_less_nat_alt word_le_nat_alt)
    then show ?thesis by (simp add: unat_sub)
  qed
qed simp

declare free_tail.simps [simp del]

text \<open>The last buffer of a shrunk row: cut, or replaced by an empty one when nothing of it is left.\<close>

definition new_last :: "'z rte \<Rightarrow> u8 \<Rightarrow> ptr \<Rightarrow> mbuf \<Rightarrow> u32 \<Rightarrow> 'z dpdk_scheme \<Rightarrow> (ptr \<times> 'z dpdk_scheme) res" where
  "new_last rte prepend p m rest s =
     (let last_size = mbuf_data_size prepend m
      in if ucast last_size \<le> rest
         then data_buffer rte prepend 0 (rte_pktmbuf_free rte p s)
         else Inr (p, cut_mbuf p (mbuf_size_for_data (ucast (ucast last_size - rest)) prepend) m s))"

definition shrink_to ::
  "'z rte \<Rightarrow> network_data \<Rightarrow> u32 \<Rightarrow> u32 \<Rightarrow> u32 \<Rightarrow> dpdk_buffer \<Rightarrow> 'z dpdk_scheme \<Rightarrow> (dpdk_buffer \<times> 'z dpdk_scheme) res" where
  "shrink_to rte nd new_size amount rest pb s =
     rbind (buffer_slot pb (unat (amount - 1)))
       (\<lambda>p. rbind (mbuf_get p s)
       (\<lambda>m. rbind (new_last rte (prepend_size nd) p m rest s)
       (\<lambda>(q, s1). rbind (realloc_array (dpdk_buffers_at pb) (unat amount) (d_heap s1))
       (\<lambda>(r, h). case r of
          None \<Rightarrow> Inr (pb\<lparr>dpdk_buffers_at := None, dpdk_buffers := [], buf_amount := amount, total_data_size := new_size\<rparr>, s1\<lparr>d_heap := h\<rparr>)
        | Some a \<Rightarrow> Inr (pb\<lparr>dpdk_buffers_at := Some a, dpdk_buffers := (take (unat amount) (dpdk_buffers pb))[unat (amount - 1) := q],
                           buf_amount := amount, total_data_size := new_size\<rparr>, s1\<lparr>d_heap := h\<rparr>)))))"

definition dpdk_shrink ::
  "'z rte \<Rightarrow> network_data \<Rightarrow> u32 \<Rightarrow> ptr \<Rightarrow> mbuf \<Rightarrow> dpdk_buffer \<Rightarrow> 'z dpdk_scheme \<Rightarrow> (dpdk_buffer \<times> 'z dpdk_scheme) res" where
  "dpdk_shrink rte nd new_size last_packet m pb s =
     (let change = total_data_size pb - new_size; last_size = mbuf_data_size (prepend_size nd) m
      in if change \<le> ucast last_size
         then Inr (pb\<lparr>total_data_size := new_size\<rparr>, cut_mbuf last_packet (mbuf_size_for_data (ucast (ucast last_size - change)) (prepend_size nd)) m s)
         else rbind (free_tail rte pb (buf_amount pb - 1) (change - ucast last_size) (rte_pktmbuf_free rte last_packet s))
                (\<lambda>(amount, rest, s1). shrink_to rte nd new_size amount rest pb s1))"

definition dpdk_resize_packet_buffer ::
  "'z rte \<Rightarrow> net_globals \<Rightarrow> network_data \<Rightarrow> u32 \<Rightarrow> dpdk_buffer \<Rightarrow> 'z dpdk_scheme \<Rightarrow> (dpdk_buffer \<times> 'z dpdk_scheme) res" where
  "dpdk_resize_packet_buffer rte g nd new_size pb s =
     (if new_size = total_data_size pb then Inr (pb, s)
      else rbind (buffer_slot pb (unat (buf_amount pb - 1)))
        (\<lambda>last_packet. rbind (mbuf_get last_packet s)
        (\<lambda>m. if total_data_size pb < new_size
              then dpdk_grow rte g nd new_size last_packet (mbuf_data_size (prepend_size nd) m) pb s
              else dpdk_shrink rte nd new_size last_packet m pb s)))"

text \<open>
  Writing goes from buffer to buffer. A turn copies at least one byte, so the loop ends; it
  would not if a buffer had no room for data at all.
\<close>

function write_loop :: "u32 \<Rightarrow> dpdk_buffer \<Rightarrow> nat \<Rightarrow> u32 \<Rightarrow> u8 list \<Rightarrow> 'z dpdk_scheme \<Rightarrow> 'z dpdk_scheme res" where
  "write_loop reserved pb chunk off d s =
     (if d = [] then Inr s
      else let n = min (unat (ucast (data_len_per_packet pb) - off :: u32)) (length d)
           in if n = 0 then Inl Stuck
              else rbind (buffer_slot pb chunk)
                (\<lambda>p. rbind (mbuf_get p s)
                (\<lambda>m. rbind (memcpy_at (unat (data_off m) + unat (reserved + off)) (take n d) (buf_addr m))
                (\<lambda>mem. write_loop reserved pb (chunk + 1) 0 (drop n d) (mbuf_set p (m\<lparr>buf_addr := mem\<rparr>) s)))))"
  by pat_completeness auto
termination by (relation "measure (\<lambda>(reserved, pb, chunk, off, d, s). length d)") auto

declare write_loop.simps [simp del]

definition dpdk_write_packet_buffer ::
  "net_globals \<Rightarrow> u32 \<Rightarrow> dpdk_buffer \<Rightarrow> u8 list \<Rightarrow> u32 \<Rightarrow> 'z dpdk_scheme \<Rightarrow> 'z dpdk_scheme res" where
  "dpdk_write_packet_buffer g byte_offset pb data data_size s =
     (let dl = ucast (data_len_per_packet pb) :: u32
      in if dl = 0 then Inl Div_By_Zero
         else rbind (read_at 0 (unat data_size) data)
                (\<lambda>d. write_loop (ucast (maximum_transmission_unit g) - dl + 14) pb (unat (byte_offset div dl)) (byte_offset mod dl) d s))"

definition dpdk_append_to_buffer ::
  "net_globals \<Rightarrow> u8 list option \<Rightarrow> u32 \<Rightarrow> dpdk_buffer \<Rightarrow> 'z dpdk_scheme \<Rightarrow> (dpdk_buffer \<times> 'z dpdk_scheme) res" where
  "dpdk_append_to_buffer g data data_size pb s =
     rbind (validate_append_to_packet_args data data_size)
       (\<lambda>d. rbind (dpdk_write_packet_buffer g (append_offset pb) pb d data_size s)
       (\<lambda>s1. Inr (pb\<lparr>append_offset := append_offset pb + data_size\<rparr>, s1)))"

definition dpdk_destroy_packet_buffer :: "'z rte \<Rightarrow> dpdk_buffer \<Rightarrow> 'z dpdk_scheme \<Rightarrow> 'z dpdk_scheme res" where
  "dpdk_destroy_packet_buffer rte pb s =
     (let s1 = rte_pktmbuf_free_bulk rte (take (unat (buf_amount pb)) (dpdk_buffers pb)) s
      in rbind (c_free (dpdk_buffers_at pb) (d_heap s1)) (\<lambda>h. Inr (s1\<lparr>d_heap := h\<rparr>)))"


section \<open>What the code relies on\<close>

text \<open>A buffer with \<open>room\<close> bytes from \<open>rte_pktmbuf_mtod\<close> on, and one that has just been allocated.\<close>

definition mbuf_room :: "nat \<Rightarrow> mbuf \<Rightarrow> bool" where
  "mbuf_room room m \<longleftrightarrow> length (buf_addr m) = unat (data_off m) + room"

definition mbuf_fresh :: "nat \<Rightarrow> mbuf \<Rightarrow> bool" where
  "mbuf_fresh room m \<longleftrightarrow> mbuf_room room m \<and> data_len m = 0 \<and> pkt_len m = 0"

text \<open>
  The framework, with \<open>avail\<close> buffers of \<open>room\<close> bytes left in its pool: an allocation hands
  out buffers nobody has, as long as there are enough; appending extends the data of a
  buffer if it fits; freed buffers go back. Nothing else is touched.
\<close>

definition rte_alloc_ok :: "'z rte \<Rightarrow> nat \<Rightarrow> ('z dpdk_scheme \<Rightarrow> nat) \<Rightarrow> bool" where
  "rte_alloc_ok rte room avail \<longleftrightarrow> (\<forall>s. 0 < avail s \<longrightarrow> (\<exists>p m s'. rte_pktmbuf_alloc rte s = (Some p, s') \<and> mbuf_at s p = None \<and>
     mbuf_fresh room m \<and> mbuf_at s' = (mbuf_at s)(p \<mapsto> m) \<and> d_heap s' = d_heap s \<and> avail s = Suc (avail s')))"

definition rte_bulk_ok :: "'z rte \<Rightarrow> nat \<Rightarrow> ('z dpdk_scheme \<Rightarrow> nat) \<Rightarrow> bool" where
  "rte_bulk_ok rte room avail \<longleftrightarrow> (\<forall>n s. unat n \<le> avail s \<longrightarrow> (\<exists>ps s'. rte_pktmbuf_alloc_bulk rte n s = (Some ps, s') \<and>
     length ps = unat n \<and> distinct ps \<and> (\<forall>p \<in> set ps. mbuf_at s p = None) \<and> (\<forall>p \<in> set ps. \<exists>m. mbuf_at s' p = Some m \<and> mbuf_fresh room m) \<and>
     (\<forall>p. p \<notin> set ps \<longrightarrow> mbuf_at s' p = mbuf_at s p) \<and> d_heap s' = d_heap s \<and> avail s = avail s' + unat n))"

definition rte_append_ok :: "'z rte \<Rightarrow> nat \<Rightarrow> bool" where
  "rte_append_ok rte room \<longleftrightarrow> (\<forall>p n s m. mbuf_at s p = Some m \<longrightarrow> unat (data_len m) + unat n \<le> room \<longrightarrow>
     rte_pktmbuf_append rte p n s = mbuf_set p (m\<lparr>data_len := data_len m + n, pkt_len := pkt_len m + ucast n\<rparr>) s)"

definition rte_free_ok :: "'z rte \<Rightarrow> ('z dpdk_scheme \<Rightarrow> nat) \<Rightarrow> bool" where
  "rte_free_ok rte avail \<longleftrightarrow> (\<forall>p s. mbuf_at s p \<noteq> None \<longrightarrow> mbuf_at (rte_pktmbuf_free rte p s) = (mbuf_at s)(p := None) \<and>
     d_heap (rte_pktmbuf_free rte p s) = d_heap s \<and> avail (rte_pktmbuf_free rte p s) = Suc (avail s))"

definition rte_free_bulk_ok :: "'z rte \<Rightarrow> ('z dpdk_scheme \<Rightarrow> nat) \<Rightarrow> bool" where
  "rte_free_bulk_ok rte avail \<longleftrightarrow> (\<forall>ps s. distinct ps \<longrightarrow> (\<forall>p \<in> set ps. mbuf_at s p \<noteq> None) \<longrightarrow>
     mbuf_at (rte_pktmbuf_free_bulk rte ps s) = mbuf_at s |` (- set ps) \<and> d_heap (rte_pktmbuf_free_bulk rte ps s) = d_heap s \<and>
     avail (rte_pktmbuf_free_bulk rte ps s) = avail s + length ps)"

text \<open>
  A clone has the bytes of the original. The device takes a frame and keeps the buffer, or
  refuses it; only it adds to the frames that are sent.
\<close>

definition mbuf_bytes :: "mbuf \<Rightarrow> u8 list" where
  "mbuf_bytes m = seg (unat (data_off m)) (unat (data_len m)) (buf_addr m)"

definition rte_clone_ok :: "'z rte \<Rightarrow> ('z dpdk_scheme \<Rightarrow> nat) \<Rightarrow> bool" where
  "rte_clone_ok rte avail \<longleftrightarrow> (\<forall>s p m. mbuf_at s p = Some m \<longrightarrow> 0 < avail s \<longrightarrow> (\<exists>q s'. rte_pktmbuf_clone rte p s = (Some q, s') \<and>
     mbuf_at s q = None \<and> mbuf_at s' = (mbuf_at s)(q \<mapsto> m) \<and> d_heap s' = d_heap s \<and> tx_frames s' = tx_frames s \<and> avail s = Suc (avail s')))"

definition rte_tx_ok :: "'z rte \<Rightarrow> ('z dpdk_scheme \<Rightarrow> nat) \<Rightarrow> bool" where
  "rte_tx_ok rte avail \<longleftrightarrow> (\<forall>s q m. mbuf_at s q = Some m \<longrightarrow> rte_eth_tx_burst rte q s = (False, s) \<or>
     (\<exists>s'. rte_eth_tx_burst rte q s = (True, s') \<and> mbuf_at s' = (mbuf_at s)(q := None) \<and> d_heap s' = d_heap s \<and>
        tx_frames s' = tx_frames s @ [mbuf_bytes m] \<and> avail s \<le> avail s'))"

definition rte_quiet_ok :: "'z rte \<Rightarrow> bool" where
  "rte_quiet_ok rte \<longleftrightarrow> (\<forall>s. tx_frames (snd (rte_pktmbuf_alloc rte s)) = tx_frames s) \<and> (\<forall>p s. tx_frames (rte_pktmbuf_free rte p s) = tx_frames s)"

definition rte_ok :: "'z rte \<Rightarrow> nat \<Rightarrow> ('z dpdk_scheme \<Rightarrow> nat) \<Rightarrow> bool" where
  "rte_ok rte room avail \<longleftrightarrow>
     (\<forall>s p m. mbuf_at s p \<noteq> None \<longrightarrow> avail (mbuf_set p m s) = avail s) \<and> (\<forall>s h. avail (s\<lparr>d_heap := h\<rparr>) = avail s) \<and> rte_alloc_ok rte room avail \<and>
     rte_bulk_ok rte room avail \<and> rte_append_ok rte room \<and> rte_free_ok rte avail \<and> rte_free_bulk_ok rte avail \<and> rte_clone_ok rte avail \<and> rte_tx_ok rte avail \<and> rte_quiet_ok rte"

section \<open>Contents\<close>

text \<open>Headers of \<open>H\<close> bytes, then the data.\<close>

definition mbuf_data :: "nat \<Rightarrow> mbuf \<Rightarrow> u8 list" where
  "mbuf_data H m = seg (unat (data_off m) + H) (unat (data_len m) - H) (buf_addr m)"

definition mbuf_ok :: "nat \<Rightarrow> nat \<Rightarrow> nat \<Rightarrow> mbuf \<Rightarrow> bool" where
  "mbuf_ok H dl room m \<longleftrightarrow> mbuf_room room m \<and> H \<le> unat (data_len m) \<and> unat (data_len m) \<le> H + dl"

definition row_ok :: "nat \<Rightarrow> nat \<Rightarrow> nat \<Rightarrow> 'z dpdk_scheme \<Rightarrow> ptr list \<Rightarrow> bool" where
  "row_ok H dl room s ps \<longleftrightarrow> distinct ps \<and> (\<forall>p \<in> set ps. \<exists>m. mbuf_at s p = Some m \<and> mbuf_ok H dl room m)"

definition row :: "nat \<Rightarrow> 'z dpdk_scheme \<Rightarrow> ptr list \<Rightarrow> u8 list list" where
  "row H s ps = map (\<lambda>p. mbuf_data H (the (mbuf_at s p))) ps"

text \<open>
  A packet buffer in order: every buffer but the last is full, and the data adds up to the
  size that is noted.
\<close>

definition dpdk_ok :: "nat \<Rightarrow> nat \<Rightarrow> nat \<Rightarrow> dpdk_buffer \<Rightarrow> 'z dpdk_scheme \<Rightarrow> bool" where
  "dpdk_ok H dl room pb s \<longleftrightarrow> 0 < dl \<and> H + dl \<le> room \<and> room < 2 ^ 16 \<and> unat (data_len_per_packet pb) = dl \<and>
     dpdk_buffers pb \<noteq> [] \<and> length (dpdk_buffers pb) = unat (buf_amount pb) \<and> row_ok H dl room s (dpdk_buffers pb) \<and>
     (\<forall>d \<in> set (butlast (row H s (dpdk_buffers pb))). length d = dl) \<and>
     length (concat (row H s (dpdk_buffers pb))) = unat (total_data_size pb) \<and>
     (\<exists>a. dpdk_buffers_at pb = Some a \<and> a \<in> dom (blocks (d_heap s))) \<and> heap_ok (d_heap s)"

definition dpdk_contents :: "nat \<Rightarrow> dpdk_buffer \<Rightarrow> 'z dpdk_scheme \<Rightarrow> u8 list" where
  "dpdk_contents H pb s = concat (row H s (dpdk_buffers pb))"

lemma length_mbuf_data: "mbuf_ok H dl room m \<Longrightarrow> H + dl \<le> room \<Longrightarrow> length (mbuf_data H m) = unat (data_len m) - H"
  unfolding mbuf_ok_def mbuf_room_def mbuf_data_def by (intro length_seg) linarith

lemma row_append [simp]: "row H s (ps @ qs) = row H s ps @ row H s qs"
  by (simp add: row_def)

lemma row_same: "(\<And>p. p \<in> set ps \<Longrightarrow> mbuf_at s' p = mbuf_at s p) \<Longrightarrow> row H s' ps = row H s ps"
  by (simp add: row_def)

section \<open>Writing\<close>

text \<open>Writing into one of several pieces writes into what they make together.\<close>

lemma length_concat_const: "(\<forall>x \<in> set xs. length x = n) \<Longrightarrow> length (concat xs) = length xs * n"
  by (induction xs) simp_all

lemma concat_put:
  assumes "k < length cs" and "\<forall>x \<in> set (butlast cs). length x = dl" and "off + length d \<le> length (cs ! k)"
  shows "concat (cs[k := put off d (cs ! k)]) = put (k * dl + off) d (concat cs)"
proof -
  let ?A = "concat (take k cs)" let ?B = "concat (drop (Suc k) cs)"
  have cs: "concat cs = ?A @ cs ! k @ ?B" using assms(1) by (metis concat.simps(2) concat_append id_take_nth_drop)
  have "take k cs = take k (butlast cs)" using assms(1) by (simp add: butlast_conv_take take_take)
  then have "\<forall>x \<in> set (take k cs). length x = dl" using assms(2) by (auto dest: in_set_takeD)
  from length_concat_const [OF this] assms(1) have A: "length ?A = k * dl" by simp
  have "concat (cs[k := put off d (cs ! k)]) = ?A @ put off d (cs ! k) @ ?B" using assms(1) by (simp add: upd_conv_take_nth_drop)
  also have "\<dots> = put (k * dl + off) d (concat cs)" using assms(3) by (simp add: cs A put_append_right put_append_left)
  finally show ?thesis .
qed

text \<open>Where in a row a byte is.\<close>

lemma length_concat_row:
  assumes "\<forall>x \<in> set (butlast cs). length x = dl" and "cs \<noteq> []"
  shows "length (concat cs) = (length cs - 1) * dl + length (last cs)"
proof -
  have "concat cs = concat (butlast cs) @ last cs" using append_butlast_last_id [OF assms(2)] by (metis concat_append concat.simps append_Nil2)
  then show ?thesis using length_concat_const [OF assms(1)] by simp
qed

lemma chunk_length:
  assumes "\<forall>x \<in> set (butlast cs). length x = dl" and "length (last cs) \<le> dl" and "k * dl + n \<le> length (concat cs)" and "0 < n" and "n \<le> dl"
  shows "k < length cs" and "n \<le> length (cs ! k)"
proof -
  have ne: "cs \<noteq> []" using assms(3,4) by auto
  note len = length_concat_row [OF assms(1) ne]
  have "k * dl < length cs * dl"
  proof -
    have "(length cs - 1) * dl + dl = length cs * dl" using ne by (cases cs) simp_all
    then show ?thesis using assms(2-4) len by linarith
  qed
  then show k: "k < length cs" by simp
  show "n \<le> length (cs ! k)"
  proof (cases "k = length cs - 1")
    case True
    then show ?thesis using len assms(3) ne by (simp add: last_conv_nth)
  next
    case False
    then have "cs ! k \<in> set (butlast cs)" using k by (metis in_set_conv_nth length_butlast less_Suc_eq Suc_pred' length_greater_0_conv ne nth_butlast)
    then show ?thesis using assms(1,5) by simp
  qed
qed

lemma seg_put_inside: "off + length x \<le> n \<Longrightarrow> a + n \<le> length xs \<Longrightarrow> seg a n (put (a + off) x xs) = put off x (seg a n xs)"
  by (rule nth_equalityI) (auto simp: nth_seg nth_put)

text \<open>A packet buffer stays in order when its pieces keep their lengths.\<close>

lemma full_pieces: "(\<forall>d \<in> set (butlast cs). length d = dl) \<longleftrightarrow> (\<forall>n \<in> set (butlast (map length cs)). n = dl)"
  by (auto simp: map_butlast [symmetric])

lemma dpdk_ok_lengths:
  assumes "dpdk_ok H dl room pb s" and "row_ok H dl room s' (dpdk_buffers pb)" and "map length (row H s' (dpdk_buffers pb)) = map length (row H s (dpdk_buffers pb))"
    and "d_heap s' = d_heap s"
  shows "dpdk_ok H dl room pb s'"
  using assms unfolding dpdk_ok_def full_pieces length_concat by simp

lemma write_mbuf:
  assumes "mbuf_ok H dl room m" and "H + dl \<le> room" and "off + length x \<le> length (mbuf_data H m)"
  obtains mem where "memcpy_at (unat (data_off m) + (H + off)) x (buf_addr m) = Inr mem" and "mbuf_ok H dl room (m\<lparr>buf_addr := mem\<rparr>)"
    and "mbuf_data H (m\<lparr>buf_addr := mem\<rparr>) = put off x (mbuf_data H m)"
proof -
  note len = length_mbuf_data [OF assms(1,2)]
  have fit: "unat (data_off m) + H + (unat (data_len m) - H) \<le> length (buf_addr m)" using assms(1,2) by (auto simp: mbuf_ok_def mbuf_room_def)
  let ?mem = "put (unat (data_off m) + (H + off)) x (buf_addr m)"
  have b: "unat (data_off m) + (H + off) + length x \<le> length (buf_addr m)" using fit assms(3) len by linarith
  have "mbuf_data H (m\<lparr>buf_addr := ?mem\<rparr>) = put off x (mbuf_data H m)"
    using seg_put_inside [of off x "unat (data_len m) - H" "unat (data_off m) + H" "buf_addr m"] assms(3) len fit by (simp add: mbuf_data_def add.assoc)
  moreover have "mbuf_ok H dl room (m\<lparr>buf_addr := ?mem\<rparr>)" using assms(1) b by (simp add: mbuf_ok_def mbuf_room_def)
  ultimately show ?thesis using that b by (simp add: memcpy_at_def)
qed

lemma row_write:
  assumes "dpdk_ok H dl room pb s" and "k < length (dpdk_buffers pb)" and "mbuf_at s (dpdk_buffers pb ! k) = Some m"
    and "mbuf_ok H dl room m'" and "length (mbuf_data H m') = length (mbuf_data H m)"
  shows "dpdk_ok H dl room pb (mbuf_set (dpdk_buffers pb ! k) m' s)"
    and "row H (mbuf_set (dpdk_buffers pb ! k) m' s) (dpdk_buffers pb) = (row H s (dpdk_buffers pb))[k := mbuf_data H m']"
proof -
  let ?ps = "dpdk_buffers pb" let ?s = "mbuf_set (?ps ! k) m' s"
  have d: "distinct ?ps" "row_ok H dl room s ?ps" using assms(1) by (simp_all add: dpdk_ok_def row_ok_def)
  show r: "row H ?s ?ps = (row H s ?ps)[k := mbuf_data H m']"
    using assms(2) d(1) by (intro nth_equalityI) (auto simp: row_def mbuf_set_def nth_list_update nth_eq_iff_index_eq)
  have "row_ok H dl room ?s ?ps" using d(2) assms(4) by (auto simp: row_ok_def mbuf_set_def)
  moreover have "map length (row H ?s ?ps) = map length (row H s ?ps)"
    unfolding r using assms(2,3,5) by (intro map_list_update_same) (simp_all add: row_def)
  ultimately show "dpdk_ok H dl room pb ?s" by (intro dpdk_ok_lengths [OF assms(1)]) (simp_all add: mbuf_set_def)
qed

lemma put_put_next:
  assumes "n \<le> length d" and "off + length d \<le> length xs"
  shows "put (off + n) (drop n d) (put off (take n d) xs) = put off d xs"
  using assms by (intro nth_equalityI) (auto simp: nth_put)

lemma dpdk_ok_last: "dpdk_ok H dl room pb s \<Longrightarrow> length (last (row H s (dpdk_buffers pb))) \<le> dl"
proof -
  assume ok: "dpdk_ok H dl room pb s"
  then have ne: "dpdk_buffers pb \<noteq> []" by (simp add: dpdk_ok_def)
  then obtain m where m: "mbuf_at s (last (dpdk_buffers pb)) = Some m" "mbuf_ok H dl room m" using ok last_in_set unfolding dpdk_ok_def row_ok_def by blast
  have "length (mbuf_data H m) \<le> dl" using length_mbuf_data [OF m(2)] m(2) ok by (auto simp: mbuf_ok_def dpdk_ok_def)
  then show ?thesis using m(1) ne by (simp add: row_def last_map)
qed

lemma write_loop_ok:
  assumes "dpdk_ok H dl room pb s" and "unat reserved = H" and "unat off < dl" and "k * dl + unat off + length d \<le> unat (total_data_size pb)"
  shows "\<exists>s'. write_loop reserved pb k off d s = Inr s' \<and> dpdk_ok H dl room pb s' \<and>
    dpdk_contents H pb s' = put (k * dl + unat off) d (dpdk_contents H pb s) \<and> s' = s\<lparr>mbuf_at := mbuf_at s'\<rparr> \<and>
    (\<forall>p. p \<notin> set (dpdk_buffers pb) \<longrightarrow> mbuf_at s' p = mbuf_at s p)"
  using assms
proof (induction d arbitrary: k off s rule: length_induct)
  case (1 d k off s)
  show ?case
  proof (cases "d = []")
    case True
    then show ?thesis using "1.prems" by (intro exI [of _ s]) (simp add: write_loop.simps [of _ _ _ _ "[]"])
  next
    case False
    note ok = "1.prems"(1) [unfolded dpdk_ok_def]
    have dl: "unat (ucast (data_len_per_packet pb) - off :: u32) = dl - unat off"
    proof -
      have u: "unat (ucast (data_len_per_packet pb) :: u32) = dl" using ok by (simp add: unsigned_ucast_eq take_bit_nat_def)
      then show ?thesis using "1.prems"(3) by (subst unat_sub) (simp_all add: word_le_nat_alt)
    qed
    let ?n = "min (dl - unat off) (length d)" let ?ps = "dpdk_buffers pb" let ?x = "take ?n d"
    have n: "0 < ?n" "unat off + ?n \<le> dl" using False "1.prems"(3) by auto
    have tot: "length (concat (row H s ?ps)) = unat (total_data_size pb)" using ok by simp
    have b: "k * dl + (unat off + ?n) \<le> length (concat (row H s ?ps))" using "1.prems"(4) tot by linarith
    have bl: "\<forall>x \<in> set (butlast (row H s ?ps)). length x = dl" using ok by blast
    from chunk_length [OF bl dpdk_ok_last [OF "1.prems"(1)] b] n have k: "k < length ?ps" "unat off + ?n \<le> length (row H s ?ps ! k)"
      by (simp_all add: row_def)
    obtain m where m: "mbuf_at s (?ps ! k) = Some m" "mbuf_ok H dl room m" using ok k(1) unfolding row_ok_def by (meson nth_mem)
    have md: "row H s ?ps ! k = mbuf_data H m" using k(1) m(1) by (simp add: row_def)
    have "H + dl \<le> room" "unat off + length ?x \<le> length (mbuf_data H m)" using ok k(2) md by simp_all
    from write_mbuf [OF m(2) this] obtain mem where
      w: "memcpy_at (unat (data_off m) + (H + unat off)) ?x (buf_addr m) = Inr mem" "mbuf_ok H dl room (m\<lparr>buf_addr := mem\<rparr>)"
        "mbuf_data H (m\<lparr>buf_addr := mem\<rparr>) = put (unat off) ?x (mbuf_data H m)" by blast
    have res: "unat (reserved + off) = H + unat off"
    proof -
      have "unat reserved + unat off < 2 ^ 32" using "1.prems"(2,3) ok by simp
      then show ?thesis using "1.prems"(2) unat_add_lem [of reserved off] by simp
    qed
    let ?s = "mbuf_set (?ps ! k) (m\<lparr>buf_addr := mem\<rparr>) s"
    have len: "length (mbuf_data H (m\<lparr>buf_addr := mem\<rparr>)) = length (mbuf_data H m)" using w(3) k(2) md by simp
    note rw = row_write [OF "1.prems"(1) k(1) m(1) w(2) len]
    have c: "dpdk_contents H pb ?s = put (k * dl + unat off) ?x (dpdk_contents H pb s)"
      unfolding dpdk_contents_def rw(2) w(3) md [symmetric] using k bl by (intro concat_put) (simp_all add: row_def)
    have step: "write_loop reserved pb k off d s = write_loop reserved pb (k + 1) 0 (drop ?n d) ?s"
    proof -
      define N where "N = ?n"
      have "buffer_slot pb k = Inr (?ps ! k)" "mbuf_get (?ps ! k) s = Inr m" "N \<noteq> 0"
        using ok k(1) m(1) n(1) by (auto simp: buffer_slot_def mbuf_get_def N_def)
      then show ?thesis using False w(1) unfolding N_def [symmetric]
        by (subst write_loop.simps) (simp add: dl Let_def res N_def [symmetric])
    qed
    have rest: "(k + 1) * dl + unat (0 :: u32) + length (drop ?n d) \<le> unat (total_data_size pb) \<or> drop ?n d = []"
      using "1.prems"(3,4) by auto
    have fits: "k * dl + unat off + length d \<le> length (dpdk_contents H pb s)" using "1.prems"(4) tot by (simp add: dpdk_contents_def)
    show ?thesis
    proof (cases "drop ?n d = []")
      case True
      then have "?x = d" by simp
      have "?s = s\<lparr>mbuf_at := mbuf_at ?s\<rparr>" "\<forall>p. p \<notin> set ?ps \<longrightarrow> mbuf_at ?s p = mbuf_at s p" using k(1) by (auto simp: mbuf_set_def)
      then show ?thesis using rw(1) c step True \<open>?x = d\<close> by (intro exI [of _ ?s]) (simp add: write_loop.simps [of _ _ _ _ "[]"])
    next
      case more: False
      then have n': "?n = dl - unat off" by auto
      then have next0: "(k + 1) * dl + unat (0 :: u32) = k * dl + unat off + ?n" using "1.prems"(3) by simp
      have "length (drop ?n d) < length d" using n(1) False by simp
      from "1.IH" [rule_format, OF this rw(1) "1.prems"(2), of 0 "k + 1"] rest more ok obtain s' where
        s': "write_loop reserved pb (k + 1) 0 (drop ?n d) ?s = Inr s'" "dpdk_ok H dl room pb s'" "s' = ?s\<lparr>mbuf_at := mbuf_at s'\<rparr>"
          "dpdk_contents H pb s' = put ((k + 1) * dl + unat (0 :: u32)) (drop ?n d) (dpdk_contents H pb ?s)"
          "\<And>p. p \<notin> set ?ps \<Longrightarrow> mbuf_at s' p = mbuf_at ?s p" by auto
      have "dpdk_contents H pb s' = put (k * dl + unat off) d (dpdk_contents H pb s)"
        unfolding s'(4) next0 c by (rule put_put_next) (use fits in simp_all)
      moreover have "s' = s\<lparr>mbuf_at := mbuf_at s'\<rparr>" using s'(3) by (simp add: mbuf_set_def)
      moreover have "mbuf_at s' p = mbuf_at s p" if "p \<notin> set ?ps" for p using s'(5) [OF that] that k(1) by (auto simp: mbuf_set_def)
      ultimately show ?thesis using s'(1,2) step by (intro exI [of _ s']) simp
    qed
  qed
qed


section \<open>Buffers of the framework\<close>

text \<open>The laws of the framework, one by one.\<close>

lemma rte_avail:
  assumes "rte_ok rte room avail"
  shows "avail (s\<lparr>d_heap := h\<rparr>) = avail s" and "mbuf_at s p = Some m' \<Longrightarrow> avail (mbuf_set p m s) = avail s"
  using assms unfolding rte_ok_def by simp_all

lemma rte_alloc:
  assumes "rte_ok rte room avail" and "0 < avail s"
  obtains p m s' where "rte_pktmbuf_alloc rte s = (Some p, s')" and "mbuf_at s p = None" and "mbuf_fresh room m"
    and "mbuf_at s' = (mbuf_at s)(p \<mapsto> m)" and "d_heap s' = d_heap s" and "avail s = Suc (avail s')"
proof -
  have "rte_alloc_ok rte room avail" using assms(1) unfolding rte_ok_def by simp
  then show ?thesis using assms(2) that unfolding rte_alloc_ok_def by blast
qed

lemma rte_alloc_bulk:
  assumes "rte_ok rte room avail" and "unat n \<le> avail s"
  obtains ps s' where "rte_pktmbuf_alloc_bulk rte n s = (Some ps, s')" and "length ps = unat n" and "distinct ps"
    and "\<forall>p \<in> set ps. mbuf_at s p = None" and "\<forall>p \<in> set ps. \<exists>m. mbuf_at s' p = Some m \<and> mbuf_fresh room m"
    and "\<And>p. p \<notin> set ps \<Longrightarrow> mbuf_at s' p = mbuf_at s p" and "d_heap s' = d_heap s" and "avail s = avail s' + unat n"
proof -
  have "rte_bulk_ok rte room avail" using assms(1) unfolding rte_ok_def by simp
  then obtain ps s' where "rte_pktmbuf_alloc_bulk rte n s = (Some ps, s') \<and> length ps = unat n \<and> distinct ps \<and>
      (\<forall>p \<in> set ps. mbuf_at s p = None) \<and> (\<forall>p \<in> set ps. \<exists>m. mbuf_at s' p = Some m \<and> mbuf_fresh room m) \<and>
      (\<forall>p. p \<notin> set ps \<longrightarrow> mbuf_at s' p = mbuf_at s p) \<and> d_heap s' = d_heap s \<and> avail s = avail s' + unat n"
    using assms(2) unfolding rte_bulk_ok_def by presburger
  then show ?thesis using that [of ps s'] by simp
qed

lemma rte_append:
  assumes "rte_ok rte room avail" and "mbuf_at s p = Some m" and "unat (data_len m) + unat n \<le> room"
  shows "rte_pktmbuf_append rte p n s = mbuf_set p (m\<lparr>data_len := data_len m + n, pkt_len := pkt_len m + ucast n\<rparr>) s"
proof -
  have "rte_append_ok rte room" using assms(1) unfolding rte_ok_def by simp
  then show ?thesis using assms(2,3) unfolding rte_append_ok_def by simp
qed

lemma rte_free:
  assumes "rte_ok rte room avail" and "mbuf_at s p = Some m"
  shows "mbuf_at (rte_pktmbuf_free rte p s) = (mbuf_at s)(p := None)" and "d_heap (rte_pktmbuf_free rte p s) = d_heap s"
    and "avail (rte_pktmbuf_free rte p s) = Suc (avail s)"
proof -
  have "rte_free_ok rte avail" using assms(1) unfolding rte_ok_def by simp
  then show "mbuf_at (rte_pktmbuf_free rte p s) = (mbuf_at s)(p := None)" "d_heap (rte_pktmbuf_free rte p s) = d_heap s"
      "avail (rte_pktmbuf_free rte p s) = Suc (avail s)" using assms(2) unfolding rte_free_ok_def by simp_all
qed

text \<open>A buffer of which \<open>n\<close> bytes are used has \<open>n - H\<close> bytes of data.\<close>

lemma mbuf_ok_sized:
  assumes "mbuf_room room m" and "unat (data_len m) = H + n" and "n \<le> dl" and "H + dl \<le> room"
  shows "mbuf_ok H dl room m" and "length (mbuf_data H m) = n"
proof -
  show ok: "mbuf_ok H dl room m" using assms by (simp add: mbuf_ok_def)
  show "length (mbuf_data H m) = n" using length_mbuf_data [OF ok assms(4)] assms(2) by simp
qed

definition row_full :: "nat \<Rightarrow> nat \<Rightarrow> nat \<Rightarrow> 'z dpdk_scheme \<Rightarrow> ptr list \<Rightarrow> bool" where
  "row_full H dl room s ps \<longleftrightarrow> row_ok H dl room s ps \<and> (\<forall>d \<in> set (row H s ps). length d = dl)"

lemma row_full_same: "row_full H dl room s ps \<Longrightarrow> (\<And>p. p \<in> set ps \<Longrightarrow> mbuf_at s' p = mbuf_at s p) \<Longrightarrow> row_full H dl room s' ps"
  by (auto simp: row_full_def row_ok_def row_def)

lemma row_full_append: "row_full H dl room s (ps @ qs) \<longleftrightarrow> row_full H dl room s ps \<and> row_full H dl room s qs \<and> set ps \<inter> set qs = {}"
  by (auto simp: row_full_def row_ok_def)

lemma row_full_length: "row_full H dl room s ps \<Longrightarrow> length (concat (row H s ps)) = length ps * dl"
  using length_concat_const [of "row H s ps" dl] by (simp add: row_full_def row_def)

lemma append_all:
  assumes "rte_ok rte room avail" and "unat n \<le> room" and "distinct ps" and "\<forall>p \<in> set ps. \<exists>m. mbuf_at s p = Some m \<and> mbuf_fresh room m"
    and "s' = fold (\<lambda>p. rte_pktmbuf_append rte p n) ps s"
  shows "(\<forall>p \<in> set ps. \<exists>m. mbuf_at s' p = Some m \<and> mbuf_room room m \<and> data_len m = n) \<and> (\<forall>p. p \<notin> set ps \<longrightarrow> mbuf_at s' p = mbuf_at s p) \<and>
    d_heap s' = d_heap s \<and> avail s' = avail s"
  using assms(3-5)
proof (induction ps arbitrary: s)
  case (Cons q ps)
  obtain m where m: "mbuf_at s q = Some m" "mbuf_fresh room m" using Cons.prems by auto
  let ?m = "m\<lparr>data_len := data_len m + n, pkt_len := pkt_len m + ucast n\<rparr>" let ?s = "mbuf_set q ?m s"
  have q: "rte_pktmbuf_append rte q n s = ?s" using m assms(2) by (intro rte_append [OF assms(1)]) (simp_all add: mbuf_fresh_def)
  have d: "distinct ps" "q \<notin> set ps" and f: "\<forall>p \<in> set ps. \<exists>m. mbuf_at ?s p = Some m \<and> mbuf_fresh room m" using Cons.prems by (auto simp: mbuf_set_def)
  have m': "mbuf_room room ?m" "data_len ?m = n" "mbuf_at ?s q = Some ?m" using m(2) by (simp_all add: mbuf_fresh_def mbuf_room_def mbuf_set_def)
  have "s' = fold (\<lambda>p. rte_pktmbuf_append rte p n) ps ?s" using Cons.prems(3) q by simp
  note IH = Cons.IH [OF d(1) f this]
  have "mbuf_at s' q = Some ?m" using IH d(2) m'(3) by metis
  moreover have "mbuf_at s' p = mbuf_at s p" if "p \<notin> set (q # ps)" for p using IH that by (simp add: mbuf_set_def)
  moreover have "avail ?s = avail s" by (rule rte_avail(2) [OF assms(1) m(1)])
  ultimately show ?case using IH m'(1,2) by (simp add: mbuf_set_def)
qed simp

lemma full_buffers_ok:
  assumes "rte_ok rte room avail" and "unat n \<le> avail s" and "unat (mbuf_size_for_full_chunk g prepend) = H + dl" and "H + dl \<le> room"
  obtains ps s' where "full_buffers rte g prepend n s = Inr (ps, s')" and "length ps = unat n" and "row_full H dl room s' ps"
    and "\<forall>p \<in> set ps. mbuf_at s p = None" and "\<forall>p. p \<notin> set ps \<longrightarrow> mbuf_at s' p = mbuf_at s p" and "d_heap s' = d_heap s" and "avail s = avail s' + unat n"
proof (cases "0 < n")
  case False
  then show ?thesis using that [of "[]" s] by (simp add: full_buffers_def row_full_def row_ok_def row_def word_gt_0)
next
  case True
  obtain ps s1 where a: "rte_pktmbuf_alloc_bulk rte n s = (Some ps, s1)" "length ps = unat n" "distinct ps" "\<forall>p \<in> set ps. mbuf_at s p = None"
      "\<forall>p \<in> set ps. \<exists>m. mbuf_at s1 p = Some m \<and> mbuf_fresh room m" "\<And>p. p \<notin> set ps \<Longrightarrow> mbuf_at s1 p = mbuf_at s p" "d_heap s1 = d_heap s" "avail s = avail s1 + unat n"
    using rte_alloc_bulk [OF assms(1,2)] by metis
  have "unat (mbuf_size_for_full_chunk g prepend) \<le> room" using assms(3,4) by simp
  note ap = append_all [OF assms(1) this a(3) a(5) refl]
  let ?s = "fold (\<lambda>p. rte_pktmbuf_append rte p (mbuf_size_for_full_chunk g prepend)) ps s1"
  have "row_full H dl room ?s ps"
    using ap a(3) mbuf_ok_sized [of room _ H dl dl] assms(3,4) by (fastforce simp: row_full_def row_ok_def row_def)
  then show ?thesis using that [of ps ?s] a ap True by (simp add: full_buffers_def)
qed

lemma data_buffer_ok:
  assumes "rte_ok rte room avail" and "0 < avail s" and "unat (mbuf_size_for_data n prepend) = H + unat n" and "unat n \<le> dl" and "H + dl \<le> room"
  obtains p m s' where "data_buffer rte prepend n s = Inr (p, s')" and "mbuf_at s p = None" and "mbuf_at s' = (mbuf_at s)(p \<mapsto> m)"
    and "mbuf_ok H dl room m" and "length (mbuf_data H m) = unat n" and "d_heap s' = d_heap s" and "avail s = Suc (avail s')"
proof -
  obtain p m s1 where a: "rte_pktmbuf_alloc rte s = (Some p, s1)" "mbuf_at s p = None" "mbuf_fresh room m" "mbuf_at s1 = (mbuf_at s)(p \<mapsto> m)"
      "d_heap s1 = d_heap s" "avail s = Suc (avail s1)" using rte_alloc [OF assms(1,2)] by metis
  let ?N = "mbuf_size_for_data n prepend" let ?m = "m\<lparr>data_len := ?N, pkt_len := ucast ?N\<rparr>"
  have ap: "rte_pktmbuf_append rte p ?N s1 = mbuf_set p ?m s1"
    using rte_append [OF assms(1), of s1 p m ?N] a(3,4) assms(3-5) by (simp add: mbuf_fresh_def)
  have r: "mbuf_room room ?m" using a(3) by (simp add: mbuf_fresh_def mbuf_room_def)
  have "unat (data_len ?m) = H + unat n" using assms(3) by simp
  note ok = mbuf_ok_sized [OF r this assms(4,5)]
  have "avail (mbuf_set p ?m s1) = avail s1" using a(4) by (intro rte_avail(2) [OF assms(1)]) simp
  moreover have "mbuf_at (mbuf_set p ?m s1) = (mbuf_at s)(p \<mapsto> ?m)" "d_heap (mbuf_set p ?m s1) = d_heap s" using a(4,5) by (simp_all add: mbuf_set_def)
  ultimately show ?thesis using that [of p "mbuf_set p ?m s1" ?m] ok a(1,2,6) ap by (simp add: data_buffer_def)
qed


section \<open>Sizes\<close>

lemma unat_ucast16 [simp]: "unat (ucast (x :: u16) :: u32) = unat x"
  using unsigned_less [of x, where ?'a = nat] by (simp add: unsigned_ucast_eq take_bit_nat_def)

lemma unat_ucast8 [simp]: "unat (ucast (x :: u8) :: u16) = unat x"
  using unsigned_less [of x, where ?'a = nat] by (simp add: unsigned_ucast_eq take_bit_nat_def)

lemma unat_ucast_small: "unat (x :: u32) < 2 ^ 16 \<Longrightarrow> unat (ucast x :: u16) = unat x"
  by (simp add: unsigned_ucast_eq take_bit_nat_def)

lemma unat_mbuf_size_for_data:
  assumes "44 + unat prepend + unat n < 2 ^ 16"
  shows "unat (mbuf_size_for_data n prepend) = 44 + unat prepend + unat n"
proof -
  have "unat (mbuf_size_for_data n prepend) = (unat n + 44 + unat prepend) mod 2 ^ 16"
    by (simp add: mbuf_size_for_data_def unat_word_ariths mod_simps)
  then show ?thesis using assms by simp
qed

lemma unat_mbuf_size_for_full_chunk:
  assumes "unat (maximum_transmission_unit g) + unat prepend < 2 ^ 16"
  shows "unat (mbuf_size_for_full_chunk g prepend) = unat (maximum_transmission_unit g) + unat prepend"
proof -
  have "unat (mbuf_size_for_full_chunk g prepend) = (unat (maximum_transmission_unit g) + unat prepend) mod 2 ^ 16"
    by (simp add: mbuf_size_for_full_chunk_def unat_word_ariths mod_simps)
  then show ?thesis using assms by simp
qed

lemma unat_mbuf_data_size:
  assumes "44 + unat prepend \<le> unat (data_len m)"
  shows "unat (mbuf_data_size prepend m) = unat (data_len m) - (44 + unat prepend)"
proof -
  have "unat (data_len m - 44) = unat (data_len m) - 44" using assms by (subst unat_sub) (simp_all add: word_le_nat_alt)
  then show ?thesis unfolding mbuf_data_size_def using assms by (subst unat_sub) (simp_all add: word_le_nat_alt)
qed

text \<open>A size in full buffers and a remainder.\<close>

lemma split_size:
  assumes "unat (w :: u16) = dl" and "1 < dl"
  shows "w \<noteq> 0" and "unat (n div ucast w :: u32) = unat n div dl" and "unat (ucast (n mod ucast w :: u32) :: u16) = unat n mod dl"
    and "unat n div dl + 1 < 2 ^ 32"
proof -
  show "w \<noteq> 0" using assms by auto
  show "unat (n div ucast w) = unat n div dl" by (simp add: unat_div assms(1))
  have "unat (n mod ucast w) = unat n mod dl" by (simp add: unat_mod assms(1))
  moreover have "unat n mod dl < 2 ^ 16" using assms unsigned_less [of w, where ?'a = nat] by (intro less_trans [OF mod_less_divisor]) simp_all
  ultimately show "unat (ucast (n mod ucast w) :: u16) = unat n mod dl" by (simp add: unat_ucast_small)
  have "unat n div dl \<le> unat n div 2" using assms(2) by (intro div_le_mono2) simp_all
  then show "unat n div dl + 1 < 2 ^ 32" using unsigned_less [of n, where ?'a = nat] by simp
qed

section \<open>A packet buffer by its last buffer\<close>

lemma dpdk_okI:
  assumes "0 < dl" and "H + dl \<le> room" and "room < 2 ^ 16" and "unat (data_len_per_packet pb) = dl" and "dpdk_buffers pb = qs @ [p]"
    and "unat (buf_amount pb) = Suc (length qs)" and "row_full H dl room s qs" and "p \<notin> set qs" and "mbuf_at s p = Some m" and "mbuf_ok H dl room m"
    and "unat (total_data_size pb) = length qs * dl + length (mbuf_data H m)"
    and "dpdk_buffers_at pb = Some a" and "a \<in> dom (blocks (d_heap s))" and "heap_ok (d_heap s)"
  shows "dpdk_ok H dl room pb s" and "dpdk_contents H pb s = concat (row H s qs) @ mbuf_data H m"
proof -
  have r: "row H s (qs @ [p]) = row H s qs @ [mbuf_data H m]" using assms(9) by (simp add: row_def)
  then show "dpdk_contents H pb s = concat (row H s qs) @ mbuf_data H m" using assms(5) by (simp add: dpdk_contents_def)
  have "row_ok H dl room s (qs @ [p])" using assms(7-10) by (auto simp: row_full_def row_ok_def)
  moreover have "length (concat (row H s (qs @ [p]))) = unat (total_data_size pb)" using r assms(7,11) row_full_length [of H dl room s qs] by simp
  moreover have "\<forall>d \<in> set (butlast (row H s (qs @ [p]))). length d = dl" using r assms(7) by (simp add: row_full_def)
  ultimately show "dpdk_ok H dl room pb s" unfolding dpdk_ok_def assms(5) using assms by simp
qed

lemma dpdk_okE:
  assumes "dpdk_ok H dl room pb s"
  obtains qs p m a where "dpdk_buffers pb = qs @ [p]" and "unat (buf_amount pb) = Suc (length qs)" and "row_full H dl room s qs" and "p \<notin> set qs"
    and "mbuf_at s p = Some m" and "mbuf_ok H dl room m" and "unat (total_data_size pb) = length qs * dl + length (mbuf_data H m)"
    and "dpdk_contents H pb s = concat (row H s qs) @ mbuf_data H m" and "dpdk_buffers_at pb = Some a" and "a \<in> dom (blocks (d_heap s))"
    and "buffer_slot pb (unat (buf_amount pb - 1)) = Inr p" and "unat (buf_amount pb - 1) = length qs"
    and "length (mbuf_data H m) \<le> dl" and "\<forall>prepend. H = 44 + unat prepend \<longrightarrow> unat (mbuf_data_size prepend m) = length (mbuf_data H m)"
proof -
  obtain qs p where b: "dpdk_buffers pb = qs @ [p]" using assms unfolding dpdk_ok_def by (metis append_butlast_last_id)
  obtain a where a: "dpdk_buffers_at pb = Some a" "a \<in> dom (blocks (d_heap s))" using assms unfolding dpdk_ok_def by blast
  have ro: "row_ok H dl room s (qs @ [p])" "H + dl \<le> room" using assms b by (simp_all add: dpdk_ok_def)
  then obtain m where m: "mbuf_at s p = Some m" "mbuf_ok H dl room m" "p \<notin> set qs" by (auto simp: row_ok_def)
  have r: "row H s (qs @ [p]) = row H s qs @ [mbuf_data H m]" using m(1) by (simp add: row_def)
  have f: "row_full H dl room s qs" using assms ro r b by (auto simp: dpdk_ok_def row_full_def row_ok_def)
  have n: "unat (buf_amount pb) = Suc (length qs)" using assms b by (simp add: dpdk_ok_def)
  then have n1: "unat (buf_amount pb - 1) = length qs" by (subst unat_sub) (simp_all add: word_le_nat_alt)
  have t: "unat (total_data_size pb) = length qs * dl + length (mbuf_data H m)"
    using assms r b row_full_length [OF f] by (simp add: dpdk_ok_def)
  have l: "length (mbuf_data H m) = unat (data_len m) - H" "H \<le> unat (data_len m)" "length (mbuf_data H m) \<le> dl"
    using length_mbuf_data [OF m(2) ro(2)] m(2) by (auto simp: mbuf_ok_def)
  have "\<forall>prepend. H = 44 + unat prepend \<longrightarrow> unat (mbuf_data_size prepend m) = length (mbuf_data H m)" using l by (auto simp: unat_mbuf_data_size)
  then show ?thesis using that [OF b n f m(3,1,2) t _ a _ n1 l(3)] r b a n1 by (simp add: dpdk_contents_def buffer_slot_def)
qed

section \<open>Creating\<close>

lemma dpdk_create_ok:
  assumes rte: "rte_ok rte room avail" and mtu: "unat (maximum_transmission_unit g) = dl + 44" "1 < dl" and H: "H = 44 + unat (prepend_size nd)" "H + dl \<le> room" "room < 2 ^ 16"
    and av: "unat bs div dl < avail s" and h: "heap_ok (d_heap s)" "heap_room (8 * (unat bs div dl + 1)) (d_heap s)"
  shows "\<exists>pb s'. dpdk_create_packet_buffer rte g nd bs s = Inr (pb, s') \<and> dpdk_ok H dl room pb s' \<and>
    total_data_size pb = bs \<and> append_offset pb = 0 \<and> avail s = avail s' + unat (buf_amount pb)"
proof -
  let ?M = "maximum_transmission_unit g" let ?w = "?M - 44" let ?c = "bs div ucast ?w" let ?r = "ucast (bs mod ucast ?w) :: u16"
  have dl: "unat ?w = dl" using mtu(1) by (subst unat_sub) (simp_all add: word_le_nat_alt)
  have lt: "unat bs mod dl < dl" using mtu(2) by simp
  note w0 = split_size(1) [OF dl mtu(2)] and c = split_size(2) [OF dl mtu(2), of bs] and r = split_size(3) [OF dl mtu(2), of bs]
  have c1: "unat (?c + 1) = unat bs div dl + 1" using c split_size(4) [OF dl mtu(2), of bs] unat_add_lem [of ?c 1] by simp
  obtain a h' where ma: "malloc (8 * unat (?c + 1)) (d_heap s) = (Some a, h')" using malloc_room [OF h(2), of "8 * unat (?c + 1)"] c1 by auto
  let ?s = "s\<lparr>d_heap := h'\<rparr>"
  have h': "a \<in> dom (blocks h')" "heap_ok h'" using malloc_SomeD [OF ma] malloc_heap_ok [OF h(1) ma] by simp_all
  have av': "unat ?c \<le> avail ?s" using av c by (simp add: rte_avail [OF rte])
  have fc: "unat (mbuf_size_for_full_chunk g (prepend_size nd)) = H + dl" using mtu(1) H by (subst unat_mbuf_size_for_full_chunk) simp_all
  have fd: "unat (mbuf_size_for_data ?r (prepend_size nd)) = H + unat ?r" using H r lt by (subst unat_mbuf_size_for_data) simp_all
  obtain ps s1 where f: "full_buffers rte g (prepend_size nd) ?c ?s = Inr (ps, s1)" "length ps = unat ?c" "row_full H dl room s1 ps"
      "\<forall>p \<in> set ps. mbuf_at ?s p = None" "\<forall>p. p \<notin> set ps \<longrightarrow> mbuf_at s1 p = mbuf_at ?s p" "d_heap s1 = d_heap ?s" "avail ?s = avail s1 + unat ?c"
    by (rule full_buffers_ok [OF rte av' fc H(2)])
  have av1: "0 < avail s1" "unat ?r \<le> dl" using f(7) av c r lt by (simp_all add: rte_avail [OF rte])
  obtain p m s2 where d: "data_buffer rte (prepend_size nd) ?r s1 = Inr (p, s2)" "mbuf_at s1 p = None" "mbuf_at s2 = (mbuf_at s1)(p \<mapsto> m)"
      "mbuf_ok H dl room m" "length (mbuf_data H m) = unat ?r" "d_heap s2 = d_heap s1" "avail s1 = Suc (avail s2)"
    using data_buffer_ok [OF rte av1(1) fd av1(2) H(2)] by metis
  have np: "p \<notin> set ps" using f(3) d(2) by (auto simp: row_full_def row_ok_def)
  have rf: "row_full H dl room s2 ps" using np d(3) by (intro row_full_same [OF f(3)]) auto
  let ?pb = "\<lparr>dpdk_buffers_at = Some a, dpdk_buffers = ps @ [p], total_data_size = bs, buf_amount = ?c + 1, data_len_per_packet = ?w, append_offset = 0\<rparr>"
  have "dpdk_ok H dl room ?pb s2"
    by (rule dpdk_okI(1) [where qs = ps and p = p and m = m and a = a, OF _ H(2,3)]) (use mtu(2) dl c1 c f(2,6) rf np d(3-6) r h' in simp_all)
  moreover have "avail s = avail s2 + unat (?c + 1)" using f(7) d(7) c1 c by (simp add: rte_avail [OF rte])
  moreover have "dpdk_create_packet_buffer rte g nd bs s = Inr (?pb, s2)"
    using w0 ma f(1) d(1) by (simp add: dpdk_create_packet_buffer_def Let_def)
  ultimately show ?thesis by (intro exI [of _ ?pb] exI [of _ s2]) simp
qed


section \<open>Growing\<close>

lemma dpdk_ok_fullI:
  assumes "0 < dl" and "H + dl \<le> room" and "room < 2 ^ 16" and "unat (data_len_per_packet pb) = dl" and "dpdk_buffers pb \<noteq> []"
    and "unat (buf_amount pb) = length (dpdk_buffers pb)" and "row_full H dl room s (dpdk_buffers pb)" and "unat (total_data_size pb) = length (dpdk_buffers pb) * dl"
    and "dpdk_buffers_at pb = Some a" and "a \<in> dom (blocks (d_heap s))" and "heap_ok (d_heap s)"
  shows "dpdk_ok H dl room pb s"
  using assms row_full_length [OF assms(7)] unfolding dpdk_ok_def row_full_def by (auto dest: in_set_butlastD)

lemma realloc_array_ok:
  assumes "a \<in> dom (blocks h)" and "heap_ok h" and "heap_room (8 * n) h" and "0 < n"
  obtains b h' where "realloc_array (Some a) n h = Inr (Some b, h')" and "b \<in> dom (blocks h')" and "heap_ok h'"
proof -
  obtain b h1 where m: "malloc (8 * n) h = (Some b, h1)" using malloc_room [OF assms(3), of "8 * n"] assms(4) by auto
  obtain k where "blocks h a = Some k" using assms(1) by blast
  then have ab: "b \<noteq> a" "blocks h1 a = Some k" using malloc_fresh [OF assms(2) m] malloc_SomeD(3) [OF m] by (auto simp: fun_upd_apply)
  note fr = c_free_live [OF ab(2)]
  show ?thesis using that [of b "h1\<lparr>blocks := (blocks h1)(a := None)\<rparr>"] m fr ab(1) malloc_SomeD(3) [OF m] c_free_heap_ok [OF malloc_heap_ok [OF assms(2) m] fr]
    by (simp add: realloc_array_def)
qed

lemma extend_mbuf:
  assumes "rte_ok rte room avail" and "mbuf_at s p = Some m" and "mbuf_ok H dl room m" and "length (mbuf_data H m) + unat n \<le> dl" and "H + dl \<le> room" and "room < 2 ^ 16"
  obtains m' d where "rte_pktmbuf_append rte p n s = mbuf_set p m' s" and "mbuf_ok H dl room m'" and "mbuf_data H m' = mbuf_data H m @ d" and "length d = unat n"
proof -
  let ?m = "m\<lparr>data_len := data_len m + n, pkt_len := pkt_len m + ucast n\<rparr>" let ?a = "unat (data_off m) + H" let ?k = "unat (data_len m) - H"
  have k: "length (mbuf_data H m) = ?k" "H \<le> unat (data_len m)" using length_mbuf_data [OF assms(3,5)] assms(3) by (simp_all add: mbuf_ok_def)
  then have b: "unat (data_len m) + unat n \<le> room" using assms(4,5) by linarith
  have u: "unat (data_len ?m) = H + (?k + unat n)" using b k assms(6) unat_add_lem [of "data_len m" n] by simp
  have room: "mbuf_room room ?m" "length (buf_addr m) = unat (data_off m) + room" using assms(3) by (simp_all add: mbuf_ok_def mbuf_room_def)
  have "?k + unat n \<le> dl" using k assms(4) by simp
  note ok = mbuf_ok_sized [OF room(1) u this assms(5)]
  have "mbuf_data H ?m = seg ?a (?k + unat n) (buf_addr m)" unfolding mbuf_data_def u by simp
  then have "mbuf_data H ?m = mbuf_data H m @ seg (?a + ?k) (unat n) (buf_addr m)" unfolding seg_extend by (simp add: mbuf_data_def)
  then show ?thesis using that [OF rte_append [OF assms(1,2) b] ok(1)] ok(2) k by simp
qed

lemma dpdk_grow_within:
  assumes rte: "rte_ok rte room avail" and ok: "dpdk_ok H dl room pb s" and H: "H = 44 + unat (prepend_size nd)"
    and new: "total_data_size pb < new" and small: "unat new - unat (total_data_size pb) + length (last (row H s (dpdk_buffers pb))) \<le> dl"
  shows "\<exists>pb' s' d. dpdk_resize_packet_buffer rte g nd new pb s = Inr (pb', s') \<and> dpdk_ok H dl room pb' s' \<and> total_data_size pb' = new \<and>
    dpdk_contents H pb' s' = dpdk_contents H pb s @ d \<and> avail s + unat (buf_amount pb) = avail s' + unat (buf_amount pb')"
proof -
  have D: "0 < dl" "H + dl \<le> room" "room < 2 ^ 16" "unat (data_len_per_packet pb) = dl" "heap_ok (d_heap s)" using ok by (simp_all add: dpdk_ok_def)
  obtain qs p m a where b: "dpdk_buffers pb = qs @ [p]" "unat (buf_amount pb) = Suc (length qs)" "row_full H dl room s qs" "p \<notin> set qs"
      "mbuf_at s p = Some m" "mbuf_ok H dl room m" "unat (total_data_size pb) = length qs * dl + length (mbuf_data H m)"
      "dpdk_contents H pb s = concat (row H s qs) @ mbuf_data H m" "dpdk_buffers_at pb = Some a" "a \<in> dom (blocks (d_heap s))"
      "buffer_slot pb (unat (buf_amount pb - 1)) = Inr p" and L: "unat (mbuf_data_size (prepend_size nd) m) = length (mbuf_data H m)"
    using dpdk_okE [OF ok] H by metis
  let ?c = "new - total_data_size pb" let ?L = "mbuf_data_size (prepend_size nd) m"
  have c: "unat ?c = unat new - unat (total_data_size pb)" using new by (subst unat_sub) (simp_all add: word_less_nat_alt word_le_nat_alt)
  have cl: "unat ?c + unat ?L \<le> dl" using small c L b(1,5) by (simp add: row_def)
  have cond: "?c + ucast ?L \<le> ucast (data_len_per_packet pb)"
    using cl D(2-4) unat_add_lem [of ?c "ucast ?L"] by (simp add: word_le_nat_alt)
  have uc: "unat (ucast ?c :: u16) = unat ?c" using cl D(2,3) by (intro unat_ucast_small) simp
  have "length (mbuf_data H m) + unat (ucast ?c :: u16) \<le> dl" using cl L uc by simp
  from extend_mbuf [OF rte b(5,6) this D(2,3)] obtain m' d where e: "rte_pktmbuf_append rte p (ucast ?c) s = mbuf_set p m' s" "mbuf_ok H dl room m'"
      "mbuf_data H m' = mbuf_data H m @ d" "length d = unat (ucast ?c :: u16)" by metis
  let ?s = "mbuf_set p m' s" let ?pb = "pb\<lparr>total_data_size := new\<rparr>"
  have rows: "row_full H dl room ?s qs" "row H ?s qs = row H s qs" using b(3,4) by (auto simp: mbuf_set_def intro!: row_full_same [OF b(3)] row_same)
  have tot: "unat new = length qs * dl + length (mbuf_data H m')" using e(3,4) uc c b(7) new by (simp add: word_less_nat_alt)
  have "dpdk_ok H dl room ?pb ?s" "dpdk_contents H ?pb ?s = concat (row H ?s qs) @ mbuf_data H m'"
    by (rule dpdk_okI [where qs = qs and p = p and m = m' and a = a, OF D(1-3)]; use D b rows(1) e(2) tot in \<open>simp add: mbuf_set_def\<close>)+
  moreover have "dpdk_resize_packet_buffer rte g nd new pb s = Inr (?pb, ?s)"
    using new b(5,11) cond e(1) by (simp add: dpdk_resize_packet_buffer_def dpdk_grow_def mbuf_get_def Let_def)
  ultimately show ?thesis using rows(2) e(3) b(8) by (intro exI [of _ ?pb] exI [of _ ?s] exI [of _ d]) (simp add: rte_avail(2) [OF rte b(5)])
qed

text \<open>Behind a row of full buffers.\<close>

lemma dpdk_extend_ok:
  assumes rte: "rte_ok rte room avail" and H: "H = 44 + unat (prepend_size nd)" "H + dl \<le> room" "room < 2 ^ 16" and mtu: "unat (maximum_transmission_unit g) = dl + 44" "1 < dl"
    and pb: "unat (data_len_per_packet pb) = dl" "unat (buf_amount pb) = length (dpdk_buffers pb)" "dpdk_buffers_at pb = Some a"
    and full: "row_full H dl room s (dpdk_buffers pb)" and h: "a \<in> dom (blocks (d_heap s))" "heap_ok (d_heap s)" "heap_room (8 * (unat new div dl + 1)) (d_heap s)"
    and new: "unat new = length (dpdk_buffers pb) * dl + unat rest" "dpdk_buffers pb \<noteq> []" and av: "unat rest div dl < avail s"
  shows "\<exists>pb' s' d. dpdk_extend rte g nd new rest pb s = Inr (pb', s') \<and> dpdk_ok H dl room pb' s' \<and> total_data_size pb' = new \<and>
    dpdk_contents H pb' s' = concat (row H s (dpdk_buffers pb)) @ d \<and> avail s + unat (buf_amount pb) = avail s' + unat (buf_amount pb')"
proof -
  let ?w = "data_len_per_packet pb" let ?c = "rest div ucast ?w" let ?r = "ucast (rest mod ucast ?w) :: u16" let ?n = "buf_amount pb"
  let ?slots = "?c + (if ?r \<noteq> 0 then 1 else 0)" let ?ps = "dpdk_buffers pb"
  have lt: "unat rest mod dl < dl" using mtu(2) by simp
  note w0 = split_size(1) [OF pb(1) mtu(2)] and c = split_size(2) [OF pb(1) mtu(2), of rest] and r = split_size(3) [OF pb(1) mtu(2), of rest]
  have top: "unat new div dl = unat ?n + unat ?c" "unat ?n + unat ?c + 1 < 2 ^ 32"
    using new(1) pb(2) c mtu(2) split_size(4) [OF pb(1) mtu(2), of new] by simp_all
  have nc: "unat (?n + ?c) = unat ?n + unat ?c" using top(2) unat_add_lem [of ?n ?c] by simp
  have nc1: "unat (?n + ?c + 1) = unat ?n + unat ?c + 1" using top(2) nc unat_add_lem [of "?n + ?c" 1] by simp
  have N: "heap_room (8 * unat (?n + ?slots)) (d_heap s)" "0 < unat (?n + ?slots)"
    using h(3) top(1) nc nc1 new(2) pb(2) by (auto simp: heap_room_def add.assoc)
  obtain b h' where re: "realloc_array (Some a) (unat (?n + ?slots)) (d_heap s) = Inr (Some b, h')" "b \<in> dom (blocks h')" "heap_ok h'"
    by (rule realloc_array_ok [OF h(1,2) N])
  let ?s = "s\<lparr>d_heap := h'\<rparr>"
  have av': "unat ?c \<le> avail ?s" using av c by (simp add: rte_avail [OF rte])
  have fc: "unat (mbuf_size_for_full_chunk g (prepend_size nd)) = H + dl" using mtu(1) H by (subst unat_mbuf_size_for_full_chunk) simp_all
  have fd: "unat (mbuf_size_for_data ?r (prepend_size nd)) = H + unat ?r" "unat ?r \<le> dl" using H r lt by (simp_all add: unat_mbuf_size_for_data)
  obtain ps s1 where f: "full_buffers rte g (prepend_size nd) ?c ?s = Inr (ps, s1)" "length ps = unat ?c" "row_full H dl room s1 ps"
      "\<forall>p \<in> set ps. mbuf_at ?s p = None" "\<forall>p. p \<notin> set ps \<longrightarrow> mbuf_at s1 p = mbuf_at ?s p" "d_heap s1 = d_heap ?s" "avail ?s = avail s1 + unat ?c"
    by (rule full_buffers_ok [OF rte av' fc H(2)])
  have dis: "set ?ps \<inter> set ps = {}" using full f(4) by (fastforce simp: row_full_def row_ok_def)
  then have old: "\<forall>p \<in> set ?ps. mbuf_at s1 p = mbuf_at s p" using f(5) by auto
  have all: "row_full H dl room s1 (?ps @ ps)" using row_full_same [OF full, of s1] old f(3) dis by (simp add: row_full_append)
  have cont: "row H s1 ?ps = row H s ?ps" using old by (intro row_same) simp
  have av1: "avail s = avail s1 + unat ?c" "0 < avail s1" using f(7) av c by (simp_all add: rte_avail [OF rte])
  let ?pb = "pb\<lparr>dpdk_buffers_at := Some b, dpdk_buffers := ?ps @ ps, buf_amount := ?n + ?c, total_data_size := new\<rparr>"
  show ?thesis
  proof (cases "?r = 0")
    case True
    then have "unat rest = unat ?c * dl" using r c by (metis unat_0 mult.commute div_mult_mod_eq add.right_neutral)
    then have "dpdk_ok H dl room ?pb s1"
      by (intro dpdk_ok_fullI [OF _ H(2,3), where a = b]) (use mtu(2) pb new nc f(2,6) all re in \<open>simp_all add: distrib_right\<close>)
    moreover have "dpdk_extend rte g nd new rest pb s = Inr (?pb, s1)"
      using w0 re(1) f(1) True pb(2,3) by (simp add: dpdk_extend_def Let_def)
    ultimately show ?thesis using cont nc av1 by (intro exI [of _ ?pb] exI [of _ s1] exI [of _ "concat (row H s1 ps)"]) (simp add: dpdk_contents_def)
  next
    case False
    obtain q m s2 where d: "data_buffer rte (prepend_size nd) ?r s1 = Inr (q, s2)" "mbuf_at s1 q = None" "mbuf_at s2 = (mbuf_at s1)(q \<mapsto> m)"
        "mbuf_ok H dl room m" "length (mbuf_data H m) = unat ?r" "d_heap s2 = d_heap s1" "avail s1 = Suc (avail s2)"
      by (rule data_buffer_ok [OF rte av1(2) fd H(2)])
    have q: "q \<notin> set (?ps @ ps)" using all d(2) unfolding row_full_def row_ok_def by fastforce
    have same: "mbuf_at s2 p = mbuf_at s1 p" if "p \<in> set (?ps @ ps)" for p using q that d(3) by auto
    let ?pb2 = "?pb\<lparr>dpdk_buffers := (?ps @ ps) @ [q], buf_amount := ?n + ?c + 1\<rparr>"
    have tot: "unat new = length (?ps @ ps) * dl + length (mbuf_data H m)"
      using new(1) f(2) d(5) c r by (simp add: distrib_right)
    have "dpdk_ok H dl room ?pb2 s2" "dpdk_contents H ?pb2 s2 = concat (row H s2 (?ps @ ps)) @ mbuf_data H m"
      by (rule dpdk_okI [where qs = "?ps @ ps" and p = q and m = m and a = b, OF _ H(2,3)];
          use mtu(2) pb nc1 f(2,6) d(3-6) re row_full_same [OF all same] q tot in simp)+
    moreover have "row H s2 ?ps = row H s ?ps" using row_same [of ?ps s2 s1] same cont by simp
    moreover have "dpdk_extend rte g nd new rest pb s = Inr (?pb2, s2)"
      using w0 re(1) f(1) d(1) False pb(2,3) by (simp add: dpdk_extend_def Let_def add.assoc)
    ultimately show ?thesis using nc1 av1 d(7)
      by (intro exI [of _ ?pb2] exI [of _ s2] exI [of _ "concat (row H s2 ps) @ mbuf_data H m"]) simp
  qed
qed


lemma dpdk_grow_beyond:
  assumes rte: "rte_ok rte room avail" and ok: "dpdk_ok H dl room pb s" and H: "H = 44 + unat (prepend_size nd)" and mtu: "unat (maximum_transmission_unit g) = dl + 44" "1 < dl"
    and new: "total_data_size pb < new" and big: "dl < unat new - unat (total_data_size pb) + length (last (row H s (dpdk_buffers pb)))"
    and av: "(unat new - unat (total_data_size pb)) div dl < avail s" and hr: "heap_room (8 * (unat new div dl + 1)) (d_heap s)"
  shows "\<exists>pb' s' d. dpdk_resize_packet_buffer rte g nd new pb s = Inr (pb', s') \<and> dpdk_ok H dl room pb' s' \<and> total_data_size pb' = new \<and>
    dpdk_contents H pb' s' = dpdk_contents H pb s @ d \<and> avail s + unat (buf_amount pb) = avail s' + unat (buf_amount pb')"
proof -
  have D: "0 < dl" "H + dl \<le> room" "room < 2 ^ 16" "unat (data_len_per_packet pb) = dl" "heap_ok (d_heap s)" using ok by (simp_all add: dpdk_ok_def)
  obtain qs p m a where b: "dpdk_buffers pb = qs @ [p]" "unat (buf_amount pb) = Suc (length qs)" "row_full H dl room s qs" "p \<notin> set qs"
      "mbuf_at s p = Some m" "mbuf_ok H dl room m" "unat (total_data_size pb) = length qs * dl + length (mbuf_data H m)"
      "dpdk_contents H pb s = concat (row H s qs) @ mbuf_data H m" "dpdk_buffers_at pb = Some a" "a \<in> dom (blocks (d_heap s))"
      "buffer_slot pb (unat (buf_amount pb - 1)) = Inr p" and L: "unat (mbuf_data_size (prepend_size nd) m) = length (mbuf_data H m)" "length (mbuf_data H m) \<le> dl"
    using dpdk_okE [OF ok] H by metis
  let ?c = "new - total_data_size pb" let ?L = "mbuf_data_size (prepend_size nd) m" let ?dl = "data_len_per_packet pb" let ?rest = "?c - (ucast ?dl - ucast ?L)"
  have c: "unat ?c = unat new - unat (total_data_size pb)" "unat (total_data_size pb) < unat new" using new by (simp_all add: unat_sub word_less_nat_alt word_le_nat_alt)
  have cl: "dl < unat ?c + unat ?L" "unat ?c + unat ?L \<le> unat new" using big c L b(1,5,7) by (simp_all add: row_def)
  have cond: "\<not> ?c + ucast ?L \<le> ucast ?dl"
    using cl D(4) unat_add_lem [of ?c "ucast ?L"] unsigned_less [of new, where ?'a = nat] by (simp add: word_le_nat_alt)
  have dL: "unat (?dl - ?L) = dl - unat ?L" "unat (ucast ?dl - ucast ?L :: u32) = dl - unat ?L" using D(4) L by (simp_all add: unat_sub word_le_nat_alt)
  have rest: "unat ?rest = unat ?c - (dl - unat ?L)" using cl(1) dL(2) by (subst unat_sub) (simp_all add: word_le_nat_alt)
  then have newn: "unat new = Suc (length qs) * dl + unat ?rest" using cl(1) c L b(7) by simp
  have "unat ?rest div dl \<le> unat ?c div dl" using rest by (intro div_le_mono) simp
  then have av': "unat ?rest div dl < avail s" using av c by simp
  have "length (mbuf_data H m) + unat (?dl - ?L) \<le> dl" using dL(1) L by simp
  from extend_mbuf [OF rte b(5,6) this D(2,3)] obtain m' d where e: "rte_pktmbuf_append rte p (?dl - ?L) s = mbuf_set p m' s" "mbuf_ok H dl room m'"
      "mbuf_data H m' = mbuf_data H m @ d" "length d = unat (?dl - ?L)" by metis
  let ?s = "mbuf_set p m' s"
  have rows: "row H ?s qs = row H s qs" "row_full H dl room ?s qs" using b(3,4) by (auto simp: mbuf_set_def intro!: row_full_same [OF b(3)] row_same)
  have "row_full H dl room ?s [p]" using e(2-4) dL(1) L by (simp add: row_full_def row_ok_def row_def mbuf_set_def)
  then have full: "row_full H dl room ?s (dpdk_buffers pb)" using rows(2) b(1,4) by (simp add: row_full_append)
  have "row H ?s [p] = [mbuf_data H m']" by (simp add: row_def mbuf_set_def)
  then have cont: "concat (row H ?s (dpdk_buffers pb)) = dpdk_contents H pb s @ d" using rows(1) e(3) b(1,8) by simp
  have hs: "d_heap ?s = d_heap s" "avail ?s = avail s" using rte_avail(2) [OF rte b(5)] by (simp_all add: mbuf_set_def)
  have "\<exists>pb' s' d. dpdk_extend rte g nd new ?rest pb ?s = Inr (pb', s') \<and> dpdk_ok H dl room pb' s' \<and> total_data_size pb' = new \<and>
      dpdk_contents H pb' s' = concat (row H ?s (dpdk_buffers pb)) @ d \<and> avail ?s + unat (buf_amount pb) = avail s' + unat (buf_amount pb')"
    by (rule dpdk_extend_ok [OF rte H D(2,3) mtu D(4) _ b(9) full]) (use b(1,2,10) D(5) hr newn av' hs in simp_all)
  moreover have "dpdk_resize_packet_buffer rte g nd new pb s = dpdk_extend rte g nd new ?rest pb ?s"
    using new b(5,11) cond e(1) by (auto simp: dpdk_resize_packet_buffer_def dpdk_grow_def mbuf_get_def Let_def)
  ultimately show ?thesis using cont hs(2) by (metis append_assoc)
qed


section \<open>Shrinking\<close>

lemma cut_mbuf_ok:
  assumes "mbuf_ok H dl room m" and "H = 44 + unat prepend" and "H + dl \<le> room" and "room < 2 ^ 16" and "unat x \<le> length (mbuf_data H m)"
    and "m' = m\<lparr>data_len := mbuf_size_for_data x prepend, pkt_len := ucast (mbuf_size_for_data x prepend)\<rparr>"
  shows "mbuf_ok H dl room m'" and "mbuf_data H m' = take (unat x) (mbuf_data H m)"
proof -
  have l: "length (mbuf_data H m) = unat (data_len m) - H" "unat (data_len m) - H \<le> dl" using length_mbuf_data [OF assms(1,3)] assms(1) by (auto simp: mbuf_ok_def)
  then have x: "unat (mbuf_size_for_data x prepend) = H + unat x" using assms(2-5) by (subst unat_mbuf_size_for_data) simp_all
  then show "mbuf_ok H dl room m'" using assms(1,5,6) l by (simp add: mbuf_ok_def mbuf_room_def)
  show "mbuf_data H m' = take (unat x) (mbuf_data H m)" using assms(5,6) l x by (simp add: mbuf_data_def seg_def min_def)
qed

lemma free_tail_ok:
  assumes rte: "rte_ok rte room avail" and dl: "unat (data_len_per_packet pb) = dl" "0 < dl" and at: "dpdk_buffers_at pb \<noteq> None"
    and "0 < unat amount" and "unat amount \<le> length (dpdk_buffers pb)" and "row_full H dl room s (take (unat amount) (dpdk_buffers pb))" and "unat change \<le> unat amount * dl"
  shows "\<exists>am rest s'. free_tail rte pb amount change s = Inr (am, rest, s') \<and> 0 < unat am \<and> unat am \<le> unat amount \<and>
    row_full H dl room s' (take (unat am) (dpdk_buffers pb)) \<and> row H s' (take (unat am) (dpdk_buffers pb)) = row H s (take (unat am) (dpdk_buffers pb)) \<and>
    unat am * dl + unat change = unat amount * dl + unat rest \<and> (unat rest < dl \<or> unat am = 1) \<and> unat rest \<le> unat am * dl \<and>
    d_heap s' = d_heap s \<and> avail s' + unat am = avail s + unat amount"
  using assms(5-8)
proof (induction "unat amount" arbitrary: amount change s)
  case (Suc k)
  let ?w = "data_len_per_packet pb" let ?ps = "dpdk_buffers pb"
  show ?case
  proof (cases "ucast ?w \<le> change \<and> 1 < amount")
    case False
    then have "unat change < dl \<or> unat amount = 1" using dl(1) Suc.prems(1) by (auto simp: word_le_nat_alt word_less_nat_alt)
    then show ?thesis using False Suc.prems by (subst free_tail.simps) auto
  next
    case True
    have k: "unat (amount - 1) = k" "0 < k" "unat amount = Suc k" using True Suc.hyps(2) by (simp_all add: unat_sub word_le_nat_alt word_less_nat_alt)
    have tk: "take (unat amount) ?ps = take k ?ps @ [?ps ! k]" using k Suc.prems(2) by (simp add: take_Suc_conv_app_nth)
    then have fu: "row_full H dl room s (take k ?ps)" "?ps ! k \<notin> set (take k ?ps)" and "row_full H dl room s [?ps ! k]"
      using Suc.prems(3) by (simp_all add: row_full_append)
    then obtain m where m: "mbuf_at s (?ps ! k) = Some m" by (auto simp: row_full_def row_ok_def)
    let ?s = "rte_pktmbuf_free rte (?ps ! k) s" let ?c = "change - ucast ?w"
    note fr = rte_free [OF rte m]
    have same: "mbuf_at ?s p = mbuf_at s p" if "p \<in> set (take k ?ps)" for p using fu(2) that fr(1) by auto
    have c: "unat ?c = unat change - dl" "dl \<le> unat change" using True dl(1) by (simp_all add: unat_sub word_le_nat_alt)
    have step: "free_tail rte pb amount change s = free_tail rte pb (amount - 1) ?c ?s"
      using True k at Suc.prems(2) by (subst free_tail.simps) (auto simp: buffer_slot_def)
    have "\<exists>am rest s'. free_tail rte pb (amount - 1) ?c ?s = Inr (am, rest, s') \<and> 0 < unat am \<and> unat am \<le> unat (amount - 1) \<and>
        row_full H dl room s' (take (unat am) ?ps) \<and> row H s' (take (unat am) ?ps) = row H ?s (take (unat am) ?ps) \<and>
        unat am * dl + unat ?c = unat (amount - 1) * dl + unat rest \<and> (unat rest < dl \<or> unat am = 1) \<and> unat rest \<le> unat am * dl \<and>
        d_heap s' = d_heap ?s \<and> avail s' + unat am = avail ?s + unat (amount - 1)"
      by (rule Suc.hyps(1)) (use k Suc.prems c row_full_same [OF fu(1) same] in simp_all)
    then obtain am rest s' where IH: "free_tail rte pb (amount - 1) ?c ?s = Inr (am, rest, s')" "0 < unat am" "unat am \<le> k"
        "row_full H dl room s' (take (unat am) ?ps)" "row H s' (take (unat am) ?ps) = row H ?s (take (unat am) ?ps)"
        "unat am * dl + unat ?c = k * dl + unat rest" "unat rest < dl \<or> unat am = 1" "unat rest \<le> unat am * dl"
        "d_heap s' = d_heap ?s" "avail s' + unat am = avail ?s + k" unfolding k(1) by blast
    have "row H ?s (take (unat am) ?ps) = row H s (take (unat am) ?ps)"
      by (rule row_same, rule same) (use IH(3) in \<open>auto dest: set_take_subset_set_take [THEN subsetD]\<close>)
    then show ?thesis using step IH fr k c by (intro exI [of _ am] exI [of _ rest] exI [of _ s']) simp
  qed
qed simp


lemma dpdk_shrink_within:
  assumes rte: "rte_ok rte room avail" and ok: "dpdk_ok H dl room pb s" and H: "H = 44 + unat (prepend_size nd)"
    and new: "new < total_data_size pb" and small: "unat (total_data_size pb) - unat new \<le> length (last (row H s (dpdk_buffers pb)))"
  shows "\<exists>pb' s'. dpdk_resize_packet_buffer rte g nd new pb s = Inr (pb', s') \<and> dpdk_ok H dl room pb' s' \<and> total_data_size pb' = new \<and>
    dpdk_contents H pb' s' = take (unat new) (dpdk_contents H pb s) \<and> avail s + unat (buf_amount pb) = avail s' + unat (buf_amount pb')"
proof -
  have D: "0 < dl" "H + dl \<le> room" "room < 2 ^ 16" "unat (data_len_per_packet pb) = dl" "heap_ok (d_heap s)" using ok by (simp_all add: dpdk_ok_def)
  obtain qs p m a where b: "dpdk_buffers pb = qs @ [p]" "unat (buf_amount pb) = Suc (length qs)" "row_full H dl room s qs" "p \<notin> set qs"
      "mbuf_at s p = Some m" "mbuf_ok H dl room m" "unat (total_data_size pb) = length qs * dl + length (mbuf_data H m)"
      "dpdk_contents H pb s = concat (row H s qs) @ mbuf_data H m" "dpdk_buffers_at pb = Some a" "a \<in> dom (blocks (d_heap s))"
      "buffer_slot pb (unat (buf_amount pb - 1)) = Inr p" and L: "unat (mbuf_data_size (prepend_size nd) m) = length (mbuf_data H m)"
    using dpdk_okE [OF ok] H by metis
  let ?c = "total_data_size pb - new" let ?L = "mbuf_data_size (prepend_size nd) m" let ?x = "ucast (ucast ?L - ?c) :: u16"
  have c: "unat ?c = unat (total_data_size pb) - unat new" "unat new < unat (total_data_size pb)" using new by (simp_all add: unat_sub word_less_nat_alt word_le_nat_alt)
  have cl: "unat ?c \<le> unat ?L" using small c L b(1,5) by (simp add: row_def)
  have "unat (ucast ?L - ?c) = unat ?L - unat ?c" using cl by (simp add: unat_sub word_le_nat_alt)
  moreover have "unat ?L < 2 ^ 16" using unsigned_less [of ?L, where ?'a = nat] by simp
  ultimately have x: "unat ?x = length (mbuf_data H m) - unat ?c" using L by (simp add: unat_ucast_small)
  let ?m = "m\<lparr>data_len := mbuf_size_for_data ?x (prepend_size nd), pkt_len := ucast (mbuf_size_for_data ?x (prepend_size nd))\<rparr>"
  have "unat ?x \<le> length (mbuf_data H m)" using x by simp
  note cut = cut_mbuf_ok [OF b(6) H D(2,3) this refl]
  let ?s = "mbuf_set p ?m s" let ?pb = "pb\<lparr>total_data_size := new\<rparr>"
  have rows: "row_full H dl room ?s qs" "row H ?s qs = row H s qs" using b(3,4) by (auto simp: mbuf_set_def intro!: row_full_same [OF b(3)] row_same)
  have tot': "unat new = length qs * dl + unat ?x" using x c b(7) cl L by simp
  then have tot: "unat new = length qs * dl + length (mbuf_data H ?m)" using cut(2) x by simp
  have "dpdk_ok H dl room ?pb ?s" "dpdk_contents H ?pb ?s = concat (row H ?s qs) @ mbuf_data H ?m"
    by (rule dpdk_okI [where qs = qs and p = p and m = ?m and a = a, OF D(1-3)]; use D b rows(1) cut(1) tot in \<open>simp add: mbuf_set_def\<close>)+
  moreover have "concat (row H ?s qs) @ mbuf_data H ?m = take (unat new) (dpdk_contents H pb s)"
    unfolding b(8) rows(2) cut(2) tot' using row_full_length [OF b(3)] by simp
  moreover have "dpdk_resize_packet_buffer rte g nd new pb s = Inr (?pb, ?s)"
    using new b(5,11) cl by (auto simp: dpdk_resize_packet_buffer_def dpdk_shrink_def mbuf_get_def cut_mbuf_def Let_def word_le_nat_alt)
  ultimately show ?thesis by (intro exI [of _ ?pb] exI [of _ ?s]) (simp add: rte_avail(2) [OF rte b(5)])
qed


text \<open>What is left of a row when its last buffers are gone and the one before them is cut.\<close>

lemma take_row:
  assumes "row_full H dl room s qs" and "j < length qs" and "k \<le> dl"
  shows "take (j * dl + k) (concat (row H s qs) @ ys) = concat (row H s (take j qs)) @ take k (mbuf_data H (the (mbuf_at s (qs ! j))))"
proof -
  let ?d = "mbuf_data H (the (mbuf_at s (qs ! j)))"
  have qs: "qs = take j qs @ qs ! j # drop (Suc j) qs" by (rule id_take_nth_drop [OF assms(2)])
  then have "row_full H dl room s (take j qs @ qs ! j # drop (Suc j) qs)" using assms(1) by simp
  then have "row_full H dl room s (take j qs)" unfolding row_full_append by simp
  from row_full_length [OF this] have l: "length (concat (row H s (take j qs))) = j * dl" using assms(2) by simp
  have d: "length ?d = dl" using assms(1,2) by (simp add: row_full_def row_def)
  have "concat (row H s qs) @ ys = concat (row H s (take j qs)) @ ?d @ (concat (row H s (drop (Suc j) qs)) @ ys)"
    by (subst qs) (simp add: row_def)
  then show ?thesis using l d assms(3) by simp
qed

lemma new_last_ok:
  assumes rte: "rte_ok rte room avail" and m: "mbuf_at s p = Some m" "mbuf_ok H dl room m" "length (mbuf_data H m) = dl"
    and H: "H = 44 + unat prepend" "H + dl \<le> room" "room < 2 ^ 16" and k: "unat rest \<le> dl"
  shows "\<exists>q m' s'. new_last rte prepend p m rest s = Inr (q, s') \<and> mbuf_ok H dl room m' \<and> mbuf_data H m' = take (dl - unat rest) (mbuf_data H m) \<and>
    mbuf_at s' q = Some m' \<and> (q = p \<or> mbuf_at s q = None) \<and> (\<forall>x. x \<noteq> p \<longrightarrow> x \<noteq> q \<longrightarrow> mbuf_at s' x = mbuf_at s x) \<and> d_heap s' = d_heap s \<and> avail s' = avail s"
proof -
  let ?L = "mbuf_data_size prepend m"
  have "length (mbuf_data H m) = unat (data_len m) - H" "H \<le> unat (data_len m)" using length_mbuf_data [OF m(2) H(2)] m(2) by (auto simp: mbuf_ok_def)
  then have L: "unat ?L = dl" using m(3) H(1) by (simp add: unat_mbuf_data_size)
  show ?thesis
  proof (cases "ucast ?L \<le> rest")
    case True
    then have e: "unat rest = dl" using L k by (simp add: word_le_nat_alt)
    note fr = rte_free [OF rte m(1)]
    have sz: "unat (mbuf_size_for_data 0 prepend) = H + unat (0 :: u16)" "unat (0 :: u16) \<le> dl" using H by (simp_all add: unat_mbuf_size_for_data)
    have av: "0 < avail (rte_pktmbuf_free rte p s)" using fr(3) by simp
    obtain q m' s' where d: "data_buffer rte prepend 0 (rte_pktmbuf_free rte p s) = Inr (q, s')" "mbuf_at (rte_pktmbuf_free rte p s) q = None"
        "mbuf_at s' = (mbuf_at (rte_pktmbuf_free rte p s))(q \<mapsto> m')" "mbuf_ok H dl room m'" "length (mbuf_data H m') = unat (0 :: u16)"
        "d_heap s' = d_heap (rte_pktmbuf_free rte p s)" "avail (rte_pktmbuf_free rte p s) = Suc (avail s')"
      by (rule data_buffer_ok [OF rte av sz H(2)])
    have "q = p \<or> mbuf_at s q = None" using d(2) fr(1) by (auto split: if_splits)
    then show ?thesis using d fr e True by (intro exI [of _ q] exI [of _ m'] exI [of _ s']) (simp add: new_last_def Let_def)
  next
    case False
    let ?x = "ucast (ucast ?L - rest) :: u16"
    let ?m = "m\<lparr>data_len := mbuf_size_for_data ?x prepend, pkt_len := ucast (mbuf_size_for_data ?x prepend)\<rparr>"
    have "unat (ucast ?L - rest) = dl - unat rest" using False L by (simp add: unat_sub word_le_nat_alt)
    then have x: "unat ?x = dl - unat rest" using L unsigned_less [of ?L, where ?'a = nat] by (simp add: unat_ucast_small)
    then have "unat ?x \<le> length (mbuf_data H m)" using m(3) by simp
    note cut = cut_mbuf_ok [OF m(2) H this refl]
    have "new_last rte prepend p m rest s = Inr (p, mbuf_set p ?m s)" using False by (simp add: new_last_def cut_mbuf_def Let_def)
    moreover have "avail (mbuf_set p ?m s) = avail s" by (rule rte_avail(2) [OF rte m(1)])
    ultimately show ?thesis using cut x by (intro exI [of _ p] exI [of _ ?m] exI [of _ "mbuf_set p ?m s"]) (simp add: mbuf_set_def)
  qed
qed


lemma row_full_single: "row_full H dl room s [p] \<longleftrightarrow> (\<exists>m. mbuf_at s p = Some m \<and> mbuf_ok H dl room m \<and> length (mbuf_data H m) = dl)"
  by (auto simp: row_full_def row_ok_def row_def)

lemma shrink_to_ok:
  assumes rte: "rte_ok rte room avail" and D: "0 < dl" "H + dl \<le> room" "room < 2 ^ 16" "unat (data_len_per_packet pb) = dl" and H: "H = 44 + unat (prepend_size nd)"
    and j: "unat am = Suc j" "j < length (dpdk_buffers pb)" and full: "row_full H dl room s (take (Suc j) (dpdk_buffers pb))" and rest: "unat rest \<le> dl" "unat new = j * dl + (dl - unat rest)"
    and h: "dpdk_buffers_at pb = Some a" "a \<in> dom (blocks (d_heap s))" "heap_ok (d_heap s)" "heap_room (8 * Suc j) (d_heap s)"
  shows "\<exists>pb' s'. shrink_to rte nd new am rest pb s = Inr (pb', s') \<and> dpdk_ok H dl room pb' s' \<and> total_data_size pb' = new \<and> buf_amount pb' = am \<and>
    dpdk_contents H pb' s' = take (unat new) (concat (row H s (take (Suc j) (dpdk_buffers pb)))) \<and> avail s' = avail s"
proof -
  let ?ps = "dpdk_buffers pb" let ?p = "?ps ! j"
  have tk: "take (Suc j) ?ps = take j ?ps @ [?p]" using j(2) by (rule take_Suc_conv_app_nth)
  then have tj: "row_full H dl room s (take j ?ps)" "?p \<notin> set (take j ?ps)" "row_full H dl room s [?p]" using full by (simp_all add: row_full_append)
  obtain m where m: "mbuf_at s ?p = Some m" "mbuf_ok H dl room m" "length (mbuf_data H m) = dl" using tj(3) unfolding row_full_single by blast
  obtain q m' s1 where n: "new_last rte (prepend_size nd) ?p m rest s = Inr (q, s1)" "mbuf_ok H dl room m'" "mbuf_data H m' = take (dl - unat rest) (mbuf_data H m)"
      "mbuf_at s1 q = Some m'" "q = ?p \<or> mbuf_at s q = None" "\<forall>x. x \<noteq> ?p \<longrightarrow> x \<noteq> q \<longrightarrow> mbuf_at s1 x = mbuf_at s x" "d_heap s1 = d_heap s" "avail s1 = avail s"
    using new_last_ok [OF rte m H D(2,3) rest(1)] by blast
  have q: "q \<notin> set (take j ?ps)" using n(5) tj(1,2) by (auto simp: row_full_def row_ok_def)
  have same: "mbuf_at s1 x = mbuf_at s x" if "x \<in> set (take j ?ps)" for x using n(6) q tj(2) that by metis
  obtain b h' where re: "realloc_array (Some a) (Suc j) (d_heap s) = Inr (Some b, h')" "b \<in> dom (blocks h')" "heap_ok h'"
    by (rule realloc_array_ok [OF h(2-4)]) simp
  let ?s = "s1\<lparr>d_heap := h'\<rparr>" let ?pb = "pb\<lparr>dpdk_buffers_at := Some b, dpdk_buffers := take j ?ps @ [q], buf_amount := am, total_data_size := new\<rparr>"
  have same': "mbuf_at ?s x = mbuf_at s x" if "x \<in> set (take j ?ps)" for x using same [OF that] by simp
  have tot: "unat new = j * dl + length (mbuf_data H m')" using rest n(3) m(3) by simp
  have "dpdk_ok H dl room ?pb ?s" "dpdk_contents H ?pb ?s = concat (row H ?s (take j ?ps)) @ mbuf_data H m'"
    by (rule dpdk_okI [where qs = "take j ?ps" and p = q and m = m' and a = b, OF D(1-3)]; use D(4) j q n(2,4) re row_full_same [OF tj(1) same'] tot in simp)+
  moreover have "concat (row H ?s (take j ?ps)) @ mbuf_data H m' = take (unat new) (concat (row H s (take (Suc j) ?ps)))"
  proof -
    have "take (unat new) (concat (row H s (take (Suc j) ?ps)) @ []) = concat (row H s (take j (take (Suc j) ?ps))) @ take (dl - unat rest) (mbuf_data H (the (mbuf_at s (take (Suc j) ?ps ! j))))"
      unfolding rest(2) by (rule take_row [OF full]) (use j(2) in simp_all)
    moreover have "row H ?s (take j ?ps) = row H s (take j ?ps)" by (rule row_same [OF same'])
    ultimately show ?thesis using n(3) m(1) by simp
  qed
  moreover have "shrink_to rte nd new am rest pb s = Inr (?pb, ?s)"
  proof -
    have "unat (am - 1) = j" using j(1) by (simp add: unat_sub word_le_nat_alt)
    moreover have "(take (Suc j) ?ps)[j := q] = take j ?ps @ [q]" using j(2) unfolding tk by (simp add: list_update_append)
    ultimately show ?thesis using j h(1) m(1) n(1,7) re(1) by (simp add: shrink_to_def buffer_slot_def mbuf_get_def)
  qed
  ultimately show ?thesis using n(8) by (intro exI [of _ ?pb] exI [of _ ?s]) (simp add: rte_avail [OF rte])
qed

lemma dpdk_shrink_beyond:
  assumes rte: "rte_ok rte room avail" and ok: "dpdk_ok H dl room pb s" and H: "H = 44 + unat (prepend_size nd)"
    and new: "new < total_data_size pb" and big: "length (last (row H s (dpdk_buffers pb))) < unat (total_data_size pb) - unat new"
    and hr: "heap_room (8 * unat (buf_amount pb)) (d_heap s)"
  shows "\<exists>pb' s'. dpdk_resize_packet_buffer rte g nd new pb s = Inr (pb', s') \<and> dpdk_ok H dl room pb' s' \<and> total_data_size pb' = new \<and>
    dpdk_contents H pb' s' = take (unat new) (dpdk_contents H pb s) \<and> avail s + unat (buf_amount pb) = avail s' + unat (buf_amount pb')"
proof -
  have D: "0 < dl" "H + dl \<le> room" "room < 2 ^ 16" "unat (data_len_per_packet pb) = dl" "heap_ok (d_heap s)" using ok by (simp_all add: dpdk_ok_def)
  obtain qs p m a where b: "dpdk_buffers pb = qs @ [p]" "unat (buf_amount pb) = Suc (length qs)" "row_full H dl room s qs" "p \<notin> set qs"
      "mbuf_at s p = Some m" "mbuf_ok H dl room m" "unat (total_data_size pb) = length qs * dl + length (mbuf_data H m)"
      "dpdk_contents H pb s = concat (row H s qs) @ mbuf_data H m" "dpdk_buffers_at pb = Some a" "a \<in> dom (blocks (d_heap s))"
      "buffer_slot pb (unat (buf_amount pb - 1)) = Inr p" "unat (buf_amount pb - 1) = length qs"
      and L: "unat (mbuf_data_size (prepend_size nd) m) = length (mbuf_data H m)"
    using dpdk_okE [OF ok] H by metis
  let ?c = "total_data_size pb - new" let ?L = "mbuf_data_size (prepend_size nd) m" let ?c' = "?c - ucast ?L" let ?n = "buf_amount pb - 1"
  let ?s = "rte_pktmbuf_free rte p s"
  have c: "unat ?c = unat (total_data_size pb) - unat new" "unat new < unat (total_data_size pb)" using new by (simp_all add: unat_sub word_less_nat_alt word_le_nat_alt)
  have cl: "unat ?L < unat ?c" using big c L b(1,5) by (simp add: row_def)
  have c': "unat ?c' = length qs * dl - unat new" "unat new < length qs * dl" using cl c L b(7) by (simp_all add: unat_sub word_le_nat_alt)
  note fr = rte_free [OF rte b(5)]
  have same: "mbuf_at ?s x = mbuf_at s x" if "x \<in> set qs" for x using that b(4) fr(1) by auto
  have qs: "take (unat ?n) (dpdk_buffers pb) = qs" "row_full H dl room ?s qs" "row H ?s qs = row H s qs"
    using b(1,12) row_full_same [OF b(3) same] row_same [OF same] by simp_all
  have pre: "dpdk_buffers_at pb \<noteq> None" "0 < unat ?n" "unat ?n \<le> length (dpdk_buffers pb)" "row_full H dl room ?s (take (unat ?n) (dpdk_buffers pb))" "unat ?c' \<le> unat ?n * dl"
    using b(1,9,12) c' qs by auto
  from free_tail_ok [OF rte D(4,1) pre] b(12) obtain am rest s1 where ft: "free_tail rte pb ?n ?c' ?s = Inr (am, rest, s1)" "0 < unat am" "unat am \<le> length qs"
      "row_full H dl room s1 (take (unat am) (dpdk_buffers pb))" "row H s1 (take (unat am) (dpdk_buffers pb)) = row H ?s (take (unat am) (dpdk_buffers pb))"
      "unat am * dl + unat ?c' = length qs * dl + unat rest" "unat rest < dl \<or> unat am = 1" "unat rest \<le> unat am * dl"
      "d_heap s1 = d_heap ?s" "avail s1 + unat am = avail ?s + length qs" by metis
  obtain j where j: "unat am = Suc j" "j < length qs" using ft(2,3) by (cases "unat am") simp_all
  then have tk: "take (Suc j) (dpdk_buffers pb) = take (Suc j) qs" "j < length (dpdk_buffers pb)" using b(1) by simp_all
  have "Suc j * dl + unat ?c' = length qs * dl + unat rest" using ft(6) j(1) by simp
  then have rd: "unat rest \<le> dl" "unat new = j * dl + (dl - unat rest)" using ft(7,8) c' j(1) by auto
  have hs: "d_heap s1 = d_heap s" using ft(9) fr(2) by simp
  have hr1: "heap_room (8 * Suc j) (d_heap s1)" using hr hs j b(2) by (simp add: heap_room_def)
  have "\<exists>pb' s'. shrink_to rte nd new am rest pb s1 = Inr (pb', s') \<and> dpdk_ok H dl room pb' s' \<and> total_data_size pb' = new \<and> buf_amount pb' = am \<and>
      dpdk_contents H pb' s' = take (unat new) (concat (row H s1 (take (Suc j) (dpdk_buffers pb)))) \<and> avail s' = avail s1"
    by (rule shrink_to_ok [OF rte D(1-4) H j(1) tk(2) _ rd b(9)]) (use ft(4) j(1) hs b(10) D(5) hr1 in simp_all)
  moreover have "take (unat new) (concat (row H s1 (take (Suc j) (dpdk_buffers pb)))) = take (unat new) (dpdk_contents H pb s)"
  proof -
    have "row H ?s (take (Suc j) qs) = row H s (take (Suc j) qs)" by (rule row_same, rule same) (rule in_set_takeD)
    then have r: "row H s1 (take (Suc j) qs) = row H s (take (Suc j) qs)" using ft(5) unfolding j(1) tk(1) by simp
    have f: "row_full H dl room s (take (Suc j) qs)" using b(3) by (metis append_take_drop_id row_full_append)
    have k: "dl - unat rest \<le> dl" "j < length (take (Suc j) qs)" using j(2) by simp_all
    have "take (unat new) (concat (row H s (take (Suc j) qs)) @ []) = take (unat new) (concat (row H s qs) @ mbuf_data H m)"
      unfolding rd(2) take_row [OF f k(2,1)] take_row [OF b(3) j(2) k(1)] by simp
    then show ?thesis unfolding tk(1) r b(8) by simp
  qed
  moreover have "dpdk_resize_packet_buffer rte g nd new pb s = shrink_to rte nd new am rest pb s1"
    using new b(5,11) cl ft(1) by (auto simp: dpdk_resize_packet_buffer_def dpdk_shrink_def mbuf_get_def Let_def word_le_nat_alt)
  moreover have "avail s + unat (buf_amount pb) = avail s1 + unat am" using ft(10) fr(3) b(2) by simp
  ultimately show ?thesis by metis
qed


section \<open>Writing, appending and destroying\<close>

lemma dpdk_write_ok:
  assumes "dpdk_ok 58 dl room pb s" and "unat (maximum_transmission_unit g) = dl + 44" and "unat data_size \<le> length data"
    and "unat byte_offset + unat data_size \<le> unat (total_data_size pb)"
  shows "\<exists>s'. dpdk_write_packet_buffer g byte_offset pb data data_size s = Inr s' \<and> dpdk_ok 58 dl room pb s' \<and>
    dpdk_contents 58 pb s' = put (unat byte_offset) (take (unat data_size) data) (dpdk_contents 58 pb s)"
proof -
  have dl: "unat (data_len_per_packet pb) = dl" "0 < dl" "58 + dl \<le> room" "room < 2 ^ 16" using assms(1) by (simp_all add: dpdk_ok_def)
  let ?w = "ucast (data_len_per_packet pb) :: u32" let ?d = "take (unat data_size) data" let ?res = "ucast (maximum_transmission_unit g) - ?w + 14 :: u32"
  have "?w \<noteq> 0" using dl by (metis unat_0 unat_ucast16 less_numeral_extra(3))
  moreover have "read_at 0 (unat data_size) data = Inr ?d" using assms(3) by (simp add: read_at_def seg_def)
  ultimately have w: "dpdk_write_packet_buffer g byte_offset pb data data_size s = write_loop ?res pb (unat (byte_offset div ?w)) (byte_offset mod ?w) ?d s"
    by (simp add: dpdk_write_packet_buffer_def Let_def)
  have "unat (ucast (maximum_transmission_unit g) - ?w) = 44" using assms(2) dl(1) by (simp add: unat_sub word_le_nat_alt)
  then have res: "unat ?res = 58" using unat_add_lem [of "ucast (maximum_transmission_unit g) - ?w" 14] by simp
  have off: "unat (byte_offset div ?w) = unat byte_offset div dl" "unat (byte_offset mod ?w) = unat byte_offset mod dl" using dl(1) by (simp_all add: unat_div unat_mod)
  have "unat (byte_offset mod ?w) < dl" "unat (byte_offset div ?w) * dl + unat (byte_offset mod ?w) + length ?d \<le> unat (total_data_size pb)"
    using off dl(2) assms(3,4) by simp_all
  from write_loop_ok [OF assms(1) res this] show ?thesis using w off by auto
qed

text \<open>
  What the application relies on when it fills a packet buffer, whichever the backend: a
  write inside the buffer succeeds and puts the bytes at the offset.
\<close>

locale byte_store =
  fixes ok :: "'s \<Rightarrow> bool" and contents :: "'s \<Rightarrow> u8 list" and wr :: "nat \<Rightarrow> u8 list \<Rightarrow> 's \<Rightarrow> 's res"
  assumes write_inside: "ok s \<Longrightarrow> off + length d \<le> length (contents s) \<Longrightarrow> \<exists>s'. wr off d s = Inr s' \<and> ok s' \<and> contents s' = put off d (contents s)"
begin

lemma read_back:
  assumes "ok s" and "off + length d \<le> length (contents s)"
  shows "\<exists>s'. wr off d s = Inr s' \<and> ok s' \<and> seg off (length d) (contents s') = d"
  using write_inside [OF assms] assms(2) by (auto simp: seg_put_same)

lemma writes_independent:
  assumes "ok s" and "a + length x \<le> length (contents s)" and "b + length y \<le> length (contents s)" and "a + length x \<le> b \<or> b + length y \<le> a"
  shows "\<exists>s1 s2. rbind (wr a x s) (wr b y) = Inr s1 \<and> rbind (wr b y s) (wr a x) = Inr s2 \<and> contents s1 = contents s2 \<and>
    seg a (length x) (contents s1) = x \<and> seg b (length y) (contents s1) = y"
proof -
  obtain sa sb where w: "wr a x s = Inr sa" "ok sa" "contents sa = put a x (contents s)" "wr b y s = Inr sb" "ok sb" "contents sb = put b y (contents s)"
    using write_inside [OF assms(1,2)] write_inside [OF assms(1,3)] by blast
  have len: "length (contents sa) = length (contents s)" "length (contents sb) = length (contents s)" using w assms(2,3) by simp_all
  obtain s1 s2 where v: "wr b y sa = Inr s1" "contents s1 = put b y (contents sa)" "wr a x sb = Inr s2" "contents s2 = put a x (contents sb)"
    using write_inside [OF w(2), of b y] write_inside [OF w(5), of a x] len assms(2,3) by auto
  have "put b y (put a x (contents s)) = put a x (put b y (contents s))"
    using assms(2-4) by (intro nth_equalityI) (auto simp: nth_put)
  moreover have "seg b (length y) (put a x (put b y (contents s))) = seg b (length y) (put b y (contents s))" "seg b (length y) (put b y (contents s)) = y"
    "seg a (length x) (put a x (put b y (contents s))) = x" using assms(2-4) by (auto simp: seg_put_same seg_put_other)
  ultimately show ?thesis using v w by simp
qed

end

definition pcap_buffer_ok :: "packet_buffer \<Rightarrow> bool" where
  "pcap_buffer_ok pb \<longleftrightarrow> packet_data_start pb = DATA_START \<and> DATA_START \<le> length (pb_mem pb) \<and> length (pb_mem pb) < 2 ^ 32"

definition pcap_write :: "nat \<Rightarrow> u8 list \<Rightarrow> packet_buffer \<Rightarrow> packet_buffer res" where
  "pcap_write off d pb = write_packet_buffer (of_nat off) pb d (of_nat (length d))"

interpretation pw: byte_store pcap_buffer_ok "\<lambda>pb. drop DATA_START (pb_mem pb)" pcap_write
proof (unfold_locales, goal_cases)
  case (1 pb off d)
  then have l: "unat (of_nat off :: u32) = off" "unat (of_nat (length d) :: u32) = length d" "DATA_START + off + length d \<le> length (pb_mem pb)"
    by (auto simp: pcap_buffer_ok_def unat_of_nat)
  let ?m = "put (DATA_START + off) d (pb_mem pb)"
  have "pcap_write off d pb = Inr (pb\<lparr>pb_mem := ?m\<rparr>)"
    using 1(1) l by (simp add: pcap_write_def write_packet_buffer_def read_at_def memcpy_at_def pcap_buffer_ok_def)
  moreover have "drop DATA_START ?m = put off d (drop DATA_START (pb_mem pb))"
    using l(3) by (intro nth_equalityI) (auto simp: nth_put)
  moreover have "pcap_buffer_ok (pb\<lparr>pb_mem := ?m\<rparr>)" using 1(1) l(3) by (simp add: pcap_buffer_ok_def)
  ultimately show ?case by simp
qed

definition dpdk_store_ok :: "net_globals \<Rightarrow> dpdk_buffer \<Rightarrow> nat \<Rightarrow> nat \<Rightarrow> 'z dpdk_scheme \<Rightarrow> bool" where
  "dpdk_store_ok g pb dl room s \<longleftrightarrow> unat (maximum_transmission_unit g) = dl + 44 \<and> dpdk_ok 58 dl room pb s"

definition dpdk_write :: "net_globals \<Rightarrow> dpdk_buffer \<Rightarrow> nat \<Rightarrow> u8 list \<Rightarrow> 'z dpdk_scheme \<Rightarrow> 'z dpdk_scheme res" where
  "dpdk_write g pb off d s = dpdk_write_packet_buffer g (of_nat off) pb d (of_nat (length d)) s"

interpretation dw: byte_store "dpdk_store_ok g pb dl room" "dpdk_contents 58 pb" "dpdk_write g pb" for g pb dl room
proof (unfold_locales, goal_cases)
  case (1 s off d)
  have len: "length (dpdk_contents 58 pb s) = unat (total_data_size pb)" using 1(1) by (simp add: dpdk_store_ok_def dpdk_ok_def dpdk_contents_def)
  have lt: "off + length d < 2 ^ 32" using 1(2) len unsigned_less [of "total_data_size pb", where ?'a = nat] by simp
  then have l: "unat (of_nat off :: u32) = off" "unat (of_nat (length d) :: u32) = length d" by (simp_all add: unat_of_nat)
  from 1(1) have ok: "dpdk_ok 58 dl room pb s" "unat (maximum_transmission_unit g) = dl + 44" by (simp_all add: dpdk_store_ok_def)
  show ?case using dpdk_write_ok [OF ok, of "of_nat (length d)" d "of_nat off"] 1(2) l len ok(2) by (auto simp: dpdk_write_def dpdk_store_ok_def)
qed

text \<open>Appending writes at the offset where the last append ended, and moves it.\<close>

lemma dpdk_append_ok:
  assumes "dpdk_ok 58 dl room pb s" and "unat (maximum_transmission_unit g) = dl + 44" and "0 < unat n" and "unat n \<le> length d"
    and "unat (append_offset pb) + unat n \<le> unat (total_data_size pb)"
  shows "\<exists>pb' s'. dpdk_append_to_buffer g (Some d) n pb s = Inr (pb', s') \<and> dpdk_ok 58 dl room pb' s' \<and>
    dpdk_contents 58 pb' s' = put (unat (append_offset pb)) (take (unat n) d) (dpdk_contents 58 pb s) \<and>
    unat (append_offset pb') = unat (append_offset pb) + unat n"
proof -
  obtain s' where w: "dpdk_write_packet_buffer g (append_offset pb) pb d n s = Inr s'" "dpdk_ok 58 dl room pb s'"
      "dpdk_contents 58 pb s' = put (unat (append_offset pb)) (take (unat n) d) (dpdk_contents 58 pb s)"
    using dpdk_write_ok [OF assms(1,2,4,5)] by blast
  let ?pb = "pb\<lparr>append_offset := append_offset pb + n\<rparr>"
  have "dpdk_ok 58 dl room ?pb s'" "dpdk_contents 58 ?pb s' = dpdk_contents 58 pb s'" using w(2) by (simp_all add: dpdk_ok_def dpdk_contents_def)
  moreover have "n \<noteq> 0" "unat (append_offset pb + n) = unat (append_offset pb) + unat n"
    using assms(3,5) unsigned_less [of "total_data_size pb", where ?'a = nat] unat_add_lem [of "append_offset pb" n] by auto
  ultimately show ?thesis using w(1,3) by (intro exI [of _ ?pb] exI [of _ s']) (simp add: dpdk_append_to_buffer_def validate_append_to_packet_args_def)
qed

lemma dpdk_append_error: "dpdk_append_to_buffer g None n pb s = Inl Exit_Failure" "dpdk_append_to_buffer g d 0 pb s = Inl Exit_Failure"
  by (simp_all add: dpdk_append_to_buffer_def validate_append_to_packet_args_def split: option.splits)

lemma dpdk_destroy_ok:
  assumes rte: "rte_ok rte room avail" and ok: "dpdk_ok H dl room pb s" and "dpdk_buffers_at pb = Some a"
  shows "\<exists>s'. dpdk_destroy_packet_buffer rte pb s = Inr s' \<and> avail s' = avail s + unat (buf_amount pb) \<and>
    mbuf_at s' = mbuf_at s |` (- set (dpdk_buffers pb)) \<and> blocks (d_heap s') = (blocks (d_heap s))(a := None) \<and> heap_ok (d_heap s')"
proof -
  let ?ps = "dpdk_buffers pb" let ?s = "rte_pktmbuf_free_bulk rte ?ps s"
  have b: "distinct ?ps" "\<forall>p \<in> set ?ps. mbuf_at s p \<noteq> None" "length ?ps = unat (buf_amount pb)" "heap_ok (d_heap s)" "a \<in> dom (blocks (d_heap s))"
    using ok assms(3) unfolding dpdk_ok_def row_ok_def by auto
  have "rte_free_bulk_ok rte avail" using rte unfolding rte_ok_def by simp
  then have f: "mbuf_at ?s = mbuf_at s |` (- set ?ps)" "d_heap ?s = d_heap s" "avail ?s = avail s + length ?ps"
    using b(1,2) unfolding rte_free_bulk_ok_def by simp_all
  obtain k where "blocks (d_heap s) a = Some k" using b(5) by blast
  note fr = c_free_live [OF this]
  let ?h = "(d_heap s)\<lparr>blocks := (blocks (d_heap s))(a := None)\<rparr>"
  have "dpdk_destroy_packet_buffer rte pb s = Inr (?s\<lparr>d_heap := ?h\<rparr>)"
    using b(3) f(2) fr assms(3) by (simp add: dpdk_destroy_packet_buffer_def Let_def)
  then show ?thesis using f b(3) c_free_heap_ok [OF b(4) fr] by (intro exI [of _ "?s\<lparr>d_heap := ?h\<rparr>"]) (simp add: rte_avail(1) [OF rte])
qed

section \<open>A framework\<close>

text \<open>A pool of buffers, and a device that takes every frame.\<close>

record pool_dpdk = dpdk + mbuf_pool :: "ptr list"

definition fresh_mbuf :: "nat \<Rightarrow> mbuf" where
  "fresh_mbuf room = \<lparr>buf_addr = replicate (128 + room) 0, data_off = 128, data_len = 0, pkt_len = 0\<rparr>"

definition mbuf_free_list :: "pool_dpdk \<Rightarrow> ptr list" where
  "mbuf_free_list s = filter (\<lambda>p. mbuf_at s p = None) (remdups (mbuf_pool s))"

definition mbuf_pool_alloc :: "mbuf \<Rightarrow> pool_dpdk \<Rightarrow> ptr option \<times> pool_dpdk" where
  "mbuf_pool_alloc m s = (case mbuf_free_list s of [] \<Rightarrow> (None, s) | p # _ \<Rightarrow> (Some p, mbuf_set p m s))"

definition pool_bulk :: "nat \<Rightarrow> u32 \<Rightarrow> pool_dpdk \<Rightarrow> ptr list option \<times> pool_dpdk" where
  "pool_bulk room n s =
     (let ps = take (unat n) (mbuf_free_list s)
      in if length ps = unat n then (Some ps, s\<lparr>mbuf_at := (\<lambda>p. if p \<in> set ps then Some (fresh_mbuf room) else mbuf_at s p)\<rparr>) else (None, s))"

definition pool_append :: "nat \<Rightarrow> ptr \<Rightarrow> u16 \<Rightarrow> pool_dpdk \<Rightarrow> pool_dpdk" where
  "pool_append room p n s =
     (case mbuf_at s p of
        None \<Rightarrow> s
      | Some m \<Rightarrow> if unat (data_len m) + unat n \<le> room
                   then mbuf_set p (m\<lparr>data_len := data_len m + n, pkt_len := pkt_len m + ucast n\<rparr>) s else s)"

definition mbuf_pool_free :: "ptr list \<Rightarrow> pool_dpdk \<Rightarrow> pool_dpdk" where
  "mbuf_pool_free ps s = s\<lparr>mbuf_at := (\<lambda>p. if p \<in> set ps then None else mbuf_at s p), mbuf_pool := ps @ mbuf_pool s\<rparr>"

definition pool_clone :: "ptr \<Rightarrow> pool_dpdk \<Rightarrow> ptr option \<times> pool_dpdk" where
  "pool_clone p s = (case mbuf_at s p of None \<Rightarrow> (None, s) | Some m \<Rightarrow> mbuf_pool_alloc m s)"

definition pool_burst :: "ptr \<Rightarrow> pool_dpdk \<Rightarrow> bool \<times> pool_dpdk" where
  "pool_burst q s =
     (case mbuf_at s q of None \<Rightarrow> (False, s) | Some m \<Rightarrow> (True, mbuf_pool_free [q] (s\<lparr>tx_frames := tx_frames s @ [mbuf_bytes m]\<rparr>)))"

definition pool_rte :: "nat \<Rightarrow> unit pool_dpdk_ext rte" where
  "pool_rte room = \<lparr>rte_pktmbuf_alloc = mbuf_pool_alloc (fresh_mbuf room), rte_pktmbuf_alloc_bulk = pool_bulk room,
     rte_pktmbuf_append = pool_append room, rte_pktmbuf_free = (\<lambda>p. mbuf_pool_free [p]), rte_pktmbuf_free_bulk = mbuf_pool_free,
     rte_pktmbuf_clone = pool_clone, rte_eth_tx_burst = pool_burst\<rparr>"

definition mbuf_avail :: "pool_dpdk \<Rightarrow> nat" where
  "mbuf_avail s = card {p \<in> set (mbuf_pool s). mbuf_at s p = None}"

lemma length_mbuf_free_list: "length (mbuf_free_list s) = mbuf_avail s"
proof -
  have "distinct (mbuf_free_list s)" "set (mbuf_free_list s) = {p \<in> set (mbuf_pool s). mbuf_at s p = None}" by (auto simp: mbuf_free_list_def)
  then show ?thesis unfolding mbuf_avail_def by (metis distinct_card)
qed

text \<open>Handing out \<open>ps\<close>, and taking them back.\<close>

lemma mbuf_avail_more:
  assumes "{p \<in> set (mbuf_pool s). mbuf_at s p = None} = {p \<in> set (mbuf_pool s'). mbuf_at s' p = None} \<union> set ps"
    and "\<forall>p \<in> set ps. mbuf_at s' p \<noteq> None" and "distinct ps"
  shows "mbuf_avail s = mbuf_avail s' + length ps"
proof -
  have "{p \<in> set (mbuf_pool s'). mbuf_at s' p = None} \<inter> set ps = {}" using assms(2) by auto
  then show ?thesis unfolding mbuf_avail_def assms(1) using distinct_card [OF assms(3)] by (simp add: card_Un_disjoint)
qed

lemma mbuf_avail_in:
  assumes "distinct ps" and "\<forall>p \<in> set ps. mbuf_at s p \<noteq> None"
  shows "mbuf_avail (mbuf_pool_free ps s) = mbuf_avail s + length ps"
  using assms by (intro mbuf_avail_more) (auto simp: mbuf_pool_free_def)

lemma mbuf_free_list_iff: "p \<in> set (mbuf_free_list s) \<longleftrightarrow> p \<in> set (mbuf_pool s) \<and> mbuf_at s p = None"
  by (auto simp: mbuf_free_list_def)

lemma mbuf_pool_alloc_Some:
  assumes "0 < mbuf_avail s"
  obtains p where "mbuf_pool_alloc m s = (Some p, mbuf_set p m s)" and "mbuf_at s p = None" and "mbuf_avail s = Suc (mbuf_avail (mbuf_set p m s))"
proof -
  obtain p qs where f: "mbuf_free_list s = p # qs" using assms length_mbuf_free_list [of s] by (cases "mbuf_free_list s") simp_all
  then have p: "p \<in> set (mbuf_pool s)" "mbuf_at s p = None" using mbuf_free_list_iff [of p s] by simp_all
  then have "mbuf_avail s = mbuf_avail (mbuf_set p m s) + length [p]" by (intro mbuf_avail_more) (auto simp: mbuf_set_def)
  then show ?thesis using that [of p] f p(2) by (simp add: mbuf_pool_alloc_def)
qed

lemma pool_bulk_ok: "rte_bulk_ok (pool_rte room) room mbuf_avail"
  unfolding rte_bulk_ok_def
proof (intro allI impI)
  fix n :: u32 and s assume n: "unat n \<le> mbuf_avail s"
  let ?ps = "take (unat n) (mbuf_free_list s)" let ?s = "s\<lparr>mbuf_at := (\<lambda>p. if p \<in> set ?ps then Some (fresh_mbuf room) else mbuf_at s p)\<rparr>"
  have ps: "length ?ps = unat n" "distinct ?ps" using n length_mbuf_free_list [of s] by (simp_all add: mbuf_free_list_def)
  have fr: "\<forall>p \<in> set ?ps. p \<in> set (mbuf_pool s) \<and> mbuf_at s p = None" using mbuf_free_list_iff [of _ s] by (auto dest: in_set_takeD)
  have "mbuf_avail s = mbuf_avail ?s + length ?ps" using ps(2) fr by (intro mbuf_avail_more) auto
  then show "\<exists>ps s'. rte_pktmbuf_alloc_bulk (pool_rte room) n s = (Some ps, s') \<and> length ps = unat n \<and> distinct ps \<and> (\<forall>p \<in> set ps. mbuf_at s p = None) \<and>
      (\<forall>p \<in> set ps. \<exists>m. mbuf_at s' p = Some m \<and> mbuf_fresh room m) \<and> (\<forall>p. p \<notin> set ps \<longrightarrow> mbuf_at s' p = mbuf_at s p) \<and>
      d_heap s' = d_heap s \<and> mbuf_avail s = mbuf_avail s' + unat n"
    using ps fr by (intro exI [of _ ?ps] exI [of _ ?s]) (simp add: pool_rte_def pool_bulk_def Let_def fresh_mbuf_def mbuf_fresh_def mbuf_room_def)
qed

lemma pool_rte_ok: "rte_ok (pool_rte room) room mbuf_avail"
proof -
  have "mbuf_avail (mbuf_set p m s) = mbuf_avail s" if "mbuf_at s p \<noteq> None" for s p m
    using that by (auto simp: mbuf_avail_def mbuf_set_def intro: arg_cong [of _ _ card])
  moreover have "mbuf_avail (s\<lparr>d_heap := h\<rparr>) = mbuf_avail s" for s h by (simp add: mbuf_avail_def)
  moreover have "rte_alloc_ok (pool_rte room) room mbuf_avail"
    unfolding rte_alloc_ok_def pool_rte_def by (force simp: fresh_mbuf_def mbuf_fresh_def mbuf_room_def mbuf_set_def elim!: mbuf_pool_alloc_Some)
  moreover have "rte_append_ok (pool_rte room) room" by (simp add: rte_append_ok_def pool_rte_def pool_append_def)
  moreover have "rte_free_ok (pool_rte room) mbuf_avail"
    using mbuf_avail_in [of "[p]" for p] by (auto simp: rte_free_ok_def pool_rte_def) (auto simp: mbuf_pool_free_def)
  moreover have "rte_free_bulk_ok (pool_rte room) mbuf_avail"
    using mbuf_avail_in by (auto simp: rte_free_bulk_ok_def pool_rte_def) (auto simp: mbuf_pool_free_def restrict_map_def)
  moreover have "rte_clone_ok (pool_rte room) mbuf_avail"
    unfolding rte_clone_ok_def pool_rte_def by (force simp: pool_clone_def mbuf_set_def elim!: mbuf_pool_alloc_Some)
  moreover have "rte_tx_ok (pool_rte room) mbuf_avail"
  proof -
    have "mbuf_avail s \<le> mbuf_avail (mbuf_pool_free [q] (s\<lparr>tx_frames := fs\<rparr>))" if "mbuf_at s q = Some m" for s q m fs
      using mbuf_avail_in [of "[q]" "s\<lparr>tx_frames := fs\<rparr>"] that by (simp add: mbuf_avail_def)
    then show ?thesis by (auto simp: rte_tx_ok_def pool_rte_def pool_burst_def) (auto simp: mbuf_pool_free_def)
  qed
  moreover have "rte_quiet_ok (pool_rte room)"
    by (auto simp: rte_quiet_ok_def pool_rte_def mbuf_pool_alloc_def mbuf_pool_free_def mbuf_set_def split: list.splits)
  ultimately show ?thesis unfolding rte_ok_def using pool_bulk_ok by blast
qed


section \<open>Properties\<close>

text \<open>A packet buffer of three bytes in two buffers with room for two bytes each.\<close>

definition sample_mbuf :: "u16 \<Rightarrow> mbuf" where
  "sample_mbuf n = \<lparr>buf_addr = replicate 188 0, data_off = 128, data_len = n, pkt_len = ucast n\<rparr>"

definition sample_dpdk :: pool_dpdk where
  "sample_dpdk = \<lparr>d_heap = \<lparr>brk = 24, heap_limit = 1000, blocks = [8 \<mapsto> 16]\<rparr>,
     mbuf_at = [1 \<mapsto> sample_mbuf 60, 2 \<mapsto> sample_mbuf 59], tx_frames = [], mbuf_pool = [1, 2, 3, 4, 5, 6]\<rparr>"

definition sample_dpdk_buffer :: dpdk_buffer where
  "sample_dpdk_buffer = \<lparr>dpdk_buffers_at = Some 8, dpdk_buffers = [1, 2], total_data_size = 3, buf_amount = 2, data_len_per_packet = 2, append_offset = 0\<rparr>"

lemma sample_dpdk_ok: "dpdk_ok 58 2 60 sample_dpdk_buffer sample_dpdk"
  unfolding dpdk_ok_def row_ok_def row_def mbuf_ok_def mbuf_room_def mbuf_data_def seg_def heap_ok_def
  by (simp add: sample_dpdk_def sample_dpdk_buffer_def sample_mbuf_def)

lemma sample_dpdk_avail: "mbuf_avail sample_dpdk = 4"
  by (simp add: length_mbuf_free_list [symmetric] mbuf_free_list_def sample_dpdk_def)

definition sample_globals :: net_globals where
  "sample_globals = \<lparr>maximum_transmission_unit = 46, private_ip_address = 0\<rparr>"

definition sample_net :: network_data where
  "sample_net = \<lparr>addr_type = 1, prepend_size = 14\<rparr>"

text \<open>
  Creating a packet buffer for \<open>bs\<close> bytes takes one buffer of the framework per full
  chunk and one more, lays them out so that all but the last are full and the data adds up
  to \<open>bs\<close>, with room for the Ethernet, IP and SwiftNet headers in front of each.
\<close>

theorem dpdk_created:
  assumes "rte_ok rte room avail" and "unat (maximum_transmission_unit g) = dl + 44" and "1 < dl" and "prepend_size nd = 14" and "58 + dl \<le> room" and "room < 2 ^ 16"
    and "unat bs div dl < avail s" and "heap_ok (d_heap s)" and "heap_room (8 * (unat bs div dl + 1)) (d_heap s)"
  shows "\<exists>pb s'. dpdk_create_packet_buffer rte g nd bs s = Inr (pb, s') \<and> dpdk_ok 58 dl room pb s' \<and> total_data_size pb = bs \<and>
    append_offset pb = 0 \<and> avail s = avail s' + unat (buf_amount pb)"
  using assms by (intro dpdk_create_ok) simp_all

theorem dpdk_created_witness:
  "\<exists>pb s'. dpdk_create_packet_buffer (pool_rte 60) sample_globals sample_net 5 sample_dpdk = Inr (pb, s') \<and> dpdk_ok 58 2 60 pb s' \<and>
    total_data_size pb = 5 \<and> append_offset pb = 0 \<and> mbuf_avail sample_dpdk = mbuf_avail s' + unat (buf_amount pb)"
proof -
  have "heap_ok (d_heap sample_dpdk)" "heap_room 24 (d_heap sample_dpdk)" using sample_dpdk_ok by (simp_all add: dpdk_ok_def heap_room_def sample_dpdk_def)
  then show ?thesis using sample_dpdk_avail by (intro dpdk_created [OF pool_rte_ok]) (simp_all add: sample_globals_def sample_net_def)
qed

text \<open>
  C29. Writing inside a DPDK packet buffer refines writing into a flat one: whatever buffers
  the bytes are spread over, what the packet buffer holds afterwards is what it held with the
  written bytes put at the offset, and the buffers stay in order.
\<close>

theorem dpdk_write_refines:
  assumes "dpdk_ok 58 dl room pb s" and "unat (maximum_transmission_unit g) = dl + 44" and "unat data_size \<le> length data"
    and "unat byte_offset + unat data_size \<le> unat (total_data_size pb)"
  shows "\<exists>s'. dpdk_write_packet_buffer g byte_offset pb data data_size s = Inr s' \<and> dpdk_ok 58 dl room pb s' \<and>
    dpdk_contents 58 pb s' = put (unat byte_offset) (take (unat data_size) data) (dpdk_contents 58 pb s)"
  using assms by (rule dpdk_write_ok)

theorem dpdk_write_refines_witness:
  "\<exists>s'. dpdk_write_packet_buffer sample_globals 1 sample_dpdk_buffer [7, 8, 9] 2 sample_dpdk = Inr s' \<and> dpdk_ok 58 2 60 sample_dpdk_buffer s' \<and>
    dpdk_contents 58 sample_dpdk_buffer s' = put 1 [7, 8] (dpdk_contents 58 sample_dpdk_buffer sample_dpdk)"
  using dpdk_write_refines [OF sample_dpdk_ok, of sample_globals 2 "[7, 8, 9]" 1]
  by (simp add: sample_globals_def sample_dpdk_buffer_def)

text \<open>
  C31. Both backends give the application the same buffer to fill: two writes to different
  places can be made in either order, with the same result, and read back as written.
\<close>

theorem buffer_writes_independent:
  assumes "a + length x \<le> b" and "b + length y \<le> n" and "dpdk_store_ok g pb dl room s" and "n = unat (total_data_size pb)"
    and "pcap_buffer_ok pp" and "DATA_START + n = length (pb_mem pp)"
  shows "(\<exists>s1 s2. rbind (dpdk_write g pb a x s) (dpdk_write g pb b y) = Inr s1 \<and> rbind (dpdk_write g pb b y s) (dpdk_write g pb a x) = Inr s2 \<and>
      dpdk_contents 58 pb s1 = dpdk_contents 58 pb s2 \<and> seg a (length x) (dpdk_contents 58 pb s1) = x \<and> seg b (length y) (dpdk_contents 58 pb s1) = y) \<and>
    (\<exists>p1 p2. rbind (pcap_write a x pp) (pcap_write b y) = Inr p1 \<and> rbind (pcap_write b y pp) (pcap_write a x) = Inr p2 \<and>
      drop DATA_START (pb_mem p1) = drop DATA_START (pb_mem p2) \<and> seg a (length x) (drop DATA_START (pb_mem p1)) = x \<and> seg b (length y) (drop DATA_START (pb_mem p1)) = y)"
proof
  have "length (dpdk_contents 58 pb s) = n" using assms(3,4) by (simp add: dpdk_store_ok_def dpdk_ok_def dpdk_contents_def)
  then show "\<exists>s1 s2. rbind (dpdk_write g pb a x s) (dpdk_write g pb b y) = Inr s1 \<and> rbind (dpdk_write g pb b y s) (dpdk_write g pb a x) = Inr s2 \<and>
      dpdk_contents 58 pb s1 = dpdk_contents 58 pb s2 \<and> seg a (length x) (dpdk_contents 58 pb s1) = x \<and> seg b (length y) (dpdk_contents 58 pb s1) = y"
    using assms(1-3) by (intro dw.writes_independent) auto
  show "\<exists>p1 p2. rbind (pcap_write a x pp) (pcap_write b y) = Inr p1 \<and> rbind (pcap_write b y pp) (pcap_write a x) = Inr p2 \<and>
      drop DATA_START (pb_mem p1) = drop DATA_START (pb_mem p2) \<and> seg a (length x) (drop DATA_START (pb_mem p1)) = x \<and> seg b (length y) (drop DATA_START (pb_mem p1)) = y"
    using assms(1,2,5,6) by (intro pw.writes_independent) auto
qed

theorem buffer_writes_independent_witness:
  "\<exists>s1 s2. rbind (dpdk_write sample_globals sample_dpdk_buffer 0 [7] sample_dpdk) (dpdk_write sample_globals sample_dpdk_buffer 1 [8, 9]) = Inr s1 \<and>
    rbind (dpdk_write sample_globals sample_dpdk_buffer 1 [8, 9] sample_dpdk) (dpdk_write sample_globals sample_dpdk_buffer 0 [7]) = Inr s2 \<and>
    dpdk_contents 58 sample_dpdk_buffer s1 = dpdk_contents 58 sample_dpdk_buffer s2"
proof -
  have d: "dpdk_store_ok sample_globals sample_dpdk_buffer 2 60 sample_dpdk" "3 = unat (total_data_size sample_dpdk_buffer)"
    using sample_dpdk_ok by (simp_all add: dpdk_store_ok_def sample_globals_def sample_dpdk_buffer_def)
  have p: "pcap_buffer_ok (sample_pb [0, 0, 0])" "DATA_START + 3 = length (pb_mem (sample_pb [0, 0, 0]))" by (simp_all add: pcap_buffer_ok_def)
  have l: "0 + length [7 :: u8] \<le> 1" "1 + length [8 :: u8, 9] \<le> 3" by simp_all
  show ?thesis using buffer_writes_independent [OF l d p] by blast
qed

text \<open>
  C30. Resizing a DPDK packet buffer keeps its buffers in order, gives it the new size and
  keeps the bytes both sizes have; buffers of the framework are neither lost nor given back
  twice: those still free and those of the packet buffer are together as many as before.
\<close>

theorem dpdk_resized:
  assumes "rte_ok rte room avail" and "dpdk_ok 58 dl room pb s" and "prepend_size nd = 14" and "unat (maximum_transmission_unit g) = dl + 44" and "1 < dl"
    and "(unat new - unat (total_data_size pb)) div dl < avail s" and "heap_room (8 * (max (unat new) (unat (total_data_size pb)) div dl + 1)) (d_heap s)"
  shows "\<exists>pb' s'. dpdk_resize_packet_buffer rte g nd new pb s = Inr (pb', s') \<and> dpdk_ok 58 dl room pb' s' \<and> total_data_size pb' = new \<and>
    take (min (unat new) (unat (total_data_size pb))) (dpdk_contents 58 pb' s') = take (min (unat new) (unat (total_data_size pb))) (dpdk_contents 58 pb s) \<and>
    avail s + unat (buf_amount pb) = avail s' + unat (buf_amount pb')"
proof -
  let ?t = "total_data_size pb" let ?l = "length (last (row 58 s (dpdk_buffers pb)))"
  have H: "58 = 44 + unat (prepend_size nd)" using assms(3) by simp
  have len: "length (dpdk_contents 58 pb s) = unat ?t" using assms(2) by (simp add: dpdk_ok_def dpdk_contents_def)
  consider "new = ?t" | "?t < new" | "new < ?t" by fastforce
  then show ?thesis
  proof cases
    case 1
    then show ?thesis using assms(2) by (intro exI [of _ pb] exI [of _ s]) (simp add: dpdk_resize_packet_buffer_def)
  next
    case 2
    have hr: "heap_room (8 * (unat new div dl + 1)) (d_heap s)" using assms(7) 2 by (simp add: word_less_nat_alt max_def split: if_splits)
    have "\<exists>pb' s' d. dpdk_resize_packet_buffer rte g nd new pb s = Inr (pb', s') \<and> dpdk_ok 58 dl room pb' s' \<and> total_data_size pb' = new \<and>
        dpdk_contents 58 pb' s' = dpdk_contents 58 pb s @ d \<and> avail s + unat (buf_amount pb) = avail s' + unat (buf_amount pb')"
      using dpdk_grow_within [OF assms(1,2) H 2] dpdk_grow_beyond [OF assms(1,2) H assms(4,5) 2 _ assms(6) hr] by (cases "unat new - unat ?t + ?l \<le> dl") simp_all
    then show ?thesis using len 2 by (fastforce simp: word_less_nat_alt)
  next
    case 3
    obtain qs :: "ptr list" and m where b: "unat (buf_amount pb) = Suc (length qs)" "unat ?t = length qs * dl + length (mbuf_data 58 m)" using dpdk_okE [OF assms(2)] by metis
    have "length qs * dl div dl \<le> unat ?t div dl" using b(2) by (intro div_le_mono) simp
    then have "8 * unat (buf_amount pb) \<le> 8 * (max (unat new) (unat ?t) div dl + 1)" using b(1) assms(5) 3 by (simp add: word_less_nat_alt max_def split: if_splits)
    then have hr: "heap_room (8 * unat (buf_amount pb)) (d_heap s)" using assms(7) by (simp add: heap_room_def)
    have "\<exists>pb' s'. dpdk_resize_packet_buffer rte g nd new pb s = Inr (pb', s') \<and> dpdk_ok 58 dl room pb' s' \<and> total_data_size pb' = new \<and>
        dpdk_contents 58 pb' s' = take (unat new) (dpdk_contents 58 pb s) \<and> avail s + unat (buf_amount pb) = avail s' + unat (buf_amount pb')"
      using dpdk_shrink_within [OF assms(1,2) H 3] dpdk_shrink_beyond [OF assms(1,2) H 3 _ hr] by (cases "unat ?t - unat new \<le> ?l") simp_all
    then show ?thesis using 3 by (fastforce simp: word_less_nat_alt min_def)
  qed
qed

theorem dpdk_resized_witness:
  "\<exists>pb' s'. dpdk_resize_packet_buffer (pool_rte 60) sample_globals sample_net 6 sample_dpdk_buffer sample_dpdk = Inr (pb', s') \<and>
    dpdk_ok 58 2 60 pb' s' \<and> total_data_size pb' = 6 \<and> take 3 (dpdk_contents 58 pb' s') = take 3 (dpdk_contents 58 sample_dpdk_buffer sample_dpdk) \<and>
    mbuf_avail sample_dpdk + 2 = mbuf_avail s' + unat (buf_amount pb')"
proof -
  have "heap_room 32 (d_heap sample_dpdk)" by (simp add: heap_room_def sample_dpdk_def)
  then show ?thesis using dpdk_resized [OF pool_rte_ok sample_dpdk_ok, of sample_net sample_globals 6] sample_dpdk_avail
    by (simp add: sample_globals_def sample_net_def sample_dpdk_buffer_def)
qed

end
