(* ===== verification/Swift_Dpdk_Send.thy ===== *)
theory Swift_Dpdk_Send
  imports Swift_Dpdk
begin

text \<open>
  Sending over DPDK (\<open>src/internal/dpdk/dpdk_send.c\<close> and the DPDK parts of
  \<open>src/send_packet.c\<close>). The headers go in front of the data in every buffer, and a clone of
  the buffer is handed to the device. What arrives at the device is compared with what the
  pcap backend puts on the wire.
\<close>

section \<open>Operations\<close>

definition dpdk_send :: "'z rte \<Rightarrow> ptr \<Rightarrow> 'z dpdk_scheme \<Rightarrow> 'z dpdk_scheme res" where
  "dpdk_send rte buf s =
     (case rte_pktmbuf_clone rte buf s of
        (None, s1) \<Rightarrow> Inl Null_Deref
      | (Some buf_clone, s1) \<Rightarrow>
          (case rte_eth_tx_burst rte buf_clone s1 of
             (taken, s2) \<Rightarrow> Inr (if taken then s2 else rte_pktmbuf_free rte buf_clone s2)))"

text \<open>The length of a buffer as it was before it was sent.\<close>

definition restore_len :: "ptr \<Rightarrow> u16 \<Rightarrow> 'z dpdk_scheme \<Rightarrow> 'z dpdk_scheme res" where
  "restore_len p old_len s = rbind (mbuf_get p s) (\<lambda>m. Inr (cut_mbuf p old_len m s))"

definition dpdk_send_single :: "'z rte \<Rightarrow> route \<Rightarrow> u16 \<Rightarrow> u32 \<Rightarrow> u8 \<Rightarrow> dpdk_buffer \<Rightarrow> 'z dpdk_scheme \<Rightarrow> 'z dpdk_scheme res" where
  "dpdk_send_single rte r packet_id len ty pb s =
     (let final_packet_size = ucast (of_nat (rt_prepend r) + 44 + ucast len :: u64) :: u16;
          pi = construct_packet_info (rt_globals r) len ty 1 0 (rt_ports r);
          ip = construct_ip_header (rt_globals r) (rt_dest r) (final_packet_size - ucast (prepend_size (rt_net r))) packet_id
      in rbind (buffer_slot pb 0)
           (\<lambda>p. rbind (mbuf_get p s)
           (\<lambda>m. rbind (memcpy_at (unat (data_off m)) (eth_bytes (rt_eth r) @ ip_bytes ip @ info_bytes pi) (buf_addr m))
           (\<lambda>m1. rbind (handle_checksum (unat (data_off m) + ETH_SIZE + IP_SIZE) (unat len + INFO_SIZE) m1)
           (\<lambda>m2. if final_packet_size \<noteq> data_len m
                  then rbind (dpdk_send rte p (mbuf_set p (m\<lparr>buf_addr := m2, data_len := final_packet_size, pkt_len := ucast final_packet_size\<rparr>) s))
                         (restore_len p (data_len m))
                  else dpdk_send rte p (mbuf_set p (m\<lparr>buf_addr := m2\<rparr>) s))))))"

text \<open>
  One chunk; the result says whether it was the last. The length of the last chunk is meant
  for the IP header, but goes to the start of the block, in front of what is sent.
\<close>

definition dpdk_send_chunk ::
  "'z rte \<Rightarrow> route \<Rightarrow> ip_header \<Rightarrow> packet_info \<Rightarrow> u32 \<Rightarrow> dpdk_buffer \<Rightarrow> nat \<Rightarrow> 'z dpdk_scheme \<Rightarrow> (bool \<times> 'z dpdk_scheme) res" where
  "dpdk_send_chunk rte r ip pi len pb i s =
     (let dl = ucast (data_len_per_packet pb) :: u32; current_offset = of_nat i * dl; prepend = prepend_size (rt_net r);
          hdr = eth_bytes (rt_eth r) @ ip_bytes ip @ info_bytes (pi\<lparr>chunk_index := of_nat i, checksum := 0\<rparr>)
      in rbind (buffer_slot pb i)
           (\<lambda>p. rbind (mbuf_get p s)
           (\<lambda>m. let sum_at = unat (data_off m) + unat prepend + IP_SIZE
             in rbind (memcpy_at (unat (data_off m)) hdr (buf_addr m))
                  (\<lambda>m1. if len < current_offset + dl
                         then let bytes_to_send = ucast (len - current_offset + 44) :: u16; n = bytes_to_send + ucast prepend
                              in rbind (memcpy_at (ETH_SIZE + IP_LEN_OFFSET) (le_bytes 2 (htons bytes_to_send)) m1)
                                   (\<lambda>m2. rbind (handle_checksum sum_at (unat (ucast n - ucast prepend - 20 :: u64)) m2)
                                   (\<lambda>m3. rbind (dpdk_send rte p (mbuf_set p (m\<lparr>buf_addr := m3, data_len := n, pkt_len := ucast n\<rparr>) s))
                                   (\<lambda>s1. rbind (restore_len p (data_len m) s1) (\<lambda>s2. Inr (True, s2)))))
                         else rbind (handle_checksum sum_at (unat (ucast (data_len m) - ucast prepend - 20 :: u64)) m1)
                                (\<lambda>m2. rbind (dpdk_send rte p (mbuf_set p (m\<lparr>buf_addr := m2\<rparr>) s)) (\<lambda>s1. Inr (False, s1)))))))"

fun dpdk_send_loop ::
  "'z rte \<Rightarrow> route \<Rightarrow> ip_header \<Rightarrow> packet_info \<Rightarrow> u32 \<Rightarrow> dpdk_buffer \<Rightarrow> nat list \<Rightarrow> 'z dpdk_scheme \<Rightarrow> (bool \<times> 'z dpdk_scheme) res" where
  "dpdk_send_loop rte r ip pi len pb [] s = Inr (False, s)"
| "dpdk_send_loop rte r ip pi len pb (i # is) s =
     rbind (dpdk_send_chunk rte r ip pi len pb i s)
       (\<lambda>(last, s1). if last then Inr (True, s1) else dpdk_send_loop rte r ip pi len pb is s1)"

text \<open>
  The chunks of a long message, one per buffer. Only after the last chunk has been cut to its
  length, which the result says, does the code go on to wait for the receiver.
\<close>

definition dpdk_send_chunks :: "'z rte \<Rightarrow> route \<Rightarrow> u16 \<Rightarrow> u32 \<Rightarrow> u32 \<Rightarrow> u8 \<Rightarrow> dpdk_buffer \<Rightarrow> 'z dpdk_scheme \<Rightarrow> (bool \<times> 'z dpdk_scheme) res" where
  "dpdk_send_chunks rte r packet_id len amount ty pb s =
     dpdk_send_loop rte r
       ((construct_ip_header (rt_globals r) (rt_dest r) (rt_mtu r) packet_id)\<lparr>ip_len := htons (rt_mtu r + ucast (prepend_size (rt_net r)))\<rparr>)
       (construct_packet_info (rt_globals r) len ty amount 0 (rt_ports r)) len pb [0..<unat (buf_amount pb)] s"

text \<open>
  A chunk the receiver lacks, sent again: \<open>i\<close> is its place in the list of lost chunks and
  \<open>lost_chunk_index\<close> what stands there. The buffer is the one at the place in the list, and
  the headers are looked for at the start of its block.
\<close>

definition dpdk_resend_chunk :: "'z rte \<Rightarrow> network_data \<Rightarrow> u32 \<Rightarrow> dpdk_buffer \<Rightarrow> nat \<Rightarrow> u32 \<Rightarrow> 'z dpdk_scheme \<Rightarrow> 'z dpdk_scheme res" where
  "dpdk_resend_chunk rte nd len pb i lost_chunk_index s =
     (let dl = ucast (data_len_per_packet pb) :: u32; current_offset = lost_chunk_index * dl; prepend = prepend_size nd; sum_at = unat prepend + IP_SIZE
      in rbind (buffer_slot pb i)
           (\<lambda>p. rbind (mbuf_get p s)
           (\<lambda>m. rbind (memcpy_at (ETH_SIZE + IP_SIZE + CHECKSUM_OFFSET) (le_bytes 4 (0 :: u32)) (buf_addr m))
           (\<lambda>m1. if current_offset + dl < dl \<and> current_offset + ucast (data_len m) \<noteq> len
                  then let bytes_to_complete = ucast (len - current_offset + 58) :: u16
                       in rbind (memcpy_at (ETH_SIZE + IP_LEN_OFFSET) (le_bytes 2 (htons bytes_to_complete)) m1)
                            (\<lambda>m2. rbind (handle_checksum sum_at (unat (ucast bytes_to_complete - ucast prepend - 20 :: u64)) m2)
                            (\<lambda>m3. rbind (dpdk_send rte p (mbuf_set p (m\<lparr>buf_addr := m3, data_len := bytes_to_complete, pkt_len := ucast bytes_to_complete\<rparr>) s))
                            (restore_len p (data_len m))))
                  else rbind (handle_checksum sum_at (unat (ucast (data_len m) - 20 - ucast prepend :: u64)) m1)
                         (\<lambda>m2. dpdk_send rte p (mbuf_set p (m\<lparr>buf_addr := m2\<rparr>) s))))))"

fun dpdk_resend_loop :: "'z rte \<Rightarrow> network_data \<Rightarrow> u32 \<Rightarrow> dpdk_buffer \<Rightarrow> nat \<Rightarrow> u32 list \<Rightarrow> 'z dpdk_scheme \<Rightarrow> 'z dpdk_scheme res" where
  "dpdk_resend_loop rte nd len pb i [] s = Inr s"
| "dpdk_resend_loop rte nd len pb i (c # cs) s = rbind (dpdk_resend_chunk rte nd len pb i c s) (dpdk_resend_loop rte nd len pb (i + 1) cs)"

section \<open>One buffer\<close>

text \<open>A device that takes what it is given.\<close>

definition tx_takes :: "'z rte \<Rightarrow> bool" where
  "tx_takes rte \<longleftrightarrow> (\<forall>s q. mbuf_at s q \<noteq> None \<longrightarrow> fst (rte_eth_tx_burst rte q s))"

lemma dpdk_send_ok:
  assumes "rte_ok rte room avail" and "mbuf_at s p = Some m" and "0 < avail s"
  obtains s' where "dpdk_send rte p s = Inr s'" and "mbuf_at s' = mbuf_at s" and "d_heap s' = d_heap s" and "avail s \<le> Suc (avail s')"
    and "tx_frames s' = tx_frames s @ [mbuf_bytes m] \<or> \<not> tx_takes rte \<and> tx_frames s' = tx_frames s"
proof -
  have laws: "rte_clone_ok rte avail" "rte_tx_ok rte avail" "rte_free_ok rte avail" "rte_quiet_ok rte" using assms(1) unfolding rte_ok_def by simp_all
  obtain q s1 where c: "rte_pktmbuf_clone rte p s = (Some q, s1)" "mbuf_at s q = None" "mbuf_at s1 = (mbuf_at s)(q \<mapsto> m)" "d_heap s1 = d_heap s"
      "tx_frames s1 = tx_frames s" "avail s = Suc (avail s1)" using laws(1) assms(2,3) unfolding rte_clone_ok_def by metis
  have q: "mbuf_at s1 q = Some m" using c(3) by simp
  then consider (no) "rte_eth_tx_burst rte q s1 = (False, s1)"
    | (yes) s2 where "rte_eth_tx_burst rte q s1 = (True, s2)" "mbuf_at s2 = (mbuf_at s1)(q := None)" "d_heap s2 = d_heap s1"
        "tx_frames s2 = tx_frames s1 @ [mbuf_bytes m]" "avail s1 \<le> avail s2"
    using laws(2) unfolding rte_tx_ok_def by metis
  then show ?thesis
  proof cases
    case no
    have "\<not> tx_takes rte" using no q unfolding tx_takes_def by (metis fst_conv option.distinct(1))
    moreover have "mbuf_at (rte_pktmbuf_free rte q s1) = mbuf_at s" using rte_free(1) [OF assms(1) q] c(2,3) by auto
    moreover have "tx_frames (rte_pktmbuf_free rte q s1) = tx_frames s1" using laws(4) by (simp add: rte_quiet_ok_def)
    ultimately show ?thesis using that [of "rte_pktmbuf_free rte q s1"] no c rte_free [OF assms(1) q] by (simp add: dpdk_send_def)
  next
    case yes
    have "mbuf_at s2 = mbuf_at s" using yes(2) c(2,3) by auto
    then show ?thesis using that [of s2] yes c by (simp add: dpdk_send_def)
  qed
qed

text \<open>The bytes of a buffer when the headers have been written: its data is as it was.\<close>

lemma mbuf_split:
  assumes "mbuf_ok 58 dl room m" and "58 + dl \<le> room" and "n \<le> length (mbuf_data 58 m)"
  obtains pre old rest where "buf_addr m = pre @ old @ take n (mbuf_data 58 m) @ rest" and "length pre = unat (data_off m)" and "length old = 58"
proof -
  let ?o = "unat (data_off m)" let ?k = "unat (data_len m) - 58" let ?b = "buf_addr m"
  have l: "length ?b = ?o + room" "?k \<le> dl" "length (mbuf_data 58 m) = ?k" using assms(1) length_mbuf_data [OF assms(1,2)] by (auto simp: mbuf_ok_def mbuf_room_def)
  have d: "take n (mbuf_data 58 m) = take n (drop (?o + 58) ?b)" using assms(3) l(3) by (simp add: mbuf_data_def seg_def min_def)
  have "?b = take ?o ?b @ take 58 (drop ?o ?b) @ take n (drop (?o + 58) ?b) @ drop n (drop (?o + 58) ?b)"
    by (metis append_take_drop_id drop_drop add.commute)
  then show ?thesis using that [of "take ?o ?b" "take 58 (drop ?o ?b)" "drop n (drop (?o + 58) ?b)"] d l assms(2) by simp
qed

lemma framed_mbuf:
  assumes "mbuf_ok 58 dl room m" and "58 + dl \<le> room" and "buf_addr m = pre @ old @ d @ rest" and "length pre = unat (data_off m)" and "length old = 58"
    and "length link = 14" and "length pre' = length pre"
  shows "mbuf_ok 58 dl room (m\<lparr>buf_addr := pre' @ frame link ip pi d @ rest\<rparr>)"
    and "mbuf_data 58 (m\<lparr>buf_addr := pre' @ frame link ip pi d @ rest\<rparr>) = mbuf_data 58 m"
    and "unat n = 58 + length d \<Longrightarrow> mbuf_bytes (m\<lparr>buf_addr := pre' @ frame link ip pi d @ rest, data_len := n, pkt_len := k\<rparr>) = frame link ip pi d"
proof -
  show "mbuf_ok 58 dl room (m\<lparr>buf_addr := pre' @ frame link ip pi d @ rest\<rparr>)" using assms by (simp add: mbuf_ok_def mbuf_room_def)
  show "mbuf_data 58 (m\<lparr>buf_addr := pre' @ frame link ip pi d @ rest\<rparr>) = mbuf_data 58 m"
    using assms by (simp add: mbuf_data_def frame_def seg_skip)
  show "mbuf_bytes (m\<lparr>buf_addr := pre' @ frame link ip pi d @ rest, data_len := n, pkt_len := k\<rparr>) = frame link ip pi d" if "unat n = 58 + length d"
    using assms(4,6,7) that by (simp add: mbuf_bytes_def seg_skip)
qed

lemma memcpy_headers:
  assumes "b = length pre" and "length old = 58" and "length link = 14"
  shows "memcpy_at b (link @ ip_bytes ip @ info_bytes pi) (pre @ old @ d @ rest) = Inr (pre @ frame link ip pi d @ rest)"
  using memcpy_at_middle [of "link @ ip_bytes ip @ info_bytes pi" old b pre "d @ rest"] assms by (simp add: frame_def)


section \<open>Chunks\<close>

text \<open>A buffer whose data and length are as before, in a packet buffer.\<close>

lemma dpdk_ok_sent:
  assumes "dpdk_ok H dl room pb s" and "k < length (dpdk_buffers pb)" and "mbuf_at s (dpdk_buffers pb ! k) = Some m" and "mbuf_ok H dl room m'"
    and "mbuf_data H m' = mbuf_data H m" and "mbuf_at s' = (mbuf_at s)(dpdk_buffers pb ! k \<mapsto> m')" and "d_heap s' = d_heap s"
  shows "dpdk_ok H dl room pb s'" and "dpdk_contents H pb s' = dpdk_contents H pb s"
proof -
  let ?s = "mbuf_set (dpdk_buffers pb ! k) m' s"
  have eq: "mbuf_at s' = mbuf_at ?s" "d_heap s' = d_heap ?s" using assms(6,7) by (simp_all add: mbuf_set_def)
  have len: "length (mbuf_data H m') = length (mbuf_data H m)" using assms(5) by simp
  note w = row_write [OF assms(1-4) len]
  show "dpdk_ok H dl room pb s'" using w(1) eq by (simp add: dpdk_ok_def row_ok_def row_def)
  have "row H s (dpdk_buffers pb) ! k = mbuf_data H m'" using assms(2,3,5) by (simp add: row_def)
  then have "row H ?s (dpdk_buffers pb) = row H s (dpdk_buffers pb)" using w(2) by (metis list_update_id)
  moreover have "row H s' (dpdk_buffers pb) = row H ?s (dpdk_buffers pb)" using eq(1) by (intro row_same) simp
  ultimately show "dpdk_contents H pb s' = dpdk_contents H pb s" by (simp only: dpdk_contents_def)
qed

text \<open>The piece of the message a buffer holds.\<close>

lemma chunk_in_row:
  assumes ok: "dpdk_ok 58 dl room pb s" and "i * dl \<le> n" and "n \<le> unat (total_data_size pb)" and "i < length (dpdk_buffers pb)" and m: "mbuf_at s (dpdk_buffers pb ! i) = Some m"
  shows "chunk_data dl (take n (dpdk_contents 58 pb s)) i = take (min dl (n - i * dl)) (mbuf_data 58 m)"
    and "min dl (n - i * dl) \<le> length (mbuf_data 58 m)"
proof -
  let ?cs = "row 58 s (dpdk_buffers pb)" let ?k = "min dl (n - i * dl)"
  have ok': "\<forall>x \<in> set (butlast ?cs). length x = dl" "length (concat ?cs) = unat (total_data_size pb)" using ok by (simp_all add: dpdk_ok_def)
  have ci: "?cs ! i = mbuf_data 58 m" "i < length ?cs" using assms(4) m by (simp_all add: row_def)
  show k: "?k \<le> length (mbuf_data 58 m)"
  proof (cases "?k = 0")
    case False
    have "i * dl + ?k \<le> length (concat ?cs)" using assms(2,3) ok'(2) by simp
    from chunk_length(2) [OF ok'(1) dpdk_ok_last [OF ok] this] False ci(1) show ?thesis by simp
  qed simp
  have "take i ?cs = take i (butlast ?cs)" using ci(2) by (simp add: butlast_conv_take take_take)
  then have "\<forall>x \<in> set (take i ?cs). length x = dl" using ok'(1) by (auto dest: in_set_takeD)
  from length_concat_const [OF this] ci(2) have l: "length (concat (take i ?cs)) = i * dl" by simp
  have "concat ?cs = concat (take i ?cs) @ ?cs ! i @ concat (drop (Suc i) ?cs)" using ci(2) by (metis concat.simps(2) concat_append id_take_nth_drop)
  then have "drop (i * dl) (concat ?cs) = mbuf_data 58 m @ concat (drop (Suc i) ?cs)" using l ci(1) by simp
  then have "take ?k (drop (i * dl) (concat ?cs)) = take ?k (mbuf_data 58 m)" using k by simp
  then show "chunk_data dl (take n (dpdk_contents 58 pb s)) i = take ?k (mbuf_data 58 m)" by (simp only: chunk_data_def dpdk_contents_def drop_take take_take)
qed

text \<open>The headers as written, sealed and sent with \<open>n\<close> bytes of data.\<close>

lemma seal_mbuf:
  assumes "mbuf_ok 58 dl room m" and "58 + dl \<le> room" and "n \<le> length (mbuf_data 58 m)" and "length link = 14"
    and "b = unat (data_off m) + 34" and "k = INFO_SIZE + n"
  obtains m1 m2 where "memcpy_at (unat (data_off m)) (link @ ip_bytes ip @ info_bytes pi) (buf_addr m) = Inr m1" and "handle_checksum b k m1 = Inr m2"
    and "mbuf_ok 58 dl room (m\<lparr>buf_addr := m2\<rparr>)" and "mbuf_data 58 (m\<lparr>buf_addr := m2\<rparr>) = mbuf_data 58 m"
    and "\<forall>l l'. unat l = 58 + n \<longrightarrow> mbuf_bytes (m\<lparr>buf_addr := m2, data_len := l, pkt_len := l'\<rparr>) = frame link ip (sealed pi (take n (mbuf_data 58 m))) (take n (mbuf_data 58 m))"
proof -
  let ?d = "take n (mbuf_data 58 m)"
  obtain pre old rest where sp: "buf_addr m = pre @ old @ ?d @ rest" "length pre = unat (data_off m)" "length old = 58" by (rule mbuf_split [OF assms(1-3)])
  have m1: "memcpy_at (unat (data_off m)) (link @ ip_bytes ip @ info_bytes pi) (buf_addr m) = Inr (pre @ frame link ip pi ?d @ rest)"
    using memcpy_headers [of _ pre old link ip pi ?d rest] sp assms(4) by simp
  have m2: "handle_checksum b k (pre @ frame link ip pi ?d @ rest) = Inr (pre @ frame link ip (sealed pi ?d) ?d @ rest)"
    using handle_checksum_frame [OF assms(4), of "length pre" pre k ?d ip pi rest] sp(2) assms(3,5,6) by (simp add: add.assoc)
  note fm = framed_mbuf [OF assms(1,2) sp assms(4) refl, where ip = ip and pi = "sealed pi ?d"]
  show ?thesis using that [OF m1 m2 fm(1,2)] fm(3) assms(3) by simp
qed


lemma send_mbuf:
  assumes "rte_ok rte room avail" and "0 < avail s" and "mbuf_at s p = Some m"
  obtains s1 where "dpdk_send rte p (mbuf_set p m' s) = Inr s1" and "mbuf_at s1 = (mbuf_at s)(p \<mapsto> m')" and "d_heap s1 = d_heap s" and "avail s \<le> Suc (avail s1)"
    and "tx_frames s1 = tx_frames s @ [mbuf_bytes m'] \<or> \<not> tx_takes rte \<and> tx_frames s1 = tx_frames s"
proof -
  let ?s = "mbuf_set p m' s"
  have s: "mbuf_at ?s p = Some m'" "avail ?s = avail s" "tx_frames ?s = tx_frames s" "d_heap ?s = d_heap s" "mbuf_at ?s = (mbuf_at s)(p \<mapsto> m')"
    using rte_avail(2) [OF assms(1,3)] by (simp_all add: mbuf_set_def)
  then have av: "0 < avail ?s" using assms(2) by simp
  obtain s1 where "dpdk_send rte p ?s = Inr s1" "mbuf_at s1 = mbuf_at ?s" "d_heap s1 = d_heap ?s" "avail ?s \<le> Suc (avail s1)"
      "tx_frames s1 = tx_frames ?s @ [mbuf_bytes m'] \<or> \<not> tx_takes rte \<and> tx_frames s1 = tx_frames ?s"
    by (rule dpdk_send_ok [OF assms(1) s(1) av])
  then show ?thesis using that [of s1] s by simp
qed

lemma send_cut:
  assumes rte: "rte_ok rte room avail" "0 < avail s" and m: "mbuf_at s p = Some m" "data_len m' = data_len m"
  obtains s1 s2 k where "dpdk_send rte p (mbuf_set p (m'\<lparr>data_len := n, pkt_len := n'\<rparr>) s) = Inr s1" and "restore_len p (data_len m) s1 = Inr s2"
    and "mbuf_at s2 = (mbuf_at s)(p \<mapsto> m'\<lparr>pkt_len := k\<rparr>)" and "d_heap s2 = d_heap s" and "avail s \<le> Suc (avail s2)"
    and "tx_frames s2 = tx_frames s @ [mbuf_bytes (m'\<lparr>data_len := n, pkt_len := n'\<rparr>)] \<or> \<not> tx_takes rte \<and> tx_frames s2 = tx_frames s"
proof -
  let ?m = "m'\<lparr>data_len := n, pkt_len := n'\<rparr>" let ?m2 = "m'\<lparr>pkt_len := ucast (data_len m)\<rparr>"
  obtain s1 where s1: "dpdk_send rte p (mbuf_set p ?m s) = Inr s1" "mbuf_at s1 = (mbuf_at s)(p \<mapsto> ?m)" "d_heap s1 = d_heap s" "avail s \<le> Suc (avail s1)"
      "tx_frames s1 = tx_frames s @ [mbuf_bytes ?m] \<or> \<not> tx_takes rte \<and> tx_frames s1 = tx_frames s" by (rule send_mbuf [OF rte m(1)])
  let ?s2 = "cut_mbuf p (data_len m) ?m s1"
  have r: "restore_len p (data_len m) s1 = Inr ?s2" using s1(2) by (simp add: restore_len_def mbuf_get_def)
  have "?m\<lparr>data_len := data_len m, pkt_len := ucast (data_len m)\<rparr> = ?m2" using m(2) by (cases m') simp
  then have at: "mbuf_at ?s2 = (mbuf_at s)(p \<mapsto> ?m2)" "d_heap ?s2 = d_heap s" "tx_frames ?s2 = tx_frames s1"
    using s1(2,3) by (simp_all add: cut_mbuf_def mbuf_set_def)
  have "avail ?s2 = avail s1" unfolding cut_mbuf_def by (rule rte_avail(2) [OF rte(1)]) (use s1(2) in simp)
  then show ?thesis using that [OF s1(1) r at(1,2)] s1(4,5) at(3) by simp
qed

section \<open>A message in one frame\<close>

lemma dpdk_single_ok:
  fixes packet_id :: u16 and ty :: u8
  assumes rte: "rte_ok rte room avail" "0 < avail s" and ok: "dpdk_ok 58 dl room pb s" and nd: "prepend_size (rt_net r) = 14" "eth_ok (rt_eth r)"
    and len: "unat len \<le> dl" "unat len \<le> unat (total_data_size pb)"
  defines "msg \<equiv> take (unat len) (dpdk_contents 58 pb s)"
  defines "fr \<equiv> frame (eth_bytes (rt_eth r)) (construct_ip_header (rt_globals r) (rt_dest r) (of_nat (PACKET_HEADER_SIZE + unat len)) packet_id)
      (sealed (construct_packet_info (rt_globals r) len ty 1 0 (rt_ports r)) msg) msg"
  shows "\<exists>s'. dpdk_send_single rte r packet_id len ty pb s = Inr s' \<and> dpdk_ok 58 dl room pb s' \<and> dpdk_contents 58 pb s' = dpdk_contents 58 pb s \<and>
    (tx_frames s' = tx_frames s @ [fr] \<or> \<not> tx_takes rte \<and> tx_frames s' = tx_frames s)"
proof -
  have ne: "dpdk_buffers pb \<noteq> []" using ok by (simp add: dpdk_ok_def)
  have "0 < dl" "58 + dl \<le> room" "room < 2 ^ 16" using ok by (simp_all add: dpdk_ok_def)
  note D = this length_greater_0_conv [THEN iffD2, OF ne]
  obtain m where m: "mbuf_at s (dpdk_buffers pb ! 0) = Some m" "mbuf_ok 58 dl room m" using ok D(4) unfolding dpdk_ok_def row_ok_def by (meson nth_mem)
  let ?p = "dpdk_buffers pb ! 0" let ?ip = "construct_ip_header (rt_globals r) (rt_dest r) (of_nat (PACKET_HEADER_SIZE + unat len)) packet_id"
  let ?pi = "construct_packet_info (rt_globals r) len ty 1 0 (rt_ports r)" let ?fin = "ucast (of_nat (rt_prepend r) + 44 + ucast len :: u64) :: u16"
  have c: "chunk_data dl (take (unat len) (dpdk_contents 58 pb s)) 0 = take (min dl (unat len - 0 * dl)) (mbuf_data 58 m)" "min dl (unat len - 0 * dl) \<le> length (mbuf_data 58 m)"
    using chunk_in_row [OF ok _ len(2) D(4) m(1)] by simp_all
  then have d: "msg = take (unat len) (mbuf_data 58 m)" and l: "unat len \<le> length (mbuf_data 58 m)" using len(1) by (simp_all add: msg_def chunk_data_def min_def split: if_splits)
  have fin: "unat ?fin = 58 + unat len" using nd(1) len(1) D(2,3) by (simp add: unsigned_ucast_eq take_bit_nat_eq_self unat_word_ariths)
  have ipl: "?fin - ucast (prepend_size (rt_net r)) = of_nat (44 + unat len)"
  proof -
    have "unat (?fin - ucast (prepend_size (rt_net r))) = 44 + unat len" using fin nd(1) by (subst unat_sub) (simp_all add: word_le_nat_alt)
    moreover have "unat (of_nat (44 + unat len) :: u16) = 44 + unat len" using len(1) D(2,3) by (subst unat_of_nat) simp
    ultimately show ?thesis by (simp only: word_unat_eq_iff)
  qed
  have ll: "length (eth_bytes (rt_eth r)) = 14" using nd(2) by simp
  obtain m1 m2 where e: "memcpy_at (unat (data_off m)) (eth_bytes (rt_eth r) @ ip_bytes ?ip @ info_bytes ?pi) (buf_addr m) = Inr m1"
      "handle_checksum (unat (data_off m) + ETH_SIZE + IP_SIZE) (unat len + INFO_SIZE) m1 = Inr m2" "mbuf_ok 58 dl room (m\<lparr>buf_addr := m2\<rparr>)"
      "mbuf_data 58 (m\<lparr>buf_addr := m2\<rparr>) = mbuf_data 58 m"
      "\<forall>l l'. unat l = 58 + unat len \<longrightarrow> mbuf_bytes (m\<lparr>buf_addr := m2, data_len := l, pkt_len := l'\<rparr>) =
         frame (eth_bytes (rt_eth r)) ?ip (sealed ?pi (take (unat len) (mbuf_data 58 m))) (take (unat len) (mbuf_data 58 m))"
    by (rule seal_mbuf [OF m(2) D(2) l ll, of "unat (data_off m) + ETH_SIZE + IP_SIZE" "unat len + INFO_SIZE"]) simp_all
  have slot: "buffer_slot pb 0 = Inr ?p" "mbuf_get ?p s = Inr m" using ok D(4) m(1) by (auto simp: buffer_slot_def mbuf_get_def dpdk_ok_def)
  have run: "dpdk_send_single rte r packet_id len ty pb s =
      (if ?fin \<noteq> data_len m then rbind (dpdk_send rte ?p (mbuf_set ?p (m\<lparr>buf_addr := m2, data_len := ?fin, pkt_len := ucast ?fin\<rparr>) s)) (restore_len ?p (data_len m))
       else dpdk_send rte ?p (mbuf_set ?p (m\<lparr>buf_addr := m2\<rparr>) s))"
    unfolding dpdk_send_single_def Let_def ipl slot rbind_Inr e(1,2) by (rule refl)
  show ?thesis
  proof (cases "?fin = data_len m")
    case True
    obtain s1 where s1: "dpdk_send rte ?p (mbuf_set ?p (m\<lparr>buf_addr := m2\<rparr>) s) = Inr s1" "mbuf_at s1 = (mbuf_at s)(?p \<mapsto> m\<lparr>buf_addr := m2\<rparr>)" "d_heap s1 = d_heap s"
        "avail s \<le> Suc (avail s1)" "tx_frames s1 = tx_frames s @ [mbuf_bytes (m\<lparr>buf_addr := m2\<rparr>)] \<or> \<not> tx_takes rte \<and> tx_frames s1 = tx_frames s"
      by (rule send_mbuf [OF rte m(1)])
    have "m\<lparr>buf_addr := m2\<rparr> = m\<lparr>buf_addr := m2, data_len := data_len m, pkt_len := pkt_len m\<rparr>" by (cases m) simp
    then have "mbuf_bytes (m\<lparr>buf_addr := m2\<rparr>) = fr" using e(5) fin True d unfolding fr_def by metis
    then show ?thesis using s1 True dpdk_ok_sent [OF ok D(4) m(1) e(3,4) s1(2,3)]
      unfolding run by (intro exI [of _ s1]) simp
  next
    case False
    let ?m = "m\<lparr>buf_addr := m2\<rparr>"
    obtain s1 s2 k where s2: "dpdk_send rte ?p (mbuf_set ?p (?m\<lparr>data_len := ?fin, pkt_len := ucast ?fin\<rparr>) s) = Inr s1" "restore_len ?p (data_len m) s1 = Inr s2"
        "mbuf_at s2 = (mbuf_at s)(?p \<mapsto> ?m\<lparr>pkt_len := k\<rparr>)" "d_heap s2 = d_heap s" "avail s \<le> Suc (avail s2)"
        "tx_frames s2 = tx_frames s @ [mbuf_bytes (?m\<lparr>data_len := ?fin, pkt_len := ucast ?fin\<rparr>)] \<or> \<not> tx_takes rte \<and> tx_frames s2 = tx_frames s"
      by (rule send_cut [OF rte m(1), of ?m]) simp
    have "mbuf_ok 58 dl room (?m\<lparr>pkt_len := k\<rparr>)" "mbuf_data 58 (?m\<lparr>pkt_len := k\<rparr>) = mbuf_data 58 m"
      using e(3,4) by (simp_all add: mbuf_ok_def mbuf_room_def mbuf_data_def)
    note ok' = dpdk_ok_sent [OF ok D(4) m(1) this s2(3,4)]
    have "mbuf_bytes (?m\<lparr>data_len := ?fin, pkt_len := ucast ?fin\<rparr>) = fr" using e(5) fin d unfolding fr_def by simp
    then show ?thesis using s2 False ok' unfolding run by (intro exI [of _ s2]) simp
  qed
qed


section \<open>A message in chunks\<close>

text \<open>Room in front of the headers, into which the length of the last chunk is written.\<close>

definition headroom :: "dpdk_buffer \<Rightarrow> 'z dpdk_scheme \<Rightarrow> bool" where
  "headroom pb s \<longleftrightarrow> (\<forall>p \<in> set (dpdk_buffers pb). \<exists>m. mbuf_at s p = Some m \<and> 18 \<le> unat (data_off m))"

lemma headroom_sent:
  "headroom pb s \<Longrightarrow> mbuf_at s p = Some m \<Longrightarrow> data_off m' = data_off m \<Longrightarrow> mbuf_at s' = (mbuf_at s)(p \<mapsto> m') \<Longrightarrow> headroom pb s'"
  by (fastforce simp: headroom_def)

lemma seal_mbuf_last:
  assumes "mbuf_ok 58 dl room m" and "58 + dl \<le> room" and "n \<le> length (mbuf_data 58 m)" and "length link = 14"
    and "b = unat (data_off m) + 34" and "k = INFO_SIZE + n" and "18 \<le> unat (data_off m)"
  obtains m1 m2 m3 where "memcpy_at (unat (data_off m)) (link @ ip_bytes ip @ info_bytes pi) (buf_addr m) = Inr m1"
    and "memcpy_at (ETH_SIZE + IP_LEN_OFFSET) (le_bytes 2 (x :: u16)) m1 = Inr m2" and "handle_checksum b k m2 = Inr m3"
    and "mbuf_ok 58 dl room (m\<lparr>buf_addr := m3\<rparr>)" and "mbuf_data 58 (m\<lparr>buf_addr := m3\<rparr>) = mbuf_data 58 m"
    and "\<forall>l l'. unat l = 58 + n \<longrightarrow> mbuf_bytes (m\<lparr>buf_addr := m3, data_len := l, pkt_len := l'\<rparr>) = frame link ip (sealed pi (take n (mbuf_data 58 m))) (take n (mbuf_data 58 m))"
proof -
  let ?d = "take n (mbuf_data 58 m)"
  obtain pre old rest where sp: "buf_addr m = pre @ old @ ?d @ rest" "length pre = unat (data_off m)" "length old = 58" by (rule mbuf_split [OF assms(1-3)])
  have m1: "memcpy_at (unat (data_off m)) (link @ ip_bytes ip @ info_bytes pi) (buf_addr m) = Inr (pre @ frame link ip pi ?d @ rest)"
    using memcpy_headers [of _ pre old link ip pi ?d rest] sp assms(4) by simp
  let ?pre = "put (ETH_SIZE + IP_LEN_OFFSET) (le_bytes 2 x) pre"
  have m2: "memcpy_at (ETH_SIZE + IP_LEN_OFFSET) (le_bytes 2 x) (pre @ frame link ip pi ?d @ rest) = Inr (?pre @ frame link ip pi ?d @ rest)" and lp: "length ?pre = length pre"
    using sp(2) assms(7) by (simp_all add: memcpy_at_def put_append_left)
  have m3: "handle_checksum b k (?pre @ frame link ip pi ?d @ rest) = Inr (?pre @ frame link ip (sealed pi ?d) ?d @ rest)"
    using handle_checksum_frame [OF assms(4), of "length ?pre" ?pre k ?d ip pi rest] lp sp(2) assms(3,5,6) by (simp add: add.assoc)
  note fm = framed_mbuf [OF assms(1,2) sp assms(4) lp, where ip = ip and pi = "sealed pi ?d"]
  show ?thesis using that [OF m1 m2 m3 fm(1,2)] fm(3) assms(3) by simp
qed

lemma sum_len: "unat (n :: u16) = 58 + k \<Longrightarrow> prepend = (14 :: u8) \<Longrightarrow> unat (ucast n - ucast prepend - 20 :: u64) = INFO_SIZE + k"
  by (simp add: unat_sub word_le_nat_alt)

lemma chunk_words:
  assumes "unat (w :: u16) = dl" and "unat (len :: u32) + dl < 2 ^ 32" and "i * dl \<le> unat len" and "58 + dl < 2 ^ 16"
  shows "len < of_nat i * ucast w + ucast w \<longleftrightarrow> unat len < i * dl + dl"
    and "unat len < i * dl + dl \<Longrightarrow> unat (ucast (len - of_nat i * ucast w + 44) + 14 :: u16) = 58 + (unat len - i * dl)"
proof -
  have o: "unat (of_nat i * ucast w :: u32) = i * dl"
  proof -
    have "unat (of_nat i * ucast w :: u32) = i * dl mod 2 ^ 32" using assms(1) by (simp add: unat_word_ariths unat_of_nat mod_simps)
    then show ?thesis using assms(2,3) by simp
  qed
  then have "unat (of_nat i * ucast w + ucast w :: u32) = i * dl + dl" using assms(1-3) unat_add_lem [of "of_nat i * ucast w :: u32" "ucast w"] by simp
  then show "len < of_nat i * ucast w + ucast w \<longleftrightarrow> unat len < i * dl + dl" by (simp add: word_less_nat_alt)
  assume "unat len < i * dl + dl"
  moreover have "dl < 65478" using assms(4) by simp
  ultimately have lt: "unat len - i * dl < 65478" using assms(3) by linarith
  have "unat (len - of_nat i * ucast w) = unat len - i * dl" using o assms(3) by (simp add: unat_sub word_le_nat_alt)
  then have "unat (len - of_nat i * ucast w + 44) = unat len - i * dl + 44" using lt unat_add_lem [of "len - of_nat i * ucast w" 44] by simp
  then have "unat (ucast (len - of_nat i * ucast w + 44) :: u16) = unat len - i * dl + 44" using lt by (simp add: unat_ucast_small)
  then show "unat (ucast (len - of_nat i * ucast w + 44) + 14 :: u16) = 58 + (unat len - i * dl)"
    using lt unat_add_lem [of "ucast (len - of_nat i * ucast w + 44) :: u16" 14] by simp
qed

text \<open>The frame of a chunk: as with pcap, but for the length in the IP header of the last.\<close>

definition dpdk_frame :: "u8 list \<Rightarrow> ip_header \<Rightarrow> packet_info \<Rightarrow> nat \<Rightarrow> u8 list \<Rightarrow> nat \<Rightarrow> u8 list" where
  "dpdk_frame link ip pi cs msg i = frame link ip (sealed (pi\<lparr>chunk_index := of_nat i, checksum := 0\<rparr>) (chunk_data cs msg i)) (chunk_data cs msg i)"


lemma dpdk_chunk_ok:
  assumes rte: "rte_ok rte room avail" "0 < avail s" "tx_takes rte" and ok: "dpdk_ok 58 dl room pb s" "headroom pb s" and nd: "prepend_size (rt_net r) = 14" "eth_ok (rt_eth r)"
    and len: "unat len \<le> unat (total_data_size pb)" "unat len + dl < 2 ^ 32" and i: "i < length (dpdk_buffers pb)" "i * dl \<le> unat len"
  shows "\<exists>s'. dpdk_send_chunk rte r ip pi len pb i s = Inr (unat len < i * dl + dl, s') \<and> dpdk_ok 58 dl room pb s' \<and> headroom pb s' \<and>
    dpdk_contents 58 pb s' = dpdk_contents 58 pb s \<and> avail s \<le> Suc (avail s') \<and>
    tx_frames s' = tx_frames s @ [dpdk_frame (eth_bytes (rt_eth r)) ip pi dl (take (unat len) (dpdk_contents 58 pb s)) i]"
proof -
  have D: "58 + dl \<le> room" "room < 2 ^ 16" "unat (data_len_per_packet pb) = dl" using ok by (simp_all add: dpdk_ok_def)
  let ?p = "dpdk_buffers pb ! i" let ?pi = "pi\<lparr>chunk_index := of_nat i, checksum := 0\<rparr>" let ?msg = "take (unat len) (dpdk_contents 58 pb s)" let ?n = "min dl (unat len - i * dl)"
  obtain m where m: "mbuf_at s ?p = Some m" "mbuf_ok 58 dl room m" using ok(1) i(1) unfolding dpdk_ok_def row_ok_def by (meson nth_mem)
  have hr: "18 \<le> unat (data_off m)" using ok(2) nth_mem [OF i(1)] m(1) unfolding headroom_def by (metis option.inject)
  note c = chunk_in_row [OF ok(1) i(2) len(1) i(1) m(1)]
  have ll: "length (eth_bytes (rt_eth r)) = 14" using nd(2) by simp
  have slot: "buffer_slot pb i = Inr ?p" "mbuf_get ?p s = Inr m" using ok(1) i(1) m(1) by (auto simp: buffer_slot_def mbuf_get_def dpdk_ok_def)
  have dl16: "58 + dl < 2 ^ 16" using D by simp
  note w = chunk_words [OF D(3) len(2) i(2) dl16]
  have at: "unat (data_off m) + unat (14 :: u8) + IP_SIZE = unat (data_off m) + 34" by simp
  show ?thesis
  proof (cases "unat len < i * dl + dl")
    case True
    let ?b = "ucast (len - of_nat i * ucast (data_len_per_packet pb) + 44) :: u16" let ?l = "?b + ucast (14 :: u8)"
    have l: "unat ?l = 58 + ?n" using w(2) [OF True] True by simp
    obtain m1 m2 m3 where e: "memcpy_at (unat (data_off m)) (eth_bytes (rt_eth r) @ ip_bytes ip @ info_bytes ?pi) (buf_addr m) = Inr m1"
        "memcpy_at (ETH_SIZE + IP_LEN_OFFSET) (le_bytes 2 (htons ?b)) m1 = Inr m2" "handle_checksum (unat (data_off m) + 34) (INFO_SIZE + ?n) m2 = Inr m3"
        "mbuf_ok 58 dl room (m\<lparr>buf_addr := m3\<rparr>)" "mbuf_data 58 (m\<lparr>buf_addr := m3\<rparr>) = mbuf_data 58 m"
        "\<forall>l l'. unat l = 58 + ?n \<longrightarrow> mbuf_bytes (m\<lparr>buf_addr := m3, data_len := l, pkt_len := l'\<rparr>) =
           frame (eth_bytes (rt_eth r)) ip (sealed ?pi (take ?n (mbuf_data 58 m))) (take ?n (mbuf_data 58 m))"
      by (rule seal_mbuf_last [OF m(2) D(1) c(2) ll refl refl hr])
    let ?m = "m\<lparr>buf_addr := m3\<rparr>"
    obtain s1 s2 k where s2: "dpdk_send rte ?p (mbuf_set ?p (?m\<lparr>data_len := ?l, pkt_len := ucast ?l\<rparr>) s) = Inr s1" "restore_len ?p (data_len m) s1 = Inr s2"
        "mbuf_at s2 = (mbuf_at s)(?p \<mapsto> ?m\<lparr>pkt_len := k\<rparr>)" "d_heap s2 = d_heap s" "avail s \<le> Suc (avail s2)"
        "tx_frames s2 = tx_frames s @ [mbuf_bytes (?m\<lparr>data_len := ?l, pkt_len := ucast ?l\<rparr>)] \<or> \<not> tx_takes rte \<and> tx_frames s2 = tx_frames s"
      by (rule send_cut [OF rte(1,2) m(1), of ?m]) simp
    have "mbuf_ok 58 dl room (?m\<lparr>pkt_len := k\<rparr>)" "mbuf_data 58 (?m\<lparr>pkt_len := k\<rparr>) = mbuf_data 58 m"
      using e(4,5) by (simp_all add: mbuf_ok_def mbuf_room_def mbuf_data_def)
    note ok' = dpdk_ok_sent [OF ok(1) i(1) m(1) this s2(3,4)]
    have hr': "headroom pb s2" by (rule headroom_sent [OF ok(2) m(1) _ s2(3)]) simp
    have "dpdk_send_chunk rte r ip pi len pb i s = Inr (True, s2)"
      unfolding dpdk_send_chunk_def Let_def slot rbind_Inr nd(1) at e(1) w(1) eqTrueI [OF True] if_True e(2) sum_len [OF l refl] e(3) using s2(1,2) by simp
    moreover have "mbuf_bytes (?m\<lparr>data_len := ?l, pkt_len := ucast ?l\<rparr>) = dpdk_frame (eth_bytes (rt_eth r)) ip pi dl ?msg i"
      using e(6) l c(1) by (simp add: dpdk_frame_def)
    ultimately show ?thesis using s2(5,6) rte(3) ok' hr' True by (intro exI [of _ s2]) simp
  next
    case False
    have n: "?n = dl" "unat (data_len m) = 58 + ?n" using False c(2) m(2) length_mbuf_data [OF m(2) D(1)] by (auto simp: mbuf_ok_def)
    obtain m1 m2 where e: "memcpy_at (unat (data_off m)) (eth_bytes (rt_eth r) @ ip_bytes ip @ info_bytes ?pi) (buf_addr m) = Inr m1"
        "handle_checksum (unat (data_off m) + 34) (INFO_SIZE + ?n) m1 = Inr m2" "mbuf_ok 58 dl room (m\<lparr>buf_addr := m2\<rparr>)" "mbuf_data 58 (m\<lparr>buf_addr := m2\<rparr>) = mbuf_data 58 m"
        "\<forall>l l'. unat l = 58 + ?n \<longrightarrow> mbuf_bytes (m\<lparr>buf_addr := m2, data_len := l, pkt_len := l'\<rparr>) =
           frame (eth_bytes (rt_eth r)) ip (sealed ?pi (take ?n (mbuf_data 58 m))) (take ?n (mbuf_data 58 m))"
      by (rule seal_mbuf [OF m(2) D(1) c(2) ll refl refl])
    let ?m = "m\<lparr>buf_addr := m2\<rparr>"
    obtain s1 where s1: "dpdk_send rte ?p (mbuf_set ?p ?m s) = Inr s1" "mbuf_at s1 = (mbuf_at s)(?p \<mapsto> ?m)" "d_heap s1 = d_heap s" "avail s \<le> Suc (avail s1)"
        "tx_frames s1 = tx_frames s @ [mbuf_bytes ?m] \<or> \<not> tx_takes rte \<and> tx_frames s1 = tx_frames s" by (rule send_mbuf [OF rte(1,2) m(1)])
    note ok' = dpdk_ok_sent [OF ok(1) i(1) m(1) e(3,4) s1(2,3)]
    have hr': "headroom pb s1" by (rule headroom_sent [OF ok(2) m(1) _ s1(2)]) simp
    have "dpdk_send_chunk rte r ip pi len pb i s = Inr (False, s1)"
      unfolding dpdk_send_chunk_def Let_def slot rbind_Inr nd(1) at e(1) w(1) if_not_P [OF False] sum_len [OF n(2) refl] e(2) s1(1) by (rule refl)
    moreover have "?m = m\<lparr>buf_addr := m2, data_len := data_len m, pkt_len := pkt_len m\<rparr>" by (cases m) simp
    then have "mbuf_bytes ?m = dpdk_frame (eth_bytes (rt_eth r)) ip pi dl ?msg i" using e(5) n(2) c(1) unfolding dpdk_frame_def by metis
    ultimately show ?thesis using s1(4,5) rte(3) ok' hr' False by (intro exI [of _ s1]) simp
  qed
qed


lemma dpdk_loop_ok:
  assumes rte: "rte_ok rte room avail" "tx_takes rte" and nd: "prepend_size (rt_net r) = 14" "eth_ok (rt_eth r)"
    and len: "unat len \<le> unat (total_data_size pb)" "unat len + dl < 2 ^ 32" and N: "N = length (dpdk_buffers pb)"
    and "dpdk_ok 58 dl room pb s" and "headroom pb s" and "N - k \<le> avail s" and "k \<le> N" and "k * dl \<le> unat len" and "0 < dl"
  shows "\<exists>s'. dpdk_send_loop rte r ip pi len pb [k..<N] s = Inr (unat len div dl < N, s') \<and> dpdk_ok 58 dl room pb s' \<and> dpdk_contents 58 pb s' = dpdk_contents 58 pb s \<and>
    tx_frames s' = tx_frames s @ map (dpdk_frame (eth_bytes (rt_eth r)) ip pi dl (take (unat len) (dpdk_contents 58 pb s))) [k..<min N (unat len div dl + 1)]"
  using assms(8-12)
proof (induction "N - k" arbitrary: k s)
  case 0
  then have k: "k = N" by simp
  then have "N \<le> unat len div dl" using 0 assms(13) by (simp add: less_eq_div_iff_mult_less_eq)
  then show ?case using k 0 by simp
next
  case (Suc d)
  then have k: "k < length (dpdk_buffers pb)" "k < N" "0 < avail s" using N by simp_all
  let ?F = "dpdk_frame (eth_bytes (rt_eth r)) ip pi dl (take (unat len) (dpdk_contents 58 pb s))"
  obtain s1 where s1: "dpdk_send_chunk rte r ip pi len pb k s = Inr (unat len < k * dl + dl, s1)" "dpdk_ok 58 dl room pb s1" "headroom pb s1"
      "dpdk_contents 58 pb s1 = dpdk_contents 58 pb s" "avail s \<le> Suc (avail s1)" "tx_frames s1 = tx_frames s @ [?F k]"
    using dpdk_chunk_ok [OF rte(1) k(3) rte(2) Suc.prems(1,2) nd len k(1) Suc.prems(5), of ip pi] by blast
  have up: "[k..<N] = k # [k + 1..<N]" using k(2) by (simp add: upt_conv_Cons)
  show ?case
  proof (cases "unat len < k * dl + dl")
    case True
    have "unat len div dl = k" using True Suc.prems(5) by (intro div_nat_eqI) (simp_all add: mult.commute)
    then show ?thesis using s1 True k(2) up by (intro exI [of _ s1]) simp
  next
    case False
    have pre: "d = N - (k + 1)" "N - (k + 1) \<le> avail s1" "k + 1 \<le> N" "(k + 1) * dl \<le> unat len"
      using Suc.hyps(2) Suc.prems(3) s1(5) k(2) False by simp_all
    have "k < unat len div dl + 1" using Suc.prems(5) assms(13) by (simp add: less_eq_div_iff_mult_less_eq less_Suc_eq_le)
    then have "[k..<min N (unat len div dl + 1)] = k # [k + 1..<min N (unat len div dl + 1)]" using k(2) by (simp add: upt_conv_Cons)
    then show ?thesis using Suc.hyps(1) [OF pre(1) s1(2,3) pre(2-4)] s1(1,4,6) False up by auto
  qed
qed


section \<open>Sending again\<close>

definition row_bytes :: "'z dpdk_scheme \<Rightarrow> ptr list \<Rightarrow> u8 list list" where
  "row_bytes s ps = map (\<lambda>p. mbuf_bytes (the (mbuf_at s p))) ps"

definition resendable :: "nat \<Rightarrow> 'z dpdk_scheme \<Rightarrow> ptr list \<Rightarrow> bool" where
  "resendable room s ps \<longleftrightarrow> (\<forall>p \<in> set ps. \<exists>m. mbuf_at s p = Some m \<and> mbuf_room room m \<and> 58 \<le> unat (data_off m) \<and> 34 \<le> unat (data_len m) \<and> unat (data_len m) \<le> room)"

text \<open>Sealing at the start of the block does not touch what is sent.\<close>

lemma seal_headroom:
  assumes "mbuf_room room m" and "58 \<le> unat (data_off m)" and "34 \<le> unat (data_len m)" and "unat (data_len m) \<le> room" and "k = unat (data_len m) - 34"
  obtains m1 m2 where "memcpy_at (ETH_SIZE + IP_SIZE + CHECKSUM_OFFSET) (le_bytes 4 (0 :: u32)) (buf_addr m) = Inr m1" and "handle_checksum 34 k m1 = Inr m2"
    and "mbuf_room room (m\<lparr>buf_addr := m2\<rparr>)" and "mbuf_bytes (m\<lparr>buf_addr := m2\<rparr>) = mbuf_bytes m"
proof -
  have room: "length (buf_addr m) = unat (data_off m) + room" using assms(1) by (simp add: mbuf_room_def)
  let ?m1 = "put 46 (le_bytes 4 (0 :: u32)) (buf_addr m)" let ?m2 = "put 46 (le_bytes 4 (crc32 (seg 34 k ?m1))) ?m1"
  have "memcpy_at (ETH_SIZE + IP_SIZE + CHECKSUM_OFFSET) (le_bytes 4 (0 :: u32)) (buf_addr m) = Inr ?m1" "handle_checksum 34 k ?m1 = Inr ?m2"
    using room assms(2-5) by (simp_all add: memcpy_at_def handle_checksum_def read_at_def)
  moreover have "mbuf_room room (m\<lparr>buf_addr := ?m2\<rparr>)" using room assms(2) by (simp add: mbuf_room_def)
  moreover have "mbuf_bytes (m\<lparr>buf_addr := ?m2\<rparr>) = mbuf_bytes m" using room assms(2,4) by (simp add: mbuf_bytes_def seg_put_other)
  ultimately show ?thesis using that by blast
qed

lemma dpdk_resend_ok:
  assumes rte: "rte_ok rte room avail" "0 < avail s" "tx_takes rte" and nd: "prepend_size nd = 14" and ps: "resendable room s (dpdk_buffers pb)" "dpdk_buffers_at pb \<noteq> None"
    and i: "i < length (dpdk_buffers pb)" and c: "unat c * unat (data_len_per_packet pb) + unat (data_len_per_packet pb) < 2 ^ 32"
  shows "\<exists>s'. dpdk_resend_chunk rte nd len pb i c s = Inr s' \<and> avail s \<le> Suc (avail s') \<and> resendable room s' (dpdk_buffers pb) \<and>
    row_bytes s' (dpdk_buffers pb) = row_bytes s (dpdk_buffers pb) \<and> tx_frames s' = tx_frames s @ [row_bytes s (dpdk_buffers pb) ! i]"
proof -
  let ?p = "dpdk_buffers pb ! i" let ?w = "ucast (data_len_per_packet pb) :: u32"
  obtain m where m: "mbuf_at s ?p = Some m" "mbuf_room room m" "58 \<le> unat (data_off m)" "34 \<le> unat (data_len m)" "unat (data_len m) \<le> room"
    using ps(1) nth_mem [OF i] unfolding resendable_def by blast
  obtain m1 m2 where e: "memcpy_at (ETH_SIZE + IP_SIZE + CHECKSUM_OFFSET) (le_bytes 4 (0 :: u32)) (buf_addr m) = Inr m1" "handle_checksum 34 (unat (data_len m) - 34) m1 = Inr m2"
      "mbuf_room room (m\<lparr>buf_addr := m2\<rparr>)" "mbuf_bytes (m\<lparr>buf_addr := m2\<rparr>) = mbuf_bytes m" by (rule seal_headroom [OF m(2-5) refl])
  let ?m = "m\<lparr>buf_addr := m2\<rparr>"
  obtain s1 where s1: "dpdk_send rte ?p (mbuf_set ?p ?m s) = Inr s1" "mbuf_at s1 = (mbuf_at s)(?p \<mapsto> ?m)" "d_heap s1 = d_heap s" "avail s \<le> Suc (avail s1)"
      "tx_frames s1 = tx_frames s @ [mbuf_bytes ?m] \<or> \<not> tx_takes rte \<and> tx_frames s1 = tx_frames s" by (rule send_mbuf [OF rte(1,2) m(1)])
  have nw: "\<not> c * ?w + ?w < ?w"
  proof -
    have "unat (c * ?w) = unat c * unat (data_len_per_packet pb)" using c by (simp add: unat_word_ariths)
    then have "unat (c * ?w + ?w) = unat c * unat (data_len_per_packet pb) + unat (data_len_per_packet pb)" using c unat_add_lem [of "c * ?w" ?w] by simp
    then show ?thesis by (simp add: word_less_nat_alt)
  qed
  have l: "unat (ucast (data_len m) - 20 - ucast (14 :: u8) :: u64) = unat (data_len m) - 34" using m(4) by (simp add: unat_sub word_le_nat_alt)
  have "buffer_slot pb i = Inr ?p" "mbuf_get ?p s = Inr m" using ps(2) i m(1) by (auto simp: buffer_slot_def mbuf_get_def)
  then have "dpdk_resend_chunk rte nd len pb i c s = Inr s1"
    using nw e(1,2) s1(1) l by (simp add: dpdk_resend_chunk_def Let_def nd)
  moreover have "resendable room s1 (dpdk_buffers pb)" using ps(1) e(3) m(3-5) s1(2) unfolding resendable_def by auto
  moreover have "row_bytes s1 (dpdk_buffers pb) = row_bytes s (dpdk_buffers pb)" using s1(2) m(1) e(4) by (auto simp: row_bytes_def)
  moreover have "row_bytes s (dpdk_buffers pb) ! i = mbuf_bytes m" using i m(1) by (simp add: row_bytes_def)
  ultimately show ?thesis using s1(4,5) e(4) rte(3) by (intro exI [of _ s1]) simp
qed

lemma dpdk_resend_all:
  assumes rte: "rte_ok rte room avail" "tx_takes rte" and nd: "prepend_size nd = 14" and at: "dpdk_buffers_at pb \<noteq> None"
    and "resendable room s (dpdk_buffers pb)" and "length cs \<le> avail s" and "i + length cs \<le> length (dpdk_buffers pb)"
    and "\<forall>c \<in> set cs. unat c * unat (data_len_per_packet pb) + unat (data_len_per_packet pb) < 2 ^ 32"
  shows "\<exists>s'. dpdk_resend_loop rte nd len pb i cs s = Inr s' \<and> row_bytes s' (dpdk_buffers pb) = row_bytes s (dpdk_buffers pb) \<and>
    tx_frames s' = tx_frames s @ seg i (length cs) (row_bytes s (dpdk_buffers pb))"
  using assms(5-8)
proof (induction cs arbitrary: i s)
  case Nil
  then show ?case by (simp add: seg_def)
next
  case (Cons c cs)
  let ?R = "row_bytes s (dpdk_buffers pb)"
  have pre: "0 < avail s" "i < length (dpdk_buffers pb)" "unat c * unat (data_len_per_packet pb) + unat (data_len_per_packet pb) < 2 ^ 32" using Cons.prems by simp_all
  obtain s1 where s1: "dpdk_resend_chunk rte nd len pb i c s = Inr s1" "avail s \<le> Suc (avail s1)" "resendable room s1 (dpdk_buffers pb)"
      "row_bytes s1 (dpdk_buffers pb) = ?R" "tx_frames s1 = tx_frames s @ [?R ! i]"
    using dpdk_resend_ok [OF rte(1) pre(1) rte(2) nd Cons.prems(1) at pre(2,3)] by blast
  have "length cs \<le> avail s1" "i + 1 + length cs \<le> length (dpdk_buffers pb)" "\<forall>c \<in> set cs. unat c * unat (data_len_per_packet pb) + unat (data_len_per_packet pb) < 2 ^ 32"
    using Cons.prems s1(2) by simp_all
  from Cons.IH [OF s1(3) this] s1(1,4,5) obtain s' where s': "dpdk_resend_loop rte nd len pb i (c # cs) s = Inr s'" "row_bytes s' (dpdk_buffers pb) = ?R"
      "tx_frames s' = tx_frames s @ ?R ! i # seg (i + 1) (length cs) ?R" by auto
  have "seg i (length (c # cs)) ?R = ?R ! i # seg (i + 1) (length cs) ?R" using pre(2) by (simp add: seg_def row_bytes_def Cons_nth_drop_Suc [symmetric])
  then show ?case using s' by auto
qed


section \<open>Properties\<close>

lemma pool_takes: "tx_takes (pool_rte room)"
  by (auto simp: tx_takes_def pool_rte_def pool_burst_def)

definition ether_route :: route where
  "ether_route = (sample_route sample_net)\<lparr>rt_mtu := 46, rt_eth := \<lparr>ether_dhost = [1, 2, 3, 4, 5, 6], ether_shost = [7, 8, 9, 10, 11, 12], ether_type = 8\<rparr>\<rparr>"

lemma ether_route_ok: "prepend_size (rt_net ether_route) = 14" "addr_type (rt_net ether_route) = DLT_EN10MB" "eth_ok (rt_eth ether_route)"
  by (simp_all add: ether_route_def sample_route_def sample_net_def eth_ok_def)

lemma sample_headroom: "headroom sample_dpdk_buffer sample_dpdk"
  by (simp add: headroom_def sample_dpdk_def sample_dpdk_buffer_def sample_mbuf_def)

lemma sample_contents: "dpdk_contents 58 sample_dpdk_buffer sample_dpdk = [0, 0, 0]"
  by (simp add: dpdk_contents_def row_def mbuf_data_def seg_def sample_dpdk_def sample_dpdk_buffer_def sample_mbuf_def) (simp add: numeral_eq_Suc)

text \<open>
  C32. A message that fits one frame leaves both backends as the same bytes: on Ethernet, what
  the DPDK device is given is the frame the pcap backend injects, and the DPDK packet buffer
  holds what it held, in order.
\<close>

theorem backends_agree:
  assumes "rte_ok rte room avail" and "0 < avail s" and "tx_takes rte" and "dpdk_ok 58 dl room pb s"
    and "addr_type (rt_net r) = DLT_EN10MB" and "prepend_size (rt_net r) = 14" and "eth_ok (rt_eth r)"
    and "unat len \<le> dl" and "unat len \<le> unat (total_data_size pb)" and "packet_data_start pp = DATA_START" and "DATA_START + unat len \<le> length (pb_mem pp)"
    and "seg DATA_START (unat len) (pb_mem pp) = take (unat len) (dpdk_contents 58 pb s)"
  shows "\<exists>fr pp' s'. send_single r packet_id len ty pp ss = Inr (pp', emit fr ss) \<and> dpdk_send_single rte r packet_id len ty pb s = Inr s' \<and>
    tx_frames s' = tx_frames s @ [fr] \<and> dpdk_ok 58 dl room pb s' \<and> dpdk_contents 58 pb s' = dpdk_contents 58 pb s"
proof -
  have lk: "link_ok (rt_net r) (rt_eth r)" "link_bytes (rt_net r) (rt_eth r) = eth_bytes (rt_eth r)" using assms(5-7) by (simp_all add: link_ok_def link_bytes_def)
  have "unat len + DATA_START < 2 ^ 16" using assms(4,8) by (simp add: dpdk_ok_def)
  from send_single_frame [OF lk(1) assms(10,11) this, of packet_id ty ss] obtain pp' where
    "send_single r packet_id len ty pp ss = Inr (pp', emit (frame (eth_bytes (rt_eth r))
       (construct_ip_header (rt_globals r) (rt_dest r) (of_nat (PACKET_HEADER_SIZE + unat len)) packet_id)
       (sealed (construct_packet_info (rt_globals r) len ty 1 0 (rt_ports r)) (take (unat len) (dpdk_contents 58 pb s))) (take (unat len) (dpdk_contents 58 pb s))) ss)"
    unfolding assms(12) lk(2) by blast
  then show ?thesis using dpdk_single_ok [OF assms(1,2,4,6-9), of packet_id ty] assms(3) by blast
qed

theorem backends_agree_witness:
  "\<exists>fr pp' s'. send_single ether_route 9 2 MESSAGE (sample_pb [0, 0]) (undefined :: send_state) = Inr (pp', emit fr undefined) \<and>
    dpdk_send_single (pool_rte 60) ether_route 9 2 MESSAGE sample_dpdk_buffer sample_dpdk = Inr s' \<and>
    tx_frames s' = [fr] \<and> dpdk_ok 58 2 60 sample_dpdk_buffer s'"
proof -
  have "seg DATA_START (unat (2 :: u32)) (pb_mem (sample_pb [0, 0])) = take (unat (2 :: u32)) (dpdk_contents 58 sample_dpdk_buffer sample_dpdk)"
    "DATA_START + unat (2 :: u32) \<le> length (pb_mem (sample_pb [0, 0]))" unfolding sample_contents by (simp_all add: seg_def)
  moreover have "tx_frames sample_dpdk = []" "unat (2 :: u32) \<le> unat (total_data_size sample_dpdk_buffer)" by (simp_all add: sample_dpdk_def sample_dpdk_buffer_def)
  ultimately show ?thesis
    using backends_agree [OF pool_rte_ok _ pool_takes sample_dpdk_ok ether_route_ok(2,1,3), of 2 "sample_pb [0, 0]" 9 MESSAGE "undefined :: send_state"] sample_dpdk_avail by fastforce
qed

text \<open>
  C33. A long message goes to the DPDK device chunk by chunk, each under headers that name its
  index and sealed with its checksum, and the chunks together are the message; the packet
  buffer holds what it held. The code goes on to wait for the receiver only if a buffer is
  left that the message does not fill.
\<close>

theorem dpdk_chunks_sent:
  assumes "rte_ok rte room avail" and "tx_takes rte" and "dpdk_ok 58 dl room pb s" and "headroom pb s" and "prepend_size (rt_net r) = 14" and "eth_ok (rt_eth r)"
    and "unat len \<le> unat (total_data_size pb)" and "unat len + dl < 2 ^ 32" and "unat (buf_amount pb) \<le> avail s"
  defines "msg \<equiv> take (unat len) (dpdk_contents 58 pb s)" and "n \<equiv> min (unat (buf_amount pb)) (unat len div dl + 1)"
  shows "\<exists>s'. dpdk_send_chunks rte r packet_id len amount ty pb s = Inr (unat len div dl < unat (buf_amount pb), s') \<and>
    tx_frames s' = tx_frames s @ map (dpdk_frame (eth_bytes (rt_eth r)) (message_ip r packet_id) (construct_packet_info (rt_globals r) len ty amount 0 (rt_ports r)) dl msg) [0..<n] \<and>
    concat (map (chunk_data dl msg) [0..<n]) = msg \<and> dpdk_ok 58 dl room pb s' \<and> dpdk_contents 58 pb s' = dpdk_contents 58 pb s"
proof -
  have D: "0 < dl" "unat (buf_amount pb) = length (dpdk_buffers pb)" "length (dpdk_contents 58 pb s) = unat (total_data_size pb)"
    using assms(3) by (simp_all add: dpdk_ok_def dpdk_contents_def)
  have "unat len \<le> n * dl"
  proof (cases "n = unat (buf_amount pb)")
    case True
    obtain qs :: "ptr list" and m where "unat (buf_amount pb) = Suc (length qs)" "unat (total_data_size pb) = length qs * dl + length (mbuf_data 58 m)" "length (mbuf_data 58 m) \<le> dl"
      using dpdk_okE [OF assms(3)] by metis
    then show ?thesis using True assms(7) by simp
  next
    case False
    then have "n = unat len div dl + 1" by (simp add: n_def min_def split: if_splits)
    moreover have "unat len \<le> unat len div dl * dl + dl" using div_mult_mod_eq [of "unat len" dl] mod_less_divisor [OF D(1), of "unat len"] by linarith
    ultimately show ?thesis by simp
  qed
  then have cat: "concat (map (chunk_data dl msg) [0..<n]) = msg" unfolding chunk_data_concat [OF D(1)] by (simp add: msg_def)
  have "length (dpdk_buffers pb) - 0 \<le> avail s" using assms(9) D(2) by simp
  from dpdk_loop_ok [OF assms(1,2,5-8) refl assms(3,4) this _ _ D(1), of "message_ip r packet_id" "construct_packet_info (rt_globals r) len ty amount 0 (rt_ports r)"]
  show ?thesis
    unfolding dpdk_send_chunks_def message_ip_def [symmetric] D(2) n_def msg_def [symmetric] using cat [unfolded n_def D(2)] by auto
qed


theorem dpdk_chunks_sent_witness:
  "\<exists>s'. dpdk_send_chunks (pool_rte 60) ether_route 9 3 2 MESSAGE sample_dpdk_buffer sample_dpdk = Inr (True, s') \<and> length (tx_frames s') = 2 \<and>
    dpdk_ok 58 2 60 sample_dpdk_buffer s' \<and> dpdk_contents 58 sample_dpdk_buffer s' = [0, 0, 0]"
proof -
  have "tx_frames sample_dpdk = []" "unat (3 :: u32) \<le> unat (total_data_size sample_dpdk_buffer)" "unat (buf_amount sample_dpdk_buffer) = 2"
    by (simp_all add: sample_dpdk_def sample_dpdk_buffer_def)
  then show ?thesis
    using dpdk_chunks_sent [OF pool_rte_ok pool_takes sample_dpdk_ok sample_headroom ether_route_ok(1,3), of 3 9 2 MESSAGE] sample_dpdk_avail sample_contents by fastforce
qed

text \<open>
  C34. When the receiver reports lost chunks, the DPDK backend sends as many frames as chunks
  were lost, but which ones does not depend on which were lost: they are the first buffers of
  the packet buffer, byte for byte as they were sent before.
\<close>

theorem dpdk_resend_first:
  assumes "rte_ok rte room avail" and "tx_takes rte" and "prepend_size nd = 14" and "dpdk_buffers_at pb \<noteq> None" and "resendable room s (dpdk_buffers pb)"
    and "length lost \<le> avail s" and "length lost \<le> length (dpdk_buffers pb)"
    and "\<forall>c \<in> set lost. unat c * unat (data_len_per_packet pb) + unat (data_len_per_packet pb) < 2 ^ 32"
  shows "\<exists>s'. dpdk_resend_loop rte nd len pb 0 lost s = Inr s' \<and> tx_frames s' = tx_frames s @ take (length lost) (row_bytes s (dpdk_buffers pb))"
  using dpdk_resend_all [OF assms(1-6), of 0] assms(7,8) by (auto simp: seg_def)

theorem dpdk_resend_first_witness:
  "\<exists>s'. dpdk_resend_loop (pool_rte 60) sample_net 3 sample_dpdk_buffer 0 [1] sample_dpdk = Inr s' \<and> tx_frames s' = [replicate 60 0] \<and>
    mbuf_bytes (sample_mbuf 60) = replicate 60 0 \<and> mbuf_bytes (sample_mbuf 59) = replicate 59 0"
proof -
  have b: "mbuf_bytes (sample_mbuf 60) = replicate 60 0" "mbuf_bytes (sample_mbuf 59) = replicate 59 0" by (simp_all add: mbuf_bytes_def seg_def sample_mbuf_def)
  have "resendable 60 sample_dpdk (dpdk_buffers sample_dpdk_buffer)"
    by (simp add: resendable_def sample_dpdk_def sample_dpdk_buffer_def sample_mbuf_def mbuf_room_def)
  moreover have "take 1 (row_bytes sample_dpdk (dpdk_buffers sample_dpdk_buffer)) = [replicate 60 0]" "tx_frames sample_dpdk = []"
    using b by (simp_all add: row_bytes_def sample_dpdk_def sample_dpdk_buffer_def)
  ultimately show ?thesis
    using dpdk_resend_first [OF pool_rte_ok pool_takes, of sample_net sample_dpdk_buffer 60 sample_dpdk "[1]" 3] sample_dpdk_avail b
    by (simp add: sample_net_def sample_dpdk_buffer_def)
qed

end
