(* ===== verification/Swift_Backend.thy ===== *)
theory Swift_Backend
  imports Swift_Dpdk_Send
begin

text \<open>
  The glue to the two capture libraries: opening an interface and handing frames over with
  libpcap (\<open>src/internal/pcap/pcap_open.c\<close>, \<open>pcap_send.c\<close> and the macros of
  \<open>src/internal/networking.h\<close>), opening a port with DPDK (\<open>src/internal/dpdk/dpdk_open.c\<close>)
  and the control packets it sends. The libraries are parameters.
\<close>

section \<open>libpcap\<close>

record 'w pcap_lib =
  pcap_open_live :: "string \<Rightarrow> 'w \<Rightarrow> ptr option \<times> 'w"
  pcap_compile :: "ptr \<Rightarrow> string \<Rightarrow> 'w \<Rightarrow> int \<times> 'w"
  pcap_setfilter :: "ptr \<Rightarrow> 'w \<Rightarrow> int \<times> 'w"
  pcap_datalink :: "ptr \<Rightarrow> 'w \<Rightarrow> int"
  pcap_inject :: "ptr \<Rightarrow> u8 list \<Rightarrow> 'w \<Rightarrow> int \<times> 'w"
  pcap_errno :: "'w \<Rightarrow> int"

abbreviation ENOBUFS :: int where "ENOBUFS \<equiv> 105"

text \<open>A filter that cannot be set is reported, and the handle used without it.\<close>

definition swiftnet_pcap_open :: "'w pcap_lib \<Rightarrow> string \<Rightarrow> 'w \<Rightarrow> (ptr option \<times> 'w) res" where
  "swiftnet_pcap_open lib interface w =
     (case pcap_open_live lib interface w of
        (None, w1) \<Rightarrow> Inr (None, w1)
      | (Some p, w1) \<Rightarrow>
          (case pcap_compile lib p ''ip proto 253'' w1 of
             (rc, w2) \<Rightarrow> if rc = -1 then Inl Exit_Failure else Inr (Some p, snd (pcap_setfilter lib p w2))))"

definition pcap_initialize_networking :: "'w pcap_lib \<Rightarrow> string \<Rightarrow> 'w \<Rightarrow> ((ptr option \<times> network_data) \<times> 'w) res" where
  "pcap_initialize_networking lib interface w =
     rbind (swiftnet_pcap_open lib interface w)
       (\<lambda>(r, w1). case r of
          None \<Rightarrow> Inr ((None, \<lparr>addr_type = 0, prepend_size = 0\<rparr>), w1)
        | Some p \<Rightarrow> Inr ((Some p, initialize_networking (word_of_int (pcap_datalink lib p w1))), w1))"

definition swiftnet_pcap_send :: "'w pcap_lib \<Rightarrow> ptr \<Rightarrow> u8 list \<Rightarrow> 'w \<Rightarrow> int \<times> 'w" where
  "swiftnet_pcap_send lib p data w =
     (case pcap_inject lib p data w of
        (ret, w1) \<Rightarrow> (if ret = -1 then (if pcap_errno lib w1 = ENOBUFS then -2 else -1) else 0, w1))"

text \<open>\<open>SWIFTNET_SEND_PACKET\<close>: as long as the library has no room, try again.\<close>

partial_function (option) pcap_send_packet :: "'w pcap_lib \<Rightarrow> ptr \<Rightarrow> u8 list \<Rightarrow> 'w \<Rightarrow> 'w option" where
  "pcap_send_packet lib p data w =
     (case swiftnet_pcap_send lib p data w of (r, w1) \<Rightarrow> if r = -2 then pcap_send_packet lib p data w1 else Some w1)"

text \<open>The library after \<open>k\<close> attempts, and the answer of the next.\<close>

definition pcap_after :: "'w pcap_lib \<Rightarrow> ptr \<Rightarrow> u8 list \<Rightarrow> nat \<Rightarrow> 'w \<Rightarrow> 'w" where
  "pcap_after lib p data k = (\<lambda>w. snd (swiftnet_pcap_send lib p data w)) ^^ k"

definition pcap_answer :: "'w pcap_lib \<Rightarrow> ptr \<Rightarrow> u8 list \<Rightarrow> nat \<Rightarrow> 'w \<Rightarrow> int" where
  "pcap_answer lib p data k w = fst (swiftnet_pcap_send lib p data (pcap_after lib p data k w))"

lemma pcap_after_Suc: "pcap_after lib p data (Suc k) w = pcap_after lib p data k (snd (swiftnet_pcap_send lib p data w))"
  by (simp add: pcap_after_def funpow_Suc_right del: funpow.simps)

lemma pcap_answer_Suc: "pcap_answer lib p data (Suc k) w = pcap_answer lib p data k (snd (swiftnet_pcap_send lib p data w))"
  by (simp add: pcap_answer_def pcap_after_Suc)

lemma pcap_send_packet_after:
  "(\<forall>k < n. pcap_answer lib p data k w = -2) \<Longrightarrow> pcap_answer lib p data n w \<noteq> -2 \<Longrightarrow> pcap_send_packet lib p data w = Some (pcap_after lib p data (Suc n) w)"
proof (induction n arbitrary: w)
  case 0
  then show ?case by (cases "swiftnet_pcap_send lib p data w") (simp add: pcap_send_packet.simps [of lib p data w] pcap_answer_def pcap_after_def)
next
  case (Suc n)
  let ?w = "snd (swiftnet_pcap_send lib p data w)"
  have "fst (swiftnet_pcap_send lib p data w) = -2" using Suc.prems(1) by (auto simp: pcap_answer_def pcap_after_def dest: spec [of _ 0])
  then have "pcap_send_packet lib p data w = pcap_send_packet lib p data ?w" by (cases "swiftnet_pcap_send lib p data w") (simp add: pcap_send_packet.simps [of lib p data w])
  moreover have "\<forall>k < n. pcap_answer lib p data k ?w = -2" "pcap_answer lib p data n ?w \<noteq> -2"
    using Suc.prems by (auto simp: pcap_answer_Suc [symmetric])
  ultimately show ?case using Suc.IH [of ?w] by (simp add: pcap_after_Suc [of lib p data "Suc n"])
qed

text \<open>A library without room for ever keeps the sender for ever.\<close>

lemma pcap_send_packet_answer: "pcap_send_packet lib p data w = Some w' \<Longrightarrow> \<exists>k. pcap_answer lib p data k w \<noteq> -2"
proof (rule pcap_send_packet.raw_induct [rotated, where P = "\<lambda>lib p data w w'. \<exists>k. pcap_answer lib p data k w \<noteq> -2"], assumption)
  fix f and lib :: "'a pcap_lib" and p data w w'
  assume IH: "\<And>lib p data w w'. f lib p data w = Some w' \<Longrightarrow> \<exists>k. pcap_answer lib p data k w \<noteq> -2"
    and f: "(case swiftnet_pcap_send lib p data w of (r, w1) \<Rightarrow> if r = -2 then f lib p data w1 else Some w1) = Some w'"
  show "\<exists>k. pcap_answer lib p data k w \<noteq> -2"
  proof (cases "fst (swiftnet_pcap_send lib p data w) = -2")
    case True
    then have "f lib p data (snd (swiftnet_pcap_send lib p data w)) = Some w'" using f by (simp split: prod.splits)
    then show ?thesis using IH pcap_answer_Suc by metis
  next
    case False
    then show ?thesis by (intro exI [of _ 0]) (simp add: pcap_answer_def pcap_after_def)
  qed
qed

lemma pcap_send_packet_stuck: "\<forall>k. pcap_answer lib p data k w = -2 \<Longrightarrow> pcap_send_packet lib p data w = None"
  using pcap_send_packet_answer by (metis not_None_eq)

section \<open>DPDK\<close>

record 'd rte_dev =
  rte_eth_dev_get_port_by_name :: "string \<Rightarrow> 'd \<Rightarrow> int \<times> u16"
  rte_pktmbuf_pool_create :: "u16 \<Rightarrow> 'd \<Rightarrow> ptr option \<times> 'd"
  rte_eth_dev_configure :: "u16 \<Rightarrow> 'd \<Rightarrow> int \<times> 'd"
  rte_eth_rx_queue_setup :: "u16 \<Rightarrow> ptr \<Rightarrow> 'd \<Rightarrow> int \<times> 'd"
  rte_eth_tx_queue_setup :: "u16 \<Rightarrow> 'd \<Rightarrow> int \<times> 'd"
  rte_eth_dev_start :: "u16 \<Rightarrow> 'd \<Rightarrow> int \<times> 'd"
  rte_eth_promiscuous_enable :: "u16 \<Rightarrow> 'd \<Rightarrow> 'd"

text \<open>\<open>rte_exit\<close> on a negative result.\<close>

definition or_exit :: "int \<times> 'd \<Rightarrow> 'd res" where
  "or_exit r = (if fst r < 0 then Inl Exit_Failure else Inr (snd r))"

definition dpdk_open_port :: "'d rte_dev \<Rightarrow> u16 \<Rightarrow> 'd \<Rightarrow> (ptr \<times> 'd) res" where
  "dpdk_open_port dev port d =
     (case rte_pktmbuf_pool_create dev port d of
        (None, d1) \<Rightarrow> Inl Exit_Failure
      | (Some mem_pool, d1) \<Rightarrow>
          rbind (or_exit (rte_eth_dev_configure dev port d1))
            (\<lambda>d2. rbind (or_exit (rte_eth_rx_queue_setup dev port mem_pool d2))
            (\<lambda>d3. rbind (or_exit (rte_eth_tx_queue_setup dev port d3))
            (\<lambda>d4. rbind (or_exit (rte_eth_dev_start dev port d4))
            (\<lambda>d5. Inr (mem_pool, rte_eth_promiscuous_enable dev port d5))))))"

definition dpdk_initialize_networking :: "'d rte_dev \<Rightarrow> string \<Rightarrow> 'd \<Rightarrow> ((u16 \<times> ptr \<times> network_data) \<times> 'd) res" where
  "dpdk_initialize_networking dev interface d =
     (case rte_eth_dev_get_port_by_name dev interface d of
        (ret, port) \<Rightarrow>
          if ret < 0 then Inl Exit_Failure
          else rbind (dpdk_open_port dev port d) (\<lambda>(mem_pool, d1). Inr ((port, mem_pool, \<lparr>addr_type = 1, prepend_size = 14\<rparr>), d1)))"

lemma dpdk_initialized:
  assumes "dpdk_initialize_networking dev interface d = r"
  shows "r = Inl Exit_Failure \<or> (\<exists>port pool d'. r = Inr ((port, pool, initialize_networking DLT_EN10MB), d'))"
  using assms by (auto simp: dpdk_initialize_networking_def dpdk_open_port_def or_exit_def rbind_def initialize_networking_def packet_prepend_size_def
      split: prod.splits option.splits if_splits sum.splits)

text \<open>
  \<open>HANDLE_PACKET_CONSTRUCTION\<close>: a buffer of \<open>n\<close> bytes with the headers at its start.
\<close>

definition dpdk_packet_construction ::
  "'z rte \<Rightarrow> ip_header \<Rightarrow> packet_info \<Rightarrow> network_data \<Rightarrow> ether_header \<Rightarrow> u16 \<Rightarrow> 'z dpdk_scheme \<Rightarrow> (ptr \<times> 'z dpdk_scheme) res" where
  "dpdk_packet_construction rte ip pi nd eh n s =
     (case rte_pktmbuf_alloc rte s of
        (None, s1) \<Rightarrow> Inl Exit_Failure
      | (Some p, s1) \<Rightarrow>
          let s2 = rte_pktmbuf_append rte p n s1
          in rbind (mbuf_get p s2)
               (\<lambda>m. rbind (memcpy_at (unat (data_off m)) ((if addr_type nd = 0 then [] else eth_bytes eh) @ ip_bytes ip @ info_bytes pi) (buf_addr m))
               (\<lambda>mem. Inr (p, mbuf_set p (m\<lparr>buf_addr := mem, data_len := n, pkt_len := ucast n\<rparr>) s2))))"

text \<open>
  A control packet: headers, payload, the checksum of \<open>k\<close> bytes, and
  \<open>SWIFTNET_SEND_INTERNAL_PACKET\<close>. The buffer it is built in is not given back:
  \<open>FREE_PACKET_CONSTRUCTION\<close> stands nowhere in the sources.
\<close>

definition dpdk_internal_packet ::
  "'z rte \<Rightarrow> ip_header \<Rightarrow> packet_info \<Rightarrow> network_data \<Rightarrow> ether_header \<Rightarrow> u8 list \<Rightarrow> nat \<Rightarrow> 'z dpdk_scheme \<Rightarrow> (ptr \<times> 'z dpdk_scheme) res" where
  "dpdk_internal_packet rte ip pi nd eh payload k s =
     (let prepend = unat (prepend_size nd); n = prepend + PACKET_HEADER_SIZE + length payload
      in rbind (dpdk_packet_construction rte ip pi nd eh (of_nat n) s)
           (\<lambda>(p, s1). rbind (mbuf_get p s1)
           (\<lambda>m. rbind (memcpy_at (unat (data_off m) + prepend + PACKET_HEADER_SIZE) payload (buf_addr m))
           (\<lambda>m1. rbind (handle_checksum (unat (data_off m) + prepend + IP_SIZE) k m1)
           (\<lambda>m2. rbind (dpdk_send rte p (mbuf_set p (m\<lparr>buf_addr := m2\<rparr>) s1)) (\<lambda>s2. Inr (p, s2)))))))"

text \<open>
  The request for the list of lost chunks takes the checksum of the packet information. The
  other control packets take it of what \<open>sizeof(buffer)\<close> says, which is the size of a
  pointer here.
\<close>

definition dpdk_lost_request :: "'z rte \<Rightarrow> route \<Rightarrow> u16 \<Rightarrow> 'z dpdk_scheme \<Rightarrow> (ptr \<times> 'z dpdk_scheme) res" where
  "dpdk_lost_request rte r packet_id s =
     dpdk_internal_packet rte (construct_ip_header (rt_globals r) (rt_dest r) 44 packet_id)
       (construct_packet_info (rt_globals r) 0 SEND_LOST_PACKETS_REQUEST 1 0 (rt_ports r)) (rt_net r) (rt_eth r) [] INFO_SIZE s"

definition dpdk_control_packet ::
  "'z rte \<Rightarrow> ip_header \<Rightarrow> packet_info \<Rightarrow> network_data \<Rightarrow> ether_header \<Rightarrow> u8 list \<Rightarrow> 'z dpdk_scheme \<Rightarrow> (ptr \<times> 'z dpdk_scheme) res" where
  "dpdk_control_packet rte ip pi nd eh payload s =
     dpdk_internal_packet rte ip pi nd eh payload (unat (8 - ucast (prepend_size nd) - 20 :: u32)) s"

section \<open>Control packets\<close>

lemma dpdk_construction_ok:
  assumes rte: "rte_ok rte room avail" "0 < avail s" and nd: "addr_type nd = 1" "prepend_size nd = 14" "eth_ok eh" and n: "58 + k \<le> room" "room < 2 ^ 16"
  obtains p m s1 pre old rest where "dpdk_packet_construction rte ip pi nd eh (of_nat (58 + k)) s = Inr (p, s1)" and "mbuf_at s p = None" and "mbuf_at s1 = (mbuf_at s)(p \<mapsto> m)"
    and "buf_addr m = pre @ frame (eth_bytes eh) ip pi old @ rest" and "length pre = unat (data_off m)" and "length old = k" and "unat (data_len m) = 58 + k" and "mbuf_room room m"
    and "avail s = Suc (avail s1)" and "tx_frames s1 = tx_frames s" and "d_heap s1 = d_heap s"
proof -
  obtain p m s1 where a: "rte_pktmbuf_alloc rte s = (Some p, s1)" "mbuf_at s p = None" "mbuf_fresh room m" "mbuf_at s1 = (mbuf_at s)(p \<mapsto> m)" "d_heap s1 = d_heap s" "avail s = Suc (avail s1)"
    using rte_alloc [OF rte] by metis
  have tx: "tx_frames s1 = tx_frames s" using rte(1) a(1) unfolding rte_ok_def rte_quiet_ok_def by (metis snd_conv)
  let ?n = "of_nat (58 + k) :: u16" let ?o = "unat (data_off m)" let ?b = "buf_addr m"
  have un: "unat ?n = 58 + k" using n by (subst unat_of_nat) simp
  let ?m1 = "m\<lparr>data_len := ?n, pkt_len := ucast ?n\<rparr>"
  have ap: "rte_pktmbuf_append rte p ?n s1 = mbuf_set p ?m1 s1"
    using rte_append [OF rte(1), of s1 p m ?n] a(3,4) un n(1) by (simp add: mbuf_fresh_def)
  have lb: "length ?b = ?o + room" using a(3) by (simp add: mbuf_fresh_def mbuf_room_def)
  have sp: "?b = take ?o ?b @ take 58 (drop ?o ?b) @ take k (drop (?o + 58) ?b) @ drop k (drop (?o + 58) ?b)"
    by (metis append_take_drop_id drop_drop add.commute)
  let ?old = "take k (drop (?o + 58) ?b)" let ?rest = "drop k (drop (?o + 58) ?b)" let ?f = "take ?o ?b @ frame (eth_bytes eh) ip pi ?old @ ?rest"
  have hdr: "memcpy_at ?o (eth_bytes eh @ ip_bytes ip @ info_bytes pi) ?b = Inr ?f"
    using memcpy_headers [of ?o "take ?o ?b" "take 58 (drop ?o ?b)" "eth_bytes eh" ip pi ?old ?rest] lb n(1) nd(3) sp by simp
  let ?m = "m\<lparr>buf_addr := ?f, data_len := ?n, pkt_len := ucast ?n\<rparr>"
  have con: "dpdk_packet_construction rte ip pi nd eh ?n s = Inr (p, mbuf_set p ?m (mbuf_set p ?m1 s1))"
    using a(1) ap hdr nd(1) by (simp add: dpdk_packet_construction_def Let_def mbuf_get_def mbuf_set_def)
  have at: "mbuf_at (mbuf_set p ?m (mbuf_set p ?m1 s1)) = (mbuf_at s)(p \<mapsto> ?m)" "d_heap (mbuf_set p ?m (mbuf_set p ?m1 s1)) = d_heap s"
    "tx_frames (mbuf_set p ?m (mbuf_set p ?m1 s1)) = tx_frames s" using a(4,5) tx by (simp_all add: mbuf_set_def)
  have "avail (mbuf_set p ?m1 s1) = avail s1" by (rule rte_avail(2) [OF rte(1)]) (use a(4) in simp)
  moreover have "avail (mbuf_set p ?m (mbuf_set p ?m1 s1)) = avail (mbuf_set p ?m1 s1)" by (rule rte_avail(2) [OF rte(1)]) (simp add: mbuf_set_def)
  ultimately have av: "avail s = Suc (avail (mbuf_set p ?m (mbuf_set p ?m1 s1)))" using a(6) by simp
  show ?thesis by (rule that [OF con a(2) at(1), of "take ?o ?b" ?old ?rest]) (use lb n(1) un nd(3) at av in \<open>simp_all add: mbuf_room_def\<close>)
qed


lemma memcpy_payload:
  assumes "length pre = b" and "length link = 14" and "length old = length payload"
  shows "memcpy_at (b + unat (14 :: u8) + PACKET_HEADER_SIZE) payload (pre @ frame link ip pi old @ rest) = Inr (pre @ frame link ip pi payload @ rest)"
  using memcpy_at_middle [of payload old "58 + b" "pre @ link @ ip_bytes ip @ info_bytes pi" rest] assms by (simp add: frame_def)

lemma dpdk_internal_ok:
  assumes rte: "rte_ok rte room avail" "1 < avail s" "tx_takes rte" and nd: "addr_type nd = 1" "prepend_size nd = 14" "eth_ok eh" and n: "58 + length payload \<le> room" "room < 2 ^ 16"
    and k: "k = INFO_SIZE + length payload"
  shows "\<exists>p s'. dpdk_internal_packet rte ip pi nd eh payload k s = Inr (p, s') \<and> mbuf_at s p = None \<and> (\<exists>m. mbuf_at s' = (mbuf_at s)(p \<mapsto> m)) \<and> d_heap s' = d_heap s \<and>
    tx_frames s' = tx_frames s @ [frame (eth_bytes eh) ip (sealed pi payload) payload]"
proof -
  have av: "0 < avail s" using rte(2) by simp
  obtain p m s1 pre old rest where c: "dpdk_packet_construction rte ip pi nd eh (of_nat (58 + length payload)) s = Inr (p, s1)" "mbuf_at s p = None" "mbuf_at s1 = (mbuf_at s)(p \<mapsto> m)"
      "buf_addr m = pre @ frame (eth_bytes eh) ip pi old @ rest" "length pre = unat (data_off m)" "length old = length payload" "unat (data_len m) = 58 + length payload" "mbuf_room room m"
      "avail s = Suc (avail s1)" "tx_frames s1 = tx_frames s" "d_heap s1 = d_heap s"
    by (rule dpdk_construction_ok [OF rte(1) av nd n])
  have ll: "length (eth_bytes eh) = 14" using nd(3) by simp
  let ?b = "unat (data_off m)" let ?fr = "frame (eth_bytes eh) ip pi payload" let ?fs = "frame (eth_bytes eh) ip (sealed pi payload) payload"
  have m1: "memcpy_at (?b + unat (14 :: u8) + PACKET_HEADER_SIZE) payload (buf_addr m) = Inr (pre @ ?fr @ rest)"
    unfolding c(4) by (rule memcpy_payload [OF c(5) ll c(6)])
  have m2: "handle_checksum (?b + unat (14 :: u8) + IP_SIZE) k (pre @ ?fr @ rest) = Inr (pre @ ?fs @ rest)"
    using handle_checksum_frame [OF ll, of ?b pre k payload ip pi rest] c(5) k by simp
  let ?m = "m\<lparr>buf_addr := pre @ ?fs @ rest\<rparr>"
  have mp: "mbuf_at s1 p = Some m" "0 < avail s1" using c(3,9) rte(2) by simp_all
  obtain s2 where s2: "dpdk_send rte p (mbuf_set p ?m s1) = Inr s2" "mbuf_at s2 = (mbuf_at s1)(p \<mapsto> ?m)" "d_heap s2 = d_heap s1" "avail s1 \<le> Suc (avail s2)"
      "tx_frames s2 = tx_frames s1 @ [mbuf_bytes ?m] \<or> \<not> tx_takes rte \<and> tx_frames s2 = tx_frames s1" by (rule send_mbuf [OF rte(1) mp(2,1)])
  have "mbuf_bytes ?m = ?fs" using c(5,7) ll by (simp add: mbuf_bytes_def seg_skip)
  moreover have sz: "unat (14 :: u8) + PACKET_HEADER_SIZE + length payload = 58 + length payload" by simp
  have "dpdk_internal_packet rte ip pi nd eh payload k s = Inr (p, s2)"
    unfolding dpdk_internal_packet_def Let_def nd(2) sz c(1) rbind_Inr prod.case mbuf_get_def mp(1) option.case m1 m2 s2(1) by (rule refl)
  ultimately show ?thesis using c(2,3,10,11) s2(2,3,5) rte(3) by (intro exI [of _ p] exI [of _ s2]) auto
qed

lemma dpdk_control_stops:
  assumes rte: "rte_ok rte room avail" "0 < avail s" and nd: "addr_type nd = 1" "prepend_size nd = 14" "eth_ok eh" and n: "58 + length payload \<le> room" "room < 2 ^ 16"
  shows "dpdk_control_packet rte ip pi nd eh payload s = Inl Out_Of_Bounds"
proof -
  obtain p m s1 pre old rest where c: "dpdk_packet_construction rte ip pi nd eh (of_nat (58 + length payload)) s = Inr (p, s1)" "mbuf_at s p = None" "mbuf_at s1 = (mbuf_at s)(p \<mapsto> m)"
      "buf_addr m = pre @ frame (eth_bytes eh) ip pi old @ rest" "length pre = unat (data_off m)" "length old = length payload" "unat (data_len m) = 58 + length payload" "mbuf_room room m"
      "avail s = Suc (avail s1)" "tx_frames s1 = tx_frames s" "d_heap s1 = d_heap s"
    by (rule dpdk_construction_ok [OF rte nd n])
  have ll: "length (eth_bytes eh) = 14" using nd(3) by simp
  let ?b = "unat (data_off m)" let ?fr = "frame (eth_bytes eh) ip pi payload"
  have m1: "memcpy_at (?b + unat (14 :: u8) + PACKET_HEADER_SIZE) payload (buf_addr m) = Inr (pre @ ?fr @ rest)"
    unfolding c(4) by (rule memcpy_payload [OF c(5) ll c(6)])
  have "length (pre @ ?fr @ rest) = ?b + room" using c(4,6,8) ll by (simp add: mbuf_room_def)
  moreover have "?b < 2 ^ 16" using unsigned_less [of "data_off m", where ?'a = nat] by simp
  ultimately have m2: "handle_checksum (?b + unat (14 :: u8) + IP_SIZE) (unat (8 - ucast (14 :: u8) - 20 :: u32)) (pre @ ?fr @ rest) = Inl Out_Of_Bounds"
    using n(2) by (simp add: handle_checksum_def read_at_def)
  have mp: "mbuf_at s1 p = Some m" using c(3) by simp
  have sz: "unat (14 :: u8) + PACKET_HEADER_SIZE + length payload = 58 + length payload" by simp
  show ?thesis
    unfolding dpdk_control_packet_def dpdk_internal_packet_def Let_def nd(2) sz c(1) rbind_Inr prod.case mbuf_get_def mp(1) option.case m1 m2 by simp
qed


section \<open>Properties\<close>

text \<open>
  Sending over libpcap waits out a library without room: when it had none for the first
  \<open>n\<close> attempts and takes the next, the loop returns, and the frame has been injected once.
\<close>

theorem pcap_send_once:
  assumes "\<And>w ret w1. pcap_inject lib p data w = (ret, w1) \<Longrightarrow> out w1 = (if ret = -1 then out w else out w @ [data])"
    and "\<forall>k < n. pcap_answer lib p data k w = -2" and "pcap_answer lib p data n w = 0"
  shows "\<exists>w'. pcap_send_packet lib p data w = Some w' \<and> out w' = out w @ [data]"
proof -
  have step: "out (snd (swiftnet_pcap_send lib p data v)) = (if fst (swiftnet_pcap_send lib p data v) = 0 then out v @ [data] else out v)" for v
    using assms(1) [of v] by (auto simp: swiftnet_pcap_send_def split: prod.splits)
  have "out (pcap_after lib p data k w) = out w" if "k \<le> n" for k using that assms(2) step
    by (induction k) (simp_all add: pcap_answer_def pcap_after_def)
  then have "out (pcap_after lib p data (Suc n) w) = out w @ [data]" using step [of "pcap_after lib p data n w"] assms(3) by (simp add: pcap_answer_def pcap_after_def)
  then show ?thesis using pcap_send_packet_after [OF assms(2)] assms(3) by simp
qed

text \<open>A library that is busy twice; its state is the attempts left and the frames taken.\<close>

definition busy_lib :: "(nat \<times> u8 list list) pcap_lib" where
  "busy_lib = \<lparr>pcap_open_live = (\<lambda>i w. (Some 1, w)), pcap_compile = (\<lambda>p f w. (0, w)), pcap_setfilter = (\<lambda>p w. (0, w)), pcap_datalink = (\<lambda>p w. 1),
     pcap_inject = (\<lambda>p d w. if 0 < fst w then (-1, (fst w - 1, snd w)) else (int (length d), (0, snd w @ [d]))), pcap_errno = (\<lambda>w. ENOBUFS)\<rparr>"

theorem pcap_send_once_witness:
  "\<exists>w'. pcap_send_packet busy_lib 1 [7, 8] (2, []) = Some w' \<and> snd w' = [[7, 8]]"
proof -
  have "snd w1 = (if ret = -1 then snd w else snd w @ [[7, 8]])" if "pcap_inject busy_lib 1 [7, 8] w = (ret, w1)" for w ret w1
    using that by (auto simp: busy_lib_def split: if_splits)
  moreover have "pcap_answer busy_lib 1 [7, 8] k (2, []) = -2" if "k < 2" for k
    using that by (auto simp: less_2_cases_iff pcap_answer_def pcap_after_def swiftnet_pcap_send_def busy_lib_def)
  moreover have "pcap_answer busy_lib 1 [7, 8] 2 (2, []) = 0" by (simp add: numeral_2_eq_2 pcap_answer_def pcap_after_def swiftnet_pcap_send_def busy_lib_def)
  ultimately show ?thesis using pcap_send_once [of busy_lib 1 "[7, 8]" snd 2 "(2, [])"] by simp
qed

text \<open>
  The request for the list of lost chunks leaves both backends as the same frame on
  Ethernet. The buffer DPDK builds it in stays taken.
\<close>

theorem dpdk_lost_request_agrees:
  assumes "rte_ok rte room avail" and "1 < avail s" and "tx_takes rte" and "addr_type (rt_net r) = DLT_EN10MB" and "prepend_size (rt_net r) = 14" and "eth_ok (rt_eth r)"
    and "58 \<le> room" and "room < 2 ^ 16"
  shows "\<exists>fr p s'. request_frame r packet_id = Inr fr \<and> dpdk_lost_request rte r packet_id s = Inr (p, s') \<and> tx_frames s' = tx_frames s @ [fr] \<and>
    mbuf_at s p = None \<and> mbuf_at s' p \<noteq> None"
proof -
  have lk: "link_ok (rt_net r) (rt_eth r)" "link_bytes (rt_net r) (rt_eth r) = eth_bytes (rt_eth r)" using assms(4-6) by (simp_all add: link_ok_def link_bytes_def)
  have "58 + length ([] :: u8 list) \<le> room" "INFO_SIZE = INFO_SIZE + length ([] :: u8 list)" using assms(7) by simp_all
  from dpdk_internal_ok [OF assms(1-6) this(1) assms(8) this(2), of "construct_ip_header (rt_globals r) (rt_dest r) 44 packet_id"
      "construct_packet_info (rt_globals r) 0 SEND_LOST_PACKETS_REQUEST 1 0 (rt_ports r)"]
  show ?thesis unfolding dpdk_lost_request_def [symmetric] using request_frame_ok [OF lk(1), of packet_id, unfolded lk(2)] by auto
qed

theorem dpdk_lost_request_agrees_witness:
  "\<exists>fr p s'. request_frame ether_route 9 = Inr fr \<and> dpdk_lost_request (pool_rte 60) ether_route 9 sample_dpdk = Inr (p, s') \<and> tx_frames s' = [fr]"
proof -
  have "tx_frames sample_dpdk = []" by (simp add: sample_dpdk_def)
  then show ?thesis
    using dpdk_lost_request_agrees [OF pool_rte_ok _ pool_takes ether_route_ok(2,1,3), of sample_dpdk 60 9] sample_dpdk_avail by fastforce
qed

text \<open>
  C35. Every control packet whose checksum is taken over \<open>sizeof(buffer)\<close> bytes stops the
  program on DPDK, where \<open>buffer\<close> is a pointer: the length wraps around to nearly
  \<open>2 ^ 32\<close> and the checksum runs past the buffer.
\<close>

theorem dpdk_control_faults:
  assumes "rte_ok rte room avail" and "0 < avail s" and "addr_type nd = 1" and "prepend_size nd = 14" and "eth_ok eh" and "58 + length payload \<le> room" and "room < 2 ^ 16"
  shows "dpdk_control_packet rte ip pi nd eh payload s = Inl Out_Of_Bounds"
  using assms by (rule dpdk_control_stops)

theorem dpdk_control_faults_witness:
  "dpdk_control_packet (pool_rte 60) (construct_ip_header sample_globals 0 44 9) (construct_packet_info sample_globals 0 SUCCESSFULLY_RECEIVED_PACKET 1 0 (rt_ports ether_route))
     sample_net (rt_eth ether_route) [] sample_dpdk = Inl Out_Of_Bounds"
  using ether_route_ok(3) sample_dpdk_avail by (intro dpdk_control_faults [OF pool_rte_ok]) (simp_all add: sample_net_def)

end
