(* ===== verification/Swift_Dpdk_Receive.thy ===== *)
theory Swift_Dpdk_Receive
  imports Swift_Listener Swift_Dpdk_Send
begin

text \<open>
  Receiving over DPDK (\<open>dpdk_packet_handle\<close> in \<open>src/handle_packets.c\<close> and the capture loop of
  \<open>src/internal/networking.h\<close>): a frame lies in a buffer of the framework, which whoever takes
  the frame has to give back.
\<close>

section \<open>Operations\<close>

text \<open>
  The way through \<open>swiftnet_handle_packets\<close> that returns without giving the buffer back: a
  frame that does not say it is IP.
\<close>

definition frame_dropped :: "u8 list \<Rightarrow> conn_cfg \<Rightarrow> conn_state \<Rightarrow> bool" where
  "frame_dropped data c s \<longleftrightarrow> data \<noteq> [] \<and>
     rbind (pool_allocate Packet_buffer_pool (s_env s))
       (\<lambda>(b, e1). rbind (memcpy_at 0 data (buffer_at s b)) (sender_address_of (cf_net c))) = Inr None"

text \<open>
  The same of \<open>handle_client_init\<close>: a client that is closing and a frame of the wrong length
  return at once, every other way leads to the label that gives the buffer back.
\<close>

definition init_returned :: "u8 list \<Rightarrow> client_connection \<Rightarrow> bool" where
  "init_returned data cc \<longleftrightarrow>
     \<not> cc_closing cc \<and> length data = PACKET_HEADER_SIZE + 4 + unat (prepend_size (cc_network_data cc))"

text \<open>Whether the receiver that is found gives the buffer back.\<close>

definition buffer_returned :: "connection_type \<Rightarrow> listener \<Rightarrow> port_info \<Rightarrow> u8 list \<Rightarrow> library \<Rightarrow> bool" where
  "buffer_returned ty li pi data l =
     (case ty of
        CONNECTION_TYPE_CLIENT \<Rightarrow>
          (case hashmap_get (lib_seed l) (le_bytes 2 (destination_port pi)) 2 (client_connections li) of
             Inr (Some p) \<Rightarrow>
               (case client_at l p of
                  None \<Rightarrow> False
                | Some cc \<Rightarrow>
                    if cc_initialized cc then \<not> frame_dropped data (client_cfg l cc) (lend (cc_pool cc) l (cc_state cc))
                    else init_returned data cc)
           | _ \<Rightarrow> False)
      | CONNECTION_TYPE_SERVER \<Rightarrow>
          (case hashmap_get (lib_seed l) (le_bytes 2 (destination_port pi)) 2 (servers li) of
             Inr (Some p) \<Rightarrow>
               (case server_at l p of
                  None \<Rightarrow> False
                | Some sv \<Rightarrow> \<not> frame_dropped data (server_cfg l sv) (lend (sv_pool sv) l (sv_state sv)))
           | _ \<Rightarrow> False))"

definition dpdk_packet_handle :: "'z rte \<Rightarrow> ptr \<Rightarrow> ptr \<Rightarrow> library \<Rightarrow> 'z dpdk_scheme \<Rightarrow> (library \<times> 'z dpdk_scheme) res" where
  "dpdk_packet_handle rte lp p l s =
     rbind (mbuf_get p s)
       (\<lambda>m. case listener_at l lp of
          None \<Rightarrow> Inl Null_Deref
        | Some li \<Rightarrow>
            rbind (read_at (unat (data_off m) + ETH_SIZE + IP_SIZE + 16) 4 (buf_addr m))
              (\<lambda>b. let pi = \<lparr>destination_port = le_word (take 2 b), source_port = le_word (drop 2 b)\<rparr>; data = mbuf_bytes m;
                       done = (\<lambda>ty. if buffer_returned ty li pi data l then rte_pktmbuf_free rte p s else s)
                 in rbind (handle_correct_receiver CONNECTION_TYPE_CLIENT li pi data l)
                      (\<lambda>(found, l1). if found then Inr (l1, done CONNECTION_TYPE_CLIENT)
                         else rbind (handle_correct_receiver CONNECTION_TYPE_SERVER li pi data l1)
                                (\<lambda>(found, l2). Inr (l2, if found then done CONNECTION_TYPE_SERVER else s)))))"

text \<open>The frames of one burst, in order.\<close>

fun dpdk_handle_burst :: "'z rte \<Rightarrow> ptr \<Rightarrow> ptr list \<Rightarrow> library \<Rightarrow> 'z dpdk_scheme \<Rightarrow> (library \<times> 'z dpdk_scheme) res" where
  "dpdk_handle_burst rte lp [] l s = Inr (l, s)"
| "dpdk_handle_burst rte lp (p # ps) l s = rbind (dpdk_packet_handle rte lp p l s) (\<lambda>(l1, s1). dpdk_handle_burst rte lp ps l1 s1)"

section \<open>Routing\<close>

text \<open>The ports of a frame long enough for its headers are the same bytes in the buffer and in the frame.\<close>

lemma ports_in_buffer:
  assumes "mbuf_room room m" and "58 \<le> unat (data_len m)" and "unat (data_len m) \<le> room"
  shows "read_at (unat (data_off m) + ETH_SIZE + IP_SIZE + 16) 4 (buf_addr m) = read_at (ETH_SIZE + IP_SIZE + 16) 4 (mbuf_bytes m)"
proof -
  have "length (buf_addr m) = unat (data_off m) + room" using assms(1) by (simp add: mbuf_room_def)
  then show ?thesis using assms(2,3) by (simp add: read_at_def mbuf_bytes_def seg_def drop_take add.commute)
qed

lemma dpdk_packet_handle_pcap:
  assumes "mbuf_at s p = Some m" and "mbuf_room room m" and "58 \<le> unat (data_len m)" and "unat (data_len m) \<le> room"
    and "listener_at l lp = Some li" and "li_addr_type li = DLT_EN10MB"
  shows "\<exists>s'. dpdk_packet_handle rte lp p l s = rbind (pcap_packet_handle lp (mbuf_bytes m) l) (\<lambda>l'. Inr (l', s')) \<and> (s' = s \<or> s' = rte_pktmbuf_free rte p s)"
proof -
  note rd = ports_in_buffer [OF assms(2-4)]
  show ?thesis
  proof (cases "read_at (ETH_SIZE + IP_SIZE + 16) 4 (mbuf_bytes m)")
    case (Inl e)
    then show ?thesis using assms(1,5,6) rd by (intro exI [of _ s]) (simp add: dpdk_packet_handle_def pcap_packet_handle_def mbuf_get_def packet_prepend_size_def add.assoc)
  next
    case (Inr b)
    let ?pi = "\<lparr>destination_port = le_word (take 2 b), source_port = le_word (drop 2 b)\<rparr>" let ?d = "mbuf_bytes m"
    show ?thesis
    proof (cases "handle_correct_receiver CONNECTION_TYPE_CLIENT li ?pi ?d l")
      case (Inl e)
      then show ?thesis using assms(1,5,6) rd Inr
        by (intro exI [of _ s]) (simp add: dpdk_packet_handle_def pcap_packet_handle_def mbuf_get_def packet_prepend_size_def Let_def)
    next
      case c: (Inr r)
      obtain found l1 where r: "r = (found, l1)" by (cases r)
      show ?thesis
      proof (cases found)
        case True
        then show ?thesis using assms(1,5,6) rd Inr c r
          by (intro exI [of _ "if buffer_returned CONNECTION_TYPE_CLIENT li ?pi ?d l then rte_pktmbuf_free rte p s else s"])
             (simp add: dpdk_packet_handle_def pcap_packet_handle_def mbuf_get_def packet_prepend_size_def Let_def)
      next
        case False
        then show ?thesis using assms(1,5,6) rd Inr c r
          by (cases "handle_correct_receiver CONNECTION_TYPE_SERVER li ?pi ?d l1")
             (auto simp: dpdk_packet_handle_def pcap_packet_handle_def mbuf_get_def packet_prepend_size_def Let_def)
      qed
    qed
  qed
qed

section \<open>Frames for nobody\<close>

text \<open>A frame whose destination port no connection of the listener has.\<close>

definition for_nobody :: "u64 \<Rightarrow> listener \<Rightarrow> mbuf \<Rightarrow> bool" where
  "for_nobody seed li m \<longleftrightarrow>
     (case read_at (unat (data_off m) + ETH_SIZE + IP_SIZE + 16) 4 (buf_addr m) of
        Inl _ \<Rightarrow> False
      | Inr b \<Rightarrow> hashmap_get seed (le_bytes 2 (le_word (take 2 b) :: u16)) 2 (client_connections li) = Inr None \<and>
                 hashmap_get seed (le_bytes 2 (le_word (take 2 b) :: u16)) 2 (servers li) = Inr None)"

lemma dpdk_handle_stray:
  assumes "mbuf_at s p = Some m" and "listener_at l lp = Some li" and "for_nobody (lib_seed l) li m"
  shows "dpdk_packet_handle rte lp p l s = Inr (l, s)"
  using assms
  by (auto simp: dpdk_packet_handle_def mbuf_get_def for_nobody_def handle_correct_receiver_def Let_def split: sum.splits)

text \<open>
  However many such frames a burst brings, all of their buffers stay allocated: neither the
  library nor the framework changes.
\<close>

theorem stray_burst_keeps_buffers:
  assumes "listener_at l lp = Some li" and "\<forall>p \<in> set ps. \<exists>m. mbuf_at s p = Some m \<and> for_nobody (lib_seed l) li m"
  shows "dpdk_handle_burst rte lp ps l s = Inr (l, s)"
  using assms(2) by (induction ps) (auto simp: dpdk_handle_stray [OF _ assms(1)])

text \<open>
  A frame for a server that says it is IP is routed as under pcap, and its buffer is given back.
\<close>

theorem dpdk_server_frame_returned:
  assumes "mbuf_at s p = Some m" and "listener_at l lp = Some li"
    and "read_at (unat (data_off m) + ETH_SIZE + IP_SIZE + 16) 4 (buf_addr m) = Inr b"
    and "hashmap_get (lib_seed l) (le_bytes 2 (le_word (take 2 b) :: u16)) 2 (client_connections li) = Inr None"
    and "hashmap_get (lib_seed l) (le_bytes 2 (le_word (take 2 b) :: u16)) 2 (servers li) = Inr (Some q)"
    and "server_at l q = Some sv" and "\<not> frame_dropped (mbuf_bytes m) (server_cfg l sv) (lend (sv_pool sv) l (sv_state sv))"
  shows "dpdk_packet_handle rte lp p l s =
    rbind (on_server (\<lambda>c. handle_packets c (mbuf_bytes m)) q l) (\<lambda>l'. Inr (l', rte_pktmbuf_free rte p s))"
  using assms
  by (cases "on_server (\<lambda>c. handle_packets c (mbuf_bytes m)) q l")
     (simp_all add: dpdk_packet_handle_def mbuf_get_def handle_correct_receiver_def buffer_returned_def Let_def)

end
